(* ===== verification/Prelude.thy ===== *)
theory Prelude
  imports Main "HOL-Library.Word" "HOL-Library.Multiset"
begin

text \<open>
  What every component of the development shares: the machine integers of the code, the result of
  running a piece of Rust (a value, a panic, undefined behaviour; a loop that never ends is the
  value \<open>None\<close> of an enclosing option), the array accesses of the standard library, and the word
  and list lemmas the component proofs rest on.
\<close>

unbundle bit_operations_syntax

section \<open>Machine integers\<close>

text \<open>
  The development is for a 64-bit target. \<open>usize\<close> and \<open>isize\<close> are the same 64 bits; an \<open>isize\<close>
  is read with \<open>sint\<close>. Arithmetic is that of a release build: it wraps.
\<close>

type_synonym usize = "64 word"
type_synonym isize = "64 word"

section \<open>Running code\<close>

text \<open>
  \<open>Ret\<close> is a value, \<open>Panic\<close> a Rust panic (a failed \<open>assert!\<close>, an \<open>unwrap\<close> of \<open>None\<close>, an index out of
  range), \<open>UB\<close> undefined behaviour (an unchecked index out of range, a read of memory that holds no
  initialised value, a pointer to freed memory).
\<close>

datatype 'a exec = Ret 'a | Panic | UB

fun bind_exec :: "'a exec \<Rightarrow> ('a \<Rightarrow> 'b exec) \<Rightarrow> 'b exec" where
  "bind_exec (Ret a) f = f a"
| "bind_exec Panic f = Panic"
| "bind_exec UB f = UB"

text \<open>A run is an \<open>exec\<close>, or \<open>None\<close> when the code loops forever.\<close>

type_synonym 'a run = "'a exec option"

abbreviation ret :: "'a \<Rightarrow> 'a run" where
  "ret a \<equiv> Some (Ret a)"

definition bind_run :: "'a run \<Rightarrow> ('a \<Rightarrow> 'b run) \<Rightarrow> 'b run" where
  "bind_run m f =
     Option.bind m (\<lambda>e. case e of Ret a \<Rightarrow> f a | Panic \<Rightarrow> Some Panic | UB \<Rightarrow> Some UB)"

lemma bind_run_simps [simp]:
  "bind_run (ret a) f = f a"
  "bind_run (Some Panic) f = Some Panic"
  "bind_run (Some UB) f = Some UB"
  "bind_run None f = None"
  by (simp_all add: bind_run_def)

lemma bind_run_mono [partial_function_mono]:
  assumes "mono_option B" and "\<And>y. mono_option (\<lambda>f. C y f)"
  shows "mono_option (\<lambda>f. bind_run (B f) (\<lambda>y. C y f))"
  unfolding bind_run_def
proof (rule bind_mono [OF assms(1)])
  fix y
  show "mono_option (\<lambda>f. case y of Ret a \<Rightarrow> C a f | Panic \<Rightarrow> Some Panic | UB \<Rightarrow> Some UB)"
    by (cases y) (simp_all add: assms(2) option.const_mono)
qed

lemma bind_run_ret_iff:
  "bind_run m f = ret b \<longleftrightarrow> (\<exists>a. m = ret a \<and> f a = ret b)"
  by (cases m) (auto simp: bind_run_def split: exec.splits)

text \<open>A run of a stateful operation returns, and its result is \<open>a\<close>: a test one can evaluate.\<close>

definition run_gives :: "('a \<times> 'b) run \<Rightarrow> 'a \<Rightarrow> bool" where
  "run_gives m a = (case m of Some (Ret p) \<Rightarrow> fst p = a | _ \<Rightarrow> False)"

lemma run_gives_iff: "run_gives m a \<longleftrightarrow> (\<exists>b. m = ret (a, b))"
  by (auto simp: run_gives_def split: option.splits exec.splits)

section \<open>Residues and words\<close>

lemma mod_eq_gap: "a mod m = b mod m \<Longrightarrow> a < b \<Longrightarrow> a + m \<le> (b :: nat)"
  by (metis add_le_cancel_left le_add_diff_inverse less_imp_le_nat mod_eq_dvd_iff_nat nat_dvd_not_less
      not_le zero_less_diff)

lemma mod_eq_div_less:
  assumes "a mod m = b mod m" "a < b"
  shows "a div m < b div (m :: nat)"
proof -
  have "a div m * m + a mod m < b div m * m + b mod m"
    using assms(2) by (simp only: div_mult_mod_eq)
  then have "a div m * m < b div m * m"
    unfolding assms(1) by (rule add_less_imp_less_right)
  then show ?thesis
    by (rule mult_less_cancel2 [THEN iffD1, THEN conjunct2])
qed

lemma unat_plus_one: "unat (w :: usize) < 2 ^ 63 \<Longrightarrow> unat (w + 1) = Suc (unat w)"
  by (simp add: unat_word_ariths)

lemma mod_hits:
  assumes "j < (m :: nat)"
  shows "\<exists>d<m. (t + d) mod m = j"
proof (cases "t mod m \<le> j")
  case True
  have "(t + (j - t mod m)) mod m = (t mod m + (j - t mod m)) mod m"
    by (simp add: mod_simps)
  with True assms show ?thesis
    by (intro exI [of _ "j - t mod m"]) simp
next
  case False
  have "(t + (m - t mod m + j)) mod m = (t mod m + (m - t mod m + j)) mod m"
    by (simp add: mod_simps)
  also have "t mod m + (m - t mod m + j) = m + j"
    using assms mod_less_divisor [of m t] by linarith
  finally show ?thesis
    using assms False by (intro exI [of _ "m - t mod m + j"]) auto
qed

text \<open>A sum over the threads when one of them moves.\<close>

lemma sum_fun_upd:
  fixes f :: "'p \<Rightarrow> 'b::comm_monoid_add"
  assumes "t < (m :: nat)"
  shows "(\<Sum>u<m. f ((g(t := p)) u)) + f (g t) = (\<Sum>u<m. f (g u)) + f p"
proof -
  have split: "(\<Sum>u<m. h u) = h t + (\<Sum>u\<in>{..<m} - {t}. h u)" for h :: "nat \<Rightarrow> 'b"
    using assms by (intro sum.remove) auto
  have "(\<Sum>u\<in>{..<m} - {t}. f ((g(t := p)) u)) = (\<Sum>u\<in>{..<m} - {t}. f (g u))"
    by (intro sum.cong) auto
  then show ?thesis
    using split [of "\<lambda>u. f ((g(t := p)) u)"] split [of "\<lambda>u. f (g u)"] by (simp add: ac_simps)
qed

end
