(* ===== verification/ScqArith.thy ===== *)
theory ScqArith
  imports Prelude
begin

text \<open>
  The integer helpers of \<open>src/scq.rs\<close>: powers of two, the ticket arithmetic of a ring (the position
  a ticket maps to, the cycle it belongs to), the signed comparison and the order of a length.
\<close>

section \<open>Definitions\<close>

text \<open>A shift by the order; a release build masks the shift amount to 6 bits.\<close>

definition lfring_pow2 :: "usize \<Rightarrow> usize" where
  "lfring_pow2 order = push_bit (unat order mod 64) 1"

definition lfring_threshold3 :: "usize \<Rightarrow> usize \<Rightarrow> usize" where
  "lfring_threshold3 half n = half + n - 1"

definition modup :: "usize \<Rightarrow> usize \<Rightarrow> usize" where
  "modup value n = (value OR (push_bit 1 n - 1))"

definition lfring_map :: "usize \<Rightarrow> usize \<Rightarrow> usize" where
  "lfring_map idx n = (idx AND (n - 1))"

text \<open>\<open>core::cmp::Ordering\<close> and the tests the code applies to it.\<close>

datatype ordering = Less | Equal | Greater

fun is_lt :: "ordering \<Rightarrow> bool" where
  "is_lt Less = True" | "is_lt _ = False"

fun is_le :: "ordering \<Rightarrow> bool" where
  "is_le Greater = False" | "is_le _ = True"

fun is_ge :: "ordering \<Rightarrow> bool" where
  "is_ge Less = False" | "is_ge _ = True"

definition isize_cmp :: "isize \<Rightarrow> isize \<Rightarrow> ordering" where
  "isize_cmp a b = (if sint a < sint b then Less else if sint a = sint b then Equal else Greater)"

definition lfring_signed_cmp :: "usize \<Rightarrow> usize \<Rightarrow> ordering" where
  "lfring_signed_cmp a b = isize_cmp (a - b) 0"

text \<open>\<open>usize::checked_ilog2\<close> of the standard library.\<close>

fun ilog2 :: "nat \<Rightarrow> nat" where
  "ilog2 n = (if n < 2 then 0 else Suc (ilog2 (n div 2)))"

declare ilog2.simps [simp del]

definition checked_ilog2 :: "usize \<Rightarrow> usize option" where
  "checked_ilog2 x = (if x = 0 then None else Some (of_nat (ilog2 (unat x))))"

definition determine_order :: "usize \<Rightarrow> usize exec" where
  "determine_order len =
     (if \<not> (len mod 2 = 0 \<or> len = 1) then Panic
      else case checked_ilog2 len of None \<Rightarrow> Panic | Some value \<Rightarrow> Ret value)"

definition determine_order_const :: "usize \<Rightarrow> usize exec" where
  "determine_order_const len =
     (if \<not> (len mod 2 = 0 \<or> len = 1) then Panic
      else case checked_ilog2 len of None \<Rightarrow> Panic | Some value \<Rightarrow> Ret (value - 1))"

section \<open>Powers of two and masks\<close>

lemma two_power_minus_one: "(2 :: usize) ^ k - 1 = mask k"
  by (simp add: mask_eq_exp_minus_1)

lemma unat_two_power:
  assumes "k < 64"
  shows "unat ((2 :: usize) ^ k) = 2 ^ k"
proof -
  have "(2 :: nat) ^ k < 2 ^ 64"
    using assms by (intro power_strict_increasing) auto
  then show ?thesis
    using unsigned_push_bit_eq [of k "1 :: usize", where ?'a = nat]
    by (simp add: take_bit_eq_mod)
qed

lemma unat_mask:
  assumes "j \<le> 64"
  shows "unat (mask j :: usize) = mask j"
proof -
  have "unat (take_bit j (- 1) :: usize) = take_bit j (unat (- 1 :: usize))"
    by (rule unsigned_take_bit_eq)
  with assms show ?thesis
    by (simp only: unsigned_minus_1_eq_mask take_bit_of_mask take_bit_minus_one_eq_mask) (simp add: min_def)
qed

lemma lfring_pow2_eq: "unat order < 64 \<Longrightarrow> lfring_pow2 order = 2 ^ unat order"
  by (simp add: lfring_pow2_def)

lemma modup_pow2: "modup v (2 ^ k) = (v OR mask (Suc k))"
  by (simp add: modup_def mask_eq_exp_minus_1 ac_simps)

lemma lfring_map_pow2: "lfring_map v (2 ^ k) = take_bit k v"
  by (simp add: lfring_map_def two_power_minus_one take_bit_eq_mask)

lemma unat_lfring_map: "unat (lfring_map v (2 ^ k)) = unat v mod 2 ^ k"
  unfolding lfring_map_pow2 unsigned_take_bit_eq by (simp add: take_bit_eq_mod)

section \<open>Tickets, cycles and entries\<close>

text \<open>
  A ticket is a value of \<open>head\<close> or \<open>tail\<close>. In a ring of \<open>2 ^ k\<close> slots the ticket \<open>t\<close> belongs to the
  slot \<open>t mod 2 ^ k\<close> and to the cycle \<open>t div 2 ^ k\<close>. \<open>cycle_of k t\<close> is the word the code computes for
  that cycle, \<open>entry_of k t x\<close> the entry an enqueuer of the index \<open>x\<close> writes with that ticket.
\<close>

definition cycle_of :: "nat \<Rightarrow> nat \<Rightarrow> usize" where
  "cycle_of k t = modup (push_bit 1 (of_nat t)) (2 ^ k)"

definition entry_of :: "nat \<Rightarrow> nat \<Rightarrow> usize \<Rightarrow> usize" where
  "entry_of k t x = (cycle_of k t XOR (x XOR (2 ^ k - 1)))"

lemma or_mask_eq_nat: "(m :: nat) OR mask j = (m div 2 ^ j) * 2 ^ j + (2 ^ j - 1)"
proof -
  have "m OR mask j = push_bit j (drop_bit j m) OR mask j"
    by (rule bit_eqI) (auto simp: bit_simps)
  also have "\<dots> = push_bit j (drop_bit j m) + mask j"
    by (rule disjunctive_add [symmetric]) (auto simp: bit_simps)
  finally show ?thesis
    by (simp add: push_bit_eq_mult drop_bit_eq_div mask_eq_exp_minus_1)
qed

lemma unat_cycle_of:
  assumes "2 * t < 2 ^ 64" "k < 63"
  shows "unat (cycle_of k t) = (t div 2 ^ k) * 2 ^ Suc k + (2 ^ Suc k - 1)"
proof -
  have t: "unat (push_bit 1 (of_nat t :: usize)) = 2 * t"
    unfolding unsigned_push_bit_eq using assms(1)
    by (simp add: push_bit_eq_mult unsigned_of_nat take_bit_eq_mod)
  have m: "unat (mask (Suc k) :: usize) = mask (Suc k)"
    using assms(2) by (intro unat_mask) simp
  have "unat (cycle_of k t) = 2 * t OR mask (Suc k)"
    by (simp only: cycle_of_def modup_pow2 unsigned_or_eq t m)
  also have "\<dots> = (2 * t div 2 ^ Suc k) * 2 ^ Suc k + (2 ^ Suc k - 1)"
    by (rule or_mask_eq_nat)
  finally show ?thesis by simp
qed

lemma bit_cycle_of_low: "i \<le> k \<Longrightarrow> k < 63 \<Longrightarrow> bit (cycle_of k t) i"
  by (simp add: cycle_of_def modup_pow2 bit_simps)

lemma cycle_of_or_mask: "cycle_of k t OR mask (Suc k) = cycle_of k t"
  by (simp add: cycle_of_def modup_pow2 or.assoc)

lemma bit_entry_of:
  assumes "take_bit k x = x" "k < 63"
  shows "bit (entry_of k t x) i \<longleftrightarrow>
           (if i < k then bit x i else bit (cycle_of k t) i)"
proof -
  have x: "bit x i \<Longrightarrow> i < k" for i
    using assms(1) by (metis bit_take_bit_iff)
  show ?thesis
    using assms(2) x bit_cycle_of_low [of i k t]
    by (auto simp: entry_of_def two_power_minus_one bit_simps)
qed

lemma modup_entry_of:
  assumes "take_bit k x = x" "k < 63"
  shows "modup (entry_of k t x) (2 ^ k) = cycle_of k t"
  unfolding modup_pow2
  by (rule bit_eqI) (use bit_cycle_of_low [of _ k t] assms in \<open>auto simp: bit_entry_of bit_simps\<close>)

lemma modup_cycle_of: "modup (cycle_of k t) (2 ^ k) = cycle_of k t"
  by (simp add: modup_pow2 cycle_of_or_mask)

lemma modup_minus_one: "modup (-1) (2 ^ k) = -1"
  by (simp add: modup_pow2)

text \<open>The index comes back out of the entry, and \<open>fetch_or\<close> of the mask leaves the bare cycle.\<close>

lemma entry_of_and_mask:
  assumes "take_bit k x = x" "k < 63"
  shows "entry_of k t x AND (2 ^ k - 1) = x"
  unfolding two_power_minus_one
proof (rule bit_eqI)
  fix i
  have "bit x i \<Longrightarrow> i < k"
    using assms(1) by (metis bit_take_bit_iff)
  then show "bit (entry_of k t x AND mask k) i \<longleftrightarrow> bit x i"
    using assms by (auto simp: bit_entry_of bit_simps)
qed

lemma entry_of_or_mask:
  assumes "take_bit k x = x" "k < 63"
  shows "entry_of k t x OR (2 ^ k - 1) = cycle_of k t"
  unfolding two_power_minus_one
  by (rule bit_eqI) (use bit_cycle_of_low [of _ k t] assms in \<open>auto simp: bit_entry_of bit_simps\<close>)

lemma cycle_of_or_n: "k < 63 \<Longrightarrow> cycle_of k t OR 2 ^ k = cycle_of k t"
  by (rule bit_eqI) (use bit_cycle_of_low [of k k t] in \<open>auto simp: bit_simps\<close>)

lemma cycle_of_not_and_n: "k < 63 \<Longrightarrow> NOT (cycle_of k t) AND 2 ^ k = 0"
  by (rule bit_eqI) (use bit_cycle_of_low [of k k t] in \<open>auto simp: bit_simps\<close>)

lemma unat_cycle_of62:
  assumes "t < 2 ^ 62" "k \<le> 62"
  shows "unat (cycle_of k t) = (t div 2 ^ k) * 2 ^ Suc k + (2 ^ Suc k - 1)"
  by (rule unat_cycle_of) (use assms in auto)

text \<open>Two tickets have the same cycle word exactly when they belong to the same cycle.\<close>

lemma cycle_of_eq_iff:
  assumes "t < 2 ^ 62" "u < 2 ^ 62" "k \<le> 62"
  shows "cycle_of k t = cycle_of k u \<longleftrightarrow> t div 2 ^ k = u div 2 ^ k"
proof -
  note eqs = unat_cycle_of62 [OF assms(1,3)] unat_cycle_of62 [OF assms(2,3)]
  have "cycle_of k t = cycle_of k u \<longleftrightarrow> unat (cycle_of k t) = unat (cycle_of k u)"
    by (simp add: word_unat_eq_iff)
  also have "\<dots> \<longleftrightarrow> (t div 2 ^ k) * 2 ^ Suc k = (u div 2 ^ k) * 2 ^ Suc k"
    unfolding eqs add_right_cancel ..
  also have "\<dots> \<longleftrightarrow> t div 2 ^ k = u div 2 ^ k"
    by simp
  finally show ?thesis .
qed

section \<open>Signed comparison\<close>

lemma int_unat_less: "unat (a :: usize) < 2 ^ 63 \<Longrightarrow> int (unat a) < 2 ^ 63"
proof -
  assume "unat a < 2 ^ 63"
  then have "int (unat a) < int (2 ^ 63)"
    by (simp only: of_nat_less_iff)
  also have "int (2 ^ 63) = 2 ^ 63"
    by simp
  finally show ?thesis .
qed

lemma sint_eq_int_unat:
  assumes "unat a < 2 ^ 63"
  shows "sint (a :: usize) = int (unat a)"
proof -
  have u: "uint a = int (unat a)"
    by simp
  have "sint a = signed_take_bit 63 (uint a)"
    using sint_uint [of a] by (subst sint_uint) simp
  also have "\<dots> = uint a"
  proof (rule signed_take_bit_int_eq_self)
    show "- (2 ^ 63) \<le> uint a"
      by (rule order_trans [of _ 0]) simp_all
    show "uint a < 2 ^ 63"
      unfolding u by (rule int_unat_less [OF assms])
  qed
  finally show ?thesis
    by (simp only: u)
qed

lemma sint_bounds:
  assumes "unat a < 2 ^ 63"
  shows "0 \<le> sint (a :: usize)" "sint (a :: usize) < 2 ^ 63"
  unfolding sint_eq_int_unat [OF assms] using int_unat_less [OF assms] by linarith+

lemma sint_diff_no_overflow:
  assumes "- (2 ^ 63) \<le> sint a - sint b" "sint a - sint b < 2 ^ 63"
  shows "sint (a - b :: usize) = sint a - sint b"
proof -
  have "sint (a - b) = signed_take_bit 63 (sint a - sint b)"
    by (simp add: sint_word_ariths)
  also have "\<dots> = sint a - sint b"
    using assms by (rule signed_take_bit_int_eq_self)
  finally show ?thesis .
qed

lemma lfring_signed_cmp_eq:
  assumes "- (2 ^ 63) \<le> sint a - sint b" "sint a - sint b < 2 ^ 63"
  shows "lfring_signed_cmp a b = isize_cmp a b"
  using sint_diff_no_overflow [OF assms] by (simp add: lfring_signed_cmp_def isize_cmp_def)

lemma signed_cmp_nat:
  assumes "unat a < 2 ^ 63" "unat b < 2 ^ 63"
  shows "lfring_signed_cmp a b =
           (if unat a < unat b then Less else if unat a = unat b then Equal else Greater)"
proof -
  have "lfring_signed_cmp a b = isize_cmp a b"
    using sint_bounds [OF assms(1)] sint_bounds [OF assms(2)]
    by (intro lfring_signed_cmp_eq; linarith)
  then show ?thesis
    by (simp only: isize_cmp_def sint_eq_int_unat [OF assms(1)] sint_eq_int_unat [OF assms(2)]
        of_nat_less_iff of_nat_eq_iff)
qed

lemma signed_cmp_minus_one:
  assumes "unat b < 2 ^ 63"
  shows "lfring_signed_cmp (-1) b = Less"
proof -
  have "lfring_signed_cmp (-1) b = isize_cmp (-1) b"
    using sint_bounds [OF assms] by (intro lfring_signed_cmp_eq; simp only: sint_n1; linarith)
  then show ?thesis
    using sint_bounds [OF assms] by (simp add: isize_cmp_def)
qed

lemma is_lt_signed_cmp:
  "unat a < 2 ^ 63 \<Longrightarrow> unat b < 2 ^ 63 \<Longrightarrow> is_lt (lfring_signed_cmp a b) \<longleftrightarrow> unat a < unat b"
  by (simp add: signed_cmp_nat)

lemma is_le_signed_cmp:
  "unat a < 2 ^ 63 \<Longrightarrow> unat b < 2 ^ 63 \<Longrightarrow> is_le (lfring_signed_cmp a b) \<longleftrightarrow> unat a \<le> unat b"
  by (simp add: signed_cmp_nat)

lemma is_ge_signed_cmp:
  "unat a < 2 ^ 63 \<Longrightarrow> unat b < 2 ^ 63 \<Longrightarrow> is_ge (lfring_signed_cmp a b) \<longleftrightarrow> unat b \<le> unat a"
  by (simp add: signed_cmp_nat)

lemma unat_cycle_of_bound:
  assumes "t < 2 ^ 62" "k \<le> 62"
  shows "unat (cycle_of k t) < 2 ^ 63"
proof -
  have pow: "(2 :: nat) ^ 62 = 2 ^ (62 - k) * 2 ^ k"
    using assms(2) by (simp flip: power_add)
  then have "t div 2 ^ k < 2 ^ (62 - k)"
    using assms(1) by (simp add: less_mult_imp_div_less)
  then have "(t div 2 ^ k + 1) * 2 ^ k \<le> 2 ^ 62"
    unfolding pow by (intro mult_right_mono) auto
  then have le: "2 * ((t div 2 ^ k + 1) * 2 ^ k) \<le> 2 ^ 63"
    by simp
  have "unat (cycle_of k t) = (t div 2 ^ k) * 2 ^ Suc k + (2 ^ Suc k - 1)"
    using assms by (rule unat_cycle_of62)
  also have "\<dots> < 2 * ((t div 2 ^ k + 1) * 2 ^ k)"
    by (simp add: algebra_simps)
  also note le
  finally show ?thesis .
qed

lemma is_lt_cycle_of:
  assumes "t < 2 ^ 62" "u < 2 ^ 62" "k \<le> 62"
  shows "is_lt (lfring_signed_cmp (cycle_of k u) (cycle_of k t)) \<longleftrightarrow> u div 2 ^ k < t div 2 ^ k"
proof -
  note eqs = unat_cycle_of62 [OF assms(1,3)] unat_cycle_of62 [OF assms(2,3)]
  have "is_lt (lfring_signed_cmp (cycle_of k u) (cycle_of k t))
      \<longleftrightarrow> unat (cycle_of k u) < unat (cycle_of k t)"
    using assms by (intro is_lt_signed_cmp unat_cycle_of_bound)
  also have "\<dots> \<longleftrightarrow> (u div 2 ^ k) * 2 ^ Suc k < (t div 2 ^ k) * 2 ^ Suc k"
    unfolding eqs add_less_cancel_right ..
  also have "\<dots> \<longleftrightarrow> u div 2 ^ k < t div 2 ^ k"
    by simp
  finally show ?thesis .
qed

lemma is_lt_minus_one:
  "t < 2 ^ 62 \<Longrightarrow> k \<le> 62 \<Longrightarrow> is_lt (lfring_signed_cmp (-1) (cycle_of k t))"
  using unat_cycle_of_bound by (simp add: signed_cmp_minus_one)

end
