(* ===== verification/ScqRing.thy ===== *)
theory ScqRing
  imports ScqArith
begin

text \<open>
  The index ring \<open>ScqRing\<close> of \<open>src/scq.rs\<close> with the heap constructors of \<open>src/lfstd.rs\<close>: its record,
  its two initial states, \<open>enqueue\<close>, \<open>dequeue\<close>, \<open>catchup\<close>, \<open>finalize\<close>, \<open>capacity\<close> and the equality
  test. The operations here run alone from call to return; every atomic access is one update of the
  record. \<open>compare_exchange_weak\<close> may fail although the value matches: the ghost field \<open>spurious\<close>
  lists, in order, which of the weak exchanges on this ring do, and nothing is assumed about it.
\<close>

section \<open>The ring\<close>

text \<open>\<open>is_finalized\<close> has the length of the code's constant \<open>MODE\<close>.\<close>

record scq_ring =
  is_finalized :: "bool list"
  head :: usize
  tail :: usize
  threshold :: isize
  array :: "usize list"
  order :: usize
  spurious :: "bool list"

datatype scq_error = IndexLargerThanOrder | QueueFinalized

text \<open>A store into a slice: outside of it it panics.\<close>

definition store_slice :: "'a list \<Rightarrow> usize \<Rightarrow> 'a \<Rightarrow> 'a list exec" where
  "store_slice xs i v = (if unat i < length xs then Ret (xs[unat i := v]) else Panic)"

section \<open>Construction\<close>

record scq_alloc =
  alloc_array :: "usize list"
  alloc_tail :: usize
  alloc_thresh :: isize

text \<open>The two counted loops of \<open>initialize_atomic_array_full\<close>.\<close>

function init_filled :: "usize list \<Rightarrow> usize \<Rightarrow> usize \<Rightarrow> usize \<Rightarrow> usize list exec" where
  "init_filled buffer half n i =
     (if i \<noteq> half
      then bind_exec (store_slice buffer (lfring_map i n) (n + lfring_map i half))
             (\<lambda>buffer'. init_filled buffer' half n (i + 1))
      else Ret buffer)"
  by pat_completeness auto
termination
  by (relation "measure (\<lambda>(buffer, half, n, i). unat (half - i))")
     (auto simp: unat_minus_one diff_diff_eq [symmetric] word_neq_0_conv unat_gt_0)

function init_rest :: "usize list \<Rightarrow> usize \<Rightarrow> usize \<Rightarrow> usize list exec" where
  "init_rest buffer n i =
     (if i \<noteq> n
      then bind_exec (store_slice buffer (lfring_map i n) (-1))
             (\<lambda>buffer'. init_rest buffer' n (i + 1))
      else Ret buffer)"
  by pat_completeness auto
termination
  by (relation "measure (\<lambda>(buffer, n, i). unat (n - i))")
     (auto simp: unat_minus_one diff_diff_eq [symmetric] word_neq_0_conv unat_gt_0)

declare init_filled.simps [simp del] init_rest.simps [simp del]

definition initialize_atomic_array_full :: "usize list \<Rightarrow> usize \<Rightarrow> usize \<Rightarrow> usize list exec" where
  "initialize_atomic_array_full buffer half n =
     bind_exec (init_filled buffer half n 0) (\<lambda>buffer'. init_rest buffer' n half)"

definition create_const_atomic_array_empty :: "usize \<Rightarrow> scq_alloc" where
  "create_const_atomic_array_empty N =
     \<lparr>alloc_array = replicate (unat N) (-1), alloc_tail = 0, alloc_thresh = -1\<rparr>"

definition create_const_atomic_array_full :: "usize \<Rightarrow> scq_alloc exec" where
  "create_const_atomic_array_full N =
     (let arr = replicate (unat N) (-1); n = N; half = drop_bit 1 n
      in bind_exec (initialize_atomic_array_full arr half n)
           (\<lambda>arr'. Ret \<lparr>alloc_array = arr', alloc_tail = half,
                          alloc_thresh = lfring_threshold3 half n\<rparr>))"

definition allocate_standard_atomic_array :: "usize \<Rightarrow> usize list" where
  "allocate_standard_atomic_array n = replicate (unat n) (-1)"

definition allocate_atomic_array_full :: "usize \<Rightarrow> scq_alloc exec" where
  "allocate_atomic_array_full ord =
     (let half = lfring_pow2 ord; n = half * 2; vector = allocate_standard_atomic_array n
      in bind_exec (initialize_atomic_array_full vector half n)
           (\<lambda>vector'. Ret \<lparr>alloc_array = vector', alloc_tail = half,
                             alloc_thresh = lfring_threshold3 half n\<rparr>))"

definition allocate_atomic_array_empty :: "usize \<Rightarrow> scq_alloc" where
  "allocate_atomic_array_empty ord =
     (let n = lfring_pow2 (ord + 1); arr = allocate_standard_atomic_array n
      in \<lparr>alloc_array = arr, alloc_tail = 0, alloc_thresh = -1\<rparr>)"

text \<open>\<open>mode\<close> is the constant \<open>MODE\<close>; the last argument fixes the ghost field.\<close>

definition new_from_sqalloc :: "nat \<Rightarrow> usize \<Rightarrow> scq_alloc \<Rightarrow> bool list \<Rightarrow> scq_ring" where
  "new_from_sqalloc mode ord a w =
     \<lparr>is_finalized = replicate mode False, head = 0, tail = alloc_tail a,
      threshold = alloc_thresh a, array = alloc_array a, order = ord, spurious = w\<rparr>"

definition new_const_ring_empty :: "nat \<Rightarrow> usize \<Rightarrow> bool list \<Rightarrow> scq_ring exec" where
  "new_const_ring_empty mode N w =
     bind_exec (determine_order_const N) (\<lambda>ord.
       Ret (new_from_sqalloc mode ord (create_const_atomic_array_empty N) w))"

definition new_const_ring_full :: "nat \<Rightarrow> usize \<Rightarrow> bool list \<Rightarrow> scq_ring exec" where
  "new_const_ring_full mode N w =
     bind_exec (determine_order_const N) (\<lambda>ord.
       bind_exec (create_const_atomic_array_full N) (\<lambda>a.
         Ret (new_from_sqalloc mode ord a w)))"

definition new_alloc_ring_empty :: "nat \<Rightarrow> usize \<Rightarrow> bool list \<Rightarrow> scq_ring" where
  "new_alloc_ring_empty mode ord w =
     new_from_sqalloc mode ord (allocate_atomic_array_empty ord) w"

definition new_alloc_ring_full :: "nat \<Rightarrow> usize \<Rightarrow> bool list \<Rightarrow> scq_ring exec" where
  "new_alloc_ring_full mode ord w =
     bind_exec (allocate_atomic_array_full ord) (\<lambda>a. Ret (new_from_sqalloc mode ord a w))"

section \<open>Equality, capacity, finalization\<close>

definition ring_eq :: "scq_ring \<Rightarrow> scq_ring \<Rightarrow> bool" where
  "ring_eq self other \<longleftrightarrow>
     (length (is_finalized self) = length (is_finalized other)
       \<and> \<not> (length (is_finalized self) > 0 \<and> is_finalized self ! 0 \<noteq> is_finalized other ! 0))
     \<and> head self = head other
     \<and> tail self = tail other
     \<and> threshold self = threshold other
     \<and> order self = order other
     \<and> list_all (\<lambda>(a, b). a = b) (zip (array self) (array other))"

definition ring_capacity :: "scq_ring \<Rightarrow> usize" where
  "ring_capacity r = push_bit (unat (order r) mod 64) 1"

definition finalize :: "scq_ring \<Rightarrow> scq_ring" where
  "finalize r =
     (if length (is_finalized r) = 1 then r\<lparr>is_finalized := (is_finalized r)[0 := True]\<rparr> else r)"

section \<open>Weak exchanges\<close>

text \<open>The next weak exchange on the ring fails although the value matches.\<close>

definition fails_now :: "scq_ring \<Rightarrow> bool" where
  "fails_now r = (case spurious r of [] \<Rightarrow> False | b # _ \<Rightarrow> b)"

definition used_exchange :: "scq_ring \<Rightarrow> scq_ring" where
  "used_exchange r = r\<lparr>spurious := tl (spurious r)\<rparr>"

text \<open>\<open>compare_exchange_weak\<close> on a slot (in range) and on the tail: success and the new ring.\<close>

definition cas_slot_weak :: "nat \<Rightarrow> usize \<Rightarrow> usize \<Rightarrow> scq_ring \<Rightarrow> bool \<times> scq_ring" where
  "cas_slot_weak i current new r =
     (if array r ! i = current \<and> \<not> fails_now r
      then (True, (used_exchange r)\<lparr>array := (array r)[i := new]\<rparr>)
      else (False, used_exchange r))"

definition cas_tail_weak :: "usize \<Rightarrow> usize \<Rightarrow> scq_ring \<Rightarrow> bool \<times> scq_ring" where
  "cas_tail_weak current new r =
     (if tail r = current \<and> \<not> fails_now r
      then (True, (used_exchange r)\<lparr>tail := new\<rparr>)
      else (False, used_exchange r))"

section \<open>enqueue\<close>

text \<open>The \<open>'retry\<close> loop ends by returning from \<open>enqueue\<close> or by going for the next tail ticket.\<close>

datatype retry_exit = Finished "scq_error + unit" | NextTicket

partial_function (option) enqueue_retry ::
  "usize \<Rightarrow> usize \<Rightarrow> usize \<Rightarrow> usize \<Rightarrow> usize \<Rightarrow> usize \<Rightarrow> scq_ring \<Rightarrow> (retry_exit \<times> scq_ring) run"
where
  "enqueue_retry eidx half n tk tcycle tidx r =
     (if unat tidx < length (array r)
      then
        (let entry = array r ! unat tidx;
             ecycle = modup entry n
         in if is_lt (lfring_signed_cmp ecycle tcycle)
               \<and> (entry = ecycle
                  \<or> (entry = (ecycle XOR n) \<and> is_le (lfring_signed_cmp (head r) tk)))
            then
              (if length (is_finalized r) = 1 \<and> is_finalized r ! 0
               then ret (Finished (Inl QueueFinalized), r)
               else
                 (case cas_slot_weak (unat tidx) entry (tcycle XOR eidx) r of
                    (ok, r1) \<Rightarrow>
                      if \<not> ok then enqueue_retry eidx half n tk tcycle tidx r1
                      else
                        (let thr = lfring_threshold3 half n;
                             r2 = (if threshold r1 \<noteq> thr then r1\<lparr>threshold := thr\<rparr> else r1)
                         in ret (Finished (Inr ()), r2))))
            else ret (NextTicket, r))
      else Some Panic)"

partial_function (option) enqueue_loop ::
  "usize \<Rightarrow> usize \<Rightarrow> usize \<Rightarrow> scq_ring \<Rightarrow> ((scq_error + unit) \<times> scq_ring) run"
where
  "enqueue_loop eidx half n r =
     (let tk = tail r;
          r1 = r\<lparr>tail := tk + 1\<rparr>;
          tcycle = modup (push_bit 1 tk) n;
          tidx = lfring_map tk n
      in bind_run (enqueue_retry eidx half n tk tcycle tidx r1) (\<lambda>p.
           case p of
             (exit, r2) \<Rightarrow>
               (case exit of
                  Finished res \<Rightarrow> ret (res, r2)
                | NextTicket \<Rightarrow> enqueue_loop eidx half n r2)))"

definition ring_enqueue :: "scq_ring \<Rightarrow> usize \<Rightarrow> ((scq_error + unit) \<times> scq_ring) run" where
  "ring_enqueue r eidx =
     (if eidx \<ge> ring_capacity r then ret (Inl IndexLargerThanOrder, r)
      else
        (let half = lfring_pow2 (order r);
             n = push_bit 1 half
         in enqueue_loop (eidx XOR (n - 1)) half n r))"

section \<open>dequeue\<close>

partial_function (option) catchup :: "usize \<Rightarrow> usize \<Rightarrow> scq_ring \<Rightarrow> scq_ring run" where
  "catchup tk hk r =
     (case cas_tail_weak tk hk r of
        (ok, r1) \<Rightarrow>
          if ok then ret r1
          else
            (let hk1 = head r1;
                 tk1 = tail r1
             in if is_ge (lfring_signed_cmp tk1 hk1) then ret r1
                else catchup tk1 hk1 r1))"

text \<open>
  The \<open>'again\<close> loop: both of its back edges (\<open>continue 'again\<close> and a failed exchange) load the slot
  again. It ends with the index of the taken entry or by leaving the slot behind. \<open>attempt\<close> is the
  \<open>i32\<close> the code counts in.
\<close>

datatype scan_exit = Taken usize | Skipped

partial_function (option) dequeue_scan ::
  "usize \<Rightarrow> usize \<Rightarrow> usize \<Rightarrow> 32 word \<Rightarrow> scq_ring \<Rightarrow> (scan_exit \<times> scq_ring) run"
where
  "dequeue_scan hcycle hidx n attempt r =
     (if unat hidx < length (array r)
      then
        (let entry = array r ! unat hidx;
             ecycle = modup entry n
         in if ecycle = hcycle
            then ret (Taken (entry AND (n - 1)),
                      r\<lparr>array := (array r)[unat hidx := (entry OR (n - 1))]\<rparr>)
            else if (entry OR n) \<noteq> ecycle
            then
              (let entry_new = (entry AND NOT n)
               in if entry = entry_new then ret (Skipped, r)
                  else if is_lt (lfring_signed_cmp ecycle hcycle)
                  then (case cas_slot_weak (unat hidx) entry entry_new r of
                          (ok, r1) \<Rightarrow>
                            if ok then ret (Skipped, r1)
                            else dequeue_scan hcycle hidx n attempt r1)
                  else ret (Skipped, r))
            else if sint (attempt + 1) \<le> 10
            then dequeue_scan hcycle hidx n (attempt + 1) r
            else
              (let entry_new = (hcycle XOR (NOT entry AND n))
               in if is_lt (lfring_signed_cmp ecycle hcycle)
                  then (case cas_slot_weak (unat hidx) entry entry_new r of
                          (ok, r1) \<Rightarrow>
                            if ok then ret (Skipped, r1)
                            else dequeue_scan hcycle hidx n (attempt + 1) r1)
                  else ret (Skipped, r)))
      else Some Panic)"

partial_function (option) dequeue_loop :: "usize \<Rightarrow> scq_ring \<Rightarrow> (usize option \<times> scq_ring) run" where
  "dequeue_loop n r =
     (let hk = head r;
          r1 = r\<lparr>head := hk + 1\<rparr>;
          hcycle = modup (push_bit 1 hk) n;
          hidx = lfring_map hk n
      in bind_run (dequeue_scan hcycle hidx n 0 r1) (\<lambda>p.
           case p of
             (exit, r2) \<Rightarrow>
               (case exit of
                  Taken idx \<Rightarrow> ret (Some idx, r2)
                | Skipped \<Rightarrow>
                    (let tk = tail r2
                     in if is_le (lfring_signed_cmp tk (hk + 1))
                        then bind_run (catchup tk (hk + 1) r2) (\<lambda>r3.
                               ret (None, r3\<lparr>threshold := threshold r3 - 1\<rparr>))
                        else
                          (let old = threshold r2;
                               r3 = r2\<lparr>threshold := old - 1\<rparr>
                           in if sint old \<le> 0 then ret (None, r3) else dequeue_loop n r3)))))"

definition ring_dequeue :: "scq_ring \<Rightarrow> (usize option \<times> scq_ring) run" where
  "ring_dequeue r =
     (let n = lfring_pow2 (order r + 1)
      in if sint (threshold r) < 0 then ret (None, r) else dequeue_loop n r)"

text \<open>The equations of the loops are their code equations; a proof unfolds them by hand.\<close>

declare enqueue_retry.simps [code] enqueue_loop.simps [code] catchup.simps [code]
  dequeue_scan.simps [code] dequeue_loop.simps [code]

end
