(* ===== verification/ScqRingSpec.thy ===== *)
theory ScqRingSpec
  imports ScqRing
begin

text \<open>
  What a ring stands for: \<open>ring_rep c r xs\<close> says that the ring \<open>r\<close> is well formed and holds the
  indices \<open>xs\<close>, oldest first, and that no ticket so far is beyond the clock \<open>c\<close>. The lemmas show
  that every operation of the ring acts on \<open>xs\<close> as a FIFO queue, and what each costs in tickets.
\<close>

section \<open>The representation\<close>

definition is_final :: "scq_ring \<Rightarrow> bool" where
  "is_final r \<longleftrightarrow> length (is_finalized r) = 1 \<and> is_finalized r ! 0"

definition ring_half :: "scq_ring \<Rightarrow> nat" where
  "ring_half r = 2 ^ unat (order r)"

text \<open>The array has \<open>2 ^ slot_bits r\<close> slots, twice the capacity.\<close>

definition slot_bits :: "scq_ring \<Rightarrow> nat" where
  "slot_bits r = Suc (unat (order r))"

definition ring_wf :: "scq_ring \<Rightarrow> bool" where
  "ring_wf r \<longleftrightarrow> unat (order r) \<le> 60 \<and> length (array r) = 2 ^ slot_bits r
     \<and> length (is_finalized r) \<le> 1"

lemma ring_frame [simp]:
  "slot_bits (r\<lparr>tail := t\<rparr>) = slot_bits r" "slot_bits (r\<lparr>head := t\<rparr>) = slot_bits r"
  "slot_bits (r\<lparr>array := a\<rparr>) = slot_bits r" "slot_bits (r\<lparr>threshold := t\<rparr>) = slot_bits r"
  "slot_bits (r\<lparr>spurious := w\<rparr>) = slot_bits r" "slot_bits (r\<lparr>is_finalized := f\<rparr>) = slot_bits r"
  "ring_half (r\<lparr>tail := t\<rparr>) = ring_half r" "ring_half (r\<lparr>head := t\<rparr>) = ring_half r"
  "ring_half (r\<lparr>array := a\<rparr>) = ring_half r" "ring_half (r\<lparr>threshold := t\<rparr>) = ring_half r"
  "ring_half (r\<lparr>spurious := w\<rparr>) = ring_half r" "ring_half (r\<lparr>is_finalized := f\<rparr>) = ring_half r"
  "is_final (r\<lparr>tail := t\<rparr>) = is_final r" "is_final (r\<lparr>head := t\<rparr>) = is_final r"
  "is_final (r\<lparr>array := a\<rparr>) = is_final r" "is_final (r\<lparr>threshold := t\<rparr>) = is_final r"
  "is_final (r\<lparr>spurious := w\<rparr>) = is_final r"
  by (simp_all add: slot_bits_def ring_half_def is_final_def)

text \<open>A slot without an entry: never used, or left behind by the dequeuer of an earlier ticket.\<close>

definition free_slot :: "nat \<Rightarrow> nat \<Rightarrow> nat \<Rightarrow> usize \<Rightarrow> bool" where
  "free_slot k h j e \<longleftrightarrow> e = -1 \<or> (\<exists>u<h. u mod 2 ^ k = j \<and> e = cycle_of k u)"

definition slots_rep :: "nat \<Rightarrow> nat \<Rightarrow> usize list \<Rightarrow> usize list \<Rightarrow> bool" where
  "slots_rep k h arr xs \<longleftrightarrow>
     length xs \<le> 2 ^ k
     \<and> (\<forall>i<length xs. arr ! ((h + i) mod 2 ^ k) = entry_of k (h + i) (xs ! i))
     \<and> (\<forall>j<2 ^ k. (\<forall>i<length xs. j \<noteq> (h + i) mod 2 ^ k) \<longrightarrow> free_slot k h j (arr ! j))"

definition ring_rep :: "nat \<Rightarrow> scq_ring \<Rightarrow> usize list \<Rightarrow> bool" where
  "ring_rep c r xs \<longleftrightarrow>
     ring_wf r
     \<and> unat (head r) + length xs \<le> unat (tail r) \<and> unat (tail r) \<le> c \<and> c < 2 ^ 62
     \<and> (\<not> is_final r \<longrightarrow> unat (tail r) = unat (head r) + length xs)
     \<and> slots_rep (slot_bits r) (unat (head r)) (array r) xs
     \<and> (\<forall>x\<in>set xs. unat x < ring_half r)
     \<and> (xs \<noteq> [] \<longrightarrow> 0 \<le> sint (threshold r)) \<and> -1 \<le> sint (threshold r)"

lemma free_slot_mono: "free_slot k h j e \<Longrightarrow> h \<le> h' \<Longrightarrow> free_slot k h' j e"
  by (auto simp: free_slot_def intro: less_le_trans)

lemma free_slot_modup: "free_slot k h j e \<Longrightarrow> modup e (2 ^ k) = e"
  by (auto simp: free_slot_def modup_cycle_of modup_minus_one)

lemma free_slot_lt:
  assumes "free_slot k h (t mod 2 ^ k) e" "h \<le> t" "t < 2 ^ 62" "k \<le> 62"
  shows "is_lt (lfring_signed_cmp e (cycle_of k t))" "e \<noteq> cycle_of k t"
proof -
  show lt: "is_lt (lfring_signed_cmp e (cycle_of k t))"
    using assms(1) unfolding free_slot_def
  proof
    assume "e = -1"
    with assms(3,4) show ?thesis by (simp add: is_lt_minus_one)
  next
    assume "\<exists>u<h. u mod 2 ^ k = t mod 2 ^ k \<and> e = cycle_of k u"
    then obtain u where u: "u < h" "u mod 2 ^ k = t mod 2 ^ k" "e = cycle_of k u"
      by blast
    then have "u div 2 ^ k < t div 2 ^ k"
      using assms(2) by (intro mod_eq_div_less) auto
    with u assms show ?thesis by (simp add: is_lt_cycle_of)
  qed
  show "e \<noteq> cycle_of k t"
  proof
    assume "e = cycle_of k t"
    with lt have "is_lt (lfring_signed_cmp (cycle_of k t) (cycle_of k t))" by simp
    then show False
      using assms(3,4) by (simp add: is_lt_cycle_of)
  qed
qed

lemma free_slot_or_n:
  assumes "free_slot k h j e" "k < 63"
  shows "e OR 2 ^ k = e" "NOT e AND 2 ^ k = 0"
  using assms by (auto simp: free_slot_def cycle_of_or_n cycle_of_not_and_n)

lemma small_index: "unat (x :: usize) < 2 ^ o' \<Longrightarrow> o' \<le> k \<Longrightarrow> take_bit k x = x"
proof -
  assume "unat x < 2 ^ o'" "o' \<le> k"
  then have "unat x < 2 ^ k"
    by (meson less_le_trans one_le_numeral power_increasing)
  then have "take_bit k (unat x) = unat x"
    by (simp add: take_bit_nat_eq_self_iff)
  then show ?thesis
    by (simp add: word_unat_eq_iff unsigned_take_bit_eq)
qed

section \<open>Slots and the list they hold\<close>

lemma slots_rep_append:
  assumes "slots_rep k h arr xs" "length xs < 2 ^ k" "length arr = 2 ^ k"
  shows "slots_rep k h (arr[(h + length xs) mod 2 ^ k := entry_of k (h + length xs) x]) (xs @ [x])"
    and "free_slot k h ((h + length xs) mod 2 ^ k) (arr ! ((h + length xs) mod 2 ^ k))"
proof -
  have ne: "(h + i) mod 2 ^ k \<noteq> (h + length xs) mod 2 ^ k" if "i < length xs" for i
    using mod_eq_gap [of "h + i" "2 ^ k" "h + length xs"] that assms(2) by auto
  then have "\<forall>i<length xs. (h + length xs) mod 2 ^ k \<noteq> (h + i) mod 2 ^ k"
    by metis
  then show "free_slot k h ((h + length xs) mod 2 ^ k) (arr ! ((h + length xs) mod 2 ^ k))"
    using assms(1) by (simp add: slots_rep_def)
  show "slots_rep k h (arr[(h + length xs) mod 2 ^ k := entry_of k (h + length xs) x]) (xs @ [x])"
    (is "slots_rep k h ?arr _")
  proof -
    have e: "?arr ! ((h + i) mod 2 ^ k) = entry_of k (h + i) ((xs @ [x]) ! i)"
      if "i < length (xs @ [x])" for i
    proof (cases "i < length xs")
      case True
      with ne [OF True] assms(1) show ?thesis
        by (simp add: slots_rep_def nth_append)
    next
      case False
      with that have "i = length xs" by simp
      with assms(3) show ?thesis by simp
    qed
    have f: "free_slot k h j (?arr ! j)"
      if "j < 2 ^ k" "\<forall>i<length (xs @ [x]). j \<noteq> (h + i) mod 2 ^ k" for j
    proof -
      have "j \<noteq> (h + length xs) mod 2 ^ k" "\<forall>i<length xs. j \<noteq> (h + i) mod 2 ^ k"
        using that(2) by auto
      with assms(1) that(1) show ?thesis
        by (simp add: slots_rep_def)
    qed
    show ?thesis
      unfolding slots_rep_def using assms(2) e f by auto
  qed
qed

lemma slots_rep_pop:
  assumes "slots_rep k h arr (x # xs)" "length arr = 2 ^ k"
  shows "slots_rep k (Suc h) (arr[h mod 2 ^ k := cycle_of k h]) xs"
    and "arr ! (h mod 2 ^ k) = entry_of k h x"
proof -
  have all: "\<forall>i<length (x # xs). arr ! ((h + i) mod 2 ^ k) = entry_of k (h + i) ((x # xs) ! i)"
    and fr: "\<forall>j<2 ^ k. (\<forall>i<length (x # xs). j \<noteq> (h + i) mod 2 ^ k) \<longrightarrow> free_slot k h j (arr ! j)"
    and len: "length (x # xs) \<le> 2 ^ k"
    using assms(1) by (auto simp: slots_rep_def)
  show "arr ! (h mod 2 ^ k) = entry_of k h x"
    using all by force
  have ne: "(Suc h + i) mod 2 ^ k \<noteq> h mod 2 ^ k" if "i < length xs" for i
    using mod_eq_gap [of h "2 ^ k" "Suc h + i"] that len by auto
  have e: "arr[h mod 2 ^ k := cycle_of k h] ! ((Suc h + i) mod 2 ^ k) = entry_of k (Suc h + i) (xs ! i)"
    if "i < length xs" for i
    using all [rule_format, of "Suc i"] that ne [OF that] by simp
  have f: "free_slot k (Suc h) j (arr[h mod 2 ^ k := cycle_of k h] ! j)"
    if j: "j < 2 ^ k" "\<forall>i<length xs. j \<noteq> (Suc h + i) mod 2 ^ k" for j
  proof (cases "j = h mod 2 ^ k")
    case True
    with assms(2) j(1) show ?thesis by (auto simp: free_slot_def)
  next
    case False
    then have "\<forall>i<length (x # xs). j \<noteq> (h + i) mod 2 ^ k"
      using j(2) by (auto simp: less_Suc_eq_0_disj)
    with fr j(1) False show ?thesis
      by (auto intro: free_slot_mono)
  qed
  show "slots_rep k (Suc h) (arr[h mod 2 ^ k := cycle_of k h]) xs"
    unfolding slots_rep_def using len e f by auto
qed

lemma slots_rep_skip:
  assumes "slots_rep k h arr []" "length arr = 2 ^ k"
  shows "slots_rep k (Suc h) (arr[h mod 2 ^ k := cycle_of k h]) []"
    and "free_slot k h (h mod 2 ^ k) (arr ! (h mod 2 ^ k))"
proof -
  have fr: "free_slot k h j (arr ! j)" if "j < 2 ^ k" for j
    using assms(1) that by (simp add: slots_rep_def)
  show "free_slot k h (h mod 2 ^ k) (arr ! (h mod 2 ^ k))"
    by (rule fr) simp
  have "free_slot k (Suc h) j (arr[h mod 2 ^ k := cycle_of k h] ! j)" if "j < 2 ^ k" for j
    using fr [OF that] that assms(2)
    by (cases "j = h mod 2 ^ k") (auto simp: free_slot_def nth_list_update intro: less_SucI)
  then show "slots_rep k (Suc h) (arr[h mod 2 ^ k := cycle_of k h]) []"
    by (simp add: slots_rep_def)
qed

section \<open>The loops of the ring\<close>

text \<open>
  Words of the code as tickets: the cycle and the slot it computes from \<open>head\<close> or \<open>tail\<close>.
\<close>

lemma ticket_cycle:
  "modup (push_bit 1 w) (2 ^ k) = cycle_of k (unat w)"
  "modup (w * 2) (2 ^ k) = cycle_of k (unat w)"
  by (simp_all add: cycle_of_def)

lemma ring_updates [simp]:
  "r\<lparr>spurious := spurious r\<rparr> = r" "r\<lparr>array := array r\<rparr> = r" "r\<lparr>tail := tail r\<rparr> = r"
  "r\<lparr>threshold := threshold r\<rparr> = r"
  by simp_all

text \<open>
  A weak exchange that fails although it could succeed shortens the ghost list: what holds of a ring
  whenever it holds after one more spurious failure holds of every ring.
\<close>

lemma spurious_induct [case_names step]:
  assumes "\<And>r. (fails_now r \<Longrightarrow> P (used_exchange r)) \<Longrightarrow> P r"
  shows "P r"
proof (induction "length (spurious r)" arbitrary: r rule: less_induct)
  case less
  show ?case
  proof (rule assms)
    assume "fails_now r"
    then have "length (spurious (used_exchange r)) < length (spurious r)"
      by (cases "spurious r") (auto simp: fails_now_def used_exchange_def)
    then show "P (used_exchange r)"
      by (rule less)
  qed
qed

lemma used_exchange_simps [simp]:
  "array (used_exchange r) = array r" "head (used_exchange r) = head r"
  "tail (used_exchange r) = tail r" "threshold (used_exchange r) = threshold r"
  "order (used_exchange r) = order r" "is_finalized (used_exchange r) = is_finalized r"
  "is_final (used_exchange r) = is_final r"
  "(used_exchange r)\<lparr>array := a, spurious := w\<rparr> = r\<lparr>array := a, spurious := w\<rparr>"
  "(used_exchange r)\<lparr>array := a, threshold := th, spurious := w\<rparr>
     = r\<lparr>array := a, threshold := th, spurious := w\<rparr>"
  by (simp_all add: used_exchange_def is_final_def)

lemma enqueue_retry_free_step:
  assumes "array r ! unat tidx = e" "unat tidx < length (array r)"
    and "modup e n = e" "is_lt (lfring_signed_cmp e tcycle)" "\<not> is_final r"
  shows "enqueue_retry eidx half n tk tcycle tidx r =
    (if fails_now r then enqueue_retry eidx half n tk tcycle tidx (used_exchange r)
     else ret (Finished (Inr ()),
            r\<lparr>array := (array r)[unat tidx := tcycle XOR eidx],
              threshold := lfring_threshold3 half n, spurious := List.tl (spurious r)\<rparr>))"
  using assms by (cases r; subst enqueue_retry.simps)
    (auto simp: cas_slot_weak_def used_exchange_def is_final_def Let_def)

lemma enqueue_retry_free:
  assumes "array r ! unat tidx = e" "unat tidx < length (array r)"
    and "modup e n = e" "is_lt (lfring_signed_cmp e tcycle)" "\<not> is_final r"
  shows "\<exists>w. enqueue_retry eidx half n tk tcycle tidx r
           = ret (Finished (Inr ()),
                  r\<lparr>array := (array r)[unat tidx := tcycle XOR eidx],
                     threshold := lfring_threshold3 half n, spurious := w\<rparr>)"
  using assms
proof (induction r rule: spurious_induct)
  case (step r)
  then show ?case
    using enqueue_retry_free_step [OF step.prems, of eidx half tk] by (cases "fails_now r") auto
qed

lemma enqueue_retry_final:
  assumes "array r ! unat tidx = e" "unat tidx < length (array r)"
    and "modup e n = e" "is_lt (lfring_signed_cmp e tcycle)" "is_final r"
  shows "enqueue_retry eidx half n tk tcycle tidx r = ret (Finished (Inl QueueFinalized), r)"
  using assms by (subst enqueue_retry.simps) (simp add: is_final_def)

text \<open>A slot that holds an entry sends the enqueuer on, with the ring unchanged.\<close>

lemma enqueue_retry_occupied:
  assumes "array r ! unat tidx = entry_of k t x" "unat tidx < length (array r)"
    and "take_bit k x = x" "x \<noteq> mask k" "k < 63"
  shows "enqueue_retry eidx half (2 ^ k) tk tcycle tidx r = ret (NextTicket, r)"
proof -
  have ne1: "entry_of k t x \<noteq> cycle_of k t"
  proof
    assume "entry_of k t x = cycle_of k t"
    then have "entry_of k t x AND mask k = cycle_of k t AND mask k"
      by simp
    also have "cycle_of k t AND mask k = mask k"
      by (rule bit_eqI) (use bit_cycle_of_low [of _ k t] assms(5) in \<open>auto simp: bit_simps\<close>)
    finally show False
      using assms(3-5) entry_of_and_mask [of k x t] by (simp add: two_power_minus_one)
  qed
  have "bit (entry_of k t x) k" "\<not> bit (cycle_of k t XOR 2 ^ k) k"
    using assms(3,5) bit_cycle_of_low [of k k t] by (auto simp: bit_entry_of bit_simps)
  then have ne2: "entry_of k t x \<noteq> (cycle_of k t XOR 2 ^ k)"
    by auto
  show ?thesis
    using assms ne1 ne2 by (subst enqueue_retry.simps) (simp add: modup_entry_of Let_def)
qed

text \<open>The dequeuer that meets a free slot leaves the cycle of its ticket behind and goes on.\<close>

lemma dequeue_scan_attempts:
  assumes "array r ! unat hidx = e" "unat hidx < length (array r)"
    and "modup e n = e" "e \<noteq> hcycle" "e OR n = e"
  shows "\<exists>a'. 10 < sint (a' + 1) \<and> dequeue_scan hcycle hidx n a r = dequeue_scan hcycle hidx n a' r"
proof (induction "unat (10 - a)" arbitrary: a rule: less_induct)
  case less
  show ?case
  proof (cases "sint (a + 1) \<le> 10")
    case True
    have eq: "dequeue_scan hcycle hidx n a r = dequeue_scan hcycle hidx n (a + 1) r"
      using assms True by (subst dequeue_scan.simps) (simp add: Let_def)
    have "a \<noteq> 10"
      using True by auto
    then have nz: "10 - a \<noteq> 0"
      by simp
    then have "unat (10 - a - 1) = unat (10 - a) - 1"
      by (rule unat_minus_one)
    moreover have "0 < unat (10 - a)"
      using nz unat_gt_0 [of "10 - a"] by blast
    moreover have "10 - (a + 1) = 10 - a - 1"
      by simp
    ultimately have "unat (10 - (a + 1)) < unat (10 - a)"
      by presburger
    from less [OF this] show ?thesis using eq by simp
  next
    case False
    then show ?thesis by (intro exI [of _ a]) simp
  qed
qed

lemma dequeue_scan_free:
  assumes "array r ! unat hidx = e" "unat hidx < length (array r)"
    and "modup e n = e" "is_lt (lfring_signed_cmp e hcycle)" "e \<noteq> hcycle"
    and "e OR n = e" "NOT e AND n = 0"
  shows "\<exists>w. dequeue_scan hcycle hidx n a r
           = ret (Skipped, r\<lparr>array := (array r)[unat hidx := hcycle], spurious := w\<rparr>)"
  using assms
proof (induction r arbitrary: a rule: spurious_induct)
  case (step r)
  obtain a' where a': "10 < sint (a' + 1)"
      "dequeue_scan hcycle hidx n a r = dequeue_scan hcycle hidx n a' r"
    using dequeue_scan_attempts [OF step.prems(1-3) step.prems(5,6)] by blast
  have "dequeue_scan hcycle hidx n a' r =
    (if fails_now r then dequeue_scan hcycle hidx n (a' + 1) (used_exchange r)
     else ret (Skipped, r\<lparr>array := (array r)[unat hidx := hcycle], spurious := List.tl (spurious r)\<rparr>))"
    using step.prems a'(1) by (cases r; subst dequeue_scan.simps)
      (auto simp: cas_slot_weak_def used_exchange_def Let_def)
  then show ?case
    using a'(2) step.IH [of "a' + 1"] step.prems by (cases "fails_now r") auto
qed

text \<open>The dequeuer whose cycle the slot has takes the index and leaves the bare cycle.\<close>

lemma dequeue_scan_take:
  assumes "array r ! unat hidx = entry_of k t x" "unat hidx < length (array r)"
    and "take_bit k x = x" "k < 63"
  shows "dequeue_scan (cycle_of k t) hidx (2 ^ k) a r
       = ret (Taken x, r\<lparr>array := (array r)[unat hidx := cycle_of k t]\<rparr>)"
  using assms
  by (subst dequeue_scan.simps) (simp add: modup_entry_of entry_of_and_mask entry_of_or_mask)

text \<open>\<open>catchup\<close> on a tail that lags: it ends, and it moves the tail to the head.\<close>

lemma catchup_lagging:
  assumes "tail r = tk" "head r = hk" "\<not> is_ge (lfring_signed_cmp tk hk)"
  shows "\<exists>w. catchup tk hk r = ret (r\<lparr>tail := hk, spurious := w\<rparr>)"
  using assms
proof (induction r rule: spurious_induct)
  case (step r)
  have "catchup tk hk r =
    (if fails_now r then catchup tk hk (used_exchange r)
     else ret (r\<lparr>tail := hk, spurious := List.tl (spurious r)\<rparr>))"
    using step.prems by (cases r; subst catchup.simps) (auto simp: cas_tail_weak_def used_exchange_def)
  then show ?case
    using step.IH step.prems by (cases "fails_now r") (auto simp: used_exchange_def)
qed

text \<open>With the tail at the head already, the exchange writes the value that is there.\<close>

lemma catchup_level:
  assumes "tail r = tk" "head r = tk"
  shows "\<exists>w. catchup tk tk r = ret (r\<lparr>tail := tk, spurious := w\<rparr>)"
proof -
  have "is_ge (lfring_signed_cmp tk tk)"
    by (simp add: lfring_signed_cmp_def isize_cmp_def)
  then have "catchup tk tk r = ret (r\<lparr>tail := tk, spurious := List.tl (spurious r)\<rparr>)"
    using assms by (cases r; subst catchup.simps) (auto simp: cas_tail_weak_def used_exchange_def)
  then show ?thesis by blast
qed

end
