(* ===== verification/ScqRingFifo.thy ===== *)
theory ScqRingFifo
  imports ScqRingSpec
begin

text \<open>
  The ring is a FIFO queue of indices: every operation of \<open>ScqRing\<close> returns, and acts on the list
  that \<open>ring_rep\<close> gives the ring. The contract is the locale \<open>index_ring\<close>; the interpretation
  \<open>scq\<close> discharges it for the model of the code, and the bounded queue rests on it.
\<close>

section \<open>Words of a well-formed ring\<close>

definition same_shape :: "scq_ring \<Rightarrow> scq_ring \<Rightarrow> bool" where
  "same_shape r r' \<longleftrightarrow> order r' = order r \<and> is_finalized r' = is_finalized r"

lemma same_shape_refl [simp]: "same_shape r r"
  by (simp add: same_shape_def)

lemma same_shape_trans: "same_shape r s \<Longrightarrow> same_shape s t \<Longrightarrow> same_shape r t"
  by (simp add: same_shape_def)

lemma same_shape_facts:
  assumes "same_shape r r'"
  shows "order r' = order r" "is_finalized r' = is_finalized r" "is_final r' = is_final r"
    "ring_half r' = ring_half r" "ring_capacity r' = ring_capacity r" "slot_bits r' = slot_bits r"
  using assms
  by (auto simp: same_shape_def is_final_def ring_half_def ring_capacity_def slot_bits_def)

lemma ring_rep_wf: "ring_rep c r xs \<Longrightarrow> ring_wf r"
  by (simp add: ring_rep_def)

lemma ring_rep_clock: "ring_rep c r xs \<Longrightarrow> c \<le> c' \<Longrightarrow> c' < 2 ^ 62 \<Longrightarrow> ring_rep c' r xs"
  by (auto simp: ring_rep_def)

lemma ring_words:
  assumes "ring_wf r"
  shows "lfring_pow2 (order r) = 2 ^ unat (order r)"
    and "lfring_pow2 (order r + 1) = 2 ^ slot_bits r"
    and "push_bit 1 (lfring_pow2 (order r)) = 2 ^ slot_bits r"
    and "unat (ring_capacity r) = ring_half r"
    and "slot_bits r \<le> 61" "slot_bits r \<le> 62" "slot_bits r < 63"
    and "length (array r) = 2 ^ slot_bits r"
proof -
  have o: "unat (order r) \<le> 60"
    using assms by (simp add: ring_wf_def)
  then have "unat (order r + 1) = slot_bits r"
    unfolding slot_bits_def by (intro unat_plus_one) simp
  with o show "lfring_pow2 (order r) = 2 ^ unat (order r)" "lfring_pow2 (order r + 1) = 2 ^ slot_bits r"
    "push_bit 1 (lfring_pow2 (order r)) = 2 ^ slot_bits r"
    by (simp_all add: lfring_pow2_eq slot_bits_def)
  show "unat (ring_capacity r) = ring_half r"
    using o by (simp add: ring_capacity_def ring_half_def unat_two_power)
qed (use assms in \<open>auto simp: ring_wf_def slot_bits_def\<close>)

lemma two_halves: "(2 :: nat) ^ slot_bits r = 2 * ring_half r"
  by (simp add: slot_bits_def ring_half_def)

lemma unat_threshold3:
  assumes "o' \<le> 60"
  shows "unat (lfring_threshold3 (2 ^ o') (2 ^ Suc o')) = 3 * 2 ^ o' - 1"
proof -
  have le: "(2 :: nat) ^ o' \<le> 2 ^ 60"
    using assms by (intro power_increasing) auto
  have u: "unat ((2 :: usize) ^ o') = 2 ^ o'" "unat ((2 :: usize) ^ Suc o') = 2 * 2 ^ o'"
    using assms unat_two_power [of o'] unat_two_power [of "Suc o'"] by (auto simp del: power_Suc) simp
  have "unat ((2 :: usize) ^ o' + 2 ^ Suc o') = (2 ^ o' + 2 * 2 ^ o') mod 2 ^ 64"
    by (simp only: unat_word_ariths u) simp
  also have "\<dots> = 3 * 2 ^ o'"
    using le by simp
  finally have s: "unat ((2 :: usize) ^ o' + 2 ^ Suc o') = 3 * 2 ^ o'" .
  then have "(2 :: usize) ^ o' + 2 ^ Suc o' \<noteq> 0"
    by (metis mult_eq_0_iff power_eq_0_iff unat_0 zero_neq_numeral)
  then show ?thesis
    unfolding lfring_threshold3_def s [symmetric] by (rule unat_minus_one)
qed

lemma ring_threshold_nonneg:
  assumes "ring_wf r"
  shows "0 \<le> sint (lfring_threshold3 (2 ^ unat (order r)) (2 ^ slot_bits r))"
proof -
  have o: "unat (order r) \<le> 60"
    using assms by (simp add: ring_wf_def)
  then have "(2 :: nat) ^ unat (order r) \<le> 2 ^ 60"
    by (intro power_increasing) auto
  then have "unat (lfring_threshold3 (2 ^ unat (order r)) (2 ^ slot_bits r)) < 2 ^ 63"
    unfolding slot_bits_def unat_threshold3 [OF o] by simp
  then show ?thesis
    by (rule sint_bounds)
qed

lemma ring_index:
  assumes "ring_wf r" "unat (x :: usize) < ring_half r"
  shows "take_bit (slot_bits r) x = x" "x \<noteq> mask (slot_bits r)"
proof -
  show tb: "take_bit (slot_bits r) x = x"
    using assms(2) unfolding ring_half_def by (rule small_index) (simp add: slot_bits_def)
  show "x \<noteq> mask (slot_bits r)"
  proof
    assume "x = mask (slot_bits r)"
    then have "unat x = mask (slot_bits r)"
      using ring_words(5) [OF assms(1)] by (simp add: unat_mask)
    with assms(2) two_halves [of r] show False
      by (simp add: mask_eq_exp_minus_1)
  qed
qed

section \<open>enqueue\<close>

lemma ring_enqueue_too_large:
  "ring_wf r \<Longrightarrow> ring_half r \<le> unat x \<Longrightarrow> ring_enqueue r x = ret (Inl IndexLargerThanOrder, r)"
  by (simp add: ring_enqueue_def word_le_nat_alt ring_words(4))

lemma ring_enqueue_unfold:
  assumes "ring_wf r" "unat x < ring_half r"
  shows "ring_enqueue r x =
    enqueue_loop (x XOR (2 ^ slot_bits r - 1)) (2 ^ unat (order r)) (2 ^ slot_bits r) r"
  using assms ring_words [OF assms(1)]
  by (simp add: ring_enqueue_def word_le_nat_alt Let_def del: power_Suc)

lemma ring_enqueue_ok:
  assumes rep: "ring_rep c r xs" and "\<not> is_final r" "length xs < 2 ^ slot_bits r"
    and x: "unat x < ring_half r" and c: "Suc c < 2 ^ 62"
  shows "\<exists>r'. ring_enqueue r x = ret (Inr (), r') \<and> ring_rep (Suc c) r' (xs @ [x]) \<and> same_shape r r'
            \<and> head r' = head r
            \<and> threshold r' = lfring_threshold3 (2 ^ unat (order r)) (2 ^ slot_bits r)"
proof -
  let ?k = "slot_bits r" and ?h = "unat (head r)" and ?t = "unat (tail r)"
  let ?thr = "lfring_threshold3 (2 ^ unat (order r)) (2 ^ slot_bits r)"
  let ?r1 = "r\<lparr>tail := tail r + 1\<rparr>" and ?j = "lfring_map (tail r) (2 ^ ?k)"
  have wf: "ring_wf r" using rep by (rule ring_rep_wf)
  note w = ring_words [OF wf]
  have t: "?t = ?h + length xs" "?t \<le> c" and s: "slots_rep ?k ?h (array r) xs"
    using rep assms(2) by (auto simp: ring_rep_def)
  have t62: "?t < 2 ^ 62" using t(2) c by simp
  have j: "unat ?j = ?t mod 2 ^ ?k" by (rule unat_lfring_map)
  have free: "free_slot ?k ?h (?t mod 2 ^ ?k) (array r ! unat ?j)"
    using slots_rep_append(2) [OF s assms(3) w(8)] unfolding j t(1) .
  have "\<exists>v. enqueue_retry (x XOR (2 ^ ?k - 1)) (2 ^ unat (order r)) (2 ^ ?k) (tail r)
        (cycle_of ?k ?t) ?j ?r1
      = ret (Finished (Inr ()),
          ?r1\<lparr>array := (array ?r1)[unat ?j := cycle_of ?k ?t XOR (x XOR (2 ^ ?k - 1))],
            threshold := ?thr, spurious := v\<rparr>)"
  proof (rule enqueue_retry_free)
    show "array ?r1 ! unat ?j = array r ! unat ?j" by simp
    show "unat ?j < length (array ?r1)" by (simp add: j w(8))
    show "modup (array r ! unat ?j) (2 ^ ?k) = array r ! unat ?j"
      using free by (rule free_slot_modup)
    show "is_lt (lfring_signed_cmp (array r ! unat ?j) (cycle_of ?k ?t))"
      by (rule free_slot_lt(1) [OF free _ t62 w(6)]) (simp add: t(1))
    show "\<not> is_final ?r1" using assms(2) by simp
  qed
  then obtain v where v: "enqueue_retry (x XOR (2 ^ ?k - 1)) (2 ^ unat (order r)) (2 ^ ?k) (tail r)
        (cycle_of ?k ?t) ?j ?r1
      = ret (Finished (Inr ()), ?r1\<lparr>array := (array r)[unat ?j := entry_of ?k ?t x],
            threshold := ?thr, spurious := v\<rparr>)"
    by (auto simp: entry_of_def)
  let ?r' = "?r1\<lparr>array := (array r)[unat ?j := entry_of ?k ?t x], threshold := ?thr, spurious := v\<rparr>"
  have "ring_enqueue r x = ret (Inr (), ?r')"
    using v by (simp add: ring_enqueue_unfold [OF wf x] enqueue_loop.simps [of _ _ _ r] Let_def
        ticket_cycle)
  moreover have "ring_rep (Suc c) ?r' (xs @ [x])"
    using rep c t x slots_rep_append(1) [OF s assms(3) w(8), of x] ring_threshold_nonneg [OF wf]
      unat_plus_one [of "tail r"]
    by (auto simp: ring_rep_def ring_wf_def j)
  moreover have "same_shape r ?r'"
    by (simp add: same_shape_def)
  moreover have "head ?r' = head r" "threshold ?r' = ?thr"
    by simp_all
  ultimately show ?thesis by blast
qed

text \<open>
  A finalized ring may have tickets without an entry between its last entry and its tail, so the
  ticket of an enqueuer can meet a slot that still holds an entry. It goes on until a slot is free
  and then learns that the ring is finalized.
\<close>

lemma enqueue_loop_final:
  assumes "ring_wf r" "is_final r" "slots_rep (slot_bits r) h (array r) xs"
    and "\<forall>x\<in>set xs. unat x < ring_half r" "h \<le> unat (tail r)" "unat (tail r) + d < 2 ^ 62"
    and "\<forall>i<d. \<exists>i'<length xs. (unat (tail r) + i) mod 2 ^ slot_bits r = (h + i') mod 2 ^ slot_bits r"
    and "free_slot (slot_bits r) h ((unat (tail r) + d) mod 2 ^ slot_bits r)
           (array r ! ((unat (tail r) + d) mod 2 ^ slot_bits r))"
  shows "\<exists>t'. enqueue_loop eidx half (2 ^ slot_bits r) r = ret (Inl QueueFinalized, r\<lparr>tail := t'\<rparr>)
            \<and> unat t' = Suc (unat (tail r) + d)"
  using assms
proof (induction d arbitrary: r)
  case 0
  let ?k = "slot_bits r" and ?t = "unat (tail r)" and ?j = "lfring_map (tail r) (2 ^ slot_bits r)"
  note w = ring_words [OF 0(1)]
  have j: "unat ?j = ?t mod 2 ^ ?k" by (rule unat_lfring_map)
  have free: "free_slot ?k h (?t mod 2 ^ ?k) (array r ! unat ?j)"
    using 0(8) by (simp add: j)
  have "enqueue_retry eidx half (2 ^ ?k) (tail r) (cycle_of ?k ?t) ?j (r\<lparr>tail := tail r + 1\<rparr>)
      = ret (Finished (Inl QueueFinalized), r\<lparr>tail := tail r + 1\<rparr>)"
    by (rule enqueue_retry_final [OF refl])
       (use 0(2,5,6) free_slot_modup [OF free] free_slot_lt(1) [OF free] w in \<open>auto simp: j\<close>)
  then have "enqueue_loop eidx half (2 ^ ?k) r = ret (Inl QueueFinalized, r\<lparr>tail := tail r + 1\<rparr>)"
    by (simp add: enqueue_loop.simps [of _ _ _ r] ticket_cycle Let_def)
  moreover have "unat (tail r + 1) = Suc ?t"
    using 0(6) by (intro unat_plus_one) simp
  ultimately show ?case by auto
next
  case (Suc d)
  let ?k = "slot_bits r" and ?t = "unat (tail r)" and ?j = "lfring_map (tail r) (2 ^ slot_bits r)"
  let ?r1 = "r\<lparr>tail := tail r + 1\<rparr>"
  note w = ring_words [OF Suc.prems(1)]
  have j: "unat ?j = ?t mod 2 ^ ?k" by (rule unat_lfring_map)
  obtain i' where i': "i' < length xs" "?t mod 2 ^ ?k = (h + i') mod 2 ^ ?k"
    using Suc.prems(7) by force
  then have e: "array ?r1 ! unat ?j = entry_of ?k (h + i') (xs ! i')"
    using Suc.prems(3) by (simp add: slots_rep_def j)
  have x: "unat (xs ! i') < ring_half r"
    using Suc.prems(4) i'(1) by simp
  have "enqueue_retry eidx half (2 ^ ?k) (tail r) (cycle_of ?k ?t) ?j ?r1 = ret (NextTicket, ?r1)"
    by (rule enqueue_retry_occupied [OF e])
       (use ring_index [OF Suc.prems(1) x] w in \<open>auto simp: j\<close>)
  then have step: "enqueue_loop eidx half (2 ^ ?k) r = enqueue_loop eidx half (2 ^ ?k) ?r1"
    by (simp add: enqueue_loop.simps [of _ _ _ r] ticket_cycle Let_def)
  have t1: "unat (tail ?r1) = Suc ?t"
    using Suc.prems(6) unat_plus_one [of "tail r"] by simp
  have "\<exists>t'. enqueue_loop eidx half (2 ^ slot_bits ?r1) ?r1 = ret (Inl QueueFinalized, ?r1\<lparr>tail := t'\<rparr>)
          \<and> unat t' = Suc (unat (tail ?r1) + d)"
  proof (rule Suc.IH)
    show "\<forall>i<d. \<exists>i'<length xs. (unat (tail ?r1) + i) mod 2 ^ slot_bits ?r1 = (h + i') mod 2 ^ slot_bits ?r1"
    proof (intro allI impI)
      fix i
      assume "i < d"
      then have "Suc i < Suc d" by simp
      with Suc.prems(7) show "\<exists>i'<length xs. (unat (tail ?r1) + i) mod 2 ^ slot_bits ?r1
          = (h + i') mod 2 ^ slot_bits ?r1"
        unfolding t1 by (metis add_Suc add_Suc_right ring_frame(1))
    qed
  qed (use Suc.prems t1 in \<open>auto simp: ring_wf_def\<close>)
  then show ?case
    using step t1 by auto
qed

lemma ring_enqueue_final:
  assumes rep: "ring_rep c r xs" and fin: "is_final r" and len: "length xs < 2 ^ slot_bits r"
    and x: "unat x < ring_half r" and c: "c + 2 ^ slot_bits r < 2 ^ 62"
  shows "\<exists>r'. ring_enqueue r x = ret (Inl QueueFinalized, r')
            \<and> ring_rep (c + 2 ^ slot_bits r) r' xs \<and> same_shape r r'"
proof -
  let ?k = "slot_bits r" and ?h = "unat (head r)" and ?t = "unat (tail r)"
  let ?occ = "\<lambda>j. \<exists>i'<length xs. j = (?h + i') mod 2 ^ ?k"
  have wf: "ring_wf r" using rep by (rule ring_rep_wf)
  have s: "slots_rep ?k ?h (array r) xs" and h: "?h \<le> ?t" and t: "?t \<le> c"
    using rep by (auto simp: ring_rep_def)
  have "card ((\<lambda>i. (?h + i) mod 2 ^ ?k) ` {..<length xs}) \<le> length xs"
    using card_image_le [of "{..<length xs}"] by simp
  then have "\<not> {..<2 ^ ?k} \<subseteq> (\<lambda>i. (?h + i) mod 2 ^ ?k) ` {..<length xs}"
    using len card_mono [of "(\<lambda>i. (?h + i) mod 2 ^ ?k) ` {..<length xs}" "{..<2 ^ ?k}"] by auto
  then obtain jf where jf: "jf < 2 ^ ?k" "\<not> ?occ jf" by auto
  then obtain d0 where d0: "d0 < 2 ^ ?k" "\<not> ?occ ((?t + d0) mod 2 ^ ?k)"
    using mod_hits [OF jf(1), of ?t] by metis
  define d where "d = (LEAST d. \<not> ?occ ((?t + d) mod 2 ^ ?k))"
  have d: "\<not> ?occ ((?t + d) mod 2 ^ ?k)" "d \<le> d0" "\<forall>i<d. ?occ ((?t + i) mod 2 ^ ?k)"
    unfolding d_def using LeastI [of "\<lambda>d. \<not> ?occ ((?t + d) mod 2 ^ ?k)", OF d0(2)]
      Least_le [of "\<lambda>d. \<not> ?occ ((?t + d) mod 2 ^ ?k)", OF d0(2)]
      not_less_Least [of _ "\<lambda>d. \<not> ?occ ((?t + d) mod 2 ^ ?k)"] by blast+
  have free: "free_slot ?k ?h ((?t + d) mod 2 ^ ?k) (array r ! ((?t + d) mod 2 ^ ?k))"
    using s d(1) by (auto simp: slots_rep_def)
  have xs: "\<forall>x\<in>set xs. unat x < ring_half r"
    using rep by (simp add: ring_rep_def)
  have bound: "?t + d < 2 ^ 62"
    using d(2) d0(1) t c by linarith
  obtain t' where t': "enqueue_loop (x XOR (2 ^ ?k - 1)) (2 ^ unat (order r)) (2 ^ ?k) r
      = ret (Inl QueueFinalized, r\<lparr>tail := t'\<rparr>)" "unat t' = Suc (?t + d)"
    using enqueue_loop_final [OF wf fin s xs h bound d(3) free] by blast
  have "ring_rep (c + 2 ^ ?k) (r\<lparr>tail := t'\<rparr>) xs"
    using rep fin t'(2) d(2) d0(1) c by (auto simp: ring_rep_def ring_wf_def)
  then show ?thesis
    using t'(1) by (auto simp: ring_enqueue_unfold [OF wf x] same_shape_def)
qed

section \<open>dequeue\<close>

lemma ring_dequeue_some:
  assumes rep: "ring_rep c r (x # xs)"
  shows "\<exists>r'. ring_dequeue r = ret (Some x, r') \<and> ring_rep c r' xs \<and> same_shape r r'"
proof -
  let ?k = "slot_bits r" and ?h = "unat (head r)"
  let ?r1 = "r\<lparr>head := head r + 1\<rparr>" and ?j = "lfring_map (head r) (2 ^ slot_bits r)"
  let ?r' = "r\<lparr>head := head r + 1, array := (array r)[unat ?j := cycle_of ?k ?h]\<rparr>"
  have wf: "ring_wf r" using rep by (rule ring_rep_wf)
  note w = ring_words [OF wf]
  have s: "slots_rep ?k ?h (array r) (x # xs)" and x: "unat x < ring_half r"
    and h: "?h < unat (tail r)" "unat (tail r) < 2 ^ 62" and th: "0 \<le> sint (threshold r)"
    using rep by (auto simp: ring_rep_def)
  have j: "unat ?j = ?h mod 2 ^ ?k" by (rule unat_lfring_map)
  have "dequeue_scan (cycle_of ?k ?h) ?j (2 ^ ?k) 0 ?r1 = ret (Taken x, ?r')"
    by (rule dequeue_scan_take [THEN trans])
       (use slots_rep_pop(2) [OF s w(8)] ring_index [OF wf x] w in \<open>auto simp: j\<close>)
  then have "ring_dequeue r = ret (Some x, ?r')"
    using th by (simp add: ring_dequeue_def w(2) dequeue_loop.simps [of _ r] ticket_cycle Let_def)
  moreover have "ring_rep c ?r' xs"
    using rep slots_rep_pop(1) [OF s w(8)] unat_plus_one [of "head r"] h
    by (auto simp: ring_rep_def ring_wf_def j)
  ultimately show ?thesis
    by (auto simp: same_shape_def)
qed

lemma sint_minus_one: "0 \<le> sint (w :: isize) \<Longrightarrow> sint (w - 1) = sint w - 1"
  using sint_diff_no_overflow [of w 1] sint_less [of w] by simp

text \<open>One round of \<open>dequeue\<close> on an empty ring: the slot of the ticket is left with its cycle.\<close>

lemma dequeue_skip:
  assumes rep: "ring_rep c r []" and c: "Suc c < 2 ^ 62"
  obtains v where
    "dequeue_scan (cycle_of (slot_bits r) (unat (head r))) (lfring_map (head r) (2 ^ slot_bits r))
         (2 ^ slot_bits r) 0 (r\<lparr>head := head r + 1\<rparr>)
       = ret (Skipped, r\<lparr>head := head r + 1, array := (array r)[unat (head r) mod 2 ^ slot_bits r
              := cycle_of (slot_bits r) (unat (head r))], spurious := v\<rparr>)"
    "slots_rep (slot_bits r) (Suc (unat (head r)))
       ((array r)[unat (head r) mod 2 ^ slot_bits r := cycle_of (slot_bits r) (unat (head r))]) []"
    "unat (head r + 1) = Suc (unat (head r))"
proof -
  let ?k = "slot_bits r" and ?h = "unat (head r)"
  let ?r1 = "r\<lparr>head := head r + 1\<rparr>" and ?j = "lfring_map (head r) (2 ^ slot_bits r)"
  have wf: "ring_wf r" using rep by (rule ring_rep_wf)
  note w = ring_words [OF wf]
  have s: "slots_rep ?k ?h (array r) []" and h: "?h \<le> c"
    using rep by (auto simp: ring_rep_def)
  have h62: "?h < 2 ^ 62" using h c by simp
  have j: "unat ?j = ?h mod 2 ^ ?k" by (rule unat_lfring_map)
  have free: "free_slot ?k ?h (?h mod 2 ^ ?k) (array r ! unat ?j)"
    using slots_rep_skip(2) [OF s w(8)] by (simp add: j)
  have "\<exists>v. dequeue_scan (cycle_of ?k ?h) ?j (2 ^ ?k) 0 ?r1
      = ret (Skipped, ?r1\<lparr>array := (array ?r1)[unat ?j := cycle_of ?k ?h], spurious := v\<rparr>)"
    by (rule dequeue_scan_free)
       (use free_slot_modup [OF free] free_slot_lt [OF free _ h62 w(6)] free_slot_or_n [OF free w(7)] w
        in \<open>auto simp: j\<close>)
  then show thesis
    using that slots_rep_skip(1) [OF s w(8)] h62 unat_plus_one [of "head r"] by (auto simp: j)
qed

lemma dequeue_loop_none:
  assumes "ring_rep c r []" "Suc c < 2 ^ 62" "0 \<le> sint (threshold r)"
  shows "\<exists>r'. dequeue_loop (2 ^ slot_bits r) r = ret (None, r')
            \<and> ring_rep (Suc c) r' [] \<and> same_shape r r'"
  using assms
proof (induction "unat (tail r) - unat (head r)" arbitrary: r rule: less_induct)
  case less
  let ?k = "slot_bits r" and ?h = "unat (head r)" and ?t = "unat (tail r)"
  let ?arr = "(array r)[?h mod 2 ^ ?k := cycle_of ?k ?h]"
  obtain v where scan: "dequeue_scan (cycle_of ?k ?h) (lfring_map (head r) (2 ^ ?k)) (2 ^ ?k) 0
        (r\<lparr>head := head r + 1\<rparr>) = ret (Skipped, r\<lparr>head := head r + 1, array := ?arr, spurious := v\<rparr>)"
    and s: "slots_rep ?k (Suc ?h) ?arr []" and h1: "unat (head r + 1) = Suc ?h"
    using dequeue_skip [OF less.prems(1,2)] by blast
  let ?r2 = "r\<lparr>head := head r + 1, array := ?arr, spurious := v\<rparr>"
  have wf: "ring_wf r" and ht: "?h \<le> ?t" "?t \<le> c" and nf: "\<not> is_final r \<Longrightarrow> ?t = ?h"
    using less.prems(1) by (auto simp: ring_rep_def)
  have bounds: "?t < 2 ^ 63" "Suc ?h < 2 ^ 63"
    using ht less.prems(2) by auto
  have le: "is_le (lfring_signed_cmp (tail r) (head r + 1)) \<longleftrightarrow> ?t \<le> Suc ?h"
    using bounds by (subst is_le_signed_cmp) (auto simp: h1)
  note th = sint_minus_one [OF less.prems(3)]
  note unfold = dequeue_loop.simps [of "2 ^ ?k" r] scan le ticket_cycle Let_def
  show ?case
  proof (cases "?t \<le> Suc ?h")
    case True
    have "\<exists>w. catchup (tail r) (head r + 1) ?r2 = ret (?r2\<lparr>tail := head r + 1, spurious := w\<rparr>)"
    proof (cases "?t = Suc ?h")
      case True
      then have eq: "tail r = head r + 1"
        by (simp add: word_unat_eq_iff h1)
      show ?thesis
        using catchup_level [of ?r2 "head r + 1"] by (simp add: eq)
    next
      case False
      then show ?thesis
        using True bounds by (intro catchup_lagging) (auto simp: is_ge_signed_cmp h1)
    qed
    then obtain u where "catchup (tail r) (head r + 1) ?r2
        = ret (?r2\<lparr>tail := head r + 1, spurious := u\<rparr>)" ..
    then have "dequeue_loop (2 ^ ?k) r
        = ret (None, ?r2\<lparr>tail := head r + 1, spurious := u, threshold := threshold r - 1\<rparr>)"
      using True by (simp add: unfold)
    moreover have "ring_rep (Suc c)
        (?r2\<lparr>tail := head r + 1, spurious := u, threshold := threshold r - 1\<rparr>) []"
      using less.prems s h1 ht th by (auto simp: ring_rep_def ring_wf_def)
    ultimately show ?thesis
      by (auto simp: same_shape_def)
  next
    case False
    let ?r3 = "?r2\<lparr>threshold := threshold r - 1\<rparr>"
    have rep3: "ring_rep c ?r3 []"
      using less.prems s h1 ht th False nf by (auto simp: ring_rep_def ring_wf_def)
    show ?thesis
    proof (cases "sint (threshold r) \<le> 0")
      case True
      then have "dequeue_loop (2 ^ ?k) r = ret (None, ?r3)"
        using False by (simp add: unfold)
      then show ?thesis
        using ring_rep_clock [OF rep3, of "Suc c"] less.prems(2) by (auto simp: same_shape_def)
    next
      case pos: False
      then have step: "dequeue_loop (2 ^ ?k) r = dequeue_loop (2 ^ ?k) ?r3"
        using False by (simp add: unfold)
      have "\<exists>r'. dequeue_loop (2 ^ slot_bits ?r3) ?r3 = ret (None, r')
          \<and> ring_rep (Suc c) r' [] \<and> same_shape ?r3 r'"
        by (rule less.hyps) (use False h1 rep3 less.prems(2) th pos in auto)
      then show ?thesis
        using step by (auto simp: same_shape_def)
    qed
  qed
qed

lemma ring_dequeue_none:
  assumes rep: "ring_rep c r []" and c: "Suc c < 2 ^ 62"
  shows "\<exists>r'. ring_dequeue r = ret (None, r') \<and> ring_rep (Suc c) r' [] \<and> same_shape r r'"
proof (cases "sint (threshold r) < 0")
  case True
  then show ?thesis
    using ring_rep_clock [OF rep _ c] by (simp add: ring_dequeue_def Let_def)
next
  case False
  then show ?thesis
    using dequeue_loop_none [OF rep c] ring_words(2) [OF ring_rep_wf [OF rep]]
    by (auto simp: ring_dequeue_def Let_def)
qed

section \<open>Finalization and the threshold\<close>

lemma is_final_finalize:
  assumes "ring_wf r"
  shows "is_final (finalize r) \<longleftrightarrow> length (is_finalized r) = 1"
  using assms by (cases "is_finalized r") (auto simp: is_final_def finalize_def)

lemma ring_rep_finalize: "ring_rep c r xs \<Longrightarrow> ring_rep c (finalize r) xs"
  by (cases "is_finalized r") (auto simp: ring_rep_def ring_wf_def finalize_def is_final_def)

lemma ring_rep_threshold: "ring_rep c r xs \<Longrightarrow> 0 \<le> sint th \<Longrightarrow> ring_rep c (r\<lparr>threshold := th\<rparr>) xs"
  by (auto simp: ring_rep_def ring_wf_def)

end
