(* ===== verification/ScqRingInit.thy ===== *)
theory ScqRingInit
  imports ScqRingFifo
begin

text \<open>
  The constructors of the rings: the two counted loops of \<open>initialize_atomic_array_full\<close>, the lists
  the fresh rings represent, and the two equivalences between ways to build a ring: on the stack or
  on the heap, filled by the constructor or by enqueueing.
\<close>

section \<open>The initial rings\<close>

lemma unat_of_nat_small: "i < 2 ^ 64 \<Longrightarrow> unat (of_nat i :: usize) = i"
  by (simp add: unsigned_of_nat take_bit_nat_eq_self_iff)

lemma power_le_62: "m \<le> 61 \<Longrightarrow> (2 :: nat) ^ m < 2 ^ 62"
  by (rule power_strict_increasing) auto

lemma lfring_map_of_nat:
  assumes "i < 2 ^ k" "k \<le> 61"
  shows "lfring_map (of_nat i) (2 ^ k) = of_nat i"
proof -
  have "(2 :: nat) ^ k < 2 ^ 62" using assms(2) by (rule power_le_62)
  then have "unat (of_nat i :: usize) = i"
    using assms(1) by (intro unat_of_nat_small) simp
  then show ?thesis
    using assms(1) by (simp add: word_unat_eq_iff unat_lfring_map)
qed

lemma of_nat_eq_two_power:
  assumes "i \<le> 2 ^ k" "k \<le> 61"
  shows "(of_nat i :: usize) = 2 ^ k \<longleftrightarrow> i = 2 ^ k"
proof -
  have "(2 :: nat) ^ k < 2 ^ 62" using assms(2) by (rule power_le_62)
  then have "unat (of_nat i :: usize) = i"
    using assms(1) by (intro unat_of_nat_small) simp
  moreover have "unat ((2 :: usize) ^ k) = 2 ^ k"
    using assms(2) by (intro unat_two_power) simp
  ultimately show ?thesis
    by (simp add: word_unat_eq_iff)
qed

lemma init_filled_eq:
  assumes "o' \<le> 60" "length buf = 2 ^ Suc o'" "i \<le> 2 ^ o'"
  shows "init_filled buf (2 ^ o') (2 ^ Suc o') (of_nat i)
       = Ret (take i buf @ map (\<lambda>j. 2 ^ Suc o' + of_nat j) [i..<2 ^ o'] @ drop (2 ^ o') buf)"
  using assms
proof (induction "2 ^ o' - i" arbitrary: i buf)
  case 0
  then have "i = 2 ^ o'" by simp
  then show ?case
    by (subst init_filled.simps) simp
next
  case (Suc d)
  then have i: "i < 2 ^ o'" by simp
  let ?v = "2 ^ Suc o' + of_nat i :: usize"
  have ne: "(of_nat i :: usize) \<noteq> 2 ^ o'"
    using Suc.prems(1) i by (subst of_nat_eq_two_power) auto
  have maps: "lfring_map (of_nat i) (2 ^ Suc o') = of_nat i" "lfring_map (of_nat i) (2 ^ o') = of_nat i"
    using Suc.prems(1) i lfring_map_of_nat [of i "Suc o'"] lfring_map_of_nat [of i o'] by auto
  have u: "unat (of_nat i :: usize) = i"
    using i power_le_62 [of o'] Suc.prems(1) by (intro unat_of_nat_small) simp
  have "init_filled buf (2 ^ o') (2 ^ Suc o') (of_nat i)
      = init_filled (buf[i := ?v]) (2 ^ o') (2 ^ Suc o') (of_nat (Suc i))"
    using ne maps u i Suc.prems(2)
    by (subst init_filled.simps) (simp add: store_slice_def add.commute del: power_Suc, simp)
  also have "\<dots> = Ret (take (Suc i) (buf[i := ?v]) @ map (\<lambda>j. 2 ^ Suc o' + of_nat j) [Suc i..<2 ^ o']
      @ drop (2 ^ o') (buf[i := ?v]))"
    by (rule Suc.hyps(1)) (use Suc i in auto)
  also have "take (Suc i) (buf[i := ?v]) = take i buf @ [?v]"
    using Suc.prems(2) i by (simp add: take_Suc_conv_app_nth)
  also have "drop (2 ^ o') (buf[i := ?v]) = drop (2 ^ o') buf"
    using i by simp
  finally show ?case
    using i by (simp add: upt_conv_Cons)
qed

lemma init_rest_eq:
  assumes "k \<le> 61" "length buf = 2 ^ k" "i \<le> 2 ^ k"
  shows "init_rest buf (2 ^ k) (of_nat i) = Ret (take i buf @ replicate (2 ^ k - i) (-1))"
  using assms
proof (induction "2 ^ k - i" arbitrary: i buf)
  case 0
  then have "i = 2 ^ k" by simp
  with 0 show ?case
    by (subst init_rest.simps) simp
next
  case (Suc d)
  then have i: "i < 2 ^ k" by simp
  have ne: "(of_nat i :: usize) \<noteq> 2 ^ k"
    using Suc.prems(1) i by (subst of_nat_eq_two_power) auto
  have u: "unat (of_nat i :: usize) = i"
    using i power_le_62 [of k] Suc.prems(1) by (intro unat_of_nat_small) simp
  have "init_rest buf (2 ^ k) (of_nat i) = init_rest (buf[i := -1]) (2 ^ k) (of_nat (Suc i))"
    using ne u i Suc.prems(1,2) lfring_map_of_nat [of i k]
    by (subst init_rest.simps) (simp add: store_slice_def add.commute)
  also have "\<dots> = Ret (take (Suc i) (buf[i := -1]) @ replicate (2 ^ k - Suc i) (-1))"
    by (rule Suc.hyps(1)) (use Suc i in auto)
  also have "take (Suc i) (buf[i := -1]) = take i buf @ [-1]"
    using Suc.prems(2) i by (simp add: take_Suc_conv_app_nth)
  finally show ?case
    using i by (simp add: Suc_diff_Suc [symmetric])
qed

text \<open>The full array: entries of cycle 0 for the indices below \<open>2 ^ o'\<close>, then free slots.\<close>

definition full_array :: "nat \<Rightarrow> usize list" where
  "full_array o' = map (\<lambda>j. 2 ^ Suc o' + of_nat j) [0..<2 ^ o'] @ replicate (2 ^ o') (-1)"

lemma initialize_atomic_array_full_eq:
  assumes "o' \<le> 60" "length buf = 2 ^ Suc o'"
  shows "initialize_atomic_array_full buf (2 ^ o') (2 ^ Suc o') = Ret (full_array o')"
proof -
  have f: "init_filled buf (2 ^ o') (2 ^ Suc o') 0
      = Ret (map (\<lambda>j. 2 ^ Suc o' + of_nat j) [0..<2 ^ o'] @ drop (2 ^ o') buf)"
    using init_filled_eq [OF assms, of 0] by simp
  have "init_rest (map (\<lambda>j. 2 ^ Suc o' + of_nat j) [0..<2 ^ o'] @ drop (2 ^ o') buf)
      (2 ^ Suc o') (of_nat (2 ^ o')) = Ret (full_array o')"
    by (subst init_rest_eq) (use assms in \<open>auto simp: full_array_def\<close>)
  then show ?thesis
    unfolding initialize_atomic_array_full_def f bind_exec.simps by simp
qed

lemma entry_of_first_cycle:
  assumes "t < 2 ^ k" "take_bit k x = x" "k \<le> 61"
  shows "entry_of k t x = 2 ^ k + x"
proof -
  have x: "bit x i \<Longrightarrow> i < k" for i
    using assms(2) by (metis bit_take_bit_iff)
  have "unat (cycle_of k t) = 2 ^ Suc k - 1"
    using assms power_le_62 [of k] by (subst unat_cycle_of62) auto
  also have "\<dots> = unat (mask (Suc k) :: usize)"
    using assms(3) by (subst unat_mask) (auto simp: mask_eq_exp_minus_1)
  finally have c: "cycle_of k t = mask (Suc k)"
    by (simp only: word_unat_eq_iff)
  have "entry_of k t x = (2 ^ k OR x)"
    by (rule bit_eqI) (use x assms c in \<open>auto simp: bit_entry_of bit_simps\<close>)
  also have "\<dots> = 2 ^ k + x"
    by (rule disjunctive_add [symmetric]) (use x in \<open>auto simp: bit_simps\<close>)
  finally show ?thesis .
qed

lemma slots_rep_empty: "slots_rep k 0 (replicate (2 ^ k) (-1)) []"
  by (simp add: slots_rep_def free_slot_def)

lemma slots_rep_full:
  assumes "o' \<le> 60"
  shows "slots_rep (Suc o') 0 (full_array o') (map of_nat [0..<2 ^ o'])"
proof -
  have e: "full_array o' ! i = entry_of (Suc o') i (of_nat i)" if i: "i < 2 ^ o'" for i
  proof -
    have "unat (of_nat i :: usize) = i"
      using i power_le_62 [of o'] assms by (intro unat_of_nat_small) simp
    then have "take_bit (Suc o') (of_nat i :: usize) = of_nat i"
      using i by (intro small_index [of _ o']) auto
    then have "entry_of (Suc o') i (of_nat i) = 2 ^ Suc o' + of_nat i"
      using i assms by (intro entry_of_first_cycle) auto
    then show ?thesis
      using i by (simp add: full_array_def nth_append)
  qed
  have f: "full_array o' ! j = -1" if "j < 2 ^ Suc o'" "\<forall>i<2 ^ o'. j \<noteq> i mod 2 ^ Suc o'" for j
  proof -
    have "\<not> j < 2 ^ o'"
      using that by force
    with that(1) show ?thesis
      by (simp add: full_array_def nth_append)
  qed
  show ?thesis
    unfolding slots_rep_def using e f by (auto simp: free_slot_def)
qed

lemma replicate_final: "replicate mode False ! 0 \<Longrightarrow> length (replicate mode False) = 1 \<Longrightarrow> False"
  by (cases mode) auto

lemma ring_rep_alloc_empty:
  assumes "unat ord \<le> 60" "mode \<le> 1"
  shows "ring_rep 0 (new_alloc_ring_empty mode ord w) []"
proof -
  have u: "unat (ord + 1) = Suc (unat ord)"
    using assms(1) by (intro unat_plus_one) simp
  then have "lfring_pow2 (ord + 1) = 2 ^ Suc (unat ord)"
    using assms(1) by (simp add: lfring_pow2_eq)
  then have "unat (lfring_pow2 (ord + 1)) = 2 ^ Suc (unat ord)"
    using assms(1) by (simp only: unat_two_power)
  then show ?thesis
    using assms slots_rep_empty [of "Suc (unat ord)"] replicate_final [of mode]
    by (auto simp: ring_rep_def ring_wf_def slot_bits_def new_alloc_ring_empty_def is_final_def
        new_from_sqalloc_def allocate_atomic_array_empty_def allocate_standard_atomic_array_def Let_def)
qed

lemma allocate_full_eq:
  assumes "unat ord \<le> 60"
  shows "allocate_atomic_array_full ord = Ret \<lparr>alloc_array = full_array (unat ord),
      alloc_tail = 2 ^ unat ord, alloc_thresh = lfring_threshold3 (2 ^ unat ord) (2 ^ Suc (unat ord))\<rparr>"
proof -
  have p: "lfring_pow2 ord = 2 ^ unat ord" "(2 :: usize) ^ unat ord * 2 = 2 ^ Suc (unat ord)"
    using assms by (simp_all add: lfring_pow2_eq)
  have "unat ((2 :: usize) ^ Suc (unat ord)) = 2 ^ Suc (unat ord)"
    using assms by (intro unat_two_power) simp
  then have "length (allocate_standard_atomic_array (2 ^ Suc (unat ord))) = 2 ^ Suc (unat ord)"
    by (simp only: allocate_standard_atomic_array_def length_replicate)
  from initialize_atomic_array_full_eq [OF assms this] show ?thesis
    unfolding allocate_atomic_array_full_def Let_def p by (simp del: power_Suc)
qed

lemma ring_rep_alloc_full:
  assumes "unat ord \<le> 60" "mode \<le> 1"
  shows "\<exists>r. new_alloc_ring_full mode ord w = Ret r \<and> ring_rep (2 ^ unat ord) r (map of_nat [0..<2 ^ unat ord])
           \<and> order r = ord \<and> is_finalized r = replicate mode False \<and> head r = 0
           \<and> threshold r = lfring_threshold3 (2 ^ unat ord) (2 ^ slot_bits r)"
proof -
  let ?o = "unat ord"
  let ?r = "\<lparr>is_finalized = replicate mode False, head = 0, tail = 2 ^ ?o,
     threshold = lfring_threshold3 (2 ^ ?o) (2 ^ Suc ?o), array = full_array ?o, order = ord, spurious = w\<rparr>"
  have r: "new_alloc_ring_full mode ord w = Ret ?r"
    by (simp add: new_alloc_ring_full_def allocate_full_eq [OF assms(1)] new_from_sqalloc_def)
  have wf: "ring_wf ?r"
    using assms by (simp add: ring_wf_def slot_bits_def full_array_def)
  have nf: "\<not> is_final ?r"
    using replicate_final [of mode] by (auto simp: is_final_def)
  have t: "unat ((2 :: usize) ^ ?o) = 2 ^ ?o"
    using assms(1) by (intro unat_two_power) simp
  have small: "unat (of_nat i :: usize) < 2 ^ ?o" if "i < 2 ^ ?o" for i
    using that power_le_62 [of ?o] assms(1) by (subst unat_of_nat_small) auto
  have rep: "ring_rep (2 ^ ?o) ?r (map of_nat [0..<2 ^ ?o])"
    using wf nf t small power_le_62 [of ?o] assms(1) slots_rep_full [OF assms(1)] ring_threshold_nonneg [OF wf]
    by (auto simp: ring_rep_def slot_bits_def ring_half_def)
  show ?thesis
    using r rep by (auto simp: slot_bits_def)
qed

text \<open>A stack ring of \<open>2 ^ (o' + 1)\<close> slots is the heap ring of order \<open>o'\<close>.\<close>

lemma ilog2_power: "ilog2 (2 ^ m) = m"
proof (induction m)
  case 0
  show ?case by (subst ilog2.simps) simp
next
  case (Suc m)
  have "\<not> (2 :: nat) ^ Suc m < 2" by simp
  with Suc show ?case by (subst ilog2.simps) simp
qed

lemma even_two_power: "0 < m \<Longrightarrow> m < 64 \<Longrightarrow> (2 :: usize) ^ m mod 2 = 0"
proof -
  assume "0 < m" "m < 64"
  then have "unat ((2 :: usize) ^ m mod 2) = 2 ^ m mod 2"
    using unat_two_power [of m] by (simp add: unat_mod)
  also have "\<dots> = 0"
    using \<open>0 < m\<close> by simp
  finally show ?thesis
    by (simp add: unat_eq_zero)
qed

lemma determine_order_two_power: "m < 64 \<Longrightarrow> determine_order (2 ^ m) = Ret (of_nat m)"
  using even_two_power [of m] unat_two_power [of m] ilog2_power [of 0]
  by (cases "m = 0") (auto simp: determine_order_def checked_ilog2_def ilog2_power)

lemma determine_order_const_two_power:
  "m < 63 \<Longrightarrow> determine_order_const (2 ^ Suc m) = Ret (of_nat m)"
  using even_two_power [of "Suc m"] unat_two_power [of "Suc m"]
  by (auto simp: determine_order_const_def checked_ilog2_def ilog2_power simp del: power_Suc)

lemma drop_bit_two_power: "m < 63 \<Longrightarrow> drop_bit 1 ((2 :: usize) ^ Suc m) = 2 ^ m"
  by (rule bit_eqI) (auto simp: bit_simps)

lemma new_const_ring_empty_eq:
  assumes "o' \<le> 60"
  shows "new_const_ring_empty mode (2 ^ Suc o') w = Ret (new_alloc_ring_empty mode (of_nat o') w)"
proof -
  have u: "unat (of_nat o' :: usize) = o'"
    using assms by (intro unat_of_nat_small) simp
  have "unat (of_nat o' + 1 :: usize) = Suc o'"
    using unat_plus_one [of "of_nat o'"] u assms by simp
  then have "lfring_pow2 (of_nat o' + 1) = 2 ^ Suc o'"
    using assms by (simp add: lfring_pow2_eq)
  then show ?thesis
    using assms by (simp add: new_const_ring_empty_def determine_order_const_two_power
        new_alloc_ring_empty_def create_const_atomic_array_empty_def allocate_atomic_array_empty_def
        allocate_standard_atomic_array_def Let_def del: power_Suc)
qed

lemma new_const_ring_full_eq:
  assumes "o' \<le> 60"
  shows "new_const_ring_full mode (2 ^ Suc o') w = new_alloc_ring_full mode (of_nat o') w"
proof -
  have u: "unat (of_nat o' :: usize) = o'" "unat ((2 :: usize) ^ Suc o') = 2 ^ Suc o'"
    using assms unat_of_nat_small [of o'] unat_two_power [of "Suc o'"] by simp_all
  have "create_const_atomic_array_full (2 ^ Suc o') = allocate_atomic_array_full (of_nat o')"
    using assms u allocate_full_eq [of "of_nat o'"] drop_bit_two_power [of o']
      initialize_atomic_array_full_eq [of o' "replicate (2 ^ Suc o') (-1)"]
    by (simp add: create_const_atomic_array_full_def Let_def del: power_Suc)
  then show ?thesis
    using assms by (simp add: new_const_ring_full_def new_alloc_ring_full_def
        determine_order_const_two_power del: power_Suc)
qed

section \<open>Filling a ring by enqueueing\<close>

text \<open>The loop \<open>for i in xs { ring.enqueue(i).unwrap() }\<close>.\<close>

fun enqueue_all :: "scq_ring \<Rightarrow> usize list \<Rightarrow> scq_ring run" where
  "enqueue_all r [] = ret r"
| "enqueue_all r (x # xs) = bind_run (ring_enqueue r x) (\<lambda>(res, r').
     case res of Inl _ \<Rightarrow> Some Panic | Inr _ \<Rightarrow> enqueue_all r' xs)"

lemma enqueue_all_rep:
  assumes "ring_rep c r ys" "\<not> is_final r" "length ys + length xs \<le> 2 ^ slot_bits r"
    and "\<forall>x\<in>set xs. unat x < ring_half r" "c + length xs < 2 ^ 62"
  shows "\<exists>r'. enqueue_all r xs = ret r' \<and> ring_rep (c + length xs) r' (ys @ xs) \<and> same_shape r r'
            \<and> head r' = head r
            \<and> (xs \<noteq> [] \<longrightarrow> threshold r' = lfring_threshold3 (2 ^ unat (order r)) (2 ^ slot_bits r))"
  using assms
proof (induction xs arbitrary: r ys c)
  case Nil
  then show ?case by simp
next
  case (Cons x xs)
  obtain r1 where r1: "ring_enqueue r x = ret (Inr (), r1)" "ring_rep (Suc c) r1 (ys @ [x])"
      "same_shape r r1" "head r1 = head r"
      "threshold r1 = lfring_threshold3 (2 ^ unat (order r)) (2 ^ slot_bits r)"
    using ring_enqueue_ok [OF Cons.prems(1,2), of x] Cons.prems(3-5) by auto
  note sh = same_shape_facts [OF r1(3)]
  have "\<exists>r'. enqueue_all r1 xs = ret r' \<and> ring_rep (Suc c + length xs) r' ((ys @ [x]) @ xs)
      \<and> same_shape r1 r' \<and> head r' = head r1
      \<and> (xs \<noteq> [] \<longrightarrow> threshold r' = lfring_threshold3 (2 ^ unat (order r1)) (2 ^ slot_bits r1))"
    using Cons.prems sh by (intro Cons.IH [OF r1(2)]) auto
  then obtain r2 where r2: "enqueue_all r1 xs = ret r2" "ring_rep (Suc c + length xs) r2 ((ys @ [x]) @ xs)"
      "same_shape r1 r2" "head r2 = head r1"
      "xs \<noteq> [] \<longrightarrow> threshold r2 = lfring_threshold3 (2 ^ unat (order r1)) (2 ^ slot_bits r1)"
    by blast
  have "enqueue_all r (x # xs) = ret r2"
    using r1(1) r2(1) by simp
  moreover have "threshold r2 = lfring_threshold3 (2 ^ unat (order r)) (2 ^ slot_bits r)"
    using r1(1,5) r2(1,5) sh by (cases xs) auto
  ultimately show ?case
    using r2(2-4) r1(3,4) same_shape_trans by auto
qed

text \<open>A ring whose head is still 0 is determined, slot by slot, by the list it holds.\<close>

lemma slots_rep_start_unique:
  assumes "slots_rep k 0 a xs" "slots_rep k 0 b xs" "length a = 2 ^ k" "length b = 2 ^ k"
  shows "a = b"
proof (rule nth_equalityI)
  fix j
  assume "j < length a"
  then have j: "j < 2 ^ k" using assms(3) by simp
  show "a ! j = b ! j"
  proof (cases "j < length xs")
    case True
    with assms(1,2) j show ?thesis
      by (metis add_0 mod_less slots_rep_def)
  next
    case False
    have "length xs \<le> 2 ^ k"
      using assms(1) by (simp add: slots_rep_def)
    then have "\<forall>i<length xs. j \<noteq> (0 + i) mod 2 ^ k"
      using False by auto
    then have "free_slot k 0 j (a ! j)" "free_slot k 0 j (b ! j)"
      using assms(1,2) j by (simp_all add: slots_rep_def)
    then show ?thesis
      by (simp add: free_slot_def)
  qed
qed (use assms in simp)

end
