(* ===== verification/IndexRing.thy ===== *)
theory IndexRing
  imports ScqRingInit
begin

text \<open>
  The contract between the ring and its clients: the locale \<open>index_ring\<close> names the two operations the
  bounded queue calls and the laws it relies on. Inside it stand the facts clients share: moving one
  index between two rings (the step both operations of a bounded queue consist of) and the
  refinement of whole scripts of calls. The interpretation \<open>scq\<close> proves the laws for the model of
  \<open>ScqRing\<close>; the properties of the ring follow.
\<close>

section \<open>Scripts of calls\<close>

datatype ring_instr = EnqueueIndex usize | DequeueIndex

datatype ring_out = EnqueueOut "scq_error + unit" | DequeueOut "usize option"

text \<open>Calls in sequence on the ring, and on the list it stands for.\<close>

fun ring_script ::
  "('r \<Rightarrow> usize \<Rightarrow> ((scq_error + unit) \<times> 'r) run) \<Rightarrow> ('r \<Rightarrow> (usize option \<times> 'r) run)
     \<Rightarrow> ring_instr list \<Rightarrow> 'r \<Rightarrow> (ring_out list \<times> 'r) run"
where
  "ring_script enq deq [] r = ret ([], r)"
| "ring_script enq deq (EnqueueIndex x # is) r =
     bind_run (enq r x) (\<lambda>(res, r').
       bind_run (ring_script enq deq is r') (\<lambda>(outs, r''). ret (EnqueueOut res # outs, r'')))"
| "ring_script enq deq (DequeueIndex # is) r =
     bind_run (deq r) (\<lambda>(res, r').
       bind_run (ring_script enq deq is r') (\<lambda>(outs, r''). ret (DequeueOut res # outs, r'')))"

fun list_script :: "nat \<Rightarrow> ring_instr list \<Rightarrow> usize list \<Rightarrow> ring_out list \<times> usize list" where
  "list_script half [] xs = ([], xs)"
| "list_script half (EnqueueIndex x # is) xs =
     (if unat x < half
      then (let (outs, ys) = list_script half is (xs @ [x]) in (EnqueueOut (Inr ()) # outs, ys))
      else (let (outs, ys) = list_script half is xs
            in (EnqueueOut (Inl IndexLargerThanOrder) # outs, ys)))"
| "list_script half (DequeueIndex # is) xs =
     (let (outs, ys) = list_script half is (List.tl xs)
      in (DequeueOut (case xs of [] \<Rightarrow> None | x # _ \<Rightarrow> Some x) # outs, ys))"

text \<open>No accepted enqueue meets a list of \<open>slots\<close> entries.\<close>

fun script_fits :: "nat \<Rightarrow> nat \<Rightarrow> ring_instr list \<Rightarrow> usize list \<Rightarrow> bool" where
  "script_fits half slots [] xs \<longleftrightarrow> True"
| "script_fits half slots (EnqueueIndex x # is) xs \<longleftrightarrow>
     (if unat x < half then length xs < slots \<and> script_fits half slots is (xs @ [x])
      else script_fits half slots is xs)"
| "script_fits half slots (DequeueIndex # is) xs \<longleftrightarrow> script_fits half slots is (List.tl xs)"

section \<open>The contract\<close>

locale index_ring =
  fixes enq :: "'r \<Rightarrow> usize \<Rightarrow> ((scq_error + unit) \<times> 'r) run"
    and deq :: "'r \<Rightarrow> (usize option \<times> 'r) run"
    and rep :: "nat \<Rightarrow> 'r \<Rightarrow> usize list \<Rightarrow> bool"
    and half :: "'r \<Rightarrow> nat"
    and final :: "'r \<Rightarrow> bool"
    and shape :: "'r \<Rightarrow> 'r \<Rightarrow> bool"
  assumes enq_ok: "\<lbrakk>rep c r xs; \<not> final r; length xs < 2 * half r; unat x < half r; Suc c < 2 ^ 62\<rbrakk>
      \<Longrightarrow> \<exists>r'. enq r x = ret (Inr (), r') \<and> rep (Suc c) r' (xs @ [x]) \<and> shape r r'"
    and enq_large: "rep c r xs \<Longrightarrow> half r \<le> unat x \<Longrightarrow> enq r x = ret (Inl IndexLargerThanOrder, r)"
    and enq_final: "\<lbrakk>rep c r xs; final r; length xs < 2 * half r; unat x < half r;
        c + 2 * half r < 2 ^ 62\<rbrakk>
      \<Longrightarrow> \<exists>r'. enq r x = ret (Inl QueueFinalized, r') \<and> rep (c + 2 * half r) r' xs \<and> shape r r'"
    and deq_some: "rep c r (x # xs)
      \<Longrightarrow> \<exists>r'. deq r = ret (Some x, r') \<and> rep c r' xs \<and> shape r r'"
    and deq_none: "rep c r [] \<Longrightarrow> Suc c < 2 ^ 62
      \<Longrightarrow> \<exists>r'. deq r = ret (None, r') \<and> rep (Suc c) r' [] \<and> shape r r'"
    and rep_clock: "rep c r xs \<Longrightarrow> c \<le> c' \<Longrightarrow> c' < 2 ^ 62 \<Longrightarrow> rep c' r xs"
    and rep_bound: "rep c r xs \<Longrightarrow> x \<in> set xs \<Longrightarrow> unat x < half r"
    and rep_limit: "rep c r xs \<Longrightarrow> c < 2 ^ 62"
    and shape_half: "shape r r' \<Longrightarrow> half r' = half r"
    and shape_final: "shape r r' \<Longrightarrow> final r' = final r"
    and shape_refl: "shape r r"
    and shape_trans: "shape r s \<Longrightarrow> shape s t \<Longrightarrow> shape r t"
begin

text \<open>The oldest index of one ring goes to the end of another of the same size.\<close>

lemma move_index:
  assumes "rep c a (i # xs)" "rep c b ys" "half a = half b" "\<not> final b"
    and "length ys < 2 * half b" "Suc c < 2 ^ 62"
  shows "\<exists>a' b'. deq a = ret (Some i, a') \<and> rep c a' xs \<and> shape a a'
            \<and> enq b i = ret (Inr (), b') \<and> rep (Suc c) b' (ys @ [i]) \<and> shape b b'"
proof -
  have "unat i < half b"
    using rep_bound [OF assms(1), of i] assms(3) by simp
  then show ?thesis
    using deq_some [OF assms(1)] enq_ok [OF assms(2,4,5) _ assms(6)] by blast
qed

text \<open>Every call returns.\<close>

lemma deq_returns:
  assumes "rep c r xs" "Suc c < 2 ^ 62"
  shows "\<exists>r'. deq r = ret (case xs of [] \<Rightarrow> None | x # _ \<Rightarrow> Some x, r')
            \<and> rep (Suc c) r' (List.tl xs) \<and> shape r r'"
proof (cases xs)
  case Nil
  with assms deq_none show ?thesis by simp
next
  case (Cons x ys)
  then obtain r' where "deq r = ret (Some x, r')" "rep c r' ys" "shape r r'"
    using assms(1) deq_some by blast
  with Cons assms(2) show ?thesis
    using rep_clock [of c r' ys "Suc c"] by auto
qed

lemma script_refines:
  assumes "rep c r xs" "\<not> final r" "script_fits (half r) (2 * half r) is xs" "c + length is < 2 ^ 62"
  shows "\<exists>r'. ring_script enq deq is r = ret (fst (list_script (half r) is xs), r')
            \<and> rep (c + length is) r' (snd (list_script (half r) is xs)) \<and> shape r r'"
  using assms
proof (induction "is" arbitrary: c r xs)
  case Nil
  then show ?case by (simp add: shape_refl)
next
  case (Cons i "is")
  have c: "Suc c < 2 ^ 62" using Cons.prems(4) by simp
  have tail_run: "\<exists>r2. ring_script enq deq is r1 = ret (fst (list_script (half r) is ys), r2)
      \<and> rep (c + length (i # is)) r2 (snd (list_script (half r) is ys)) \<and> shape r r2"
    if "rep (Suc c) r1 ys" "shape r r1" "script_fits (half r) (2 * half r) is ys" for r1 ys
    using Cons.IH [OF that(1)] that Cons.prems(2,4) shape_half [OF that(2)] shape_final [OF that(2)]
      shape_trans [OF that(2)] by auto
  show ?case
  proof (cases i)
    case (EnqueueIndex x)
    show ?thesis
    proof (cases "unat x < half r")
      case True
      with Cons.prems EnqueueIndex obtain r1 where
        "enq r x = ret (Inr (), r1)" "rep (Suc c) r1 (xs @ [x])" "shape r r1"
        using enq_ok [OF Cons.prems(1,2) _ True c] by auto
      with tail_run [of r1 "xs @ [x]"] True Cons.prems(3) EnqueueIndex show ?thesis
        by (auto simp: split_beta)
    next
      case False
      then have "enq r x = ret (Inl IndexLargerThanOrder, r)"
        using enq_large [OF Cons.prems(1)] by simp
      with tail_run [of r xs] False Cons.prems(3) EnqueueIndex rep_clock [OF Cons.prems(1) _ c] shape_refl
      show ?thesis by (auto simp: split_beta)
    qed
  next
    case DequeueIndex
    obtain r1 where "deq r = ret (case xs of [] \<Rightarrow> None | x # _ \<Rightarrow> Some x, r1)"
        "rep (Suc c) r1 (List.tl xs)" "shape r r1"
      using deq_returns [OF Cons.prems(1) c] by blast
    with tail_run [of r1 "List.tl xs"] Cons.prems(3) DequeueIndex show ?thesis
      by (auto simp: split_beta)
  qed
qed

end

section \<open>The ring of the code meets the contract\<close>

lemma ring_rep_too_large:
  "ring_rep c r xs \<Longrightarrow> ring_half r \<le> unat x \<Longrightarrow> ring_enqueue r x = ret (Inl IndexLargerThanOrder, r)"
  by (intro ring_enqueue_too_large ring_rep_wf)

lemma ring_rep_bound: "ring_rep c r xs \<Longrightarrow> x \<in> set xs \<Longrightarrow> unat x < ring_half r"
  by (simp add: ring_rep_def)

lemma ring_rep_limit: "ring_rep c r xs \<Longrightarrow> c < 2 ^ 62"
  by (simp add: ring_rep_def)

interpretation scq: index_ring ring_enqueue ring_dequeue ring_rep ring_half is_final same_shape
proof unfold_locales
  show "\<exists>r'. ring_enqueue r x = ret (Inr (), r') \<and> ring_rep (Suc c) r' (xs @ [x]) \<and> same_shape r r'"
    if "ring_rep c r xs" "\<not> is_final r" "length xs < 2 * ring_half r" "unat x < ring_half r"
      "Suc c < 2 ^ 62" for c r xs x
    using ring_enqueue_ok [OF that(1,2) _ that(4,5)] that(3) by (auto simp: two_halves)
  show "\<exists>r'. ring_enqueue r x = ret (Inl QueueFinalized, r')
          \<and> ring_rep (c + 2 * ring_half r) r' xs \<and> same_shape r r'"
    if "ring_rep c r xs" "is_final r" "length xs < 2 * ring_half r" "unat x < ring_half r"
      "c + 2 * ring_half r < 2 ^ 62" for c r xs x
    using ring_enqueue_final [OF that(1,2) _ that(4)] that(3,5) by (simp add: two_halves)
qed (fact ring_rep_too_large ring_dequeue_some ring_dequeue_none ring_rep_clock ring_rep_bound
    ring_rep_limit same_shape_facts same_shape_refl same_shape_trans)+

end
