(* ===== verification/BoundedQueue.thy ===== *)
theory BoundedQueue
  imports IndexRing
begin

text \<open>
  The bounded queue \<open>BoundedQueue\<close> of \<open>src/scq.rs\<close> and its heap constructor of \<open>src/lfstd.rs\<close>: two index
  rings over one backing array. A slot of the array is \<open>None\<close> while it holds no initialised value, so
  a read that would be undefined behaviour (uninitialised, moved out, or out of range through
  \<open>get_unchecked\<close>) is the outcome \<open>UB\<close>.
\<close>

section \<open>The queue\<close>

datatype queue_error = QueueFull | QueueFinalized

record 'a bounded_queue =
  backing :: "'a option list"
  free_queue :: scq_ring
  alloc_queue :: scq_ring
  used :: usize

definition bq_capacity :: "'a bounded_queue \<Rightarrow> usize" where
  "bq_capacity q = ring_capacity (free_queue q)"

text \<open>\<open>w1\<close> and \<open>w2\<close> fix the ghost fields of the two rings.\<close>

definition new_const :: "usize \<Rightarrow> bool list \<Rightarrow> bool list \<Rightarrow> 'a bounded_queue exec" where
  "new_const N w1 w2 =
     (if N mod 2 \<noteq> 0 then Panic
      else if N = 0 then Panic
      else bind_exec (new_const_ring_empty 0 N w1) (\<lambda>alloc.
             bind_exec (new_const_ring_full 0 N w2) (\<lambda>free.
               Ret \<lparr>backing = replicate (unat N) None, free_queue = free, alloc_queue = alloc,
                    used = 0\<rparr>)))"

text \<open>The macro \<open>const_queue!\<close>: its assertions fail at compile time, here as a panic.\<close>

definition const_queue :: "usize \<Rightarrow> bool list \<Rightarrow> bool list \<Rightarrow> 'a bounded_queue exec" where
  "const_queue sz w1 w2 =
     (if sz = 0 then Panic
      else if \<not> (sz mod 2 = 0 \<or> sz = 1) then Panic
      else new_const (sz * 2) w1 w2)"

definition new_alloc :: "nat \<Rightarrow> usize \<Rightarrow> bool list \<Rightarrow> bool list \<Rightarrow> 'a bounded_queue exec" where
  "new_alloc mode sz w1 w2 =
     bind_exec (determine_order sz) (\<lambda>ord.
       bind_exec (new_alloc_ring_full mode ord w2) (\<lambda>free.
         Ret \<lparr>backing = replicate (unat (2 * sz)) None, free_queue = free,
              alloc_queue = new_alloc_ring_empty mode ord w1, used = 0\<rparr>))"

text \<open>Access through \<open>index_ptr\<close>: \<open>MaybeUninit::write\<close> and \<open>assume_init_read\<close>, which moves out.\<close>

definition write_slot :: "usize \<Rightarrow> 'a \<Rightarrow> 'a bounded_queue \<Rightarrow> 'a bounded_queue run" where
  "write_slot index item q =
     (if unat index < length (backing q)
      then ret (q\<lparr>backing := (backing q)[unat index := Some item]\<rparr>)
      else Some UB)"

definition read_slot :: "usize \<Rightarrow> 'a bounded_queue \<Rightarrow> ('a \<times> 'a bounded_queue) run" where
  "read_slot index q =
     (if unat index < length (backing q)
      then (case backing q ! unat index of
              None \<Rightarrow> Some UB
            | Some v \<Rightarrow> ret (v, q\<lparr>backing := (backing q)[unat index := None]\<rparr>))
      else Some UB)"

definition enqueue_cycle ::
  "bool \<Rightarrow> 'a bounded_queue \<Rightarrow> 'a \<Rightarrow> (('a \<times> queue_error + unit) \<times> 'a bounded_queue) run"
where
  "enqueue_cycle FINALIZE q item =
     (let size = used q;
          q1 = q\<lparr>used := size + 1\<rparr>
      in if size \<ge> ring_capacity (free_queue q1)
         then ret (Inl (item, QueueFull), q1\<lparr>used := used q1 - 1\<rparr>)
         else
           bind_run (ring_dequeue (free_queue q1)) (\<lambda>(popt, fq).
             let q2 = q1\<lparr>free_queue := fq\<rparr>
             in case popt of
                  None \<Rightarrow> ret (Inl (item, QueueFull), q2\<lparr>used := used q2 - 1\<rparr>)
                | Some pos \<Rightarrow>
                    bind_run (write_slot pos item q2) (\<lambda>q3.
                      bind_run (ring_enqueue (alloc_queue q3) pos) (\<lambda>(res, aq).
                        let q4 = q3\<lparr>alloc_queue := aq\<rparr>
                        in case res of
                             Inl error \<Rightarrow>
                               (let q5 = q4\<lparr>used := used q4 - 1\<rparr>
                                in bind_run (read_slot pos q5) (\<lambda>(item', q6).
                                     bind_run (ring_enqueue (free_queue q6) pos) (\<lambda>(res2, fq2).
                                       case res2 of
                                         Inl _ \<Rightarrow> Some Panic
                                       | Inr _ \<Rightarrow>
                                           ret (Inl (item', queue_error.QueueFinalized),
                                                q6\<lparr>free_queue := fq2\<rparr>))))
                           | Inr _ \<Rightarrow>
                               ret (Inr (),
                                    if FINALIZE \<and> size + 1 \<ge> ring_capacity (free_queue q4)
                                    then q4\<lparr>alloc_queue := finalize (alloc_queue q4)\<rparr>
                                    else q4)))))"

definition bq_enqueue :: "'a bounded_queue \<Rightarrow> 'a \<Rightarrow> (('a + unit) \<times> 'a bounded_queue) run" where
  "bq_enqueue q item =
     bind_run (enqueue_cycle False q item) (\<lambda>(res, q').
       ret (case res of Inl (a, _) \<Rightarrow> Inl a | Inr u \<Rightarrow> Inr u, q'))"

definition bq_dequeue :: "'a bounded_queue \<Rightarrow> ('a option \<times> 'a bounded_queue) run" where
  "bq_dequeue q =
     bind_run (ring_dequeue (alloc_queue q)) (\<lambda>(popt, aq).
       let q1 = q\<lparr>alloc_queue := aq\<rparr>
       in case popt of
            None \<Rightarrow> ret (None, q1)
          | Some pos \<Rightarrow>
              (let q2 = q1\<lparr>used := used q1 - 1\<rparr>
               in bind_run (read_slot pos q2) (\<lambda>(value, q3).
                    bind_run (ring_enqueue (free_queue q3) pos) (\<lambda>(res, fq).
                      case res of
                        Inl _ \<Rightarrow> Some Panic
                      | Inr _ \<Rightarrow> ret (Some value, q3\<lparr>free_queue := fq\<rparr>)))))"

text \<open>\<open>Drop\<close>: the values it drops, in order, are collected in front.\<close>

definition drop_slot :: "usize \<Rightarrow> 'a bounded_queue \<Rightarrow> ('a \<times> 'a bounded_queue) run" where
  "drop_slot index q =
     (if unat index < length (backing q)
      then (case backing q ! unat index of
              None \<Rightarrow> Some UB
            | Some v \<Rightarrow> ret (v, q\<lparr>backing := (backing q)[unat index := None]\<rparr>))
      else Some Panic)"

partial_function (option) bq_drop_loop ::
  "'a list \<Rightarrow> 'a bounded_queue \<Rightarrow> ('a list \<times> 'a bounded_queue) run"
where
  "bq_drop_loop dropped q =
     bind_run (ring_dequeue (alloc_queue q)) (\<lambda>p.
       case p of (popt, aq) \<Rightarrow>
         (case popt of
            None \<Rightarrow> ret (dropped, q\<lparr>alloc_queue := aq\<rparr>)
          | Some inner \<Rightarrow>
              bind_run (drop_slot inner (q\<lparr>alloc_queue := aq\<rparr>)) (\<lambda>p'.
                case p' of (v, q') \<Rightarrow> bq_drop_loop (dropped @ [v]) q')))"

declare bq_drop_loop.simps [code]

definition bq_drop :: "'a bounded_queue \<Rightarrow> ('a list \<times> 'a bounded_queue) run" where
  "bq_drop q = bq_drop_loop [] q"

section \<open>The representation\<close>

definition bq_cap :: "'a bounded_queue \<Rightarrow> nat" where
  "bq_cap q = ring_half (free_queue q)"

definition bq_closed :: "'a bounded_queue \<Rightarrow> bool" where
  "bq_closed q \<longleftrightarrow> is_final (alloc_queue q)"

definition bq_sealable :: "'a bounded_queue \<Rightarrow> bool" where
  "bq_sealable q \<longleftrightarrow> length (is_finalized (alloc_queue q)) = 1"

text \<open>
  The two rings hold every index exactly once between them; the slots of the allocated indices are
  initialised and hold the queue's values in order, no other slot is.
\<close>

definition bq_inv ::
  "nat \<Rightarrow> 'a bounded_queue \<Rightarrow> usize list \<Rightarrow> usize list \<Rightarrow> 'a list \<Rightarrow> bool"
where
  "bq_inv c q as fs vs \<longleftrightarrow>
     ring_rep c (alloc_queue q) as \<and> ring_rep c (free_queue q) fs
     \<and> \<not> is_final (free_queue q) \<and> ring_half (alloc_queue q) = bq_cap q
     \<and> distinct (as @ fs) \<and> length as + length fs = bq_cap q
     \<and> unat (used q) = length as
     \<and> bq_cap q \<le> length (backing q)
     \<and> map (\<lambda>i. backing q ! unat i) as = map Some vs
     \<and> (\<forall>j<length (backing q). j \<notin> unat ` set as \<longrightarrow> backing q ! j = None)"

definition bq_rep :: "nat \<Rightarrow> 'a bounded_queue \<Rightarrow> 'a list \<Rightarrow> bool" where
  "bq_rep c q vs \<longleftrightarrow> (\<exists>as fs. bq_inv c q as fs vs)"

lemma bq_inv_length: "bq_inv c q as fs vs \<Longrightarrow> length vs = length as"
  by (metis bq_inv_def length_map)

lemma bq_rep_length: "bq_rep c q vs \<Longrightarrow> length vs \<le> bq_cap q"
  by (auto simp: bq_rep_def bq_inv_def dest: bq_inv_length) (metis le_add1 length_map)

text \<open>What no operation changes.\<close>

definition bq_shape :: "'a bounded_queue \<Rightarrow> 'a bounded_queue \<Rightarrow> bool" where
  "bq_shape q q' \<longleftrightarrow> bq_cap q' = bq_cap q \<and> bq_sealable q' = bq_sealable q"

lemma bq_shape_refl [simp]: "bq_shape q q"
  by (simp add: bq_shape_def)

lemma bq_shape_trans: "bq_shape q r \<Longrightarrow> bq_shape r s \<Longrightarrow> bq_shape q s"
  by (simp add: bq_shape_def)

section \<open>The backing array\<close>

lemma backing_write:
  assumes "map (\<lambda>i. b ! unat i) as = map Some vs" "f \<notin> set as" "unat f < length b"
  shows "map (\<lambda>i. b[unat f := Some v] ! unat i) (as @ [f]) = map Some (vs @ [v])"
proof -
  have "b[unat f := Some v] ! unat i = b ! unat i" if "i \<in> set as" for i
    using that assms(2) by (metis nth_list_update_neq word_unat_eq_iff)
  then have "map (\<lambda>i. b[unat f := Some v] ! unat i) as = map (\<lambda>i. b ! unat i) as"
    by simp
  with assms show ?thesis by simp
qed

lemma backing_read:
  assumes "map (\<lambda>i. b ! unat i) (a # as) = map Some (v # vs)" "a \<notin> set as"
  shows "b ! unat a = Some v" "map (\<lambda>i. b[unat a := None] ! unat i) as = map Some vs"
proof -
  show "b ! unat a = Some v" using assms(1) by simp
  have "b[unat a := None] ! unat i = b ! unat i" if "i \<in> set as" for i
    using that assms(2) by (metis nth_list_update_neq word_unat_eq_iff)
  then have "map (\<lambda>i. b[unat a := None] ! unat i) as = map (\<lambda>i. b ! unat i) as"
    by simp
  with assms show "map (\<lambda>i. b[unat a := None] ! unat i) as = map Some vs" by simp
qed

lemma backing_clear:
  assumes "\<forall>j<length b. j \<notin> unat ` set (a # as) \<longrightarrow> b ! j = None"
  shows "\<forall>j<length b. j \<notin> unat ` set as \<longrightarrow> b[unat a := None] ! j = None"
proof (intro allI impI)
  fix j
  assume "j < length b" "j \<notin> unat ` set as"
  with assms show "b[unat a := None] ! j = None"
    by (cases "j = unat a") auto
qed

lemma bq_clock:
  assumes "bq_rep c q vs" "c \<le> c'" "c' < 2 ^ 62"
  shows "bq_rep c' q vs"
proof -
  obtain as fs where inv: "bq_inv c q as fs vs"
    using assms(1) by (auto simp: bq_rep_def)
  then have "bq_inv c' q as fs vs"
    using scq.rep_clock [OF _ assms(2,3)] by (auto simp: bq_inv_def)
  then show ?thesis by (auto simp: bq_rep_def)
qed

lemma bq_inv_index:
  assumes "bq_inv c q as fs vs" "i \<in> set as \<union> set fs"
  shows "unat i < bq_cap q" "unat i < length (backing q)"
proof -
  show "unat i < bq_cap q"
    using assms scq.rep_bound by (auto simp: bq_inv_def bq_cap_def) metis
  with assms(1) show "unat i < length (backing q)"
    by (auto simp: bq_inv_def)
qed

lemma bq_used_capacity:
  assumes "bq_inv c q as fs vs"
  shows "unat (ring_capacity (free_queue q)) = bq_cap q" "bq_cap q \<le> 2 ^ 60"
    "used q \<ge> ring_capacity (free_queue q) \<longleftrightarrow> length as \<ge> bq_cap q"
    "used q + 1 \<ge> ring_capacity (free_queue q) \<longleftrightarrow> Suc (length as) \<ge> bq_cap q"
    "unat (used q + 1) = Suc (length as)"
proof -
  have w: "ring_wf (free_queue q)"
    using assms by (auto simp: bq_inv_def intro: ring_rep_wf)
  then show cap: "unat (ring_capacity (free_queue q)) = bq_cap q"
    by (simp add: ring_words(4) bq_cap_def)
  show le: "bq_cap q \<le> 2 ^ 60"
    using w unfolding bq_cap_def ring_half_def ring_wf_def by (intro power_increasing) auto
  have u: "unat (used q) = length as" "length as \<le> bq_cap q"
    using assms by (auto simp: bq_inv_def)
  then show u1: "unat (used q + 1) = Suc (length as)"
    using le unat_plus_one [of "used q"] by simp
  show "used q \<ge> ring_capacity (free_queue q) \<longleftrightarrow> length as \<ge> bq_cap q"
    "used q + 1 \<ge> ring_capacity (free_queue q) \<longleftrightarrow> Suc (length as) \<ge> bq_cap q"
    by (simp_all add: word_le_nat_alt cap u u1)
qed

section \<open>enqueue\<close>

lemma finalize_frame [simp]:
  "ring_half (finalize r) = ring_half r" "length (is_finalized (finalize r)) = length (is_finalized r)"
  by (simp_all add: finalize_def ring_half_def)

text \<open>With room in an open queue the value goes to the end; the last one closes a sealable queue.\<close>

lemma enqueue_cycle_room:
  assumes rep: "bq_rep c q vs" and room: "length vs < bq_cap q" and opn: "\<not> bq_closed q"
    and c: "Suc c < 2 ^ 62"
  shows "\<exists>q'. enqueue_cycle fin q v = ret (Inr (), q') \<and> bq_rep (Suc c) q' (vs @ [v]) \<and> bq_shape q q'
            \<and> (bq_closed q' \<longleftrightarrow> fin \<and> bq_sealable q \<and> Suc (length vs) = bq_cap q)"
proof -
  obtain as fs where inv: "bq_inv c q as fs vs"
    using rep by (auto simp: bq_rep_def)
  note len = bq_inv_length [OF inv]
  note cap = bq_used_capacity [OF inv]
  have f: "\<exists>f fs'. fs = f # fs'"
    using inv room len by (cases fs) (auto simp: bq_inv_def)
  then obtain f fs' where fs: "fs = f # fs'" by blast
  have reps: "ring_rep c (alloc_queue q) as" "ring_rep c (free_queue q) (f # fs')"
    and half: "ring_half (alloc_queue q) = ring_half (free_queue q)"
    and dist: "distinct (as @ f # fs')" and tot: "length as + length fs = bq_cap q"
    and bk: "map (\<lambda>i. backing q ! unat i) as = map Some vs" and bl: "bq_cap q \<le> length (backing q)"
    and rest: "\<forall>j<length (backing q). j \<notin> unat ` set as \<longrightarrow> backing q ! j = None"
    using inv by (auto simp: bq_inv_def fs bq_cap_def)
  have fb: "unat f < length (backing q)"
    using bq_inv_index(2) [OF inv] fs by simp
  obtain fq aq where fq: "ring_dequeue (free_queue q) = ret (Some f, fq)" "ring_rep c fq fs'"
      "same_shape (free_queue q) fq"
    and aq: "ring_enqueue (alloc_queue q) f = ret (Inr (), aq)" "ring_rep (Suc c) aq (as @ [f])"
      "same_shape (alloc_queue q) aq"
    using scq.move_index [OF reps(2,1) half [symmetric], of] opn room len tot c
    by (auto simp: bq_closed_def bq_cap_def half)
  let ?fin = "fin \<and> Suc (length vs) \<ge> bq_cap q"
  let ?q' = "q\<lparr>used := used q + 1, free_queue := fq, backing := (backing q)[unat f := Some v],
      alloc_queue := if ?fin then finalize aq else aq\<rparr>"
  have "enqueue_cycle fin q v = ret (Inr (), ?q')"
    using room len cap(3,4) fb same_shape_facts [OF fq(3)]
    by (simp add: enqueue_cycle_def Let_def fq(1) aq(1) write_slot_def)
  moreover have "bq_inv (Suc c) ?q' (as @ [f]) fs' (vs @ [v])"
  proof -
    have "ring_rep (Suc c) (alloc_queue ?q') (as @ [f])"
      using aq(2) ring_rep_finalize by simp
    moreover have "ring_rep (Suc c) fq fs'"
      using scq.rep_clock [OF fq(2) _ c] by simp
    moreover have "\<forall>j<length (backing q). j \<notin> unat ` set (as @ [f])
        \<longrightarrow> (backing q)[unat f := Some v] ! j = None"
      using rest by auto
    ultimately show ?thesis
      using inv same_shape_facts [OF fq(3)] same_shape_facts [OF aq(3)] dist tot fs bl cap(5)
        backing_write [OF bk _ fb, of v]
      by (auto simp: bq_inv_def bq_cap_def)
  qed
  moreover have "bq_closed ?q' \<longleftrightarrow> fin \<and> bq_sealable q \<and> Suc (length vs) = bq_cap q"
    using is_final_finalize [OF ring_rep_wf [OF aq(2)]] same_shape_facts [OF aq(3)] opn room
    by (auto simp: bq_closed_def bq_sealable_def)
  moreover have "bq_shape q ?q'"
    using same_shape_facts [OF fq(3)] same_shape_facts [OF aq(3)]
    by (simp add: bq_shape_def bq_cap_def bq_sealable_def)
  ultimately show ?thesis
    unfolding bq_rep_def by blast
qed

text \<open>A full queue gives the value back and is unchanged.\<close>

lemma enqueue_cycle_full:
  assumes rep: "bq_rep c q vs" and full: "length vs = bq_cap q"
  shows "enqueue_cycle fin q v = ret (Inl (v, QueueFull), q)"
proof -
  obtain as fs where inv: "bq_inv c q as fs vs"
    using rep by (auto simp: bq_rep_def)
  then show ?thesis
    using bq_inv_length [OF inv] bq_used_capacity(3) [OF inv] full
    by (simp add: enqueue_cycle_def Let_def)
qed

text \<open>A closed queue with room gives the value back too, after its index has returned to the free ring.\<close>

lemma enqueue_cycle_closed:
  assumes rep: "bq_rep c q vs" and room: "length vs < bq_cap q" and cl: "bq_closed q"
    and c: "c + 2 * bq_cap q < 2 ^ 62"
  shows "\<exists>q'. enqueue_cycle fin q v = ret (Inl (v, queue_error.QueueFinalized), q')
            \<and> bq_rep (c + 2 * bq_cap q) q' vs \<and> bq_shape q q' \<and> bq_closed q'"
proof -
  obtain as fs where inv: "bq_inv c q as fs vs"
    using rep by (auto simp: bq_rep_def)
  note len = bq_inv_length [OF inv]
  note cap = bq_used_capacity [OF inv]
  have "\<exists>f fs'. fs = f # fs'"
    using inv room len by (cases fs) (auto simp: bq_inv_def)
  then obtain f fs' where fs: "fs = f # fs'" by blast
  have reps: "ring_rep c (alloc_queue q) as" "ring_rep c (free_queue q) (f # fs')"
    and half: "ring_half (alloc_queue q) = bq_cap q" and nf: "\<not> is_final (free_queue q)"
    and dist: "distinct (as @ f # fs')" and tot: "length as + length fs = bq_cap q"
    and bl: "bq_cap q \<le> length (backing q)"
    and rest: "\<forall>j<length (backing q). j \<notin> unat ` set as \<longrightarrow> backing q ! j = None"
    using inv by (auto simp: bq_inv_def fs)
  have fb: "unat f < length (backing q)" "unat f < bq_cap q"
    using bq_inv_index [OF inv, of f] fs by simp_all
  have "unat f \<notin> unat ` set as"
    using dist by (auto simp: word_unat_eq_iff [symmetric])
  then have none: "backing q ! unat f = None"
    using rest fb by blast
  have c1: "Suc c < 2 ^ 62" "Suc c \<le> c + 2 * bq_cap q"
    using c fb(2) by auto
  obtain fq where fq: "ring_dequeue (free_queue q) = ret (Some f, fq)" "ring_rep c fq fs'"
      "same_shape (free_queue q) fq"
    using scq.deq_some [OF reps(2)] by blast
  note fsh = same_shape_facts [OF fq(3)]
  obtain aq where aq: "ring_enqueue (alloc_queue q) f = ret (Inl scq_error.QueueFinalized, aq)"
      "ring_rep (c + 2 * bq_cap q) aq as" "same_shape (alloc_queue q) aq"
    using scq.enq_final [OF reps(1), of f] cl half fb c room len by (auto simp: bq_closed_def)
  note ash = same_shape_facts [OF aq(3)]
  obtain fq2 where fq2: "ring_enqueue fq f = ret (Inr (), fq2)" "ring_rep (Suc c) fq2 (fs' @ [f])"
      "same_shape fq fq2"
    using scq.enq_ok [OF fq(2), of f] fsh nf fb tot fs c1 by (auto simp: bq_cap_def)
  note fsh2 = same_shape_facts [OF fq2(3)]
  let ?q' = "q\<lparr>free_queue := fq2, alloc_queue := aq\<rparr>"
  have restore: "(backing q)[unat f := None] = backing q"
    using none by (metis list_update_id)
  have "enqueue_cycle fin q v = ret (Inl (v, queue_error.QueueFinalized), ?q')"
  proof -
    have "enqueue_cycle fin q v = ret (Inl (v, queue_error.QueueFinalized),
        q\<lparr>used := used q, backing := (backing q)[unat f := None], free_queue := fq2, alloc_queue := aq\<rparr>)"
      using room len cap(3) fb(1)
      by (simp add: enqueue_cycle_def Let_def fq(1) aq(1) fq2(1) write_slot_def read_slot_def)
    then show ?thesis
      by (simp add: restore)
  qed
  moreover have "bq_inv (c + 2 * bq_cap q) ?q' as (fs' @ [f]) vs"
    using inv aq(2) scq.rep_clock [OF fq2(2) c1(2) c] fsh fsh2 ash dist tot fs
    by (auto simp: bq_inv_def bq_cap_def)
  moreover have "bq_shape q ?q'" "bq_closed ?q'"
    using fsh fsh2 ash cl by (auto simp: bq_shape_def bq_cap_def bq_sealable_def bq_closed_def)
  ultimately show ?thesis
    unfolding bq_rep_def by blast
qed

section \<open>dequeue\<close>

lemma bq_dequeue_some:
  assumes rep: "bq_rep c q (v # vs)" and c: "Suc c < 2 ^ 62"
  shows "\<exists>q'. bq_dequeue q = ret (Some v, q') \<and> bq_rep (Suc c) q' vs \<and> bq_shape q q'
            \<and> bq_closed q' = bq_closed q"
proof -
  obtain as0 fs where inv: "bq_inv c q as0 fs (v # vs)"
    using rep by (auto simp: bq_rep_def)
  then have "\<exists>a as. as0 = a # as"
    by (cases as0) (auto simp: bq_inv_def)
  then obtain a as where as0: "as0 = a # as" by blast
  note cap = bq_used_capacity [OF inv]
  have reps: "ring_rep c (alloc_queue q) (a # as)" "ring_rep c (free_queue q) fs"
    and half: "ring_half (alloc_queue q) = ring_half (free_queue q)" and nf: "\<not> is_final (free_queue q)"
    and dist: "distinct (a # as @ fs)" and tot: "Suc (length as) + length fs = bq_cap q"
    and bk: "map (\<lambda>i. backing q ! unat i) (a # as) = map Some (v # vs)"
    and rest: "\<forall>j<length (backing q). j \<notin> unat ` set (a # as) \<longrightarrow> backing q ! j = None"
    and u: "unat (used q) = Suc (length as)"
    using inv by (auto simp: bq_inv_def as0 bq_cap_def)
  have ab: "unat a < length (backing q)"
    using bq_inv_index(2) [OF inv, of a] as0 by simp
  have "a \<notin> set as" using dist by simp
  note rd = backing_read [OF bk this]
  obtain aq fq where aq: "ring_dequeue (alloc_queue q) = ret (Some a, aq)" "ring_rep c aq as"
      "same_shape (alloc_queue q) aq"
    and fq: "ring_enqueue (free_queue q) a = ret (Inr (), fq)" "ring_rep (Suc c) fq (fs @ [a])"
      "same_shape (free_queue q) fq"
    using scq.move_index [OF reps half nf _ c] tot by (auto simp: bq_cap_def)
  note ash = same_shape_facts [OF aq(3)]
  note fsh = same_shape_facts [OF fq(3)]
  let ?q' = "q\<lparr>alloc_queue := aq, used := used q - 1, backing := (backing q)[unat a := None],
      free_queue := fq\<rparr>"
  have "bq_dequeue q = ret (Some v, ?q')"
    using ab rd(1) by (simp add: bq_dequeue_def Let_def aq(1) fq(1) read_slot_def)
  moreover have "bq_inv (Suc c) ?q' as (fs @ [a]) vs"
  proof -
    have "used q \<noteq> 0" using u by auto
    then have "unat (used q - 1) = length as"
      using u by (simp add: unat_minus_one)
    moreover have "\<forall>j<length (backing q). j \<notin> unat ` set as
        \<longrightarrow> (backing q)[unat a := None] ! j = None"
      using rest by (rule backing_clear)
    ultimately show ?thesis
      using inv scq.rep_clock [OF aq(2) _ c] fq(2) ash fsh dist tot rd(2)
      by (auto simp: bq_inv_def bq_cap_def)
  qed
  moreover have "bq_shape q ?q'" "bq_closed ?q' = bq_closed q"
    using ash fsh by (auto simp: bq_shape_def bq_cap_def bq_sealable_def bq_closed_def)
  ultimately show ?thesis
    unfolding bq_rep_def by blast
qed

lemma bq_dequeue_none:
  assumes rep: "bq_rep c q []" and c: "Suc c < 2 ^ 62"
  shows "\<exists>q'. bq_dequeue q = ret (None, q') \<and> bq_rep (Suc c) q' [] \<and> bq_shape q q'
            \<and> bq_closed q' = bq_closed q"
proof -
  obtain fs where inv: "bq_inv c q [] fs []"
    using rep bq_inv_length by (fastforce simp: bq_rep_def)
  obtain aq where aq: "ring_dequeue (alloc_queue q) = ret (None, aq)" "ring_rep (Suc c) aq []"
      "same_shape (alloc_queue q) aq"
    using scq.deq_none [of c "alloc_queue q"] inv c by (auto simp: bq_inv_def)
  note ash = same_shape_facts [OF aq(3)]
  have "bq_dequeue q = ret (None, q\<lparr>alloc_queue := aq\<rparr>)"
    by (simp add: bq_dequeue_def aq(1))
  moreover have "bq_inv (Suc c) (q\<lparr>alloc_queue := aq\<rparr>) [] fs []"
    using inv aq(2) ash scq.rep_clock [of c "free_queue q" fs "Suc c"] c
    by (auto simp: bq_inv_def bq_cap_def)
  ultimately show ?thesis
    using ash unfolding bq_rep_def
    by (auto simp: bq_shape_def bq_cap_def bq_sealable_def bq_closed_def)
qed

section \<open>Drop\<close>

lemma bq_drop_loop_all:
  assumes "ring_rep c (alloc_queue q) as" "Suc c < 2 ^ 62" "distinct as"
    and "\<forall>i\<in>set as. unat i < length (backing q)"
    and "map (\<lambda>i. backing q ! unat i) as = map Some vs"
    and "\<forall>j<length (backing q). j \<notin> unat ` set as \<longrightarrow> backing q ! j = None"
  shows "\<exists>q'. bq_drop_loop acc q = ret (acc @ vs, q') \<and> (\<forall>b\<in>set (backing q'). b = None)"
  using assms
proof (induction as arbitrary: q vs acc)
  case Nil
  then obtain aq where "ring_dequeue (alloc_queue q) = ret (None, aq)"
    using scq.deq_none by blast
  with Nil show ?case
    by (simp add: bq_drop_loop.simps [of acc q] all_set_conv_all_nth)
next
  case (Cons a as)
  obtain v vs' where vs: "vs = v # vs'"
    using Cons.prems(5) by (cases vs) auto
  obtain aq where aq: "ring_dequeue (alloc_queue q) = ret (Some a, aq)" "ring_rep c aq as"
    using scq.deq_some [OF Cons.prems(1)] by blast
  have "a \<notin> set as" using Cons.prems(3) by simp
  note rd = backing_read [OF Cons.prems(5) [unfolded vs] this]
  let ?q1 = "q\<lparr>alloc_queue := aq, backing := (backing q)[unat a := None]\<rparr>"
  have step: "bq_drop_loop acc q = bq_drop_loop (acc @ [v]) ?q1"
    using aq(1) rd(1) Cons.prems(4) by (simp add: bq_drop_loop.simps [of acc q] drop_slot_def)
  have "\<exists>q'. bq_drop_loop (acc @ [v]) ?q1 = ret ((acc @ [v]) @ vs', q') \<and> (\<forall>b\<in>set (backing q'). b = None)"
  proof (rule Cons.IH)
    show "\<forall>j<length (backing ?q1). j \<notin> unat ` set as \<longrightarrow> backing ?q1 ! j = None"
      using backing_clear [OF Cons.prems(6)] by simp
  qed (use Cons.prems aq(2) rd(2) in auto)
  with step vs show ?case by simp
qed

lemma bq_drop_all:
  assumes "bq_rep c q vs" "Suc c < 2 ^ 62"
  shows "\<exists>q'. bq_drop q = ret (vs, q') \<and> (\<forall>b\<in>set (backing q'). b = None)"
proof -
  obtain as fs where inv: "bq_inv c q as fs vs"
    using assms(1) by (auto simp: bq_rep_def)
  then show ?thesis
    using bq_drop_loop_all [of c q as vs "[]"] bq_inv_index(2) [OF inv] assms(2)
    by (auto simp: bq_inv_def bq_drop_def)
qed

section \<open>All indices\<close>

text \<open>The indices of a queue of capacity \<open>c\<close>; its two rings hold each of them once.\<close>

definition all_indices :: "nat \<Rightarrow> usize multiset" where
  "all_indices c = mset (map of_nat [0..<c])"

lemma ring_wf_half: "ring_wf r \<Longrightarrow> ring_half r \<le> 2 ^ 60"
  unfolding ring_wf_def ring_half_def by (intro power_increasing) auto

lemma all_indices_distinct:
  assumes "c \<le> 2 ^ 60"
  shows "distinct (map (of_nat :: nat \<Rightarrow> usize) [0..<c])"
proof -
  have "inj_on (of_nat :: nat \<Rightarrow> usize) {0..<c}"
  proof
    fix x y assume "x \<in> {0..<c}" "y \<in> {0..<c}" "(of_nat x :: usize) = of_nat y"
    then have "x < 2 ^ 64" "y < 2 ^ 64" and eq: "unat (of_nat x :: usize) = unat (of_nat y :: usize)"
      using assms by simp_all
    then show "x = y"
      unfolding unat_of_nat_small [OF \<open>x < 2 ^ 64\<close>] unat_of_nat_small [OF \<open>y < 2 ^ 64\<close>] by simp
  qed
  then show ?thesis by (simp add: distinct_map)
qed

lemma all_indices_once: "c \<le> 2 ^ 60 \<Longrightarrow> count (all_indices c) i \<le> 1"
  unfolding all_indices_def using all_indices_distinct [of c] by (simp add: distinct_count_atmost_1)

lemma bq_places:
  assumes inv: "bq_inv c q as fs vs"
  shows "mset as + mset fs = all_indices (bq_cap q)"
proof -
  let ?A = "map (of_nat :: nat \<Rightarrow> usize) [0..<bq_cap q]"
  have "ring_wf (free_queue q)" using inv by (auto simp: bq_inv_def ring_rep_def)
  then have cap: "bq_cap q \<le> 2 ^ 60" unfolding bq_cap_def by (rule ring_wf_half)
  have "distinct ?A" by (rule all_indices_distinct [OF cap])
  moreover have d: "distinct (as @ fs)" "length (as @ fs) = length ?A"
    using inv by (simp_all add: bq_inv_def)
  moreover have "set (as @ fs) \<subseteq> set ?A"
  proof
    fix i assume "i \<in> set (as @ fs)"
    then have "unat i < bq_cap q" using inv by (auto simp: bq_inv_def bq_cap_def ring_rep_def)
    then have "of_nat (unat i) \<in> set ?A" unfolding set_map by (intro imageI) simp
    then show "i \<in> set ?A" by simp
  qed
  ultimately have "set (as @ fs) = set ?A"
    using distinct_card [of "as @ fs"] distinct_card [of ?A] by (intro card_subset_eq) (simp_all only: List.finite_set)
  then have "mset (as @ fs) = mset ?A"
    by (rule iffD1 [OF set_eq_iff_mset_eq_distinct [OF d(1) \<open>distinct ?A\<close>]])
  then show ?thesis unfolding all_indices_def mset_append .
qed

end
