(* ===== verification/Fifo.thy ===== *)
theory Fifo
  imports Prelude
begin

text \<open>
  The contract of a bounded FIFO queue, as the locale \<open>bounded_fifo\<close>, and what follows from it for every
  queue of the library: scripts of calls give the results of a list, and the differential fuzz loop
  of \<open>fuzz/\<close> against the \<open>MockQueue\<close> of \<open>src/lib.rs\<close> never fails an assertion. The contract carries
  a clock: the tickets of a ring are 64-bit words, and the laws hold up to ticket \<open>2 ^ 62\<close>.
\<close>

section \<open>Scripts of calls\<close>

datatype 'a fifo_instr = Enq 'a | Deq

datatype 'a fifo_out = EnqOut "'a + unit" | DeqOut "'a option"

fun fifo_script ::
  "('q \<Rightarrow> 'a \<Rightarrow> (('a + unit) \<times> 'q) run) \<Rightarrow> ('q \<Rightarrow> ('a option \<times> 'q) run)
     \<Rightarrow> 'a fifo_instr list \<Rightarrow> 'q \<Rightarrow> ('a fifo_out list \<times> 'q) run"
where
  "fifo_script enq deq [] q = ret ([], q)"
| "fifo_script enq deq (Enq x # is) q =
     bind_run (enq q x) (\<lambda>(res, q').
       bind_run (fifo_script enq deq is q') (\<lambda>(outs, q''). ret (EnqOut res # outs, q'')))"
| "fifo_script enq deq (Deq # is) q =
     bind_run (deq q) (\<lambda>(res, q').
       bind_run (fifo_script enq deq is q') (\<lambda>(outs, q''). ret (DeqOut res # outs, q'')))"

text \<open>The same calls on a list of at most \<open>cap\<close> elements.\<close>

fun list_fifo :: "nat \<Rightarrow> 'a fifo_instr list \<Rightarrow> 'a list \<Rightarrow> 'a fifo_out list \<times> 'a list" where
  "list_fifo cap [] xs = ([], xs)"
| "list_fifo cap (Enq x # is) xs =
     (if length xs < cap
      then (let (outs, ys) = list_fifo cap is (xs @ [x]) in (EnqOut (Inr ()) # outs, ys))
      else (let (outs, ys) = list_fifo cap is xs in (EnqOut (Inl x) # outs, ys)))"
| "list_fifo cap (Deq # is) xs =
     (let (outs, ys) = list_fifo cap is (tl xs)
      in (DeqOut (case xs of [] \<Rightarrow> None | x # _ \<Rightarrow> Some x) # outs, ys))"

section \<open>The mock queue and the fuzz loop\<close>

record 'a mock_queue =
  mq_queue :: "'a list"
  mq_size :: usize

definition mock_new :: "usize \<Rightarrow> 'a mock_queue" where
  "mock_new sz = \<lparr>mq_queue = [], mq_size = sz\<rparr>"

definition mock_enqueue :: "'a mock_queue \<Rightarrow> 'a \<Rightarrow> ('a + unit) \<times> 'a mock_queue" where
  "mock_enqueue m value =
     (if length (mq_queue m) \<ge> unat (mq_size m) then (Inl value, m)
      else (Inr (), m\<lparr>mq_queue := mq_queue m @ [value]\<rparr>))"

definition mock_enqueue_boundless :: "'a mock_queue \<Rightarrow> 'a \<Rightarrow> 'a mock_queue" where
  "mock_enqueue_boundless m value = m\<lparr>mq_queue := mq_queue m @ [value]\<rparr>"

definition mock_dequeue :: "'a mock_queue \<Rightarrow> 'a option \<times> 'a mock_queue" where
  "mock_dequeue m =
     (case mq_queue m of [] \<Rightarrow> (None, m) | x # xs \<Rightarrow> (Some x, m\<lparr>mq_queue := xs\<rparr>))"

datatype grind_instr = Enqueue usize | Dequeue

text \<open>The loop the targets \<open>scq_grind\<close> and \<open>const_grind\<close> share; a failed \<open>assert_eq!\<close> panics.\<close>

fun grind_loop ::
  "('q \<Rightarrow> usize \<Rightarrow> ((usize + unit) \<times> 'q) run) \<Rightarrow> ('q \<Rightarrow> (usize option \<times> 'q) run)
     \<Rightarrow> grind_instr list \<Rightarrow> usize mock_queue \<Rightarrow> 'q \<Rightarrow> (usize mock_queue \<times> 'q) run"
where
  "grind_loop enq deq [] m q = ret (m, q)"
| "grind_loop enq deq (Dequeue # is) m q =
     (let (expected, m') = mock_dequeue m
      in bind_run (deq q) (\<lambda>(got, q').
           if expected = got then grind_loop enq deq is m' q' else Some Panic))"
| "grind_loop enq deq (Enqueue item # is) m q =
     (let (expected, m') = mock_enqueue m item
      in bind_run (enq q item) (\<lambda>(got, q').
           if expected = got then grind_loop enq deq is m' q' else Some Panic))"

section \<open>The contract\<close>

locale bounded_fifo =
  fixes enq :: "'q \<Rightarrow> 'a \<Rightarrow> (('a + unit) \<times> 'q) run"
    and deq :: "'q \<Rightarrow> ('a option \<times> 'q) run"
    and rep :: "nat \<Rightarrow> 'q \<Rightarrow> 'a list \<Rightarrow> bool"
    and cap :: "'q \<Rightarrow> nat"
  assumes enq_room: "\<lbrakk>rep c q xs; length xs < cap q; Suc c < 2 ^ 62\<rbrakk>
      \<Longrightarrow> \<exists>q'. enq q x = ret (Inr (), q') \<and> rep (Suc c) q' (xs @ [x]) \<and> cap q' = cap q"
    and enq_full: "\<lbrakk>rep c q xs; length xs = cap q; Suc c < 2 ^ 62\<rbrakk>
      \<Longrightarrow> \<exists>q'. enq q x = ret (Inl x, q') \<and> rep (Suc c) q' xs \<and> cap q' = cap q"
    and deq_some: "\<lbrakk>rep c q (x # xs); Suc c < 2 ^ 62\<rbrakk>
      \<Longrightarrow> \<exists>q'. deq q = ret (Some x, q') \<and> rep (Suc c) q' xs \<and> cap q' = cap q"
    and deq_none: "\<lbrakk>rep c q []; Suc c < 2 ^ 62\<rbrakk>
      \<Longrightarrow> \<exists>q'. deq q = ret (None, q') \<and> rep (Suc c) q' [] \<and> cap q' = cap q"
    and rep_cap: "rep c q xs \<Longrightarrow> length xs \<le> cap q"
begin

lemma enq_returns:
  assumes "rep c q xs" "Suc c < 2 ^ 62"
  shows "\<exists>q'. enq q x = ret (if length xs < cap q then Inr () else Inl x, q')
            \<and> rep (Suc c) q' (if length xs < cap q then xs @ [x] else xs) \<and> cap q' = cap q"
  using enq_room [OF assms(1) _ assms(2)] enq_full [OF assms(1) _ assms(2)] rep_cap [OF assms(1)]
  by (cases "length xs < cap q") auto

lemma deq_returns:
  assumes "rep c q xs" "Suc c < 2 ^ 62"
  shows "\<exists>q'. deq q = ret (case xs of [] \<Rightarrow> None | x # _ \<Rightarrow> Some x, q')
            \<and> rep (Suc c) q' (tl xs) \<and> cap q' = cap q"
  using assms deq_some deq_none by (cases xs) auto

lemma script_refines:
  assumes "rep c q xs" "c + length is < 2 ^ 62"
  shows "\<exists>q'. fifo_script enq deq is q = ret (fst (list_fifo (cap q) is xs), q')
            \<and> rep (c + length is) q' (snd (list_fifo (cap q) is xs)) \<and> cap q' = cap q"
  using assms
proof (induction "is" arbitrary: c q xs)
  case Nil
  then show ?case by simp
next
  case (Cons i "is")
  have c: "Suc c < 2 ^ 62" using Cons.prems(2) by simp
  have tail_run: "\<exists>q2. fifo_script enq deq is q1 = ret (fst (list_fifo (cap q) is ys), q2)
      \<and> rep (c + length (i # is)) q2 (snd (list_fifo (cap q) is ys)) \<and> cap q2 = cap q"
    if "rep (Suc c) q1 ys" "cap q1 = cap q" for q1 ys
    using Cons.IH [OF that(1)] that Cons.prems(2) by simp
  show ?case
  proof (cases i)
    case (Enq x)
    obtain q1 where q1: "enq q x = ret (if length xs < cap q then Inr () else Inl x, q1)"
        "rep (Suc c) q1 (if length xs < cap q then xs @ [x] else xs)" "cap q1 = cap q"
      using enq_returns [OF Cons.prems(1) c] by blast
    show ?thesis
      using tail_run [OF q1(2,3)] q1(1) Enq by (cases "length xs < cap q") (auto simp: split_beta)
  next
    case Deq
    obtain q1 where q1: "deq q = ret (case xs of [] \<Rightarrow> None | x # _ \<Rightarrow> Some x, q1)"
        "rep (Suc c) q1 (tl xs)" "cap q1 = cap q"
      using deq_returns [OF Cons.prems(1) c] by blast
    show ?thesis
      using tail_run [OF q1(2,3)] q1(1) Deq by (auto simp: split_beta)
  qed
qed

end

text \<open>For queues of \<open>usize\<close>: the fuzz loop never panics, and queue and mock agree at its end.\<close>

locale grindable_fifo = bounded_fifo enq deq rep cap
  for enq :: "'q \<Rightarrow> usize \<Rightarrow> ((usize + unit) \<times> 'q) run"
    and deq :: "'q \<Rightarrow> (usize option \<times> 'q) run"
    and rep :: "nat \<Rightarrow> 'q \<Rightarrow> usize list \<Rightarrow> bool"
    and cap :: "'q \<Rightarrow> nat"
begin

lemma grind_agrees:
  assumes "rep c q (mq_queue m)" "unat (mq_size m) = cap q" "c + length is < 2 ^ 62"
  shows "\<exists>m' q'. grind_loop enq deq is m q = ret (m', q') \<and> rep (c + length is) q' (mq_queue m')"
  using assms
proof (induction "is" arbitrary: c q m)
  case Nil
  then show ?case by simp
next
  case (Cons i "is")
  have c: "Suc c < 2 ^ 62" using Cons.prems(3) by simp
  have tail_run: "\<exists>m2 q2. grind_loop enq deq is m1 q1 = ret (m2, q2)
      \<and> rep (c + length (i # is)) q2 (mq_queue m2)"
    if "rep (Suc c) q1 (mq_queue m1)" "unat (mq_size m1) = cap q1" for m1 q1
    using Cons.IH [OF that] Cons.prems(3) by simp
  show ?case
  proof (cases i)
    case (Enqueue x)
    obtain q1 where q1: "enq q x = ret (if length (mq_queue m) < cap q then Inr () else Inl x, q1)"
        "rep (Suc c) q1 (if length (mq_queue m) < cap q then mq_queue m @ [x] else mq_queue m)"
        "cap q1 = cap q"
      using enq_returns [OF Cons.prems(1) c] by blast
    show ?thesis
      using tail_run [of q1 "snd (mock_enqueue m x)"] q1 Enqueue Cons.prems(2)
      by (cases "length (mq_queue m) < cap q") (auto simp: mock_enqueue_def)
  next
    case Dequeue
    obtain q1 where q1: "deq q = ret (case mq_queue m of [] \<Rightarrow> None | x # _ \<Rightarrow> Some x, q1)"
        "rep (Suc c) q1 (tl (mq_queue m))" "cap q1 = cap q"
      using deq_returns [OF Cons.prems(1) c] by blast
    show ?thesis
      using tail_run [of q1 "snd (mock_dequeue m)"] q1 Dequeue Cons.prems(2)
      by (cases "mq_queue m") (auto simp: mock_dequeue_def)
  qed
qed

end

end
