(* ===== verification/BoundedFifo.thy ===== *)
theory BoundedFifo
  imports BoundedQueue Fifo
begin

text \<open>
  A bounded queue fresh from its constructors is a FIFO queue of its capacity: the interpretations of
  the contract of \<open>Fifo\<close> on the model of the code, for queues of any element type and, with the fuzz
  loop, for queues of \<open>usize\<close>.
\<close>

section \<open>Fresh queues\<close>

lemma distinct_indices: "m \<le> 60 \<Longrightarrow> distinct (map (of_nat :: nat \<Rightarrow> usize) [0..<2 ^ m])"
  unfolding distinct_map
proof (intro conjI inj_onI)
  fix i j
  assume m: "m \<le> 60" and "i \<in> set [0..<2 ^ m]" "j \<in> set [0..<2 ^ m]" "(of_nat i :: usize) = of_nat j"
  then have "unat (of_nat i :: usize) = unat (of_nat j :: usize)" "i < 2 ^ 62" "j < 2 ^ 62"
    using power_le_62 [of m] by auto
  then show "i = j"
    by (simp add: unat_of_nat_small)
qed simp

lemma new_alloc_order_rep:
  assumes o: "o' \<le> 60" and mode: "mode \<le> 1"
    and sz: "determine_order sz = Ret (of_nat o')" "2 ^ o' \<le> unat (2 * sz)"
  shows "\<exists>q. new_alloc mode sz w1 w2 = Ret q \<and> bq_rep (2 ^ o') q [] \<and> bq_cap q = 2 ^ o'
           \<and> \<not> bq_closed q \<and> (bq_sealable q \<longleftrightarrow> mode = 1)"
proof -
  let ?o = "of_nat o' :: usize"
  have u: "unat ?o = o'" using o by (intro unat_of_nat_small) simp
  obtain free where free: "new_alloc_ring_full mode ?o w2 = Ret free"
      "ring_rep (2 ^ o') free (map of_nat [0..<2 ^ o'])" "order free = ?o"
      "is_finalized free = replicate mode False"
    using ring_rep_alloc_full [of ?o mode w2] o mode u by auto
  let ?alloc = "new_alloc_ring_empty mode ?o w1"
  let ?q = "\<lparr>backing = replicate (unat (2 * sz)) None, free_queue = free, alloc_queue = ?alloc, used = 0\<rparr>"
  have "new_alloc mode sz w1 w2 = Ret ?q"
    unfolding new_alloc_def sz(1) by (simp add: free(1))
  moreover have alloc: "ring_rep 0 ?alloc []"
    using o mode u by (intro ring_rep_alloc_empty) auto
  moreover have fields: "order ?alloc = ?o" "is_finalized ?alloc = replicate mode False"
    by (simp_all add: new_alloc_ring_empty_def new_from_sqalloc_def)
  moreover have nf: "\<not> is_final free" "\<not> is_final ?alloc"
    using replicate_final [of mode] free(4) fields by (auto simp: is_final_def)
  moreover have "bq_inv (2 ^ o') ?q [] (map of_nat [0..<2 ^ o']) []"
    using scq.rep_clock [OF alloc, of "2 ^ o'"] free nf fields u power_le_62 [of o'] o distinct_indices [OF o] sz(2)
    by (simp add: bq_inv_def bq_cap_def ring_half_def)
  ultimately show ?thesis
    using free u
    by (intro exI [of _ ?q]) (auto simp: bq_rep_def bq_cap_def ring_half_def bq_closed_def bq_sealable_def)
qed

lemma new_alloc_rep:
  assumes "o' \<le> 60" "mode \<le> 1"
  shows "\<exists>q. new_alloc mode (2 ^ o') w1 w2 = Ret q \<and> bq_rep (2 ^ o') q [] \<and> bq_cap q = 2 ^ o'
           \<and> \<not> bq_closed q \<and> (bq_sealable q \<longleftrightarrow> mode = 1)"
proof (rule new_alloc_order_rep [OF assms])
  have "(2 :: usize) * 2 ^ o' = 2 ^ Suc o'" by simp
  moreover have "unat ((2 :: usize) ^ Suc o') = 2 ^ Suc o'" using assms(1) by (intro unat_two_power) simp
  ultimately show "2 ^ o' \<le> unat (2 * (2 :: usize) ^ o')" by (simp del: power_Suc)
qed (use assms(1) in \<open>simp add: determine_order_two_power\<close>)

text \<open>A stack queue of \<open>N = 2 ^ (o' + 1)\<close> slots is the heap queue of size \<open>2 ^ o'\<close>.\<close>

lemma new_const_eq:
  assumes "o' \<le> 60"
  shows "new_const (2 ^ Suc o') w1 w2 = new_alloc 0 (2 ^ o') w1 w2"
proof -
  have nz: "(2 :: usize) ^ Suc o' mod 2 = 0" "(2 :: usize) ^ Suc o' \<noteq> 0"
    using assms even_two_power [of "Suc o'"] unat_two_power [of "Suc o'"] by auto
  have two: "(2 :: usize) * 2 ^ o' = 2 ^ Suc o'" by simp
  show ?thesis
    unfolding new_const_def new_alloc_def two
    using nz assms
    by (simp add: new_const_ring_empty_eq new_const_ring_full_eq determine_order_two_power del: power_Suc)
qed

lemma const_queue_eq:
  assumes "o' \<le> 60"
  shows "const_queue (2 ^ o') w1 w2 = new_alloc 0 (2 ^ o') w1 w2"
proof -
  have "(2 :: usize) ^ o' \<noteq> 0" "(2 :: usize) ^ o' mod 2 = 0 \<or> (2 :: usize) ^ o' = 1"
    using assms even_two_power [of o'] unat_two_power [of o'] by (cases "o' = 0"; auto)+
  moreover have "(2 :: usize) ^ o' * 2 = 2 ^ Suc o'" by simp
  ultimately show ?thesis
    using new_const_eq [OF assms, of w1 w2] by (simp add: const_queue_def del: power_Suc)
qed

section \<open>The contract\<close>

definition bq_open_rep :: "nat \<Rightarrow> 'a bounded_queue \<Rightarrow> 'a list \<Rightarrow> bool" where
  "bq_open_rep c q xs \<longleftrightarrow> bq_rep c q xs \<and> \<not> bq_closed q"

lemma fresh_bounded_queue:
  assumes "k \<le> 60"
  shows "\<exists>q :: 'a bounded_queue. new_alloc 0 (2 ^ k) w1 w2 = Ret q \<and> const_queue (2 ^ k) w1 w2 = Ret q
           \<and> new_const (2 ^ Suc k) w1 w2 = Ret q \<and> bq_open_rep (2 ^ k) q [] \<and> bq_cap q = 2 ^ k
           \<and> bq_capacity q = 2 ^ k"
proof -
  obtain q :: "'a bounded_queue" where q: "new_alloc 0 (2 ^ k) w1 w2 = Ret q" "bq_open_rep (2 ^ k) q []"
      "bq_cap q = 2 ^ k"
    using new_alloc_rep [OF assms, of 0 w1 w2] by (auto simp: bq_open_rep_def)
  obtain as fs where inv: "bq_inv (2 ^ k) q as fs []"
    using q(2) by (auto simp: bq_open_rep_def bq_rep_def)
  have "bq_capacity q = 2 ^ k"
    using bq_used_capacity(1) [OF inv] q(3) assms
    by (simp add: bq_capacity_def word_unat_eq_iff unat_two_power)
  moreover have "(new_const (2 ^ Suc k) w1 w2 :: 'a bounded_queue exec) = new_alloc 0 (2 ^ k) w1 w2"
    "(const_queue (2 ^ k) w1 w2 :: 'a bounded_queue exec) = new_alloc 0 (2 ^ k) w1 w2"
    using assms by (rule new_const_eq const_queue_eq)+
  ultimately show ?thesis
    using q by auto
qed

interpretation bq: bounded_fifo bq_enqueue bq_dequeue bq_open_rep bq_cap
proof unfold_locales
  show "\<exists>q'. bq_enqueue q x = ret (Inr (), q') \<and> bq_open_rep (Suc c) q' (xs @ [x]) \<and> bq_cap q' = bq_cap q"
    if "bq_open_rep c q xs" "length xs < bq_cap q" "Suc c < 2 ^ 62" for c and q :: "'a bounded_queue" and xs x
    using enqueue_cycle_room [of c q xs False x] that
    by (auto simp: bq_open_rep_def bq_enqueue_def bq_shape_def)
  show "\<exists>q'. bq_enqueue q x = ret (Inl x, q') \<and> bq_open_rep (Suc c) q' xs \<and> bq_cap q' = bq_cap q"
    if "bq_open_rep c q xs" "length xs = bq_cap q" "Suc c < 2 ^ 62" for c and q :: "'a bounded_queue" and xs x
    using enqueue_cycle_full [of c q xs False x] bq_clock [of c q xs "Suc c"] that
    by (auto simp: bq_open_rep_def bq_enqueue_def)
  show "\<exists>q'. bq_dequeue q = ret (Some x, q') \<and> bq_open_rep (Suc c) q' xs \<and> bq_cap q' = bq_cap q"
    if "bq_open_rep c q (x # xs)" "Suc c < 2 ^ 62" for c and q :: "'a bounded_queue" and xs x
    using bq_dequeue_some [of c q x xs] that by (auto simp: bq_open_rep_def bq_shape_def)
  show "\<exists>q'. bq_dequeue q = ret (None, q') \<and> bq_open_rep (Suc c) q' [] \<and> bq_cap q' = bq_cap q"
    if "bq_open_rep c q []" "Suc c < 2 ^ 62" for c and q :: "'a bounded_queue"
    using bq_dequeue_none [of c q] that by (auto simp: bq_open_rep_def bq_shape_def)
  show "length xs \<le> bq_cap q" if "bq_open_rep c q xs" for c and q :: "'a bounded_queue" and xs
    using that bq_rep_length by (auto simp: bq_open_rep_def)
qed

interpretation bqg: grindable_fifo bq_enqueue bq_dequeue bq_open_rep bq_cap
  by unfold_locales

end
