(* ===== verification/Unbounded.thy ===== *)
theory Unbounded
  imports BoundedFifo
begin

text \<open>
  The unbounded queue of \<open>src/lfstd.rs\<close>: a linked list of bounded queues on the heap, its handles, and
  the counted variant. A pointer is an address or null. \<open>nodes\<close> is the part of the heap the queue
  has allocated and may still touch; an access to any other address is the outcome \<open>UB\<close>. The hazard
  pointers of the crate \<open>haphazard\<close> are not modelled: \<open>safe_load\<close> reads the pointer, and
  \<open>retire_in\<close> hands the node over for good (it moves from \<open>nodes\<close> to \<open>retired\<close>), which is stricter
  than the crate, where a protected node stays readable. The operations run alone from call to
  return here.
\<close>

section \<open>The list of queues\<close>

type_synonym ptr = "nat option"

record 'a lscq_node =
  node_value :: "'a bounded_queue"
  next_ptr :: ptr

text \<open>
  \<open>fresh_addr\<close> is the address the allocator hands out next; \<open>sched\<close> gives, per address, the ghost
  fields of the two rings of the node allocated there.
\<close>

record 'a lscq =
  lq_head :: ptr
  lq_tail :: ptr
  internal_order :: usize
  nodes :: "nat \<Rightarrow> 'a lscq_node option"
  fresh_addr :: nat
  retired :: "'a lscq_node list"
  sched :: "nat \<Rightarrow> bool list \<times> bool list"

definition node_new :: "usize \<Rightarrow> bool list \<times> bool list \<Rightarrow> 'a lscq_node exec" where
  "node_new sz w = bind_exec (new_alloc 1 sz (fst w) (snd w)) (\<lambda>q.
     Ret \<lparr>node_value = q, next_ptr = None\<rparr>)"

definition box_node :: "'a lscq_node \<Rightarrow> 'a lscq \<Rightarrow> nat \<times> 'a lscq" where
  "box_node n q =
     (fresh_addr q, q\<lparr>nodes := (nodes q)(fresh_addr q \<mapsto> n), fresh_addr := Suc (fresh_addr q)\<rparr>)"

definition lscq_new :: "usize \<Rightarrow> (nat \<Rightarrow> bool list \<times> bool list) \<Rightarrow> 'a lscq exec" where
  "lscq_new segment_size w =
     bind_exec (node_new segment_size (w 0)) (\<lambda>n.
       Ret \<lparr>lq_head = Some 0, lq_tail = Some 0, internal_order = segment_size,
            nodes = Map.empty(0 \<mapsto> n), fresh_addr = 1, retired = [], sched = w\<rparr>)"

text \<open>Dereference, and store through, a pointer.\<close>

definition get_node :: "nat \<Rightarrow> 'a lscq \<Rightarrow> 'a lscq_node run" where
  "get_node a q = (case nodes q a of None \<Rightarrow> Some UB | Some n \<Rightarrow> ret n)"

definition put_value :: "nat \<Rightarrow> 'a bounded_queue \<Rightarrow> 'a lscq \<Rightarrow> 'a lscq" where
  "put_value a v q = q\<lparr>nodes := (nodes q)(a := map_option (\<lambda>n. n\<lparr>node_value := v\<rparr>) (nodes q a))\<rparr>"

definition put_next :: "nat \<Rightarrow> ptr \<Rightarrow> 'a lscq \<Rightarrow> 'a lscq" where
  "put_next a p q = q\<lparr>nodes := (nodes q)(a := map_option (\<lambda>n. n\<lparr>next_ptr := p\<rparr>) (nodes q a))\<rparr>"

text \<open>\<open>free_owned_alloc\<close>: drops the node, its bounded queue first, and gives the memory back.\<close>

definition free_owned_alloc :: "nat \<Rightarrow> 'a lscq \<Rightarrow> ('a list \<times> 'a lscq) run" where
  "free_owned_alloc a q =
     bind_run (get_node a q) (\<lambda>n.
       bind_run (bq_drop (node_value n)) (\<lambda>(dropped, _).
         ret (dropped, q\<lparr>nodes := (nodes q)(a := None)\<rparr>)))"

definition cas_lq_tail :: "ptr \<Rightarrow> ptr \<Rightarrow> 'a lscq \<Rightarrow> 'a lscq" where
  "cas_lq_tail current new q = (if lq_tail q = current then q\<lparr>lq_tail := new\<rparr> else q)"

partial_function (option) lscq_enqueue :: "'a \<Rightarrow> 'a lscq \<Rightarrow> 'a lscq run" where
  "lscq_enqueue element q =
     (case lq_tail q of
        None \<Rightarrow> Some Panic
      | Some cq \<Rightarrow>
          bind_run (get_node cq q) (\<lambda>node.
            case next_ptr node of
              Some nx \<Rightarrow> lscq_enqueue element (cas_lq_tail (Some cq) (Some nx) q)
            | None \<Rightarrow>
                bind_run (enqueue_cycle True (node_value node) element) (\<lambda>p.
                  case p of (res, value') \<Rightarrow>
                    (let q1 = put_value cq value' q
                     in case res of
                          Inr _ \<Rightarrow> ret q1
                        | Inl err \<Rightarrow>
                            bind_run (Some (node_new (internal_order q1) (sched q1 (fresh_addr q1)))) (\<lambda>ncq.
                              bind_run (bq_enqueue (node_value ncq) (fst err)) (\<lambda>p2.
                                case p2 of (res2, value2) \<Rightarrow>
                                  (case res2 of
                                     Inl _ \<Rightarrow> Some Panic
                                   | Inr _ \<Rightarrow>
                                       (case box_node (ncq\<lparr>node_value := value2\<rparr>) q1 of (a, q2) \<Rightarrow>
                                          bind_run (get_node cq q2) (\<lambda>node2.
                                            if next_ptr node2 = None
                                            then ret (cas_lq_tail (Some cq) (Some a)
                                                        (put_next cq (Some a) q2))
                                            else
                                              bind_run (get_node a q2) (\<lambda>own.
                                                bind_run (bq_dequeue (node_value own)) (\<lambda>p3.
                                                  case p3 of (popt, value3) \<Rightarrow>
                                                    (case popt of
                                                       None \<Rightarrow> Some Panic
                                                     | Some v \<Rightarrow>
                                                         bind_run (free_owned_alloc a
                                                                     (put_value a value3 q2)) (\<lambda>p4.
                                                           lscq_enqueue v (snd p4))))))))))))))"

text \<open>The threshold \<open>dequeue\<close> stores before it tries a node for the second time.\<close>

definition retry_threshold :: "'a bounded_queue \<Rightarrow> isize" where
  "retry_threshold v = 3 * push_bit (unat (order (free_queue v) + 1) mod 64) 1 - 1"

definition store_threshold :: "isize \<Rightarrow> 'a bounded_queue \<Rightarrow> 'a bounded_queue" where
  "store_threshold th v = v\<lparr>alloc_queue := (alloc_queue v)\<lparr>threshold := th\<rparr>\<rparr>"

definition retire_node :: "nat \<Rightarrow> 'a lscq \<Rightarrow> 'a lscq run" where
  "retire_node a q =
     bind_run (get_node a q) (\<lambda>n. ret (q\<lparr>nodes := (nodes q)(a := None), retired := retired q @ [n]\<rparr>))"

partial_function (option) lscq_dequeue :: "'a lscq \<Rightarrow> ('a option \<times> 'a lscq) run" where
  "lscq_dequeue q =
     (case lq_head q of
        None \<Rightarrow> Some Panic
      | Some cq \<Rightarrow>
          bind_run (get_node cq q) (\<lambda>node.
            bind_run (bq_dequeue (node_value node)) (\<lambda>p.
              case p of (popt, value1) \<Rightarrow>
                (let q1 = put_value cq value1 q
                 in case popt of
                      Some v \<Rightarrow> ret (Some v, q1)
                    | None \<Rightarrow>
                        (case next_ptr node of
                           None \<Rightarrow> ret (None, q1)
                         | Some nx \<Rightarrow>
                             bind_run (bq_dequeue (store_threshold (retry_threshold value1) value1)) (\<lambda>p2.
                               case p2 of (popt2, value2) \<Rightarrow>
                                 (let q2 = put_value cq value2 q1
                                  in case popt2 of
                                       Some v \<Rightarrow> ret (Some v, q2)
                                     | None \<Rightarrow>
                                         (if lq_head q2 = Some cq
                                          then bind_run (retire_node cq (q2\<lparr>lq_head := Some nx\<rparr>)) (\<lambda>q3.
                                                 lscq_dequeue q3)
                                          else lscq_dequeue q2))))))))"

text \<open>\<open>Drop\<close>: every node from the head on is freed; the values this drops are collected.\<close>

partial_function (option) lscq_drop_loop :: "'a list \<Rightarrow> ptr \<Rightarrow> 'a lscq \<Rightarrow> ('a list \<times> 'a lscq) run" where
  "lscq_drop_loop dropped next q =
     (case next of
        None \<Rightarrow> ret (dropped, q)
      | Some temp \<Rightarrow>
          bind_run (get_node temp q) (\<lambda>n.
            bind_run (free_owned_alloc temp q) (\<lambda>p.
              case p of (vs, q1) \<Rightarrow> lscq_drop_loop (dropped @ vs) (next_ptr n) q1)))"

definition lscq_drop :: "'a lscq \<Rightarrow> ('a list \<times> 'a lscq) run" where
  "lscq_drop q = lscq_drop_loop [] (lq_head q) q"

declare lscq_enqueue.simps [code] lscq_dequeue.simps [code] lscq_drop_loop.simps [code]

section \<open>The public queue, its handles, and the counted queue\<close>

record 'a unbounded_queue =
  internal :: "'a lscq"
  base_size :: usize

definition with_segment_size ::
  "usize \<Rightarrow> (nat \<Rightarrow> bool list \<times> bool list) \<Rightarrow> 'a unbounded_queue exec"
where
  "with_segment_size sz w = bind_exec (lscq_new sz w) (\<lambda>i. Ret \<lparr>internal = i, base_size = sz\<rparr>)"

definition unbounded_new :: "(nat \<Rightarrow> bool list \<times> bool list) \<Rightarrow> 'a unbounded_queue exec" where
  "unbounded_new w = with_segment_size 32 w"

definition base_segment_capacity :: "'a unbounded_queue \<Rightarrow> usize" where
  "base_segment_capacity q = base_size q"

text \<open>A handle borrows its queue: its operations give the queue back.\<close>

record 'a enqueue_handle = eh_internal :: "'a unbounded_queue"

record 'a full_handle = fh_enqueue :: "'a enqueue_handle"

definition enqueue_handle :: "'a unbounded_queue \<Rightarrow> 'a enqueue_handle" where
  "enqueue_handle q = \<lparr>eh_internal = q\<rparr>"

definition full_handle :: "'a unbounded_queue \<Rightarrow> 'a full_handle" where
  "full_handle q = \<lparr>fh_enqueue = enqueue_handle q\<rparr>"

definition eh_enqueue :: "'a enqueue_handle \<Rightarrow> 'a \<Rightarrow> 'a enqueue_handle run" where
  "eh_enqueue h item =
     bind_run (lscq_enqueue item (internal (eh_internal h))) (\<lambda>i.
       ret (h\<lparr>eh_internal := (eh_internal h)\<lparr>internal := i\<rparr>\<rparr>))"

definition fh_enqueue_item :: "'a full_handle \<Rightarrow> 'a \<Rightarrow> 'a full_handle run" where
  "fh_enqueue_item h item = bind_run (eh_enqueue (fh_enqueue h) item) (\<lambda>e. ret (h\<lparr>fh_enqueue := e\<rparr>))"

definition fh_dequeue :: "'a full_handle \<Rightarrow> ('a option \<times> 'a full_handle) run" where
  "fh_dequeue h =
     bind_run (lscq_dequeue (internal (eh_internal (fh_enqueue h)))) (\<lambda>(res, i).
       ret (res, h\<lparr>fh_enqueue := (fh_enqueue h)\<lparr>eh_internal :=
                     (eh_internal (fh_enqueue h))\<lparr>internal := i\<rparr>\<rparr>\<rparr>))"

definition unbounded_enqueue :: "'a unbounded_queue \<Rightarrow> 'a \<Rightarrow> 'a unbounded_queue run" where
  "unbounded_enqueue q item = bind_run (eh_enqueue (enqueue_handle q) item) (\<lambda>h. ret (eh_internal h))"

definition unbounded_dequeue :: "'a unbounded_queue \<Rightarrow> ('a option \<times> 'a unbounded_queue) run" where
  "unbounded_dequeue q =
     bind_run (fh_dequeue (full_handle q)) (\<lambda>(res, h). ret (res, eh_internal (fh_enqueue h)))"

record 'a counted_queue =
  cq_queue :: "'a unbounded_queue"
  cq_length :: usize

definition counted_with_segment_size ::
  "usize \<Rightarrow> (nat \<Rightarrow> bool list \<times> bool list) \<Rightarrow> 'a counted_queue exec"
where
  "counted_with_segment_size seg w =
     bind_exec (with_segment_size seg w) (\<lambda>q. Ret \<lparr>cq_queue = q, cq_length = 0\<rparr>)"

definition counted_new :: "(nat \<Rightarrow> bool list \<times> bool list) \<Rightarrow> 'a counted_queue exec" where
  "counted_new w = counted_with_segment_size 32 w"

definition counted_base_segment_capacity :: "'a counted_queue \<Rightarrow> usize" where
  "counted_base_segment_capacity q = base_size (cq_queue q)"

definition counted_len :: "'a counted_queue \<Rightarrow> usize" where
  "counted_len q = cq_length q"

definition counted_is_empty :: "'a counted_queue \<Rightarrow> bool" where
  "counted_is_empty q \<longleftrightarrow> counted_len q = 0"

definition counted_enqueue :: "'a counted_queue \<Rightarrow> 'a \<Rightarrow> 'a counted_queue run" where
  "counted_enqueue q item =
     (let q1 = q\<lparr>cq_length := cq_length q + 1\<rparr>
      in bind_run (unbounded_enqueue (cq_queue q1) item) (\<lambda>u. ret (q1\<lparr>cq_queue := u\<rparr>)))"

definition counted_dequeue :: "'a counted_queue \<Rightarrow> ('a option \<times> 'a counted_queue) run" where
  "counted_dequeue q =
     bind_run (unbounded_dequeue (cq_queue q)) (\<lambda>(res, u).
       let q1 = q\<lparr>cq_queue := u\<rparr>
       in case res of
            Some item \<Rightarrow> ret (Some item, q1\<lparr>cq_length := cq_length q1 - 1\<rparr>)
          | None \<Rightarrow> ret (None, q1))"

end
