(* ===== verification/UnboundedSpec.thy ===== *)
theory UnboundedSpec
  imports Unbounded
begin

text \<open>
  What a list of queues holds: the nodes reachable from the head form a list of distinct allocated
  addresses ending at the tail, nothing else is allocated, each node represents a segment of the
  values, and every retired node is empty. Each operation of \<open>Unbounded\<close> keeps this, appends at the end or
  removes at the front, and never reaches an undefined access.
\<close>

section \<open>Chains of nodes\<close>

fun first_ptr :: "nat list \<Rightarrow> ptr \<Rightarrow> ptr" where
  "first_ptr [] p = p"
| "first_ptr (a # as) p = Some a"

definition node_rep :: "nat \<Rightarrow> nat \<Rightarrow> 'a bounded_queue \<Rightarrow> 'a list \<Rightarrow> bool" where
  "node_rep c k v s \<longleftrightarrow> bq_rep c v s \<and> bq_cap v = 2 ^ k"

text \<open>The nodes at \<open>as\<close> hold the segments \<open>ss\<close>, each points to the following one, the last to \<open>p\<close>.\<close>

fun lscq_chain ::
  "nat \<Rightarrow> nat \<Rightarrow> (nat \<Rightarrow> 'a lscq_node option) \<Rightarrow> nat list \<Rightarrow> 'a list list \<Rightarrow> ptr \<Rightarrow> bool"
where
  "lscq_chain c k ns [] [] p \<longleftrightarrow> True"
| "lscq_chain c k ns (a # as) (s # ss) p \<longleftrightarrow>
     (\<exists>n. ns a = Some n \<and> node_rep c k (node_value n) s \<and> next_ptr n = first_ptr as p)
     \<and> lscq_chain c k ns as ss p"
| "lscq_chain c k ns _ _ p \<longleftrightarrow> False"

lemma first_ptr_append [simp]: "first_ptr (as @ bs) p = first_ptr as (first_ptr bs p)"
  by (cases as) simp_all

lemma lscq_chain_length: "lscq_chain c k ns as ss p \<Longrightarrow> length as = length ss"
  by (induction c k ns as ss p rule: lscq_chain.induct) auto

lemma lscq_chain_append:
  "length as = length ss \<Longrightarrow>
     lscq_chain c k ns (as @ bs) (ss @ ts) p \<longleftrightarrow>
       lscq_chain c k ns as ss (first_ptr bs p) \<and> lscq_chain c k ns bs ts p"
  by (induction c k ns as ss p rule: lscq_chain.induct) auto

lemma lscq_chain_frame:
  "(\<And>a. a \<in> set as \<Longrightarrow> ns' a = ns a) \<Longrightarrow> lscq_chain c k ns' as ss p = lscq_chain c k ns as ss p"
  by (induction c k ns as ss p rule: lscq_chain.induct) auto

lemma node_rep_clock: "node_rep c k v s \<Longrightarrow> c \<le> c' \<Longrightarrow> c' < 2 ^ 62 \<Longrightarrow> node_rep c' k v s"
  by (auto simp: node_rep_def intro: bq_clock)

lemma lscq_chain_clock:
  "lscq_chain c k ns as ss p \<Longrightarrow> c \<le> c' \<Longrightarrow> c' < 2 ^ 62 \<Longrightarrow> lscq_chain c' k ns as ss p"
  by (induction c k ns as ss p rule: lscq_chain.induct) (auto intro: node_rep_clock [simplified])

section \<open>The representation\<close>

definition lscq_empty_node :: "'a lscq_node \<Rightarrow> bool" where
  "lscq_empty_node n \<longleftrightarrow> (\<forall>b\<in>set (backing (node_value n)). b = None)"

definition lscq_inv :: "nat \<Rightarrow> nat \<Rightarrow> 'a lscq \<Rightarrow> nat list \<Rightarrow> 'a list list \<Rightarrow> bool" where
  "lscq_inv c k q as ss \<longleftrightarrow>
     as \<noteq> [] \<and> lscq_chain c k (nodes q) as ss None \<and> distinct as
     \<and> dom (nodes q) = set as \<and> (\<forall>a\<in>set as. a < fresh_addr q)
     \<and> lq_head q = Some (hd as) \<and> lq_tail q = Some (last as)
     \<and> internal_order q = 2 ^ k \<and> k \<le> 60 \<and> 2 ^ k \<le> c \<and> c < 2 ^ 62
     \<and> (\<forall>n\<in>set (retired q). lscq_empty_node n)"

definition lscq_rep :: "nat \<Rightarrow> nat \<Rightarrow> 'a lscq \<Rightarrow> 'a list \<Rightarrow> bool" where
  "lscq_rep c k q vs \<longleftrightarrow> (\<exists>as ss. lscq_inv c k q as ss \<and> vs = concat ss)"

lemma lscq_inv_clock: "lscq_inv c k q as ss \<Longrightarrow> c \<le> c' \<Longrightarrow> c' < 2 ^ 62 \<Longrightarrow> lscq_inv c' k q as ss"
  by (auto simp: lscq_inv_def intro: lscq_chain_clock)

lemma lscq_rep_clock: "lscq_rep c k q vs \<Longrightarrow> c \<le> c' \<Longrightarrow> c' < 2 ^ 62 \<Longrightarrow> lscq_rep c' k q vs"
  unfolding lscq_rep_def by (blast intro: lscq_inv_clock)

text \<open>An operation may use up this many tickets of one ring.\<close>

definition lscq_cost :: "nat \<Rightarrow> nat" where
  "lscq_cost k = 2 * 2 ^ k + 2"

lemma put_value_fields [simp]:
  "nodes (put_value a v q) = (nodes q)(a := map_option (\<lambda>n. n\<lparr>node_value := v\<rparr>) (nodes q a))"
  "lq_head (put_value a v q) = lq_head q" "lq_tail (put_value a v q) = lq_tail q"
  "internal_order (put_value a v q) = internal_order q" "fresh_addr (put_value a v q) = fresh_addr q"
  "retired (put_value a v q) = retired q" "sched (put_value a v q) = sched q"
  by (simp_all add: put_value_def)

lemma put_next_fields [simp]:
  "nodes (put_next a p q) = (nodes q)(a := map_option (\<lambda>n. n\<lparr>next_ptr := p\<rparr>) (nodes q a))"
  "lq_head (put_next a p q) = lq_head q" "lq_tail (put_next a p q) = lq_tail q"
  "internal_order (put_next a p q) = internal_order q" "fresh_addr (put_next a p q) = fresh_addr q"
  "retired (put_next a p q) = retired q"
  by (simp_all add: put_next_def)

section \<open>A fresh queue\<close>

lemma node_new_rep:
  assumes "k \<le> 60"
  shows "\<exists>n :: 'a lscq_node. node_new (2 ^ k) w = Ret n \<and> node_rep (2 ^ k) k (node_value n) [] \<and> next_ptr n = None
           \<and> \<not> bq_closed (node_value n)"
proof -
  obtain v :: "'a bounded_queue" where "new_alloc 1 (2 ^ k) (fst w) (snd w) = Ret v" "node_rep (2 ^ k) k v []" "\<not> bq_closed v"
    using new_alloc_rep [OF assms, of 1 "fst w" "snd w"] by (auto simp: node_rep_def)
  then show ?thesis
    by (intro exI [of _ "\<lparr>node_value = v, next_ptr = None\<rparr>"]) (simp add: node_new_def)
qed

lemma lscq_new_rep:
  assumes "k \<le> 60"
  shows "\<exists>q :: 'a lscq. lscq_new (2 ^ k) w = Ret q \<and> lscq_rep (2 ^ k) k q []"
proof -
  obtain n :: "'a lscq_node" where n: "node_new (2 ^ k) (w 0) = Ret n" "node_rep (2 ^ k) k (node_value n) []"
      "next_ptr n = None"
    using node_new_rep [OF assms] by blast
  have "(2 :: nat) ^ k < 2 ^ 62" using assms by (intro power_strict_increasing) auto
  moreover define q where "q = \<lparr>lq_head = Some 0, lq_tail = Some 0, internal_order = 2 ^ k,
      nodes = [0 \<mapsto> n], fresh_addr = 1, retired = [], sched = w\<rparr>"
  ultimately have "lscq_inv (2 ^ k) k q [0] [[]]"
    using n assms by (simp add: lscq_inv_def)
  then have "lscq_rep (2 ^ k) k q []"
    unfolding lscq_rep_def by (intro exI [of _ "[0]"] exI [of _ "[[]]"]) simp
  moreover have "lscq_new (2 ^ k) w = Ret q"
    by (simp add: lscq_new_def n(1) q_def)
  ultimately show ?thesis by blast
qed

section \<open>enqueue\<close>

lemma lscq_inv_last:
  assumes "lscq_inv c k q as ss"
  obtains as' ss' t s n where "as = as' @ [t]" "ss = ss' @ [s]" "length as' = length ss'"
    "lscq_chain c k (nodes q) as' ss' (Some t)" "nodes q t = Some n" "node_rep c k (node_value n) s"
    "next_ptr n = None" "t \<notin> set as'" "lq_tail q = Some t"
proof -
  have as: "as \<noteq> []" "lscq_chain c k (nodes q) as ss None"
    using assms by (auto simp: lscq_inv_def)
  have len: "length as = length ss"
    using lscq_chain_length as(2) by blast
  with as(1) have ss: "ss \<noteq> []" by auto
  obtain as' t where a: "as = as' @ [t]" using as(1) by (cases as rule: rev_cases) auto
  obtain ss' s where s: "ss = ss' @ [s]" using ss by (cases ss rule: rev_cases) auto
  have len': "length as' = length ss'" using len a s by simp
  show ?thesis
    using that [OF a s len'] as(2) assms lscq_chain_append [OF len', of c k "nodes q" "[t]" "[s]" None]
    by (auto simp: a s lscq_inv_def)
qed

lemma lscq_enqueue_room:
  assumes inv: "lscq_inv c k q as ss" and t: "lq_tail q = Some t" "nodes q t = Some n"
    and enq: "enqueue_cycle True (node_value n) x = ret (Inr (), v')"
  shows "lscq_enqueue x q = ret (put_value t v' q)"
proof -
  have "next_ptr n = None"
    using inv t by (elim lscq_inv_last) auto
  then show ?thesis
    using t enq by (simp add: lscq_enqueue.simps [of x q] get_node_def Let_def)
qed

lemma lscq_enqueue_grow:
  assumes t: "lq_tail q = Some t" "nodes q t = Some n" "next_ptr n = None" "fresh_addr q \<noteq> t"
    and enq: "enqueue_cycle True (node_value n) x = ret (Inl (x, err), v')"
    and new: "node_new (internal_order q) (sched q (fresh_addr q)) = Ret m"
    and enq2: "bq_enqueue (node_value m) x = ret (Inr (), v2)"
  shows "\<exists>q'. lscq_enqueue x q = ret q'
     \<and> nodes q' = (nodes q)(t \<mapsto> n\<lparr>node_value := v', next_ptr := Some (fresh_addr q)\<rparr>,
                            fresh_addr q \<mapsto> m\<lparr>node_value := v2\<rparr>)
     \<and> lq_tail q' = Some (fresh_addr q) \<and> lq_head q' = lq_head q \<and> fresh_addr q' = Suc (fresh_addr q)
     \<and> internal_order q' = internal_order q \<and> retired q' = retired q"
  using assms
  by (simp add: lscq_enqueue.simps [of x q] get_node_def Let_def box_node_def cas_lq_tail_def fun_upd_twist)

lemma lscq_enqueue_ok:
  assumes rep: "lscq_rep c k q vs" and c: "c + lscq_cost k < 2 ^ 62"
  shows "\<exists>q'. lscq_enqueue x q = ret q' \<and> lscq_rep (c + lscq_cost k) k q' (vs @ [x])"
proof -
  obtain as ss where inv: "lscq_inv c k q as ss" and vs: "vs = concat ss"
    using rep by (auto simp: lscq_rep_def)
  obtain as' ss' t s n where l: "as = as' @ [t]" "ss = ss' @ [s]" "length as' = length ss'"
    "lscq_chain c k (nodes q) as' ss' (Some t)" "nodes q t = Some n" "node_rep c k (node_value n) s"
    "next_ptr n = None" "t \<notin> set as'" "lq_tail q = Some t"
    using inv by (rule lscq_inv_last)
  let ?c = "c + lscq_cost k"
  have cc: "Suc c < 2 ^ 62" "Suc c \<le> ?c" "c \<le> ?c" "c + 2 * 2 ^ k < 2 ^ 62" "c + 2 * 2 ^ k \<le> ?c"
    using c by (auto simp: lscq_cost_def)
  have front: "lscq_chain ?c k (nodes q) as' ss' (Some t)"
    using lscq_chain_clock [OF l(4) cc(3) c] .
  have keep: "distinct as" "dom (nodes q) = set as" "\<forall>a\<in>set as. a < fresh_addr q"
    "lq_head q = Some (hd as)" "internal_order q = 2 ^ k" "k \<le> 60" "2 ^ k \<le> ?c"
    "\<forall>n\<in>set (retired q). lscq_empty_node n"
    using inv cc(3) by (auto simp: lscq_inv_def)
  note nr = l(6) [unfolded node_rep_def]
  show ?thesis
  proof (cases "length s < bq_cap (node_value n) \<and> \<not> bq_closed (node_value n)")
    case True
    obtain v' where v': "enqueue_cycle True (node_value n) x = ret (Inr (), v')" "node_rep (Suc c) k v' (s @ [x])"
      using enqueue_cycle_room [OF nr [THEN conjunct1], of True x] True cc(1) nr
      by (auto simp: node_rep_def bq_shape_def)
    have "lscq_inv ?c k (put_value t v' q) as (ss' @ [s @ [x]])"
    proof -
      have "lscq_chain ?c k (nodes (put_value t v' q)) as' ss' (Some t)"
        using front l(8) by (subst lscq_chain_frame [of _ _ "nodes q"]) auto
      then show ?thesis
        using keep l c node_rep_clock [OF v'(2) cc(2) c]
        by (auto simp: lscq_inv_def lscq_chain_append)
    qed
    moreover have "vs @ [x] = concat (ss' @ [s @ [x]])"
      using vs l by simp
    ultimately show ?thesis
      unfolding lscq_rep_def using lscq_enqueue_room [OF inv l(9,5) v'(1)] by blast
  next
    case False
    have "\<exists>err v'. enqueue_cycle True (node_value n) x = ret (Inl (x, err), v') \<and> node_rep ?c k v' s"
    proof (cases "length s = bq_cap (node_value n)")
      case True
      then show ?thesis
        using enqueue_cycle_full [OF nr [THEN conjunct1] True, of True x] node_rep_clock [OF l(6) cc(3) c] by blast
    next
      case f: False
      with False nr have room: "length s < bq_cap (node_value n)" "bq_closed (node_value n)"
        using bq_rep_length [of c "node_value n" s] by auto
      obtain v' where "enqueue_cycle True (node_value n) x = ret (Inl (x, queue_error.QueueFinalized), v')"
          "node_rep (c + 2 * 2 ^ k) k v' s"
        using enqueue_cycle_closed [OF nr [THEN conjunct1] room, of True x] nr cc(4)
        by (auto simp: node_rep_def bq_shape_def)
      then show ?thesis
        using node_rep_clock [OF _ cc(5) c] by blast
    qed
    then obtain err v' where v': "enqueue_cycle True (node_value n) x = ret (Inl (x, err), v')"
        "node_rep ?c k v' s" by blast
    let ?a = "fresh_addr q"
    have fresh: "?a \<noteq> t" "?a \<notin> set as'" "?a \<notin> set as"
      using keep(3) l(1) by auto
    obtain m :: "'a lscq_node" where m: "node_new (internal_order q) (sched q ?a) = Ret m" "node_rep (2 ^ k) k (node_value m) []"
        "next_ptr m = None" "\<not> bq_closed (node_value m)"
      using node_new_rep [OF keep(6), of "sched q ?a"] unfolding keep(5) by blast
    have ck: "Suc (2 ^ k) < 2 ^ 62" "Suc (2 ^ k) \<le> ?c"
      using keep(7) c by (auto simp: lscq_cost_def)
    obtain v2 where v2: "bq_enqueue (node_value m) x = ret (Inr (), v2)" "node_rep (Suc (2 ^ k)) k v2 [x]"
      using bq.enq_room [of "2 ^ k" "node_value m" "[]" x] m(2,4) ck(1)
      by (auto simp: node_rep_def bq_open_rep_def)
    obtain q' where q': "lscq_enqueue x q = ret q'"
        "nodes q' = (nodes q)(t \<mapsto> n\<lparr>node_value := v', next_ptr := Some ?a\<rparr>, ?a \<mapsto> m\<lparr>node_value := v2\<rparr>)"
        "lq_tail q' = Some ?a" "lq_head q' = lq_head q" "fresh_addr q' = Suc ?a"
        "internal_order q' = internal_order q" "retired q' = retired q"
      using lscq_enqueue_grow [OF l(9,5,7) fresh(1) v'(1) m(1) v2(1)] by blast
    have "lscq_inv ?c k q' (as @ [?a]) (ss @ [[x]])"
    proof -
      have "lscq_chain ?c k (nodes q') as' ss' (Some t)"
        using front l(8) fresh q'(2) by (subst lscq_chain_frame [of _ _ "nodes q"]) auto
      then have "lscq_chain ?c k (nodes q') ((as' @ [t]) @ [?a]) ((ss' @ [s]) @ [[x]]) None"
        using l(3) v'(2) node_rep_clock [OF v2(2) ck(2) c] m(3) fresh(1) q'(2)
        by (subst lscq_chain_append; simp add: lscq_chain_append)
      then show ?thesis
        using keep q' fresh c l(1,2) by (auto simp: lscq_inv_def hd_append)
    qed
    then show ?thesis
      unfolding lscq_rep_def using q'(1) vs by (intro exI [of _ q']) (auto intro!: exI [of _ "as @ [?a]"] exI [of _ "ss @ [[x]]"])
  qed
qed

section \<open>dequeue\<close>

lemma retry_threshold_nonneg:
  assumes "ring_wf (free_queue v)"
  shows "0 \<le> sint (retry_threshold v)"
proof -
  let ?m = "Suc (unat (order (free_queue v)))"
  have o: "unat (order (free_queue v)) \<le> 60"
    using assms by (simp add: ring_wf_def)
  then have m: "unat (order (free_queue v) + 1) mod 64 = ?m"
    by (subst unat_plus_one) auto
  have le: "(2 :: nat) ^ ?m \<le> 2 ^ 61"
    using o by (intro power_increasing) auto
  have "unat ((3 :: usize) * 2 ^ ?m) = (3 * 2 ^ ?m) mod 2 ^ 64"
    using o unat_two_power [of ?m] by (simp only: unat_word_ariths) simp
  also have "\<dots> = 3 * 2 ^ ?m"
    using le by simp
  finally have u: "unat ((3 :: usize) * 2 ^ ?m) = 3 * 2 ^ ?m" .
  then have "(3 :: usize) * 2 ^ ?m \<noteq> 0"
    by (metis mult_eq_0_iff power_eq_0_iff unat_0 zero_neq_numeral)
  then have "unat ((3 :: usize) * 2 ^ ?m - 1) < 2 ^ 63"
    using u le by (simp add: unat_minus_one)
  then show ?thesis
    unfolding retry_threshold_def m by (simp add: sint_bounds)
qed

lemma bq_rep_wf: "bq_rep c v vs \<Longrightarrow> ring_wf (free_queue v)"
  by (auto simp: bq_rep_def bq_inv_def intro: ring_rep_wf)

lemma store_threshold_rep:
  assumes "node_rep c k v vs" "0 \<le> sint th"
  shows "node_rep c k (store_threshold th v) vs"
proof -
  obtain as fs where inv: "bq_inv c v as fs vs" and cap: "bq_cap v = 2 ^ k"
    using assms(1) by (auto simp: node_rep_def bq_rep_def)
  then have "ring_rep c ((alloc_queue v)\<lparr>threshold := th\<rparr>) as"
    using ring_rep_threshold [OF _ assms(2)] by (simp add: bq_inv_def)
  then have "bq_inv c (store_threshold th v) as fs vs"
    using inv by (simp add: bq_inv_def bq_cap_def store_threshold_def)
  then show ?thesis
    using cap by (auto simp: node_rep_def bq_rep_def bq_cap_def store_threshold_def)
qed

lemma bq_rep_nil_backing: "bq_rep c v [] \<Longrightarrow> \<forall>b\<in>set (backing v). b = None"
  by (auto simp: bq_rep_def bq_inv_def all_set_conv_all_nth)

lemma lscq_inv_head:
  assumes "lscq_inv c k q (a # as) ss"
  shows "\<exists>s ss' n. ss = s # ss' \<and> nodes q a = Some n \<and> node_rep c k (node_value n) s
           \<and> next_ptr n = first_ptr as None \<and> lscq_chain c k (nodes q) as ss' None \<and> lq_head q = Some a"
proof -
  have "lscq_chain c k (nodes q) (a # as) ss None" "lq_head q = Some a"
    using assms by (auto simp: lscq_inv_def)
  then show ?thesis by (cases ss) auto
qed

text \<open>A head node that changes its value but not its neighbour.\<close>

lemma lscq_inv_put_head:
  assumes inv: "lscq_inv c k q (a # as) (s # ss)" and v: "node_rep c' k v s'"
    and c: "c \<le> c'" "c' < 2 ^ 62"
  shows "lscq_inv c' k (put_value a v q) (a # as) (s' # ss)"
proof -
  have "lscq_chain c' k (nodes (put_value a v q)) as ss None"
    using inv lscq_chain_clock [OF _ c]
    by (subst lscq_chain_frame [of _ _ "nodes q"]) (auto simp: lscq_inv_def)
  then show ?thesis
    using inv v c by (auto simp: lscq_inv_def)
qed

lemma lscq_inv_retire:
  assumes inv: "lscq_inv c k q (a # b # as) (s # ss)" and n: "lscq_empty_node n"
  shows "lscq_inv c k (q\<lparr>lq_head := Some b, nodes := (nodes q)(a := None), retired := retired q @ [n]\<rparr>)
           (b # as) ss"
proof -
  have "lscq_chain c k ((nodes q)(a := None)) (b # as) ss None"
    using inv by (subst lscq_chain_frame [of _ _ "nodes q"]) (auto simp: lscq_inv_def)
  then show ?thesis
    using inv n by (auto simp: lscq_inv_def)
qed

lemma lscq_dequeue_run:
  assumes "lscq_inv c k q as ss" "c + 2 < 2 ^ 62"
  shows "\<exists>q' as' ss'. lscq_dequeue q = ret (case concat ss of [] \<Rightarrow> None | x # _ \<Rightarrow> Some x, q')
            \<and> lscq_inv (c + 2) k q' as' ss' \<and> concat ss' = tl (concat ss)"
  using assms
proof (induction as arbitrary: q ss)
  case Nil
  then show ?case by (simp add: lscq_inv_def)
next
  case (Cons a as)
  obtain s ss' n where h: "ss = s # ss'" "nodes q a = Some n" "node_rep c k (node_value n) s"
      "next_ptr n = first_ptr as None" "lscq_chain c k (nodes q) as ss' None" "lq_head q = Some a"
    using lscq_inv_head [OF Cons.prems(1)] by blast
  note inv = Cons.prems(1) [unfolded h(1)]
  note IH = Cons.IH
  have c: "Suc c < 2 ^ 62" "Suc c \<le> c + 2" "c + 2 < 2 ^ 62" "Suc (Suc c) < 2 ^ 62"
    using Cons.prems(2) by auto
  show ?case
  proof (cases s)
    case (Cons x s')
    obtain v' where v': "bq_dequeue (node_value n) = ret (Some x, v')" "node_rep (Suc c) k v' s'"
      using bq_dequeue_some [of c "node_value n" x s'] h(3) c(1) Cons
      by (auto simp: node_rep_def bq_shape_def)
    then have "lscq_dequeue q = ret (Some x, put_value a v' q)"
      by (simp add: lscq_dequeue.simps [of q] h(2,6) get_node_def Let_def)
    moreover have "lscq_inv (c + 2) k (put_value a v' q) (a # as) (s' # ss')"
      using lscq_inv_put_head [OF inv node_rep_clock [OF v'(2) c(2,3)] _ c(3)] by simp
    ultimately show ?thesis
      using h(1) Cons by (intro exI [of _ "put_value a v' q"] exI [of _ "a # as"] exI [of _ "s' # ss'"]) simp
  next
    case Nil
    obtain v1 where v1: "bq_dequeue (node_value n) = ret (None, v1)" "node_rep (Suc c) k v1 []"
      using bq_dequeue_none [of c "node_value n"] h(3) c(1) Nil by (auto simp: node_rep_def bq_shape_def)
    show ?thesis
    proof (cases as)
      case Nil': Nil
      then have ss': "ss' = []" using lscq_chain_length [OF h(5)] by simp
      have "lscq_dequeue q = ret (None, put_value a v1 q)"
        using h(4) Nil' by (simp add: lscq_dequeue.simps [of q] h(2,6) get_node_def Let_def v1(1))
      moreover have "lscq_inv (c + 2) k (put_value a v1 q) (a # as) ([] # ss')"
        using lscq_inv_put_head [OF inv node_rep_clock [OF v1(2) c(2,3)] _ c(3)] by simp
      ultimately show ?thesis
        using h(1) Nil ss' by (intro exI [of _ "put_value a v1 q"] exI [of _ "a # as"] exI [of _ "[[]]"]) simp
    next
      case (Cons b as2)
      let ?v = "store_threshold (retry_threshold v1) v1"
      have "node_rep (Suc c) k ?v []"
        using store_threshold_rep [OF v1(2)] retry_threshold_nonneg [OF bq_rep_wf] v1(2) by (auto simp: node_rep_def)
      then obtain v2 where v2: "bq_dequeue ?v = ret (None, v2)" "bq_rep (Suc (Suc c)) v2 []"
        using bq_dequeue_none [of "Suc c" ?v] c(4) by (auto simp: node_rep_def)
      let ?n = "n\<lparr>node_value := v2\<rparr>"
      let ?q = "q\<lparr>lq_head := Some b, nodes := (nodes q)(a := None), retired := retired q @ [?n]\<rparr>"
      have "lscq_dequeue q = lscq_dequeue ?q"
        using h(4) Cons
        by (simp add: lscq_dequeue.simps [of q] h(2,6) get_node_def Let_def v1(1) v2(1) retire_node_def
            put_value_def)
      moreover have "lscq_inv c k ?q as ss'"
        using lscq_inv_retire [of c k q a b as2 s ss' ?n] inv Cons bq_rep_nil_backing [OF v2(2)]
        by (simp add: lscq_empty_node_def)
      ultimately show ?thesis
        using IH [of ?q ss'] c(3) h(1) Nil by simp
    qed
  qed
qed

lemma lscq_dequeue_ok:
  assumes rep: "lscq_rep c k q vs" and c: "c + lscq_cost k < 2 ^ 62"
  shows "\<exists>q'. lscq_dequeue q = ret (case vs of [] \<Rightarrow> None | x # _ \<Rightarrow> Some x, q')
            \<and> lscq_rep (c + lscq_cost k) k q' (tl vs)"
proof -
  obtain as ss where inv: "lscq_inv c k q as ss" and vs: "vs = concat ss"
    using rep by (auto simp: lscq_rep_def)
  have c2: "c + 2 < 2 ^ 62" "c + 2 \<le> c + lscq_cost k"
    using c by (auto simp: lscq_cost_def)
  obtain q' as' ss' where "lscq_dequeue q = ret (case vs of [] \<Rightarrow> None | x # _ \<Rightarrow> Some x, q')"
      "lscq_inv (c + 2) k q' as' ss'" "concat ss' = tl vs"
    using lscq_dequeue_run [OF inv c2(1)] vs by auto
  then show ?thesis
    using lscq_inv_clock [OF _ c2(2) c] unfolding lscq_rep_def by metis
qed

section \<open>Drop\<close>

lemma lscq_drop_loop_all:
  assumes "lscq_chain c k (nodes q) as ss None" "distinct as" "dom (nodes q) = set as" "Suc c < 2 ^ 62"
  shows "\<exists>q'. lscq_drop_loop acc (first_ptr as None) q = ret (acc @ concat ss, q')
            \<and> nodes q' = Map.empty \<and> retired q' = retired q"
  using assms
proof (induction as arbitrary: q ss acc)
  case Nil
  then show ?case by (cases ss) (auto simp: lscq_drop_loop.simps)
next
  case (Cons a as)
  then obtain s ss' n where ss: "ss = s # ss'" and n: "nodes q a = Some n" "node_rep c k (node_value n) s"
      "next_ptr n = first_ptr as None" and ch: "lscq_chain c k (nodes q) as ss' None"
    by (cases ss) auto
  obtain v' where v': "bq_drop (node_value n) = ret (s, v')"
    using bq_drop_all [OF n(2) [unfolded node_rep_def, THEN conjunct1] Cons.prems(4)] by blast
  let ?q = "q\<lparr>nodes := (nodes q)(a := None)\<rparr>"
  have "lscq_drop_loop acc (first_ptr (a # as) None) q
      = lscq_drop_loop (acc @ s) (first_ptr as None) ?q"
    using n by (simp add: lscq_drop_loop.simps [of acc "Some a"] get_node_def free_owned_alloc_def v')
  moreover have chain: "lscq_chain c k (nodes ?q) as ss' None"
    using ch Cons.prems(2) by (subst lscq_chain_frame [of _ _ "nodes q"]) auto
  have alloc: "dom (nodes ?q) = set as" "distinct as"
    using Cons.prems(2,3) by auto
  obtain q' where "lscq_drop_loop (acc @ s) (first_ptr as None) ?q = ret ((acc @ s) @ concat ss', q')"
      "nodes q' = Map.empty" "retired q' = retired ?q"
    using Cons.IH [OF chain alloc(2,1) Cons.prems(4)] by blast
  ultimately show ?case
    using ss by simp
qed

lemma lscq_drop_all:
  assumes "lscq_rep c k q vs" "Suc c < 2 ^ 62"
  shows "\<exists>q'. lscq_drop q = ret (vs, q') \<and> nodes q' = Map.empty
            \<and> (\<forall>n\<in>set (retired q'). lscq_empty_node n)"
proof -
  obtain as ss where inv: "lscq_inv c k q as ss" and vs: "vs = concat ss"
    using assms(1) by (auto simp: lscq_rep_def)
  then have "lq_head q = first_ptr as None"
    by (cases as) (auto simp: lscq_inv_def)
  then show ?thesis
    using lscq_drop_loop_all [of c k q as ss "[]"] inv assms(2) vs
    by (auto simp: lscq_inv_def lscq_drop_def)
qed

end
