(* ===== verification/UnboundedFifo.thy ===== *)
theory UnboundedFifo
  imports UnboundedSpec
begin

text \<open>
  The contract of an unbounded FIFO queue as the locale \<open>unbounded_fifo\<close>, what follows for scripts of
  calls and for the loop of the fuzz target \<open>lscq_grind\<close>, and its interpretations on the model of
  \<open>UnboundedQueue\<close> and of \<open>CountedUnboundedQueue\<close>. \<open>cost\<close> bounds the tickets one call may use.
\<close>

section \<open>Scripts and the fuzz loop\<close>

fun stream_script ::
  "('q \<Rightarrow> 'a \<Rightarrow> 'q run) \<Rightarrow> ('q \<Rightarrow> ('a option \<times> 'q) run)
     \<Rightarrow> 'a fifo_instr list \<Rightarrow> 'q \<Rightarrow> ('a option list \<times> 'q) run"
where
  "stream_script enq deq [] q = ret ([], q)"
| "stream_script enq deq (Enq x # is) q = bind_run (enq q x) (\<lambda>q'. stream_script enq deq is q')"
| "stream_script enq deq (Deq # is) q =
     bind_run (deq q) (\<lambda>(res, q').
       bind_run (stream_script enq deq is q') (\<lambda>(outs, q''). ret (res # outs, q'')))"

fun list_stream :: "'a fifo_instr list \<Rightarrow> 'a list \<Rightarrow> 'a option list \<times> 'a list" where
  "list_stream [] xs = ([], xs)"
| "list_stream (Enq x # is) xs = list_stream is (xs @ [x])"
| "list_stream (Deq # is) xs =
     (let (outs, ys) = list_stream is (tl xs)
      in ((case xs of [] \<Rightarrow> None | x # _ \<Rightarrow> Some x) # outs, ys))"

fun stream_grind_loop ::
  "('q \<Rightarrow> usize \<Rightarrow> 'q run) \<Rightarrow> ('q \<Rightarrow> (usize option \<times> 'q) run)
     \<Rightarrow> grind_instr list \<Rightarrow> usize mock_queue \<Rightarrow> 'q \<Rightarrow> (usize mock_queue \<times> 'q) run"
where
  "stream_grind_loop enq deq [] m q = ret (m, q)"
| "stream_grind_loop enq deq (Dequeue # is) m q =
     (let (expected, m') = mock_dequeue m
      in bind_run (deq q) (\<lambda>(got, q').
           if expected = got then stream_grind_loop enq deq is m' q' else Some Panic))"
| "stream_grind_loop enq deq (Enqueue item # is) m q =
     bind_run (enq q item) (\<lambda>q'.
       stream_grind_loop enq deq is (mock_enqueue_boundless m item) q')"

section \<open>The contract\<close>

locale unbounded_fifo =
  fixes enq :: "'q \<Rightarrow> 'a \<Rightarrow> 'q run"
    and deq :: "'q \<Rightarrow> ('a option \<times> 'q) run"
    and rep :: "nat \<Rightarrow> 'q \<Rightarrow> 'a list \<Rightarrow> bool"
    and cost :: "'q \<Rightarrow> nat"
  assumes enq_ok: "\<lbrakk>rep c q xs; c + cost q < 2 ^ 62\<rbrakk>
      \<Longrightarrow> \<exists>q'. enq q x = ret q' \<and> rep (c + cost q) q' (xs @ [x]) \<and> cost q' = cost q"
    and deq_ok: "\<lbrakk>rep c q xs; c + cost q < 2 ^ 62\<rbrakk>
      \<Longrightarrow> \<exists>q'. deq q = ret (case xs of [] \<Rightarrow> None | x # _ \<Rightarrow> Some x, q')
               \<and> rep (c + cost q) q' (tl xs) \<and> cost q' = cost q"
begin

lemma script_refines:
  assumes "rep c q xs" "c + length is * cost q < 2 ^ 62"
  shows "\<exists>q'. stream_script enq deq is q = ret (fst (list_stream is xs), q')
            \<and> rep (c + length is * cost q) q' (snd (list_stream is xs)) \<and> cost q' = cost q"
  using assms
proof (induction "is" arbitrary: c q xs)
  case Nil
  then show ?case by simp
next
  case (Cons i "is")
  have c: "c + cost q < 2 ^ 62" and l: "c + cost q + length is * cost q < 2 ^ 62"
    using Cons.prems(2) by simp_all
  have tail_run: "\<exists>q2. stream_script enq deq is q1 = ret (fst (list_stream is ys), q2)
      \<and> rep (c + length (i # is) * cost q) q2 (snd (list_stream is ys)) \<and> cost q2 = cost q"
    if "rep (c + cost q) q1 ys" "cost q1 = cost q" for q1 ys
    using Cons.IH [OF that(1)] that(2) l by (simp add: add.assoc)
  show ?case
  proof (cases i)
    case (Enq x)
    with enq_ok [OF Cons.prems(1) c, of x] tail_run show ?thesis by auto
  next
    case Deq
    obtain q1 where q1: "deq q = ret (case xs of [] \<Rightarrow> None | x # _ \<Rightarrow> Some x, q1)"
        "rep (c + cost q) q1 (tl xs)" "cost q1 = cost q"
      using deq_ok [OF Cons.prems(1) c] by blast
    show ?thesis
      using tail_run [OF q1(2,3)] q1(1) Deq by (auto simp: split_beta)
  qed
qed

end

locale grindable_stream = unbounded_fifo enq deq rep cost
  for enq :: "'q \<Rightarrow> usize \<Rightarrow> 'q run"
    and deq :: "'q \<Rightarrow> (usize option \<times> 'q) run"
    and rep :: "nat \<Rightarrow> 'q \<Rightarrow> usize list \<Rightarrow> bool"
    and cost :: "'q \<Rightarrow> nat"
begin

lemma grind_agrees:
  assumes "rep c q (mq_queue m)" "c + length is * cost q < 2 ^ 62"
  shows "\<exists>m' q'. stream_grind_loop enq deq is m q = ret (m', q')
            \<and> rep (c + length is * cost q) q' (mq_queue m')"
  using assms
proof (induction "is" arbitrary: c q m)
  case Nil
  then show ?case by simp
next
  case (Cons i "is")
  have c: "c + cost q < 2 ^ 62" and l: "c + cost q + length is * cost q < 2 ^ 62"
    using Cons.prems(2) by simp_all
  have tail_run: "\<exists>m2 q2. stream_grind_loop enq deq is m1 q1 = ret (m2, q2)
      \<and> rep (c + length (i # is) * cost q) q2 (mq_queue m2)"
    if "rep (c + cost q) q1 (mq_queue m1)" "cost q1 = cost q" for q1 m1
    using Cons.IH [OF that(1)] that(2) l by (simp add: add.assoc)
  show ?case
  proof (cases i)
    case (Enqueue x)
    obtain q1 where q1: "enq q x = ret q1" "rep (c + cost q) q1 (mq_queue m @ [x])" "cost q1 = cost q"
      using enq_ok [OF Cons.prems(1) c] by blast
    show ?thesis
      using tail_run [of q1 "mock_enqueue_boundless m x"] q1 Enqueue
      by (simp add: mock_enqueue_boundless_def)
  next
    case Dequeue
    obtain q1 where q1: "deq q = ret (case mq_queue m of [] \<Rightarrow> None | x # _ \<Rightarrow> Some x, q1)"
        "rep (c + cost q) q1 (tl (mq_queue m))" "cost q1 = cost q"
      using deq_ok [OF Cons.prems(1) c] by blast
    show ?thesis
      using tail_run [of q1 "snd (mock_dequeue m)"] q1 Dequeue
      by (cases "mq_queue m") (auto simp: mock_dequeue_def)
  qed
qed

end

section \<open>The unbounded queue\<close>

definition ub_rep :: "nat \<Rightarrow> 'a unbounded_queue \<Rightarrow> 'a list \<Rightarrow> bool" where
  "ub_rep c q vs \<longleftrightarrow> (\<exists>k. lscq_rep c k (internal q) vs \<and> base_size q = 2 ^ k)"

definition ub_cost :: "'a unbounded_queue \<Rightarrow> nat" where
  "ub_cost q = 2 * unat (base_size q) + 2"

lemma ub_cost_eq: "lscq_rep c k (internal q) vs \<Longrightarrow> base_size q = 2 ^ k \<Longrightarrow> ub_cost q = lscq_cost k"
  by (auto simp: ub_cost_def lscq_cost_def lscq_rep_def lscq_inv_def unat_two_power)

lemma unbounded_enqueue_ok:
  assumes "ub_rep c q xs" "c + ub_cost q < 2 ^ 62"
  shows "\<exists>q'. unbounded_enqueue q x = ret q' \<and> ub_rep (c + ub_cost q) q' (xs @ [x]) \<and> ub_cost q' = ub_cost q"
proof -
  obtain k where k: "lscq_rep c k (internal q) xs" "base_size q = 2 ^ k"
    using assms(1) by (auto simp: ub_rep_def)
  then obtain i where i: "lscq_enqueue x (internal q) = ret i" "lscq_rep (c + ub_cost q) k i (xs @ [x])"
    using lscq_enqueue_ok [OF k(1)] assms(2) ub_cost_eq [OF k] by auto
  then show ?thesis
    using k(2) by (auto simp: unbounded_enqueue_def eh_enqueue_def enqueue_handle_def ub_rep_def ub_cost_def)
qed

lemma unbounded_dequeue_ok:
  assumes "ub_rep c q xs" "c + ub_cost q < 2 ^ 62"
  shows "\<exists>q'. unbounded_dequeue q = ret (case xs of [] \<Rightarrow> None | x # _ \<Rightarrow> Some x, q')
            \<and> ub_rep (c + ub_cost q) q' (tl xs) \<and> ub_cost q' = ub_cost q"
proof -
  obtain k where k: "lscq_rep c k (internal q) xs" "base_size q = 2 ^ k"
    using assms(1) by (auto simp: ub_rep_def)
  then obtain i where i: "lscq_dequeue (internal q) = ret (case xs of [] \<Rightarrow> None | x # _ \<Rightarrow> Some x, i)"
      "lscq_rep (c + ub_cost q) k i (tl xs)"
    using lscq_dequeue_ok [OF k(1)] assms(2) ub_cost_eq [OF k] by auto
  then show ?thesis
    using k(2)
    by (auto simp: unbounded_dequeue_def fh_dequeue_def full_handle_def enqueue_handle_def ub_rep_def ub_cost_def)
qed

interpretation ub: unbounded_fifo unbounded_enqueue unbounded_dequeue ub_rep ub_cost
  by unfold_locales (erule (1) unbounded_enqueue_ok unbounded_dequeue_ok)+

interpretation ubg: grindable_stream unbounded_enqueue unbounded_dequeue ub_rep ub_cost
  by unfold_locales

lemma with_segment_size_rep:
  assumes "k \<le> 60"
  shows "\<exists>q :: 'a unbounded_queue. with_segment_size (2 ^ k) w = Ret q \<and> ub_rep (2 ^ k) q []
           \<and> base_segment_capacity q = 2 ^ k"
proof -
  obtain i :: "'a lscq" where "lscq_new (2 ^ k) w = Ret i" "lscq_rep (2 ^ k) k i []"
    using lscq_new_rep [OF assms] by blast
  then show ?thesis
    by (intro exI [of _ "\<lparr>internal = i, base_size = 2 ^ k\<rparr>"])
      (auto simp: with_segment_size_def ub_rep_def base_segment_capacity_def)
qed

section \<open>The counted queue\<close>

definition counted_rep :: "nat \<Rightarrow> 'a counted_queue \<Rightarrow> 'a list \<Rightarrow> bool" where
  "counted_rep c q vs \<longleftrightarrow> ub_rep c (cq_queue q) vs \<and> unat (cq_length q) = length vs \<and> length vs \<le> c"

definition counted_cost :: "'a counted_queue \<Rightarrow> nat" where
  "counted_cost q = ub_cost (cq_queue q)"

lemma counted_enqueue_ok:
  assumes "counted_rep c q xs" "c + counted_cost q < 2 ^ 62"
  shows "\<exists>q'. counted_enqueue q x = ret q' \<and> counted_rep (c + counted_cost q) q' (xs @ [x])
            \<and> counted_cost q' = counted_cost q"
proof -
  have rep: "ub_rep c (cq_queue q) xs" and len: "unat (cq_length q) = length xs" "length xs \<le> c"
    and c: "c + ub_cost (cq_queue q) < 2 ^ 62" "1 \<le> ub_cost (cq_queue q)"
    using assms by (auto simp: counted_rep_def counted_cost_def ub_cost_def)
  have "unat (cq_length q + 1) = Suc (length xs)"
    using len c by (subst unat_plus_one) auto
  moreover obtain u where "unbounded_enqueue (cq_queue q) x = ret u"
      "ub_rep (c + ub_cost (cq_queue q)) u (xs @ [x])" "ub_cost u = ub_cost (cq_queue q)"
    using ub.enq_ok [OF rep c(1)] by blast
  ultimately show ?thesis
    using len c(2) by (simp add: counted_enqueue_def Let_def counted_rep_def counted_cost_def)
qed

lemma counted_dequeue_ok:
  assumes "counted_rep c q xs" "c + counted_cost q < 2 ^ 62"
  shows "\<exists>q'. counted_dequeue q = ret (case xs of [] \<Rightarrow> None | x # _ \<Rightarrow> Some x, q')
            \<and> counted_rep (c + counted_cost q) q' (tl xs) \<and> counted_cost q' = counted_cost q"
proof -
  have rep: "ub_rep c (cq_queue q) xs" and len: "unat (cq_length q) = length xs" "length xs \<le> c"
    and c: "c + ub_cost (cq_queue q) < 2 ^ 62"
    using assms by (auto simp: counted_rep_def counted_cost_def)
  obtain u where u: "unbounded_dequeue (cq_queue q) = ret (case xs of [] \<Rightarrow> None | x # _ \<Rightarrow> Some x, u)"
      "ub_rep (c + ub_cost (cq_queue q)) u (tl xs)" "ub_cost u = ub_cost (cq_queue q)"
    using ub.deq_ok [OF rep c] by blast
  show ?thesis
  proof (cases xs)
    case Nil
    with u len show ?thesis
      by (simp add: counted_dequeue_def Let_def counted_rep_def counted_cost_def)
  next
    case (Cons x ys)
    with len have "cq_length q \<noteq> 0" by auto
    then have "unat (cq_length q - 1) = length ys"
      using len Cons by (simp add: unat_minus_one)
    with u len Cons show ?thesis
      by (simp add: counted_dequeue_def Let_def counted_rep_def counted_cost_def)
  qed
qed

interpretation counted: unbounded_fifo counted_enqueue counted_dequeue counted_rep counted_cost
  by unfold_locales (erule (1) counted_enqueue_ok counted_dequeue_ok)+

lemma counted_with_segment_size_rep:
  assumes "k \<le> 60"
  shows "\<exists>q :: 'a counted_queue. counted_with_segment_size (2 ^ k) w = Ret q \<and> counted_rep (2 ^ k) q []
           \<and> counted_cost q = 2 * 2 ^ k + 2"
proof -
  obtain u :: "'a unbounded_queue" where u: "with_segment_size (2 ^ k) w = Ret u" "ub_rep (2 ^ k) u []"
      "base_segment_capacity u = 2 ^ k"
    using with_segment_size_rep [OF assms] by blast
  then show ?thesis
    using assms
    by (intro exI [of _ "\<lparr>cq_queue = u, cq_length = 0\<rparr>"])
      (auto simp: counted_with_segment_size_def counted_rep_def counted_cost_def ub_cost_def
        base_segment_capacity_def unat_two_power)
qed

end
