(* ===== verification/SingleSize.thy ===== *)
theory SingleSize
  imports Fifo
begin

text \<open>
  The one-place queue \<open>SingleSize\<close> of \<open>src/single.rs\<close>, its operations run alone from call to return.
  The payload is \<open>None\<close> while the memory holds no initialised value. Run this way it is a FIFO queue
  of capacity one, by the interpretation \<open>single\<close> of the contract of \<open>Fifo\<close>.
\<close>

definition EMPTY :: "8 word" where "EMPTY = 0x00"
definition WRITING :: "8 word" where "WRITING = 0x01"
definition READY :: "8 word" where "READY = 0x02"
definition READING :: "8 word" where "READING = 0x03"

lemmas single_states = EMPTY_def WRITING_def READY_def READING_def

record 'a single_size =
  payload :: "'a option"
  state :: "8 word"

definition single_new :: "'a single_size" where
  "single_new = \<lparr>payload = None, state = EMPTY\<rparr>"

definition single_enqueue :: "'a single_size \<Rightarrow> 'a \<Rightarrow> (('a + unit) \<times> 'a single_size) run" where
  "single_enqueue q message =
     (if state q \<noteq> EMPTY then ret (Inl message, q)
      else
        \<comment> \<open>the exchange of EMPTY for WRITING\<close>
        (if state q \<noteq> EMPTY then ret (Inl message, q)
         else
           (let q1 = q\<lparr>state := WRITING\<rparr>;
                q2 = q1\<lparr>payload := Some message\<rparr>;
                q3 = q2\<lparr>state := READY\<rparr>
            in ret (Inr (), q3))))"

definition single_dequeue :: "'a single_size \<Rightarrow> ('a option \<times> 'a single_size) run" where
  "single_dequeue q =
     (if state q \<noteq> READY then ret (None, q)
      else
        \<comment> \<open>the exchange of READY for READING\<close>
        (if state q \<noteq> READY then ret (None, q)
         else
           (let q1 = q\<lparr>state := READING\<rparr>
            in case payload q1 of
                 None \<Rightarrow> Some UB
               | Some v \<Rightarrow> ret (Some v, q1\<lparr>payload := None, state := EMPTY\<rparr>))))"

text \<open>\<open>Drop\<close>, with the values it drops.\<close>

definition single_drop :: "'a single_size \<Rightarrow> 'a list run" where
  "single_drop q =
     (if state q = READY
      then (case payload q of None \<Rightarrow> Some UB | Some v \<Rightarrow> ret [v])
      else ret [])"

definition single_rep :: "nat \<Rightarrow> 'a single_size \<Rightarrow> 'a list \<Rightarrow> bool" where
  "single_rep c q xs \<longleftrightarrow>
     (state q = EMPTY \<and> payload q = None \<and> xs = [])
     \<or> (\<exists>v. state q = READY \<and> payload q = Some v \<and> xs = [v])"

lemma single_rep_new: "single_rep c single_new []"
  by (simp add: single_rep_def single_new_def)

interpretation single: bounded_fifo single_enqueue single_dequeue single_rep "\<lambda>_. 1"
  by unfold_locales
     (auto simp: single_rep_def single_enqueue_def single_dequeue_def single_states Let_def)

lemma single_drop_rep: "single_rep c q xs \<Longrightarrow> single_drop q = ret xs"
  by (auto simp: single_rep_def single_drop_def single_states)

end
