(* ===== verification/Harness.thy ===== *)
theory Harness
  imports BoundedFifo UnboundedFifo SingleSize
begin

text \<open>
  The code of the repository that drives its queues: the sequential fuzz targets of \<open>fuzz/fuzz_targets\<close>
  and the loops the unit tests are made of, with the tests \<open>check_queue\<close>, \<open>test_singlesize\<close> and
  \<open>test_lcsq_ptr\<close>, a failed assertion as the outcome \<open>Panic\<close>. Their inputs (the instructions of a fuzz run, the sizes
  of a test) are parameters, so that one theorem covers every run. The decoding of the fuzzer's bytes
  by the crate \<open>arbitrary\<close> is not modelled: an input is the decoded configuration.
\<close>

section \<open>Fuzz targets\<close>

record grind_configuration =
  grind_order :: usize
  instructions :: "grind_instr list"

definition fuzz_queue ::
  "usize \<Rightarrow> grind_configuration \<Rightarrow> usize bounded_queue \<Rightarrow> (usize mock_queue \<times> usize bounded_queue) run"
where
  "fuzz_queue N grind q = grind_loop bq_enqueue bq_dequeue (instructions grind) (mock_new (drop_bit 1 N)) q"

text \<open>\<open>const_grind\<close>: the macro \<open>generate_switch!\<close> picks the queue; a stack queue of size \<open>s\<close> has \<open>N = 2 * s\<close>.\<close>

definition const_grind ::
  "nat \<Rightarrow> grind_configuration \<Rightarrow> bool list \<Rightarrow> bool list \<Rightarrow> (usize mock_queue \<times> usize bounded_queue) run"
where
  "const_grind switch grind w1 w2 =
     (if switch \<in> {1, 2, 3, 4, 5, 6}
      then bind_run (Some (const_queue (push_bit switch 1) w1 w2)) (fuzz_queue (push_bit switch 1 * 2) grind)
      else Some Panic)"

definition scq_grind ::
  "grind_configuration \<Rightarrow> bool list \<Rightarrow> bool list \<Rightarrow> (usize mock_queue \<times> usize bounded_queue) run"
where
  "scq_grind grind w1 w2 =
     (let mock = mock_new (grind_order grind)
      in bind_run (Some (new_alloc 0 (grind_order grind) w1 w2)) (\<lambda>queue.
           grind_loop bq_enqueue bq_dequeue (instructions grind) mock queue))"

definition lscq_grind ::
  "grind_configuration \<Rightarrow> (nat \<Rightarrow> bool list \<times> bool list) \<Rightarrow> (usize mock_queue \<times> usize unbounded_queue) run"
where
  "lscq_grind grind w =
     (let mock = mock_new (grind_order grind)
      in bind_run (Some (with_segment_size (grind_order grind) w)) (\<lambda>queue.
           stream_grind_loop unbounded_enqueue unbounded_dequeue (instructions grind) mock queue))"

section \<open>Unit tests\<close>

text \<open>A test is a list of calls, each with the result it asserts.\<close>

fun assert_calls ::
  "('q \<Rightarrow> 'a \<Rightarrow> (('a + unit) \<times> 'q) run) \<Rightarrow> ('q \<Rightarrow> ('a option \<times> 'q) run)
     \<Rightarrow> ('a fifo_instr \<times> 'a fifo_out) list \<Rightarrow> 'q \<Rightarrow> 'q run"
where
  "assert_calls enq deq [] q = ret q"
| "assert_calls enq deq ((Enq x, expected) # cs) q =
     bind_run (enq q x) (\<lambda>(res, q').
       if EnqOut res = expected then assert_calls enq deq cs q' else Some Panic)"
| "assert_calls enq deq ((Deq, expected) # cs) q =
     bind_run (deq q) (\<lambda>(res, q').
       if DeqOut res = expected then assert_calls enq deq cs q' else Some Panic)"

text \<open>The four loops of \<open>check_queue\<close>: fill, overfill, empty, and dequeue from empty.\<close>

definition check_calls :: "nat \<Rightarrow> (usize fifo_instr \<times> usize fifo_out) list" where
  "check_calls n =
     map (\<lambda>i. (Enq (of_nat i), EnqOut (Inr ()))) [0..<n]
     @ map (\<lambda>i. (Enq (of_nat i), EnqOut (Inl (of_nat i)))) [0..<n]
     @ map (\<lambda>i. (Deq, DeqOut (Some (of_nat i)))) [0..<n]
     @ map (\<lambda>_. (Deq, DeqOut None)) [0..<n]"

definition check_queue_const :: "usize \<Rightarrow> usize bounded_queue \<Rightarrow> usize bounded_queue run" where
  "check_queue_const N q =
     (if bq_capacity q = drop_bit 1 N
      then assert_calls bq_enqueue bq_dequeue (check_calls (unat (drop_bit 1 N))) q
      else Some Panic)"

definition check_queue_alloc :: "usize \<Rightarrow> bool list \<Rightarrow> bool list \<Rightarrow> usize bounded_queue run" where
  "check_queue_alloc sz w1 w2 =
     bind_run (Some (new_alloc 0 sz w1 w2)) (\<lambda>q.
       if bq_capacity q = sz then assert_calls bq_enqueue bq_dequeue (check_calls (unat sz)) q
       else Some Panic)"

definition test_singlesize :: "usize single_size run" where
  "test_singlesize =
     assert_calls single_enqueue single_dequeue
       [(Enq 1, EnqOut (Inr ())), (Enq 1, EnqOut (Inl 1)), (Deq, DeqOut (Some 1)), (Deq, DeqOut None),
        (Enq 2, EnqOut (Inr ())), (Deq, DeqOut (Some 2))]
       single_new"

text \<open>The loop \<open>for i in 0..16 { ring.enqueue(i) }\<close> and the one that dequeues, of \<open>test_lcsq_ptr\<close>.\<close>

fun enqueue_range :: "('q \<Rightarrow> 'a \<Rightarrow> 'q run) \<Rightarrow> 'a list \<Rightarrow> 'q \<Rightarrow> 'q run" where
  "enqueue_range enq [] q = ret q"
| "enqueue_range enq (i # is) q = bind_run (enq q i) (\<lambda>q'. enqueue_range enq is q')"

fun expect_range :: "('q \<Rightarrow> ('a option \<times> 'q) run) \<Rightarrow> 'a list \<Rightarrow> 'q \<Rightarrow> 'q run" where
  "expect_range deq [] q = ret q"
| "expect_range deq (i # is) q =
     bind_run (deq q) (\<lambda>(res, q'). if res = Some i then expect_range deq is q' else Some Panic)"

definition test_lcsq_ptr ::
  "usize \<Rightarrow> nat \<Rightarrow> (nat \<Rightarrow> bool list \<times> bool list) \<Rightarrow> usize unbounded_queue run"
where
  "test_lcsq_ptr seg m w =
     bind_run (Some (with_segment_size seg w)) (\<lambda>q.
       bind_run (enqueue_range unbounded_enqueue (map of_nat [0..<m]) q) (\<lambda>q'.
         expect_range unbounded_dequeue (map of_nat [0..<m]) q'))"

section \<open>Helpers for the harness\<close>

context bounded_fifo
begin

lemma assert_calls_script:
  "assert_calls enq deq cs q =
     bind_run (fifo_script enq deq (map fst cs) q) (\<lambda>(outs, q').
       if outs = map snd cs then ret q' else Some Panic)"
  if "\<exists>outs q'. fifo_script enq deq (map fst cs) q = ret (outs, q')"
  using that
proof (induction enq deq cs q rule: assert_calls.induct)
  case (2 enq deq x e cs q)
  then show ?case
    by (auto simp: bind_run_ret_iff split: prod.splits)
next
  case (3 enq deq e cs q)
  then show ?case
    by (auto simp: bind_run_ret_iff split: prod.splits)
qed simp

lemma assert_calls_ok:
  assumes "rep c q xs" "c + length cs < 2 ^ 62"
    and "fst (list_fifo (cap q) (map fst cs) xs) = map snd cs"
  shows "\<exists>q'. assert_calls enq deq cs q = ret q'
            \<and> rep (c + length cs) q' (snd (list_fifo (cap q) (map fst cs) xs))"
proof -
  obtain q' where "fifo_script enq deq (map fst cs) q = ret (map snd cs, q')"
      "rep (c + length cs) q' (snd (list_fifo (cap q) (map fst cs) xs))"
    using script_refines [OF assms(1), of "map fst cs"] assms(2,3) by auto
  then show ?thesis
    using assert_calls_script [of cs q] by auto
qed

end

lemma list_fifo_append:
  "list_fifo cap (is @ js) xs =
     (let (o1, ys) = list_fifo cap is xs; (o2, zs) = list_fifo cap js ys in (o1 @ o2, zs))"
  by (induction cap "is" xs rule: list_fifo.induct) (auto simp: split_beta Let_def)

lemma list_fifo_fill:
  "length xs + length ys \<le> cap \<Longrightarrow>
     list_fifo cap (map Enq ys) xs = (map (\<lambda>_. EnqOut (Inr ())) ys, xs @ ys)"
  by (induction ys arbitrary: xs) auto

lemma list_fifo_overfill:
  "length xs = cap \<Longrightarrow> list_fifo cap (map Enq ys) xs = (map (\<lambda>y. EnqOut (Inl y)) ys, xs)"
  by (induction ys) auto

lemma list_fifo_drain:
  "list_fifo cap (map (\<lambda>_. Deq) xs) (xs @ ys) = (map (\<lambda>x. DeqOut (Some x)) xs, ys)"
  by (induction xs) auto

lemma list_fifo_nothing:
  "list_fifo cap (map (\<lambda>_. Deq) ys) [] = (map (\<lambda>_. DeqOut None) ys, [])"
  by (induction ys) auto

lemma list_fifo_phases:
  fixes ys :: "usize list"
  shows "list_fifo (length ys)
      (map Enq ys @ map Enq ys @ map (\<lambda>_. Deq) ys @ map (\<lambda>_. Deq) ys) []
    = (map (\<lambda>_. EnqOut (Inr ())) ys @ map (\<lambda>y. EnqOut (Inl y)) ys @ map (\<lambda>y. DeqOut (Some y)) ys
       @ map (\<lambda>_. DeqOut None) ys, [])"
  using list_fifo_drain [of "length ys" ys "[]"]
  by (simp add: list_fifo_append list_fifo_fill list_fifo_overfill list_fifo_nothing Let_def)

lemma list_fifo_check_calls:
  "list_fifo n (map fst (check_calls n)) [] = (map snd (check_calls n), [])"
  using list_fifo_phases [of "map of_nat [0..<n]"] by (simp add: check_calls_def comp_def)

lemma length_check_calls [simp]: "length (check_calls n) = 4 * n"
  by (simp add: check_calls_def)

context unbounded_fifo
begin

lemma enqueue_range_ok:
  assumes "rep c q xs" "c + length is * cost q < 2 ^ 62"
  shows "\<exists>q'. enqueue_range enq is q = ret q' \<and> rep (c + length is * cost q) q' (xs @ is) \<and> cost q' = cost q"
  using assms
proof (induction "is" arbitrary: c q xs)
  case Nil
  then show ?case by simp
next
  case (Cons i "is")
  have c: "c + cost q < 2 ^ 62" and l: "c + cost q + length is * cost q < 2 ^ 62"
    using Cons.prems(2) by simp_all
  obtain q1 where q1: "enq q i = ret q1" "rep (c + cost q) q1 (xs @ [i])" "cost q1 = cost q"
    using enq_ok [OF Cons.prems(1) c] by blast
  then show ?case
    using Cons.IH [OF q1(2)] l by (simp add: add.assoc)
qed

lemma expect_range_ok:
  assumes "rep c q (is @ ys)" "c + length is * cost q < 2 ^ 62"
  shows "\<exists>q'. expect_range deq is q = ret q' \<and> rep (c + length is * cost q) q' ys \<and> cost q' = cost q"
  using assms
proof (induction "is" arbitrary: c q)
  case Nil
  then show ?case by simp
next
  case (Cons i "is")
  have c: "c + cost q < 2 ^ 62" and l: "c + cost q + length is * cost q < 2 ^ 62"
    using Cons.prems(2) by simp_all
  obtain q1 where q1: "deq q = ret (Some i, q1)" "rep (c + cost q) q1 (is @ ys)" "cost q1 = cost q"
    using deq_ok [OF Cons.prems(1) c] by auto
  then show ?case
    using Cons.IH [OF q1(2)] l by (simp add: add.assoc)
qed

end

end
