(* ===== verification/RingProperties.thy ===== *)
theory RingProperties
  imports IndexRing
begin

text \<open>
  The properties of the index ring and of its integer helpers, each over the facts of the
  interpretation \<open>scq\<close> and the lemmas of \<open>ScqArith\<close> and \<open>ScqRingInit\<close>, with a witness at a concrete
  ring where it has hypotheses.
\<close>

lemma ring_rep_empty_ring:
  "ring_rep 0 (new_alloc_ring_empty 0 2 []) []" "ring_rep 0 (new_alloc_ring_empty 1 2 []) []"
  by (intro ring_rep_alloc_empty; simp)+

lemma empty_ring_fields [simp]:
  "ring_half (new_alloc_ring_empty mode ord w) = 2 ^ unat ord"
  "is_finalized (new_alloc_ring_empty mode ord w) = replicate mode False"
  "order (new_alloc_ring_empty mode ord w) = ord"
  by (simp_all add: ring_half_def new_alloc_ring_empty_def new_from_sqalloc_def)

lemma empty_ring_open [simp]: "mode \<le> 1 \<Longrightarrow> \<not> is_final (new_alloc_ring_empty mode ord w)"
  using replicate_final [of mode] by (auto simp: is_final_def)

section \<open>enqueue and dequeue\<close>

text \<open>
  C38. While a ring has not been finalized and holds fewer entries than it has slots, \<open>enqueue\<close> of an
  index below the capacity returns \<open>Ok\<close>, whatever weak exchanges fail spuriously, and the index is
  then the youngest of the ring, which keeps its capacity and stays open.
\<close>

theorem ring_enqueue_appends:
  assumes "ring_rep c r xs" "\<not> is_final r" "length xs < 2 * ring_half r" "unat x < ring_half r"
    and "Suc c < 2 ^ 62"
  shows "\<exists>r'. ring_enqueue r x = ret (Inr (), r') \<and> ring_rep (Suc c) r' (xs @ [x])
            \<and> ring_half r' = ring_half r \<and> \<not> is_final r'"
  using scq.enq_ok [OF assms] assms(2) scq.shape_half scq.shape_final by metis

theorem ring_enqueue_appends_witness:
  "\<exists>r'. ring_enqueue (new_alloc_ring_empty 0 2 []) 3 = ret (Inr (), r') \<and> ring_rep 1 r' [3]
      \<and> ring_half r' = 4 \<and> \<not> is_final r'"
  using ring_enqueue_appends [OF ring_rep_empty_ring(1), of 3] by simp

text \<open>
  C31. \<open>dequeue\<close> always returns: the oldest index of the ring, which leaves it, or \<open>None\<close> exactly when
  the ring is empty; a finalized ring still gives its indices.
\<close>

theorem ring_dequeue_oldest:
  assumes "ring_rep c r xs" "Suc c < 2 ^ 62"
  shows "\<exists>r'. ring_dequeue r = ret (case xs of [] \<Rightarrow> None | x # _ \<Rightarrow> Some x, r')
            \<and> ring_rep (Suc c) r' (List.tl xs) \<and> is_final r' = is_final r"
  using scq.deq_returns [OF assms] scq.shape_final by blast

theorem ring_dequeue_oldest_witness:
  "\<exists>r'. ring_dequeue (new_alloc_ring_empty 0 2 []) = ret (None, r') \<and> ring_rep 1 r' [] \<and> \<not> is_final r'"
  using ring_dequeue_oldest [OF ring_rep_empty_ring(1)] by simp

text \<open>
  C32. After \<open>finalize\<close> every \<open>enqueue\<close> of a valid index on a ring with \<open>MODE = 1\<close> is refused with
  \<open>QueueFinalized\<close>, whether or not a slot is free, and the contents stay.
\<close>

theorem finalized_ring_refuses:
  assumes "ring_rep c r xs" "length (is_finalized r) = 1" "length xs < 2 * ring_half r"
    and "unat x < ring_half r" "c + 2 * ring_half r < 2 ^ 62"
  shows "\<exists>r'. ring_enqueue (finalize r) x = ret (Inl scq_error.QueueFinalized, r')
            \<and> ring_rep (c + 2 * ring_half r) r' xs \<and> is_final r'"
proof -
  have fin: "is_final (finalize r)" "ring_half (finalize r) = ring_half r"
    using is_final_finalize [OF ring_rep_wf [OF assms(1)]] assms(2)
    by (auto simp: finalize_def ring_half_def)
  have "ring_rep c (finalize r) xs"
    using assms(1) ring_rep_finalize by simp
  then show ?thesis
    using scq.enq_final [of c "finalize r" xs x] fin assms(3-5) scq.shape_final by metis
qed

theorem finalized_ring_refuses_witness:
  "\<exists>r'. ring_enqueue (finalize (new_alloc_ring_empty 1 2 [])) 3 = ret (Inl scq_error.QueueFinalized, r')
      \<and> ring_rep 8 r' [] \<and> is_final r'"
  using finalized_ring_refuses [OF ring_rep_empty_ring(2), of 3] by simp

text \<open>
  C39. An index that is not below the capacity is refused with \<open>IndexLargerThanOrder\<close> and the ring is
  untouched; no other index is.
\<close>

theorem ring_enqueue_index_bound:
  assumes "ring_rep c r xs" "length xs < 2 * ring_half r" "c + 2 * ring_half r < 2 ^ 62"
  shows "ring_enqueue r x = ret (Inl IndexLargerThanOrder, r) \<longleftrightarrow> ring_half r \<le> unat x"
    (is "?refused \<longleftrightarrow> ?large")
proof
  show ?refused if ?large
    using scq.enq_large [OF assms(1) that] .
  show ?large if ?refused
  proof (rule ccontr)
    assume "\<not> ?large"
    then have x: "unat x < ring_half r" by simp
    then have c: "Suc c < 2 ^ 62" using assms(3) by linarith
    show False
      using scq.enq_ok [OF assms(1) _ assms(2) x c] scq.enq_final [OF assms(1) _ assms(2) x assms(3)] that
      by (cases "is_final r") auto
  qed
qed

theorem ring_enqueue_index_bound_witness:
  "ring_enqueue (new_alloc_ring_empty 0 2 []) 4 = ret (Inl IndexLargerThanOrder, new_alloc_ring_empty 0 2 [])"
  using ring_enqueue_index_bound [OF ring_rep_empty_ring(1), of 4] by simp

section \<open>Scripts and constructors\<close>

text \<open>
  C19. A ring fresh from \<open>new_alloc_ring_empty\<close>, of any order up to 60, gives for every sequence of
  calls that never overfills its slots the results of a plain list, errors included.
\<close>

theorem ring_refines_list:
  assumes "unat ord \<le> 60" "mode \<le> 1" "length is < 2 ^ 62"
    and "script_fits (2 ^ unat ord) (2 * 2 ^ unat ord) is []"
  shows "\<exists>r'. ring_script ring_enqueue ring_dequeue is (new_alloc_ring_empty mode ord w)
            = ret (fst (list_script (2 ^ unat ord) is []), r')
          \<and> ring_rep (length is) r' (snd (list_script (2 ^ unat ord) is []))"
  using scq.script_refines [OF ring_rep_alloc_empty [OF assms(1,2), of w], of "is"] assms(2-4) by auto

theorem ring_refines_list_witness:
  "\<exists>r'. ring_script ring_enqueue ring_dequeue
            [EnqueueIndex 1, EnqueueIndex 2, EnqueueIndex 0, DequeueIndex, DequeueIndex]
            (new_alloc_ring_empty 0 1 [True])
          = ret ([EnqueueOut (Inr ()), EnqueueOut (Inl IndexLargerThanOrder), EnqueueOut (Inr ()),
                  DequeueOut (Some 1), DequeueOut (Some 0)], r')"
  using ring_refines_list [of 1 0
      "[EnqueueIndex 1, EnqueueIndex 2, EnqueueIndex 0, DequeueIndex, DequeueIndex]" "[True]"]
  by (simp del: ring_script.simps) blast

text \<open>The ring filled by \<open>enqueue\<close> and the ring constructed full.\<close>

lemma filled_ring:
  assumes "unat ord \<le> 60" "mode \<le> 1"
  shows "\<exists>r f. enqueue_all (new_alloc_ring_empty mode ord w) (map of_nat [0..<2 ^ unat ord]) = ret r
           \<and> new_alloc_ring_full mode ord w' = Ret f \<and> ring_eq r f \<and> array r = array f
           \<and> ring_rep (2 ^ unat ord) r (map of_nat [0..<2 ^ unat ord])
           \<and> ring_rep (2 ^ unat ord) f (map of_nat [0..<2 ^ unat ord]) \<and> \<not> is_final r \<and> \<not> is_final f
           \<and> order f = ord"
proof -
  let ?e = "new_alloc_ring_empty mode ord w" and ?xs = "map of_nat [0..<2 ^ unat ord] :: usize list"
  have small: "(2 :: nat) ^ unat ord < 2 ^ 62"
    using assms(1) by (intro power_le_62) simp
  have bound: "\<forall>x\<in>set ?xs. unat x < ring_half ?e"
    using small by (auto simp: unat_of_nat_small)
  obtain f where f: "new_alloc_ring_full mode ord w' = Ret f" "ring_rep (2 ^ unat ord) f ?xs"
      "order f = ord" "is_finalized f = replicate mode False" "head f = 0"
      "threshold f = lfring_threshold3 (2 ^ unat ord) (2 ^ slot_bits f)"
    using ring_rep_alloc_full [OF assms] by blast
  obtain r where r: "enqueue_all ?e ?xs = ret r" "ring_rep (2 ^ unat ord) r ?xs" "same_shape ?e r"
      "head r = head ?e"
      "?xs \<noteq> [] \<longrightarrow> threshold r = lfring_threshold3 (2 ^ unat (order ?e)) (2 ^ slot_bits ?e)"
    using enqueue_all_rep [OF ring_rep_alloc_empty [OF assms, of w], of ?xs] assms(2) bound small
    by (auto simp: slot_bits_def)
  have fields: "order r = ord" "is_finalized r = replicate mode False" "head r = 0"
      "slot_bits r = slot_bits f" "threshold r = threshold f"
    using r(3-5) f(3,6)
    by (auto simp: same_shape_def slot_bits_def new_alloc_ring_empty_def new_from_sqalloc_def)
  have nf: "\<not> is_final r" "\<not> is_final f"
    using fields(2) f(4) replicate_final [of mode] by (auto simp: is_final_def)
  have "unat (tail r) = unat (tail f)"
    using r(2) f(2,5) nf fields(3) by (simp add: ring_rep_def)
  then have tails: "tail r = tail f"
    by (simp add: word_unat_eq_iff)
  have "slots_rep (slot_bits f) 0 (array r) ?xs" "slots_rep (slot_bits f) 0 (array f) ?xs"
      "length (array r) = 2 ^ slot_bits f" "length (array f) = 2 ^ slot_bits f"
    using r(2) f(2,5) fields(3,4) by (auto simp: ring_rep_def ring_wf_def)
  then have arrays: "array r = array f"
    by (rule slots_rep_start_unique)
  then have "ring_eq r f"
    using fields f(3-5) tails by (auto simp: ring_eq_def list_all_iff in_set_zip)
  with r(1,2) f(1-3) arrays nf show ?thesis by blast
qed

text \<open>
  The stack constructors build, for \<open>N = 2 ^ (o + 1)\<close> slots, the rings the heap constructors build
  for the order \<open>o\<close>.
\<close>

lemma const_rings_are_heap_rings:
  assumes "k \<le> 60"
  shows "new_const_ring_empty mode (2 ^ Suc k) w = Ret (new_alloc_ring_empty mode (of_nat k) w)
    \<and> new_const_ring_full mode (2 ^ Suc k) w = new_alloc_ring_full mode (of_nat k) w"
  using new_const_ring_empty_eq [OF assms] new_const_ring_full_eq [OF assms] by blast

section \<open>Integer helpers\<close>

text \<open>
  The signed comparison of two cycles orders them as their tickets' laps around the ring, for all
  tickets below \<open>2 ^ 62\<close>, and the never-used slot \<open>-1\<close> comes before each of them.
\<close>

lemma signed_cmp_orders_cycles:
  assumes "t < 2 ^ 62" "u < 2 ^ 62" "k \<le> 62"
  shows "(is_lt (lfring_signed_cmp (modup (push_bit 1 (of_nat u)) (2 ^ k)) (modup (push_bit 1 (of_nat t)) (2 ^ k)))
           \<longleftrightarrow> u div 2 ^ k < t div 2 ^ k)
    \<and> is_lt (lfring_signed_cmp (-1) (modup (push_bit 1 (of_nat t)) (2 ^ k)))"
  using is_lt_cycle_of [OF assms] is_lt_minus_one [OF assms(1,3)] by (auto simp: cycle_of_def)

end
