(* ===== verification/QueueProperties.thy ===== *)
theory QueueProperties
  imports BoundedFifo
begin

text \<open>
  The properties of the bounded queue: its operations on every branch, its scripts of calls, what
  becomes of every value, its constructors and the sizes they refuse.
\<close>

section \<open>Where the values of a script go\<close>

text \<open>The values a script's enqueues had accepted, and those its dequeues returned, in order.\<close>

fun accepted :: "'a fifo_instr list \<Rightarrow> 'a fifo_out list \<Rightarrow> 'a list" where
  "accepted (Enq x # is) (EnqOut (Inr _) # os) = x # accepted is os"
| "accepted (_ # is) (_ # os) = accepted is os"
| "accepted _ _ = []"

fun delivered :: "'a fifo_out list \<Rightarrow> 'a list" where
  "delivered (DeqOut (Some x) # os) = x # delivered os"
| "delivered (_ # os) = delivered os"
| "delivered [] = []"

lemma list_fifo_conserves:
  "xs @ accepted is (fst (list_fifo cap is xs))
     = delivered (fst (list_fifo cap is xs)) @ snd (list_fifo cap is xs)"
proof (induction cap "is" xs rule: list_fifo.induct)
  case (3 cap "is" xs)
  then show ?case by (cases xs) (auto simp: split_beta)
qed (auto simp: split_beta)

lemma bq_new_script:
  assumes "k \<le> 60" "2 ^ k + length is < 2 ^ 62"
  shows "\<exists>q q'. new_alloc 0 (2 ^ k) w1 w2 = Ret q
           \<and> fifo_script bq_enqueue bq_dequeue is q = ret (fst (list_fifo (2 ^ k) is []), q')
           \<and> bq_rep (2 ^ k + length is) q' (snd (list_fifo (2 ^ k) is []))"
proof -
  obtain q :: "'a bounded_queue" where q: "new_alloc 0 (2 ^ k) w1 w2 = Ret q" "bq_open_rep (2 ^ k) q []"
      "bq_cap q = 2 ^ k"
    using new_alloc_rep [OF assms(1), of 0 w1 w2] by (auto simp: bq_open_rep_def)
  then show ?thesis
    using bq.script_refines [OF q(2) assms(2)] by (auto simp: bq_open_rep_def)
qed

lemma bq_rep_fresh_witness:
  "\<exists>q :: usize bounded_queue. new_alloc 1 (2 ^ 1) [] [] = Ret q \<and> bq_rep 2 q [] \<and> bq_cap q = 2
     \<and> \<not> bq_closed q \<and> bq_sealable q"
  using new_alloc_rep [of 1 1 "[]" "[]"] by simp

section \<open>Operations\<close>

text \<open>
  C10. A bounded queue of capacity \<open>2 ^ k\<close> fresh from its constructor gives for every sequence of
  enqueues and dequeues the results of a list that refuses a value (and gives it back) when it holds
  \<open>2 ^ k\<close> of them; every call returns, none panics, none has undefined behaviour.
\<close>

theorem bounded_queue_refines_list:
  assumes "k \<le> 60" "2 ^ k + length is < 2 ^ 62"
  shows "\<exists>q q'. const_queue (2 ^ k) w1 w2 = Ret q
           \<and> fifo_script bq_enqueue bq_dequeue is q = ret (fst (list_fifo (2 ^ k) is []), q')
           \<and> bq_rep (2 ^ k + length is) q' (snd (list_fifo (2 ^ k) is []))"
  using bq_new_script [OF assms] const_queue_eq [OF assms(1)] by metis

theorem bounded_queue_refines_list_witness:
  "\<exists>q q'. const_queue 2 [] [True] = Ret q
      \<and> fifo_script bq_enqueue bq_dequeue [Enq (5 :: usize), Enq 6, Enq 7, Deq, Deq, Deq] q
        = ret ([EnqOut (Inr ()), EnqOut (Inr ()), EnqOut (Inl 7), DeqOut (Some 5), DeqOut (Some 6), DeqOut None], q')"
  using bounded_queue_refines_list [of 1 "[Enq (5 :: usize), Enq 6, Enq 7, Deq, Deq, Deq]" "[]" "[True]"]
  by (simp del: fifo_script.simps) blast

text \<open>
  C26. \<open>enqueue_cycle\<close> on every branch, at any queue that meets the representation: a full queue gives
  the value back as \<open>QueueFull\<close>, a closed one with room as \<open>QueueFinalized\<close>, both with the contents
  kept; otherwise the value goes to the end, and with \<open>FINALIZE\<close> the value that fills a node queue
  closes it.
\<close>

theorem enqueue_cycle_spec:
  assumes "bq_rep c q vs" "c + 2 * bq_cap q + 1 < 2 ^ 62"
  shows "\<exists>q'. enqueue_cycle fin q v
            = ret (if length vs = bq_cap q then Inl (v, QueueFull)
                   else if bq_closed q then Inl (v, queue_error.QueueFinalized) else Inr (), q')
          \<and> bq_rep (c + 2 * bq_cap q + 1) q' (if length vs < bq_cap q \<and> \<not> bq_closed q then vs @ [v] else vs)
          \<and> bq_cap q' = bq_cap q
          \<and> (bq_closed q' \<longleftrightarrow> bq_closed q \<or> (fin \<and> bq_sealable q \<and> Suc (length vs) = bq_cap q))"
proof -
  let ?c = "c + 2 * bq_cap q + 1"
  note clock = bq_clock [OF _ _ assms(2)]
  consider "length vs = bq_cap q" | "length vs < bq_cap q" "bq_closed q" | "length vs < bq_cap q" "\<not> bq_closed q"
    using bq_rep_length [OF assms(1)] by linarith
  then show ?thesis
  proof cases
    case 1
    then show ?thesis
      using enqueue_cycle_full [OF assms(1) 1, of fin v] clock [OF assms(1)] by auto
  next
    case 2
    then obtain q' where "enqueue_cycle fin q v = ret (Inl (v, queue_error.QueueFinalized), q')"
        "bq_rep (c + 2 * bq_cap q) q' vs" "bq_shape q q'" "bq_closed q'"
      using enqueue_cycle_closed [OF assms(1) 2, of fin v] assms(2) by auto
    then show ?thesis
      using 2 clock [of "c + 2 * bq_cap q" q' vs] by (auto simp: bq_shape_def)
  next
    case 3
    then obtain q' where "enqueue_cycle fin q v = ret (Inr (), q')" "bq_rep (Suc c) q' (vs @ [v])"
        "bq_shape q q'" "bq_closed q' \<longleftrightarrow> fin \<and> bq_sealable q \<and> Suc (length vs) = bq_cap q"
      using enqueue_cycle_room [OF assms(1) 3, of fin v] assms(2) by auto
    then show ?thesis
      using 3 clock [of "Suc c" q' "vs @ [v]"] by (auto simp: bq_shape_def)
  qed
qed

theorem enqueue_cycle_spec_witness:
  "\<exists>q q' :: usize bounded_queue. new_alloc 1 (2 ^ 1) [] [] = Ret q
     \<and> enqueue_cycle True q 9 = ret (Inr (), q') \<and> bq_rep 7 q' [9] \<and> \<not> bq_closed q'"
proof -
  obtain q :: "usize bounded_queue" where q: "new_alloc 1 (2 ^ 1) [] [] = Ret q" "bq_rep 2 q []" "bq_cap q = 2"
      "\<not> bq_closed q"
    using bq_rep_fresh_witness by blast
  show ?thesis
    using enqueue_cycle_spec [OF q(2), of True 9] q by auto
qed

text \<open>
  \<open>dequeue\<close> at any queue that meets the representation, closed or not: the oldest value, read
  from an initialised slot and removed, or \<open>None\<close> exactly when the queue is empty.
\<close>

lemma bq_dequeue_spec:
  assumes "bq_rep c q vs" "Suc c < 2 ^ 62"
  shows "\<exists>q'. bq_dequeue q = ret (case vs of [] \<Rightarrow> None | v # _ \<Rightarrow> Some v, q') \<and> bq_rep (Suc c) q' (tl vs)
            \<and> bq_cap q' = bq_cap q \<and> bq_closed q' = bq_closed q"
  using bq_dequeue_some [of c q] bq_dequeue_none [of c q] assms
  by (cases vs) (auto simp: bq_shape_def)

text \<open>
  C27. No value is lost, duplicated or read twice: for every script on a fresh queue, the values its
  dequeues returned followed by the values \<open>drop\<close> drops at the end are exactly the values the enqueues
  accepted, in order; and afterwards no slot holds a value any more.
\<close>

theorem every_value_leaves_once:
  assumes "k \<le> 60" "Suc (2 ^ k + length is) < 2 ^ 62"
  shows "\<exists>q outs q' dropped q''. new_alloc 0 (2 ^ k) w1 w2 = Ret q
           \<and> fifo_script bq_enqueue bq_dequeue is q = ret (outs, q')
           \<and> bq_drop q' = ret (dropped, q'')
           \<and> delivered outs @ dropped = accepted is outs \<and> (\<forall>b\<in>set (backing q''). b = None)"
proof -
  have c: "2 ^ k + length is < 2 ^ 62" using assms(2) by simp
  obtain q q' :: "'a bounded_queue" where q: "new_alloc 0 (2 ^ k) w1 w2 = Ret q"
      "fifo_script bq_enqueue bq_dequeue is q = ret (fst (list_fifo (2 ^ k) is []), q')"
      "bq_rep (2 ^ k + length is) q' (snd (list_fifo (2 ^ k) is []))"
    using bq_new_script [OF assms(1) c] by blast
  obtain q'' where "bq_drop q' = ret (snd (list_fifo (2 ^ k) is []), q'')" "\<forall>b\<in>set (backing q''). b = None"
    using bq_drop_all [OF q(3) assms(2)] by blast
  then show ?thesis
    using q(1,2) list_fifo_conserves [of "[]" "is" "2 ^ k"] by auto
qed

theorem every_value_leaves_once_witness:
  "\<exists>q outs q' dropped q''. new_alloc 0 2 [] [] = Ret q
     \<and> fifo_script bq_enqueue bq_dequeue [Enq (5 :: usize), Enq 6, Deq] q = ret (outs, q')
     \<and> bq_drop q' = ret (dropped, q'') \<and> delivered outs @ dropped = accepted [Enq 5, Enq 6, Deq] outs"
proof -
  have "\<exists>q outs q' dropped q''. new_alloc 0 (2 ^ 1) [] [] = Ret q
     \<and> fifo_script bq_enqueue bq_dequeue [Enq (5 :: usize), Enq 6, Deq] q = ret (outs, q')
     \<and> bq_drop q' = ret (dropped, q'') \<and> delivered outs @ dropped = accepted [Enq 5, Enq 6, Deq] outs
     \<and> (\<forall>b\<in>set (backing q''). b = None)"
    by (rule every_value_leaves_once) simp_all
  then show ?thesis
    by (simp del: fifo_script.simps) blast
qed

section \<open>Constructors\<close>

text \<open>
  \<open>const_queue!\<close> of a power of two, \<open>ConstBoundedQueue::new_const\<close> with twice as many slots and
  \<open>AllocBoundedQueue::new\<close> build the same queue, empty, open, with the requested capacity.
\<close>

lemma constructors_agree:
  assumes "k \<le> 60"
  shows "\<exists>q :: 'a bounded_queue. const_queue (2 ^ k) w1 w2 = Ret q \<and> new_const (2 ^ Suc k) w1 w2 = Ret q
           \<and> new_alloc 0 (2 ^ k) w1 w2 = Ret q \<and> bq_rep (2 ^ k) q [] \<and> \<not> bq_closed q
           \<and> bq_capacity q = 2 ^ k"
  using fresh_bounded_queue [OF assms, of w1 w2] unfolding bq_open_rep_def by blast

text \<open>
  The constructors panic on size zero and on every odd size, except that \<open>const_queue!\<close> and
  \<open>AllocBoundedQueue::new\<close> accept the size 1.
\<close>

lemma constructors_reject:
  "(N = 0 \<or> odd N \<longrightarrow> new_const N w1 w2 = Panic)
   \<and> (N = 0 \<or> odd N \<and> N \<noteq> 1 \<longrightarrow> const_queue N w1 w2 = Panic \<and> new_alloc 0 N w1 w2 = Panic)"
  by (auto simp: new_const_def const_queue_def new_alloc_def determine_order_def checked_ilog2_def
      even_iff_mod_2_eq_zero)

end
