(* ===== verification/SingleSizeConc.thy ===== *)
theory SingleSizeConc
  imports SingleSize
begin

text \<open>
  \<open>SingleSize\<close> under concurrency. Each thread is inside one operation; a step is one atomic access of
  \<open>state\<close> or one plain access of the payload by one thread, and threads interleave arbitrarily.
  Accesses of \<open>state\<close> see its latest value; their memory orders matter for the plain accesses. Each
  plain access is an event; a thread knows the events that happen before its next step, a release
  store publishes the knowledge of its thread with the value, an acquire access that reads the value
  takes it over, and a read-modify-write leaves what was published in place (the release sequence).
  Two conflicting plain accesses, neither of which happens before the other, are a data race.
\<close>

section \<open>The system\<close>

datatype memory_order = Relaxed | Acquire | Release

text \<open>
  Where a thread is: before the load, the exchange, the plain access, or the final store of
  \<open>enqueue\<close> and \<open>dequeue\<close>, or done with a result.
\<close>

datatype 'a pc =
    Idle
  | EnqLoad 'a | EnqExchange 'a | EnqWrite 'a | EnqStore 'a
  | DeqLoad | DeqExchange | DeqRead | DeqStore 'a
  | EnqDone "'a + unit" | DeqDone "'a option"

record 'a single_sys =
  shared :: "'a single_size"
  pcs :: "nat \<Rightarrow> 'a pc"
  knows :: "nat \<Rightarrow> nat set"
  published :: "nat set"
  reads :: "nat set"
  writes :: "nat set"
  race :: bool
  undefined_read :: bool
  stored :: "'a list"
  taken :: "'a list"

definition initial_sys :: "'a single_sys" where
  "initial_sys = \<lparr>shared = single_new, pcs = (\<lambda>_. Idle), knows = (\<lambda>_. {}), published = {},
     reads = {}, writes = {}, race = False, undefined_read = False, stored = [], taken = []\<rparr>"

abbreviation goto :: "nat \<Rightarrow> 'a pc \<Rightarrow> 'a single_sys \<Rightarrow> 'a single_sys" where
  "goto t p s \<equiv> s\<lparr>pcs := (pcs s)(t := p)\<rparr>"

definition set_state :: "8 word \<Rightarrow> 'a single_sys \<Rightarrow> 'a single_sys" where
  "set_state v s = s\<lparr>shared := (shared s)\<lparr>state := v\<rparr>\<rparr>"

text \<open>The view a successful exchange takes over, and what a store publishes.\<close>

definition acquire_view :: "memory_order \<Rightarrow> nat \<Rightarrow> 'a single_sys \<Rightarrow> 'a single_sys" where
  "acquire_view ord t s =
     (if ord = Acquire then s\<lparr>knows := (knows s)(t := knows s t \<union> published s)\<rparr> else s)"

definition publish_view :: "memory_order \<Rightarrow> nat \<Rightarrow> 'a single_sys \<Rightarrow> 'a single_sys" where
  "publish_view ord t s = s\<lparr>published := (if ord = Release then knows s t else {})\<rparr>"

text \<open>A plain write and a plain read (which moves the value out) of the payload as event \<open>e\<close>.\<close>

definition write_payload :: "nat \<Rightarrow> nat \<Rightarrow> 'a \<Rightarrow> 'a single_sys \<Rightarrow> 'a single_sys" where
  "write_payload e t v s =
     s\<lparr>shared := (shared s)\<lparr>payload := Some v\<rparr>,
       race := race s \<or> \<not> (reads s \<union> writes s \<subseteq> knows s t),
       writes := insert e (writes s), knows := (knows s)(t := insert e (knows s t))\<rparr>"

definition read_payload :: "nat \<Rightarrow> nat \<Rightarrow> 'a single_sys \<Rightarrow> 'a single_sys" where
  "read_payload e t s =
     s\<lparr>shared := (shared s)\<lparr>payload := None\<rparr>,
       race := race s \<or> \<not> (writes s \<subseteq> knows s t),
       reads := insert e (reads s), knows := (knows s)(t := insert e (knows s t))\<rparr>"

text \<open>
  One step, where \<open>ord\<close> is the success order of the exchange in \<open>enqueue\<close>. The code passes
  \<open>Relaxed\<close>. \<open>stored\<close> and \<open>taken\<close> record, in order, the values made ready and the values read.
\<close>

inductive single_step :: "memory_order \<Rightarrow> 'a single_sys \<Rightarrow> 'a single_sys \<Rightarrow> bool" for ord where
  call_enqueue: "pcs s t = Idle \<Longrightarrow> single_step ord s (goto t (EnqLoad v) s)"
| call_dequeue: "pcs s t = Idle \<Longrightarrow> single_step ord s (goto t DeqLoad s)"
| enq_load_busy: "pcs s t = EnqLoad v \<Longrightarrow> state (shared s) \<noteq> EMPTY
    \<Longrightarrow> single_step ord s (goto t (EnqDone (Inl v)) s)"
| enq_load_empty: "pcs s t = EnqLoad v \<Longrightarrow> state (shared s) = EMPTY
    \<Longrightarrow> single_step ord s (goto t (EnqExchange v) s)"
| enq_exchange_fails: "pcs s t = EnqExchange v \<Longrightarrow> state (shared s) \<noteq> EMPTY
    \<Longrightarrow> single_step ord s (goto t (EnqDone (Inl v)) s)"
| enq_exchange: "pcs s t = EnqExchange v \<Longrightarrow> state (shared s) = EMPTY
    \<Longrightarrow> single_step ord s (goto t (EnqWrite v) (acquire_view ord t (set_state WRITING s)))"
| enq_write: "pcs s t = EnqWrite v \<Longrightarrow> e \<notin> reads s \<union> writes s
    \<Longrightarrow> single_step ord s (goto t (EnqStore v) (write_payload e t v s))"
| enq_store: "pcs s t = EnqStore v
    \<Longrightarrow> single_step ord s (goto t (EnqDone (Inr ()))
          ((publish_view Release t (set_state READY s))\<lparr>stored := stored s @ [v]\<rparr>))"
| deq_load_not_ready: "pcs s t = DeqLoad \<Longrightarrow> state (shared s) \<noteq> READY
    \<Longrightarrow> single_step ord s (goto t (DeqDone None) s)"
| deq_load_ready: "pcs s t = DeqLoad \<Longrightarrow> state (shared s) = READY
    \<Longrightarrow> single_step ord s (goto t DeqExchange s)"
| deq_exchange_fails: "pcs s t = DeqExchange \<Longrightarrow> state (shared s) \<noteq> READY
    \<Longrightarrow> single_step ord s (goto t (DeqDone None) s)"
| deq_exchange: "pcs s t = DeqExchange \<Longrightarrow> state (shared s) = READY
    \<Longrightarrow> single_step ord s (goto t DeqRead (acquire_view Acquire t (set_state READING s)))"
| deq_read: "pcs s t = DeqRead \<Longrightarrow> payload (shared s) = Some v \<Longrightarrow> e \<notin> reads s \<union> writes s
    \<Longrightarrow> single_step ord s (goto t (DeqStore v) ((read_payload e t s)\<lparr>taken := taken s @ [v]\<rparr>))"
| deq_read_uninit: "pcs s t = DeqRead \<Longrightarrow> payload (shared s) = None
    \<Longrightarrow> single_step ord s (s\<lparr>undefined_read := True\<rparr>)"
| deq_store: "pcs s t = DeqStore v
    \<Longrightarrow> single_step ord s (goto t (DeqDone (Some v)) (publish_view Release t (set_state EMPTY s)))"
| return_enqueue: "pcs s t = EnqDone r \<Longrightarrow> single_step ord s (goto t Idle s)"
| return_dequeue: "pcs s t = DeqDone r' \<Longrightarrow> single_step ord s (goto t Idle s)"

inductive single_reachable :: "memory_order \<Rightarrow> 'a single_sys \<Rightarrow> bool" for ord where
  initial: "single_reachable ord initial_sys"
| step: "single_reachable ord s \<Longrightarrow> single_step ord s s' \<Longrightarrow> single_reachable ord s'"

section \<open>The invariant\<close>

text \<open>A thread is inside the critical part from its exchange to its final store.\<close>

fun critical :: "'a pc \<Rightarrow> bool" where
  "critical (EnqWrite v) = True"
| "critical (EnqStore v) = True"
| "critical DeqRead = True"
| "critical (DeqStore v) = True"
| "critical _ = False"

text \<open>What a thread inside relies on, and what holds of a queue nobody is inside of.\<close>

fun inside_ok :: "'a single_size \<Rightarrow> 'a list \<Rightarrow> 'a list \<Rightarrow> 'a pc \<Rightarrow> bool" where
  "inside_ok q st tk (EnqWrite v) \<longleftrightarrow> state q = WRITING \<and> payload q = None \<and> st = tk"
| "inside_ok q st tk (EnqStore v) \<longleftrightarrow> state q = WRITING \<and> payload q = Some v \<and> st = tk"
| "inside_ok q st tk DeqRead \<longleftrightarrow> state q = READING \<and> (\<exists>v. payload q = Some v \<and> st = tk @ [v])"
| "inside_ok q st tk (DeqStore v) \<longleftrightarrow> state q = READING \<and> payload q = None \<and> st = tk"
| "inside_ok q st tk _ \<longleftrightarrow> True"

definition outside_ok :: "'a single_size \<Rightarrow> 'a list \<Rightarrow> 'a list \<Rightarrow> bool" where
  "outside_ok q st tk \<longleftrightarrow>
     (state q = EMPTY \<longrightarrow> payload q = None \<and> st = tk)
     \<and> (state q = READY \<longrightarrow> (\<exists>v. payload q = Some v \<and> st = tk @ [v]))"

definition single_inv :: "'a single_sys \<Rightarrow> bool" where
  "single_inv s \<longleftrightarrow>
     (\<forall>t u. critical (pcs s t) \<longrightarrow> critical (pcs s u) \<longrightarrow> t = u)
     \<and> (\<forall>t. inside_ok (shared s) (stored s) (taken s) (pcs s t))
     \<and> outside_ok (shared s) (stored s) (taken s)
     \<and> \<not> undefined_read s"

lemma inside_trivial: "\<not> critical p \<Longrightarrow> inside_ok q st tk p"
  by (cases p) auto

lemma single_inv_initial: "single_inv initial_sys"
  by (simp add: single_inv_def initial_sys_def outside_ok_def single_new_def single_states)

text \<open>A step that stays outside moves one program counter only.\<close>

lemma single_inv_outside: "single_inv s \<Longrightarrow> \<not> critical p \<Longrightarrow> single_inv (goto t p s)"
  by (auto simp: single_inv_def inside_trivial)

text \<open>A step of the one thread inside, or of a thread that enters while nobody is.\<close>

lemma single_inv_owner:
  assumes "\<forall>u. u \<noteq> t \<longrightarrow> \<not> critical (pcs s u)"
    and "inside_ok (shared s') (stored s') (taken s') p" "outside_ok (shared s') (stored s') (taken s')"
    and "\<not> undefined_read s'" "pcs s' = (pcs s)(t := p)"
  shows "single_inv s'"
  using assms by (auto simp: single_inv_def inside_trivial)

lemma alone_inside: "single_inv s \<Longrightarrow> critical (pcs s t) \<Longrightarrow> \<forall>u. u \<noteq> t \<longrightarrow> \<not> critical (pcs s u)"
  by (auto simp: single_inv_def)

lemma nobody_inside:
  assumes "single_inv s" "state (shared s) = EMPTY \<or> state (shared s) = READY"
  shows "\<forall>u. u \<noteq> t \<longrightarrow> \<not> critical (pcs s u)"
proof (intro allI impI notI)
  fix u
  assume c: "critical (pcs s u)"
  have "inside_ok (shared s) (stored s) (taken s) (pcs s u)"
    using assms(1) by (simp add: single_inv_def)
  with assms(2) c show False
    by (cases "pcs s u") (auto simp: single_states)
qed

lemmas single_updates = set_state_def acquire_view_def publish_view_def write_payload_def read_payload_def

lemma single_inv_at:
  "single_inv s \<Longrightarrow> inside_ok (shared s) (stored s) (taken s) (pcs s t)"
  "single_inv s \<Longrightarrow> outside_ok (shared s) (stored s) (taken s)"
  "single_inv s \<Longrightarrow> \<not> undefined_read s"
  by (simp_all add: single_inv_def)

lemma single_step_inv:
  assumes "single_step ord s s'" "single_inv s"
  shows "single_inv s'"
  using assms
proof (induction rule: single_step.induct)
  case (enq_exchange s t v)
  then show ?case
    using single_inv_at(1) [of s t] single_inv_at(2,3) [of s] nobody_inside [of s t]
    by (intro single_inv_owner [of t s _ "EnqWrite v"])
       (auto simp: single_updates outside_ok_def single_states)
next
  case (enq_write s t v e)
  then show ?case
    using single_inv_at(1) [of s t] single_inv_at(2,3) [of s] alone_inside [of s t]
    by (intro single_inv_owner [of t s _ "EnqStore v"])
       (auto simp: single_updates outside_ok_def single_states)
next
  case (enq_store s t v)
  then show ?case
    using single_inv_at(1) [of s t] single_inv_at(2,3) [of s] alone_inside [of s t]
    by (intro single_inv_owner [of t s _ "EnqDone (Inr ())"])
       (auto simp: single_updates outside_ok_def single_states)
next
  case (deq_exchange s t)
  then show ?case
    using single_inv_at(1) [of s t] single_inv_at(2,3) [of s] nobody_inside [of s t]
    by (intro single_inv_owner [of t s _ DeqRead])
       (auto simp: single_updates outside_ok_def single_states)
next
  case (deq_read s t v e)
  then show ?case
    using single_inv_at(1) [of s t] single_inv_at(2,3) [of s] alone_inside [of s t]
    by (intro single_inv_owner [of t s _ "DeqStore v"])
       (auto simp: single_updates outside_ok_def single_states)
next
  case (deq_read_uninit s t)
  then show ?case
    using single_inv_at(1) [of s t] by auto
next
  case (deq_store s t v)
  then show ?case
    using single_inv_at(1) [of s t] single_inv_at(2,3) [of s] alone_inside [of s t]
    by (intro single_inv_owner [of t s _ "DeqDone (Some v)"])
       (auto simp: single_updates outside_ok_def single_states)
qed (simp_all add: single_inv_outside)

lemma single_reachable_inv: "single_reachable ord s \<Longrightarrow> single_inv s"
  by (induction rule: single_reachable.induct) (auto intro: single_inv_initial single_step_inv)

section \<open>Data races\<close>

text \<open>
  With an acquire exchange in \<open>enqueue\<close>, whoever is inside knows every event so far, and what is
  published with \<open>EMPTY\<close> and \<open>READY\<close> covers them all.
\<close>

definition ordered_inv :: "'a single_sys \<Rightarrow> bool" where
  "ordered_inv s \<longleftrightarrow> \<not> race s
     \<and> (\<forall>t. critical (pcs s t) \<longrightarrow> reads s \<union> writes s \<subseteq> knows s t)
     \<and> (state (shared s) = EMPTY \<or> state (shared s) = READY \<longrightarrow> reads s \<union> writes s \<subseteq> published s)"

lemma ordered_inv_initial: "ordered_inv initial_sys"
  by (simp add: ordered_inv_def initial_sys_def)

lemma single_step_ordered:
  assumes "single_step Acquire s s'" "single_inv s" "ordered_inv s"
  shows "ordered_inv s'"
  using assms
proof (induction rule: single_step.induct)
  case (enq_exchange s t v)
  then show ?case
    using nobody_inside [of s t]
    by (auto simp: single_updates ordered_inv_def single_states)
next
  case (enq_write s t v e)
  then have k: "reads s \<union> writes s \<subseteq> knows s t"
    by (auto simp: ordered_inv_def)
  with enq_write show ?case
    using alone_inside [of s t] single_inv_at(1) [of s t]
    by (auto simp: single_updates ordered_inv_def single_states intro: subsetD [OF k])
next
  case (enq_store s t v)
  then have k: "reads s \<union> writes s \<subseteq> knows s t"
    by (auto simp: ordered_inv_def)
  with enq_store show ?case
    using alone_inside [of s t]
    by (auto simp: single_updates ordered_inv_def single_states)
next
  case (deq_exchange s t)
  then show ?case
    using nobody_inside [of s t]
    by (auto simp: single_updates ordered_inv_def single_states)
next
  case (deq_read s t v e)
  then have k: "reads s \<union> writes s \<subseteq> knows s t"
    by (auto simp: ordered_inv_def)
  with deq_read show ?case
    using alone_inside [of s t] single_inv_at(1) [of s t]
    by (auto simp: single_updates ordered_inv_def single_states intro: subsetD [OF k])
next
  case (deq_store s t v)
  then have k: "reads s \<union> writes s \<subseteq> knows s t"
    by (auto simp: ordered_inv_def)
  with deq_store show ?case
    using alone_inside [of s t]
    by (auto simp: single_updates ordered_inv_def single_states)
qed (auto simp: ordered_inv_def)

lemma single_reachable_ordered: "single_reachable Acquire s \<Longrightarrow> ordered_inv s"
  by (induction rule: single_reachable.induct)
     (auto intro: ordered_inv_initial single_step_ordered single_reachable_inv)

end
