(* ===== verification/SingleProperties.thy ===== *)
theory SingleProperties
  imports QueueProperties SingleSizeConc
begin

text \<open>
  The properties of the one-place queue: run alone it is the bounded queue of size one; under any
  interleaving its payload is never touched by two threads at once, never read uninitialised, and no
  value is lost; and which memory order of the exchange in \<open>enqueue\<close> keeps it free of data races.
\<close>

section \<open>Alone\<close>

text \<open>
  C35. For every sequence of calls \<open>SingleSize\<close> gives the results \<open>const_queue!(_; 1)\<close> gives.
\<close>

theorem single_is_queue_of_one:
  assumes "length is < 2 ^ 62 - 1"
  shows "\<exists>(q :: 'a bounded_queue) q' s' outs. const_queue 1 w1 w2 = Ret q
           \<and> fifo_script bq_enqueue bq_dequeue is q = ret (outs, q')
           \<and> fifo_script single_enqueue single_dequeue is single_new = ret (outs, s')
           \<and> single_drop s' = ret (snd (list_fifo 1 is []))"
proof -
  have c: "2 ^ 0 + length is < (2 :: nat) ^ 62" "0 + length is < (2 :: nat) ^ 62"
    using assms by auto
  obtain q q' :: "'a bounded_queue" where "new_alloc 0 (2 ^ 0) w1 w2 = Ret q"
      "fifo_script bq_enqueue bq_dequeue is q = ret (fst (list_fifo 1 is []), q')"
    using bq_new_script [of 0 "is" w1 w2, OF _ c(1)] by auto
  moreover obtain s' where "fifo_script single_enqueue single_dequeue is single_new = ret (fst (list_fifo 1 is []), s')"
      "single_rep (0 + length is) s' (snd (list_fifo 1 is []))"
    using single.script_refines [OF single_rep_new c(2)] by auto
  moreover have "(const_queue 1 w1 w2 :: 'a bounded_queue exec) = new_alloc 0 (2 ^ 0) w1 w2"
    using const_queue_eq [of 0 w1 w2] by simp
  moreover have "single_drop s' = ret (snd (list_fifo 1 is []))" if "single_rep c s' (snd (list_fifo 1 is []))" for c s'
    using single_drop_rep [OF that] .
  ultimately show ?thesis
    by (metis (no_types, lifting))
qed

theorem single_is_queue_of_one_witness:
  "\<exists>q q' s' outs. const_queue 1 [] [] = Ret q
     \<and> fifo_script bq_enqueue bq_dequeue [Enq (5 :: usize), Enq 6, Deq] q = ret (outs, q')
     \<and> fifo_script single_enqueue single_dequeue [Enq 5, Enq 6, Deq] single_new = ret (outs, s')
     \<and> single_drop s' = ret (snd (list_fifo 1 [Enq (5 :: usize), Enq 6, Deq] []))"
  by (rule single_is_queue_of_one) simp

section \<open>Interleaved\<close>

text \<open>Some thread is inside unless the queue is empty or ready.\<close>

lemma single_reachable_busy:
  "single_reachable ord s \<Longrightarrow>
     state (shared s) = EMPTY \<or> state (shared s) = READY \<or> (\<exists>t. critical (pcs s t))"
proof (induction rule: single_reachable.induct)
  case initial
  then show ?case by (simp add: initial_sys_def single_new_def)
next
  case (step s s')
  show ?case
    using step.hyps(2) step.IH
    by (induction rule: single_step.induct) (auto simp: single_updates; metis critical.simps)+
qed

lemma single_reachable_order:
  "single_reachable ord s \<Longrightarrow> stored s = taken s \<or> (\<exists>v. stored s = taken s @ [v])"
proof (induction rule: single_reachable.induct)
  case initial
  then show ?case by (simp add: initial_sys_def)
next
  case (step s s')
  show ?case
    using step.hyps(2) single_inv_at(1) [OF single_reachable_inv [OF step.hyps(1)]] step.IH
  proof (induction rule: single_step.induct)
    case (enq_store s t v)
    then show ?case
      using enq_store.prems(1) [of t] by (auto simp: single_updates)
  next
    case (deq_read s t v e)
    then show ?case
      using deq_read.prems(1) [of t] by (auto simp: single_updates)
  qed (simp_all add: single_updates)
qed

text \<open>One thread enters \<open>enqueue\<close> and wins the exchange.\<close>

definition sys_writing :: "memory_order \<Rightarrow> nat \<Rightarrow> 'a \<Rightarrow> 'a single_sys \<Rightarrow> 'a single_sys" where
  "sys_writing ord t v s = goto t (EnqWrite v) (acquire_view ord t (set_state WRITING s))"

lemma reach_writing:
  assumes "single_reachable ord s" "pcs s t = Idle" "state (shared s) = EMPTY"
  shows "single_reachable ord (sys_writing ord t v s)"
proof -
  have a: "single_reachable ord (goto t (EnqLoad v) s)"
    using assms by (blast intro: single_reachable.step single_step.call_enqueue)
  have b: "single_reachable ord (goto t (EnqExchange v) (goto t (EnqLoad v) s))"
    using assms(3) by (intro single_reachable.step [OF a] single_step.enq_load_empty) simp_all
  have "single_reachable ord (goto t (EnqWrite v) (acquire_view ord t (set_state WRITING
      (goto t (EnqExchange v) (goto t (EnqLoad v) s)))))"
    using assms(3) by (intro single_reachable.step [OF b] single_step.enq_exchange) simp_all
  moreover have "goto t (EnqWrite v) (acquire_view ord t (set_state WRITING
      (goto t (EnqExchange v) (goto t (EnqLoad v) s)))) = sys_writing ord t v s"
    by (simp add: sys_writing_def single_updates)
  ultimately show ?thesis by simp
qed

text \<open>A whole \<open>enqueue\<close> whose write is the event \<open>e\<close>, and a whole \<open>dequeue\<close> up to its final store.\<close>

definition sys_enqueued :: "memory_order \<Rightarrow> nat \<Rightarrow> nat \<Rightarrow> 'a \<Rightarrow> 'a single_sys \<Rightarrow> 'a single_sys" where
  "sys_enqueued ord t e v s =
     (let s2 = goto t (EnqStore v) (write_payload e t v (sys_writing ord t v s))
      in goto t (EnqDone (Inr ())) ((publish_view Release t (set_state READY s2))\<lparr>stored := stored s2 @ [v]\<rparr>))"

lemma reach_enqueued:
  assumes "single_reachable ord s" "pcs s t = Idle" "state (shared s) = EMPTY" "e \<notin> reads s \<union> writes s"
  shows "single_reachable ord (sys_enqueued ord t e v s)"
proof -
  let ?w = "sys_writing ord t v s"
  have "single_step ord ?w (goto t (EnqStore v) (write_payload e t v ?w))"
    using assms(4) by (intro single_step.enq_write) (simp_all add: sys_writing_def single_updates)
  from single_reachable.step [OF reach_writing [OF assms(1-3)] this] show ?thesis
    unfolding sys_enqueued_def Let_def
    by (rule single_reachable.step) (rule single_step.enq_store, simp)
qed

definition sys_dequeued :: "nat \<Rightarrow> nat \<Rightarrow> 'a \<Rightarrow> 'a single_sys \<Rightarrow> 'a single_sys" where
  "sys_dequeued t e v s =
     (let s1 = goto t DeqRead (acquire_view Acquire t (set_state READING s));
          s2 = goto t (DeqStore v) ((read_payload e t s1)\<lparr>taken := taken s1 @ [v]\<rparr>)
      in goto t (DeqDone (Some v)) (publish_view Release t (set_state EMPTY s2)))"

lemma reach_dequeued:
  assumes "single_reachable ord s" "pcs s t = Idle" "state (shared s) = READY"
    and "payload (shared s) = Some v" "e \<notin> reads s \<union> writes s"
  shows "single_reachable ord (sys_dequeued t e v s)"
proof -
  have a: "single_reachable ord (goto t DeqLoad s)"
    using assms by (blast intro: single_reachable.step single_step.call_dequeue)
  have b: "single_reachable ord (goto t DeqExchange (goto t DeqLoad s))"
    using assms(3) by (intro single_reachable.step [OF a] single_step.deq_load_ready) simp_all
  have "single_reachable ord (goto t DeqRead (acquire_view Acquire t (set_state READING
      (goto t DeqExchange (goto t DeqLoad s)))))"
    using assms(3) by (intro single_reachable.step [OF b] single_step.deq_exchange) simp_all
  moreover have "goto t DeqRead (acquire_view Acquire t (set_state READING
      (goto t DeqExchange (goto t DeqLoad s)))) = goto t DeqRead (acquire_view Acquire t (set_state READING s))"
    by (simp add: single_updates)
  ultimately have c: "single_reachable ord (goto t DeqRead (acquire_view Acquire t (set_state READING s)))"
    by simp
  let ?s = "goto t DeqRead (acquire_view Acquire t (set_state READING s))"
  have "single_step ord ?s (goto t (DeqStore v) ((read_payload e t ?s)\<lparr>taken := taken ?s @ [v]\<rparr>))"
    using assms(4,5) by (intro single_step.deq_read) (simp_all add: single_updates)
  from single_reachable.step [OF c this] show ?thesis
    unfolding sys_dequeued_def Let_def
    by (rule single_reachable.step) (rule single_step.deq_store, simp)
qed

lemmas sys_defs = sys_writing_def sys_enqueued_def sys_dequeued_def single_updates Let_def

text \<open>
  C21. Whatever the interleaving and whatever the memory orders, at most one thread is between its
  successful exchange and its final store: no two threads touch the payload at the same time.
\<close>

theorem single_mutual_exclusion:
  assumes "single_reachable ord s" "critical (pcs s t)" "critical (pcs s u)"
  shows "t = u"
  using single_reachable_inv [OF assms(1)] assms(2,3) by (auto simp: single_inv_def)

theorem single_mutual_exclusion_witness:
  "\<exists>s :: usize single_sys. single_reachable Relaxed s \<and> critical (pcs s 3) \<and> (\<forall>u. critical (pcs s u) \<longrightarrow> u = 3)"
proof -
  let ?s = "sys_writing Relaxed 3 (5 :: usize) initial_sys"
  have r: "single_reachable Relaxed ?s"
    by (rule reach_writing [OF single_reachable.initial]) (simp_all add: initial_sys_def single_new_def)
  have c: "critical (pcs ?s 3)"
    by (simp add: sys_defs)
  show ?thesis
    using r c single_mutual_exclusion [OF r _ c] by blast
qed

text \<open>
  C23. No interleaving reads an uninitialised payload, and the values read are, in order, the values
  stored, but for at most one that waits in the queue; a queue nobody is inside of drops exactly that one.
\<close>

theorem single_loses_nothing:
  assumes "single_reachable ord s"
  shows "\<not> undefined_read s
    \<and> (\<exists>waiting. stored s = taken s @ waiting \<and> length waiting \<le> 1
         \<and> ((\<forall>t. \<not> critical (pcs s t)) \<longrightarrow> single_drop (shared s) = ret waiting))"
proof -
  note inv = single_reachable_inv [OF assms]
  obtain waiting where w: "stored s = taken s @ waiting" "length waiting \<le> 1"
    using single_reachable_order [OF assms] by (metis append_Nil2 le_numeral_extra(4) length_Cons list.size(3)
        One_nat_def zero_le_one)
  moreover have "single_drop (shared s) = ret waiting" if "\<forall>t. \<not> critical (pcs s t)"
    using single_reachable_busy [OF assms] that single_inv_at(2) [OF inv] w(1)
    by (auto simp: outside_ok_def single_drop_def single_states)
  ultimately show ?thesis
    using single_inv_at(3) [OF inv] by blast
qed

theorem single_loses_nothing_witness:
  "\<exists>s. single_reachable Relaxed s \<and> stored s = [5 :: usize] \<and> taken s = []
     \<and> single_drop (shared s) = ret [5]"
proof -
  let ?s = "sys_enqueued Relaxed 0 0 (5 :: usize) initial_sys"
  have r: "single_reachable Relaxed ?s"
    by (rule reach_enqueued [OF single_reachable.initial]) (simp_all add: initial_sys_def single_new_def)
  have "stored ?s = [5]" "taken ?s = []" "\<forall>t. \<not> critical (pcs ?s t)"
    by (simp_all add: sys_defs initial_sys_def)
  then show ?thesis
    using r single_loses_nothing [OF r] by auto
qed

text \<open>
  C22. With the memory orders of the code (the exchange of \<open>enqueue\<close> is \<open>Relaxed\<close>) there is an
  execution with a data race: an enqueuer that finds the queue empty after a dequeue writes the payload
  although that dequeuer's read of it does not happen before the write.
\<close>

theorem single_relaxed_race:
  "\<exists>s :: usize single_sys. single_reachable Relaxed s \<and> race s"
proof -
  let ?a = "sys_enqueued Relaxed 0 0 (5 :: usize) initial_sys"
  let ?b = "sys_dequeued 1 1 5 ?a"
  let ?c = "sys_enqueued Relaxed 2 2 6 ?b"
  have a: "single_reachable Relaxed ?a"
    by (rule reach_enqueued [OF single_reachable.initial]) (simp_all add: initial_sys_def single_new_def)
  have b: "single_reachable Relaxed ?b"
    by (rule reach_dequeued [OF a]) (simp_all add: sys_defs initial_sys_def)
  have "single_reachable Relaxed ?c"
    by (rule reach_enqueued [OF b]) (simp_all add: sys_defs initial_sys_def)
  moreover have "race ?c"
    by (simp add: sys_defs initial_sys_def)
  ultimately show ?thesis by blast
qed

text \<open>
  Were that exchange \<open>Acquire\<close>, as the exchange of \<open>dequeue\<close> is, no execution would have a data
  race on the payload.
\<close>

lemma single_acquire_race_free:
  assumes "single_reachable Acquire s"
  shows "\<not> race s"
  using single_reachable_ordered [OF assms] by (simp add: ordered_inv_def)

end
