(* ===== verification/UnboundedProperties.thy ===== *)
theory UnboundedProperties
  imports UnboundedFifo
begin

text \<open>
  The properties of the unbounded queue and of its counted variant, over the facts of the
  interpretations \<open>ub\<close> and \<open>counted\<close>.
\<close>

text \<open>
  C11. An unbounded queue of segment size \<open>2 ^ k\<close> gives for every sequence of calls the results of an
  unbounded list, across all its segments: no call panics, dereferences a node that is gone, or fails to
  return. A call may use \<open>2 * 2 ^ k + 2\<close> tickets of a ring, and tickets stay below \<open>2 ^ 62\<close>.
\<close>

theorem unbounded_queue_refines_list:
  assumes "k \<le> 60" "2 ^ k + length is * (2 * 2 ^ k + 2) < 2 ^ 62"
  shows "\<exists>q q'. with_segment_size (2 ^ k) w = Ret q
           \<and> stream_script unbounded_enqueue unbounded_dequeue is q = ret (fst (list_stream is []), q')
           \<and> ub_rep (2 ^ k + length is * (2 * 2 ^ k + 2)) q' (snd (list_stream is []))"
proof -
  obtain q :: "'a unbounded_queue" where q: "with_segment_size (2 ^ k) w = Ret q" "ub_rep (2 ^ k) q []"
      "base_segment_capacity q = 2 ^ k"
    using with_segment_size_rep [OF assms(1)] by blast
  have "ub_cost q = 2 * 2 ^ k + 2"
    using q(3) assms(1) by (simp add: ub_cost_def base_segment_capacity_def unat_two_power)
  then show ?thesis
    using ub.script_refines [OF q(2), of "is"] q(1) assms(2) by auto
qed

theorem unbounded_queue_refines_list_witness:
  "\<exists>q q'. with_segment_size 1 (\<lambda>_. ([], [])) = Ret q
     \<and> stream_script unbounded_enqueue unbounded_dequeue [Enq (5 :: usize), Enq 6, Enq 7, Deq, Deq, Deq, Deq] q
       = ret ([Some 5, Some 6, Some 7, None], q')"
  using unbounded_queue_refines_list
    [of 0 "[Enq (5 :: usize), Enq 6, Enq 7, Deq, Deq, Deq, Deq]" "\<lambda>_. ([], [])"]
  by (simp del: stream_script.simps) blast

text \<open>
  C28. Dropping an unbounded queue after any script drops exactly the values still in it, in order, and
  frees every node; the nodes retired on the way hold no value.
\<close>

theorem unbounded_drop_frees_all:
  assumes "k \<le> 60" "Suc (2 ^ k + length is * (2 * 2 ^ k + 2)) < 2 ^ 62"
  shows "\<exists>q outs q' q''. with_segment_size (2 ^ k) w = Ret q
           \<and> stream_script unbounded_enqueue unbounded_dequeue is q = ret (outs, q')
           \<and> lscq_drop (internal q') = ret (snd (list_stream is []), q'')
           \<and> nodes q'' = Map.empty
           \<and> (\<forall>n\<in>set (retired q''). \<forall>b\<in>set (backing (node_value n)). b = None)"
proof -
  obtain q :: "'a unbounded_queue" where q: "with_segment_size (2 ^ k) w = Ret q" "ub_rep (2 ^ k) q []"
      "base_segment_capacity q = 2 ^ k"
    using with_segment_size_rep [OF assms(1)] by blast
  have "ub_cost q = 2 * 2 ^ k + 2"
    using q(3) assms(1) by (simp add: ub_cost_def base_segment_capacity_def unat_two_power)
  then obtain q' j where "stream_script unbounded_enqueue unbounded_dequeue is q = ret (fst (list_stream is []), q')"
      "lscq_rep (2 ^ k + length is * (2 * 2 ^ k + 2)) j (internal q') (snd (list_stream is []))"
    using ub.script_refines [OF q(2), of "is"] assms(2) by (auto simp: ub_rep_def)
  then show ?thesis
    using lscq_drop_all [OF _ assms(2)] q(1) unfolding lscq_empty_node_def by blast
qed

theorem unbounded_drop_frees_all_witness:
  "\<exists>q outs q' q''. with_segment_size 1 (\<lambda>_. ([], [])) = Ret q
     \<and> stream_script unbounded_enqueue unbounded_dequeue [Enq (5 :: usize), Enq 6, Deq, Enq 7] q = ret (outs, q')
     \<and> lscq_drop (internal q') = ret ([6, 7], q'') \<and> nodes q'' = Map.empty"
  using unbounded_drop_frees_all [of 0 "[Enq (5 :: usize), Enq 6, Deq, Enq 7]" "\<lambda>_. ([], [])"]
  by (simp del: stream_script.simps) blast

text \<open>
  C34. After any script on a fresh counted queue its results are those of the list, \<open>len\<close> is the number
  of values it holds and \<open>is_empty\<close> tells whether there is none.
\<close>

theorem counted_queue_counts:
  assumes "k \<le> 60" "2 ^ k + length is * (2 * 2 ^ k + 2) < 2 ^ 62"
  shows "\<exists>q q'. counted_with_segment_size (2 ^ k) w = Ret q
           \<and> stream_script counted_enqueue counted_dequeue is q = ret (fst (list_stream is []), q')
           \<and> unat (counted_len q') = length (snd (list_stream is []))
           \<and> (counted_is_empty q' \<longleftrightarrow> snd (list_stream is []) = [])"
proof -
  obtain q :: "'a counted_queue" where q: "counted_with_segment_size (2 ^ k) w = Ret q" "counted_rep (2 ^ k) q []"
      "counted_cost q = 2 * 2 ^ k + 2"
    using counted_with_segment_size_rep [OF assms(1)] by blast
  then obtain q' where "stream_script counted_enqueue counted_dequeue is q = ret (fst (list_stream is []), q')"
      and len: "unat (counted_len q') = length (snd (list_stream is []))"
    using counted.script_refines [OF q(2), of "is"] assms(2) by (auto simp: counted_rep_def counted_len_def)
  moreover have "counted_is_empty q' \<longleftrightarrow> snd (list_stream is []) = []"
    using len by (auto simp: counted_is_empty_def unat_eq_0)
  ultimately show ?thesis
    using q(1) by blast
qed

theorem counted_queue_counts_witness:
  "\<exists>q q'. counted_with_segment_size 32 (\<lambda>_. ([], [])) = Ret q
     \<and> stream_script counted_enqueue counted_dequeue [Enq (3 :: usize), Enq 2, Deq] q = ret ([Some 3], q')
     \<and> unat (counted_len q') = 1 \<and> \<not> counted_is_empty q'"
  using counted_queue_counts [of 5 "[Enq (3 :: usize), Enq 2, Deq]" "\<lambda>_. ([], [])"]
  by (simp del: stream_script.simps)

text \<open>
  \<open>dequeue\<close> at any list of queues that meets the representation: it skips and retires the drained
  nodes in front and returns the oldest value, or \<open>None\<close> exactly when no node holds one; the head is
  never null.
\<close>

lemma lscq_dequeue_spec:
  assumes "lscq_rep c k q vs" "c + (2 * 2 ^ k + 2) < 2 ^ 62"
  shows "\<exists>q'. lscq_dequeue q = ret (case vs of [] \<Rightarrow> None | x # _ \<Rightarrow> Some x, q')
            \<and> lscq_rep (c + (2 * 2 ^ k + 2)) k q' (tl vs) \<and> lq_head q' \<noteq> None"
proof -
  obtain q' where q': "lscq_dequeue q = ret (case vs of [] \<Rightarrow> None | x # _ \<Rightarrow> Some x, q')"
      "lscq_rep (c + (2 * 2 ^ k + 2)) k q' (tl vs)"
    using lscq_dequeue_ok [OF assms(1)] assms(2) by (auto simp: lscq_cost_def)
  then have "lq_head q' \<noteq> None"
    by (auto simp: lscq_rep_def lscq_inv_def)
  with q' show ?thesis by blast
qed

end
