(* ===== verification/LscqConc.thy ===== *)
theory LscqConc
  imports UnboundedFifo
begin

text \<open>
  The list of queues of \<open>src/lfstd.rs\<close> under concurrency. A step of a thread is one access of shared
  memory; an operation of an index ring counts as one access (its interleavings are not resolved
  here), so do the load with protection \<open>safe_load\<close> and the hand-over \<open>retire_in\<close> of the crate
  \<open>haphazard\<close>, with their documented meaning: \<open>safe_load\<close> returns the pointer and leaves it in the
  thread's hazard pointer; a retired node may be reclaimed at any time while no hazard pointer holds
  it. The allocator may hand out any address that is not in use, so addresses are reused.

  \<open>bad_access\<close> records an access to a node that is not allocated, or a second retirement of one;
  \<open>dangling\<close> records a \<open>safe_load\<close> that returned a reference to a node that is no longer allocated.
\<close>

section \<open>The system\<close>

text \<open>
  Where a thread is. The pointer a thread works on is the one in its first hazard pointer. \<open>EqAlloc\<close>,
  \<open>EqSeal\<close> and \<open>EqTail\<close> keep the enqueued value for the history only.
\<close>

datatype 'a lscq_pc =
    LIdle
  | EqLoad 'a | EqNext 'a nat | EqSwing 'a nat nat | EqUsed 'a nat | EqFull 'a nat
  | EqFree 'a nat usize | EqWrite 'a nat usize usize | EqAlloc 'a nat usize usize | EqSeal 'a nat usize
  | EqUndoUsed nat usize | EqUndoRead nat usize | EqUndoFree 'a nat usize
  | EqGrow 'a nat | EqTail 'a nat nat
  | DqLoad | DqTry nat | DqNext nat | DqThreshold nat nat | DqRetry nat nat | DqAdvance nat nat | DqRetire nat
  | DqUsed nat usize | DqRead nat usize | DqFree 'a nat usize
  | Crashed

datatype 'a lscq_event = EnqReturned nat 'a | DeqReturned nat "'a option"

record 'a lscq_sys =
  sys_q :: "'a lscq"
  participants :: nat
  sys_pc :: "nat \<Rightarrow> 'a lscq_pc"
  hp1 :: "nat \<Rightarrow> ptr"
  hp2 :: "nat \<Rightarrow> ptr"
  retired_at :: "nat list"
  bad_access :: bool
  dangling :: bool
  history :: "'a lscq_event list"
  reclaimed_values :: "'a list"

definition lscq_start :: "nat \<Rightarrow> 'a lscq \<Rightarrow> 'a lscq_sys" where
  "lscq_start m q = \<lparr>sys_q = q, participants = m, sys_pc = (\<lambda>_. LIdle), hp1 = (\<lambda>_. None), hp2 = (\<lambda>_. None),
     retired_at = [], bad_access = False, dangling = False, history = [], reclaimed_values = []\<rparr>"

definition at_pc :: "nat \<Rightarrow> 'a lscq_pc \<Rightarrow> 'a lscq_sys \<Rightarrow> 'a lscq_sys" where
  "at_pc t p s = s\<lparr>sys_pc := (sys_pc s)(t := p)\<rparr>"

definition on_q :: "('a lscq \<Rightarrow> 'a lscq) \<Rightarrow> 'a lscq_sys \<Rightarrow> 'a lscq_sys" where
  "on_q f s = s\<lparr>sys_q := f (sys_q s)\<rparr>"

definition log_event :: "'a lscq_event \<Rightarrow> 'a lscq_sys \<Rightarrow> 'a lscq_sys" where
  "log_event e s = s\<lparr>history := history s @ [e]\<rparr>"

text \<open>Access to the bounded queue of the node at \<open>a\<close>; the node itself.\<close>

definition with_node ::
  "nat \<Rightarrow> 'a lscq_sys \<Rightarrow> ('a lscq_node \<Rightarrow> 'a lscq_sys option) \<Rightarrow> 'a lscq_sys option"
where
  "with_node a s f =
     (case nodes (sys_q s) a of None \<Rightarrow> Some (s\<lparr>bad_access := True\<rparr>) | Some n \<Rightarrow> f n)"

text \<open>
  The outcome of an operation on shared memory: it goes on, the thread crashes, or the operation never
  returns and the thread takes no step.
\<close>

definition proceed :: "nat \<Rightarrow> 'a lscq_sys \<Rightarrow> 'b run \<Rightarrow> ('b \<Rightarrow> 'a lscq_sys) \<Rightarrow> 'a lscq_sys option" where
  "proceed t s m f =
     (case m of None \<Rightarrow> None | Some e \<Rightarrow>
        Some (case e of Ret b \<Rightarrow> f b | Panic \<Rightarrow> at_pc t Crashed s | UB \<Rightarrow> at_pc t Crashed s))"

section \<open>The steps of enqueue\<close>

definition enq_load :: "nat \<Rightarrow> 'a \<Rightarrow> 'a lscq_sys \<Rightarrow> 'a lscq_sys option" where
  "enq_load t x s =
     (case lq_tail (sys_q s) of
        None \<Rightarrow> Some (at_pc t Crashed s)
      | Some a \<Rightarrow> Some (at_pc t (EqNext x a) (s\<lparr>hp1 := (hp1 s)(t := Some a)\<rparr>)))"

definition enq_next :: "nat \<Rightarrow> 'a \<Rightarrow> nat \<Rightarrow> 'a lscq_sys \<Rightarrow> 'a lscq_sys option" where
  "enq_next t x a s = with_node a s (\<lambda>n.
     Some (at_pc t (case next_ptr n of None \<Rightarrow> EqUsed x a | Some nx \<Rightarrow> EqSwing x a nx) s))"

definition enq_used :: "nat \<Rightarrow> 'a \<Rightarrow> nat \<Rightarrow> 'a lscq_sys \<Rightarrow> 'a lscq_sys option" where
  "enq_used t x a s = with_node a s (\<lambda>n.
     let v = node_value n; sz = used v
     in Some (at_pc t (if sz \<ge> ring_capacity (free_queue v) then EqFull x a else EqFree x a sz)
               (on_q (put_value a (v\<lparr>used := sz + 1\<rparr>)) s)))"

definition enq_full :: "nat \<Rightarrow> 'a \<Rightarrow> nat \<Rightarrow> 'a lscq_sys \<Rightarrow> 'a lscq_sys option" where
  "enq_full t x a s = with_node a s (\<lambda>n.
     let v = node_value n
     in Some (at_pc t (EqGrow x a) (on_q (put_value a (v\<lparr>used := used v - 1\<rparr>)) s)))"

definition enq_free :: "nat \<Rightarrow> 'a \<Rightarrow> nat \<Rightarrow> usize \<Rightarrow> 'a lscq_sys \<Rightarrow> 'a lscq_sys option" where
  "enq_free t x a sz s = with_node a s (\<lambda>n.
     let v = node_value n
     in proceed t s (ring_dequeue (free_queue v)) (\<lambda>(popt, fq).
          at_pc t (case popt of None \<Rightarrow> EqFull x a | Some pos \<Rightarrow> EqWrite x a sz pos)
            (on_q (put_value a (v\<lparr>free_queue := fq\<rparr>)) s)))"

definition enq_write :: "nat \<Rightarrow> 'a \<Rightarrow> nat \<Rightarrow> usize \<Rightarrow> usize \<Rightarrow> 'a lscq_sys \<Rightarrow> 'a lscq_sys option" where
  "enq_write t x a sz pos s = with_node a s (\<lambda>n.
     proceed t s (write_slot pos x (node_value n)) (\<lambda>v'.
       at_pc t (EqAlloc x a sz pos) (on_q (put_value a v') s)))"

definition enq_alloc :: "nat \<Rightarrow> 'a \<Rightarrow> nat \<Rightarrow> usize \<Rightarrow> usize \<Rightarrow> 'a lscq_sys \<Rightarrow> 'a lscq_sys option" where
  "enq_alloc t x a sz pos s = with_node a s (\<lambda>n.
     let v = node_value n
     in proceed t s (ring_enqueue (alloc_queue v) pos) (\<lambda>(res, aq).
          at_pc t (case res of Inl _ \<Rightarrow> EqUndoUsed a pos | Inr _ \<Rightarrow> EqSeal x a sz)
            (on_q (put_value a (v\<lparr>alloc_queue := aq\<rparr>)) s)))"

definition enq_seal :: "nat \<Rightarrow> 'a \<Rightarrow> nat \<Rightarrow> usize \<Rightarrow> 'a lscq_sys \<Rightarrow> 'a lscq_sys option" where
  "enq_seal t x a sz s = with_node a s (\<lambda>n.
     let v = node_value n
     in Some (log_event (EnqReturned t x) (at_pc t LIdle
          (if sz + 1 \<ge> ring_capacity (free_queue v)
           then on_q (put_value a (v\<lparr>alloc_queue := finalize (alloc_queue v)\<rparr>)) s else s))))"

definition enq_undo_used :: "nat \<Rightarrow> nat \<Rightarrow> usize \<Rightarrow> 'a lscq_sys \<Rightarrow> 'a lscq_sys option" where
  "enq_undo_used t a pos s = with_node a s (\<lambda>n.
     let v = node_value n
     in Some (at_pc t (EqUndoRead a pos) (on_q (put_value a (v\<lparr>used := used v - 1\<rparr>)) s)))"

definition enq_undo_read :: "nat \<Rightarrow> nat \<Rightarrow> usize \<Rightarrow> 'a lscq_sys \<Rightarrow> 'a lscq_sys option" where
  "enq_undo_read t a pos s = with_node a s (\<lambda>n.
     proceed t s (read_slot pos (node_value n)) (\<lambda>(item, v').
       at_pc t (EqUndoFree item a pos) (on_q (put_value a v') s)))"

definition enq_undo_free :: "nat \<Rightarrow> 'a \<Rightarrow> nat \<Rightarrow> usize \<Rightarrow> 'a lscq_sys \<Rightarrow> 'a lscq_sys option" where
  "enq_undo_free t x a pos s = with_node a s (\<lambda>n.
     let v = node_value n
     in proceed t s (ring_enqueue (free_queue v) pos) (\<lambda>(res, fq).
          at_pc t (case res of Inl _ \<Rightarrow> Crashed | Inr _ \<Rightarrow> EqGrow x a)
            (on_q (put_value a (v\<lparr>free_queue := fq\<rparr>)) s)))"

text \<open>
  The new node is built and filled before anyone can see it, so this happens in the step of the
  exchange; \<open>b\<close> is the address of its allocation.
\<close>

definition grown_node :: "usize \<Rightarrow> bool list \<times> bool list \<Rightarrow> 'a \<Rightarrow> 'a lscq_node run" where
  "grown_node sz w x =
     bind_run (Some (node_new sz w)) (\<lambda>ncq.
       bind_run (bq_enqueue (node_value ncq) x) (\<lambda>(res, v2).
         case res of Inl _ \<Rightarrow> Some Panic | Inr _ \<Rightarrow> ret (ncq\<lparr>node_value := v2\<rparr>)))"

definition take_back :: "'a lscq_node \<Rightarrow> 'a run" where
  "take_back ncq =
     bind_run (bq_dequeue (node_value ncq)) (\<lambda>(popt, v3).
       case popt of None \<Rightarrow> Some Panic | Some x \<Rightarrow> bind_run (bq_drop v3) (\<lambda>_. ret x))"

definition enq_grow :: "nat \<Rightarrow> nat \<Rightarrow> 'a \<Rightarrow> nat \<Rightarrow> 'a lscq_sys \<Rightarrow> 'a lscq_sys option" where
  "enq_grow t b x a s = with_node a s (\<lambda>n.
     let q = sys_q s; ncq = grown_node (internal_order q) (sched q b) x
     in if next_ptr n = None
        then proceed t s ncq (\<lambda>m.
               at_pc t (EqTail x a b)
                 (on_q (\<lambda>q. put_next a (Some b) (q\<lparr>nodes := (nodes q)(b \<mapsto> m)\<rparr>)) s))
        else proceed t s (bind_run ncq take_back) (\<lambda>x'. at_pc t (EqLoad x') s))"

definition enq_tail :: "nat \<Rightarrow> 'a \<Rightarrow> nat \<Rightarrow> nat \<Rightarrow> 'a lscq_sys \<Rightarrow> 'a lscq_sys option" where
  "enq_tail t x a b s =
     Some (log_event (EnqReturned t x) (at_pc t LIdle (on_q (cas_lq_tail (Some a) (Some b)) s)))"

section \<open>The steps of dequeue\<close>

definition deq_load :: "nat \<Rightarrow> 'a lscq_sys \<Rightarrow> 'a lscq_sys option" where
  "deq_load t s =
     (case lq_head (sys_q s) of
        None \<Rightarrow> Some (at_pc t Crashed s)
      | Some a \<Rightarrow> Some (at_pc t (DqTry a) (s\<lparr>hp1 := (hp1 s)(t := Some a)\<rparr>)))"

text \<open>The dequeue of the allocation ring; \<open>p\<close> is where an empty ring leads.\<close>

definition deq_try :: "nat \<Rightarrow> nat \<Rightarrow> 'a lscq_pc \<Rightarrow> 'a lscq_sys \<Rightarrow> 'a lscq_sys option" where
  "deq_try t a p s = with_node a s (\<lambda>n.
     let v = node_value n
     in proceed t s (ring_dequeue (alloc_queue v)) (\<lambda>(popt, aq).
          at_pc t (case popt of None \<Rightarrow> p | Some pos \<Rightarrow> DqUsed a pos)
            (on_q (put_value a (v\<lparr>alloc_queue := aq\<rparr>)) s)))"

definition deq_next :: "nat \<Rightarrow> nat \<Rightarrow> 'a lscq_sys \<Rightarrow> 'a lscq_sys option" where
  "deq_next t a s = with_node a s (\<lambda>n.
     case next_ptr n of
       None \<Rightarrow> Some (log_event (DeqReturned t None) (at_pc t LIdle s))
     | Some nx \<Rightarrow> Some (at_pc t (DqThreshold a nx)
         (s\<lparr>hp2 := (hp2 s)(t := Some nx), dangling := dangling s \<or> nodes (sys_q s) nx = None\<rparr>)))"

definition deq_threshold :: "nat \<Rightarrow> nat \<Rightarrow> nat \<Rightarrow> 'a lscq_sys \<Rightarrow> 'a lscq_sys option" where
  "deq_threshold t a nx s = with_node a s (\<lambda>n.
     let v = node_value n
     in Some (at_pc t (DqRetry a nx) (on_q (put_value a (store_threshold (retry_threshold v) v)) s)))"

definition deq_advance :: "nat \<Rightarrow> nat \<Rightarrow> nat \<Rightarrow> 'a lscq_sys \<Rightarrow> 'a lscq_sys option" where
  "deq_advance t a nx s =
     (if lq_head (sys_q s) = Some a
      then Some (at_pc t (DqRetire a) (on_q (\<lambda>q. q\<lparr>lq_head := Some nx\<rparr>) s))
      else Some (at_pc t DqLoad s))"

definition deq_retire :: "nat \<Rightarrow> nat \<Rightarrow> 'a lscq_sys \<Rightarrow> 'a lscq_sys option" where
  "deq_retire t a s =
     Some (at_pc t DqLoad (s\<lparr>retired_at := a # retired_at s,
       bad_access := bad_access s \<or> a \<in> set (retired_at s) \<or> nodes (sys_q s) a = None\<rparr>))"

definition deq_used :: "nat \<Rightarrow> nat \<Rightarrow> usize \<Rightarrow> 'a lscq_sys \<Rightarrow> 'a lscq_sys option" where
  "deq_used t a pos s = with_node a s (\<lambda>n.
     let v = node_value n
     in Some (at_pc t (DqRead a pos) (on_q (put_value a (v\<lparr>used := used v - 1\<rparr>)) s)))"

definition deq_read :: "nat \<Rightarrow> nat \<Rightarrow> usize \<Rightarrow> 'a lscq_sys \<Rightarrow> 'a lscq_sys option" where
  "deq_read t a pos s = with_node a s (\<lambda>n.
     proceed t s (read_slot pos (node_value n)) (\<lambda>(x, v').
       at_pc t (DqFree x a pos) (on_q (put_value a v') s)))"

definition deq_free :: "nat \<Rightarrow> 'a \<Rightarrow> nat \<Rightarrow> usize \<Rightarrow> 'a lscq_sys \<Rightarrow> 'a lscq_sys option" where
  "deq_free t x a pos s = with_node a s (\<lambda>n.
     let v = node_value n
     in proceed t s (ring_enqueue (free_queue v) pos) (\<lambda>(res, fq).
          (case res of Inl _ \<Rightarrow> at_pc t Crashed s
           | Inr _ \<Rightarrow> log_event (DeqReturned t (Some x)) (at_pc t LIdle
                        (on_q (put_value a (v\<lparr>free_queue := fq\<rparr>)) s)))))"

section \<open>The step function\<close>

definition thread_step :: "nat \<Rightarrow> nat \<Rightarrow> 'a lscq_sys \<Rightarrow> 'a lscq_sys option" where
  "thread_step t b s =
     (case sys_pc s t of
        LIdle \<Rightarrow> None | Crashed \<Rightarrow> None
      | EqLoad x \<Rightarrow> enq_load t x s
      | EqNext x a \<Rightarrow> enq_next t x a s
      | EqSwing x a nx \<Rightarrow> Some (at_pc t (EqLoad x) (on_q (cas_lq_tail (Some a) (Some nx)) s))
      | EqUsed x a \<Rightarrow> enq_used t x a s
      | EqFull x a \<Rightarrow> enq_full t x a s
      | EqFree x a sz \<Rightarrow> enq_free t x a sz s
      | EqWrite x a sz pos \<Rightarrow> enq_write t x a sz pos s
      | EqAlloc x a sz pos \<Rightarrow> enq_alloc t x a sz pos s
      | EqSeal x a sz \<Rightarrow> enq_seal t x a sz s
      | EqUndoUsed a pos \<Rightarrow> enq_undo_used t a pos s
      | EqUndoRead a pos \<Rightarrow> enq_undo_read t a pos s
      | EqUndoFree x a pos \<Rightarrow> enq_undo_free t x a pos s
      | EqGrow x a \<Rightarrow> (if nodes (sys_q s) b = None then enq_grow t b x a s else None)
      | EqTail x a b' \<Rightarrow> enq_tail t x a b' s
      | DqLoad \<Rightarrow> deq_load t s
      | DqTry a \<Rightarrow> deq_try t a (DqNext a) s
      | DqNext a \<Rightarrow> deq_next t a s
      | DqThreshold a nx \<Rightarrow> deq_threshold t a nx s
      | DqRetry a nx \<Rightarrow> deq_try t a (DqAdvance a nx) s
      | DqAdvance a nx \<Rightarrow> deq_advance t a nx s
      | DqRetire a \<Rightarrow> deq_retire t a s
      | DqUsed a pos \<Rightarrow> deq_used t a pos s
      | DqRead a pos \<Rightarrow> deq_read t a pos s
      | DqFree x a pos \<Rightarrow> deq_free t x a pos s)"

text \<open>
  What can happen: an idle thread calls an operation, a thread takes its next step (with the address
  its allocation would get), an idle thread drops its hazard pointers, a retired node that no hazard
  pointer holds is reclaimed.
\<close>

datatype 'a lscq_label = CallEnqueue nat 'a | CallDequeue nat | RunStep nat nat | Release nat | Reclaim nat

definition is_idle :: "nat \<Rightarrow> 'a lscq_sys \<Rightarrow> bool" where
  "is_idle t s \<longleftrightarrow> t < participants s \<and> (case sys_pc s t of LIdle \<Rightarrow> True | _ \<Rightarrow> False)"

definition unprotected :: "nat \<Rightarrow> 'a lscq_sys \<Rightarrow> bool" where
  "unprotected a s \<longleftrightarrow> list_all (\<lambda>t. hp1 s t \<noteq> Some a \<and> hp2 s t \<noteq> Some a) [0..<participants s]"

definition reclaim :: "nat \<Rightarrow> 'a lscq_sys \<Rightarrow> 'a lscq_sys option" where
  "reclaim a s =
     (if a \<in> set (retired_at s) \<and> unprotected a s
      then with_node a s (\<lambda>n.
        case bq_drop (node_value n) of
          Some (Ret p) \<Rightarrow> Some (on_q (\<lambda>q. q\<lparr>nodes := (nodes q)(a := None)\<rparr>)
              (s\<lparr>retired_at := removeAll a (retired_at s),
                 reclaimed_values := reclaimed_values s @ fst p\<rparr>))
        | _ \<Rightarrow> None)
      else None)"

fun lscq_step :: "'a lscq_label \<Rightarrow> 'a lscq_sys \<Rightarrow> 'a lscq_sys option" where
  "lscq_step (CallEnqueue t x) s = (if is_idle t s then Some (at_pc t (EqLoad x) s) else None)"
| "lscq_step (CallDequeue t) s = (if is_idle t s then Some (at_pc t DqLoad s) else None)"
| "lscq_step (RunStep t b) s = (if t < participants s then thread_step t b s else None)"
| "lscq_step (Release t) s =
     (if is_idle t s then Some (s\<lparr>hp1 := (hp1 s)(t := None), hp2 := (hp2 s)(t := None)\<rparr>) else None)"
| "lscq_step (Reclaim a) s = reclaim a s"

fun lscq_run :: "'a lscq_label list \<Rightarrow> 'a lscq_sys \<Rightarrow> 'a lscq_sys option" where
  "lscq_run [] s = Some s"
| "lscq_run (l # ls) s = (case lscq_step l s of None \<Rightarrow> None | Some s' \<Rightarrow> lscq_run ls s')"

inductive lscq_reachable :: "nat \<Rightarrow> 'a lscq \<Rightarrow> 'a lscq_sys \<Rightarrow> bool" for m q where
  start: "lscq_reachable m q (lscq_start m q)"
| step: "lscq_reachable m q s \<Longrightarrow> lscq_step l s = Some s' \<Longrightarrow> lscq_reachable m q s'"

lemma lscq_run_reachable:
  "lscq_reachable m q s \<Longrightarrow> lscq_run ls s = Some s' \<Longrightarrow> lscq_reachable m q s'"
  by (induction ls s rule: lscq_run.induct) (auto split: option.splits intro: lscq_reachable.step)

end
