(* ===== verification/LscqSafe.thy ===== *)
theory LscqSafe
  imports LscqConc
begin

text \<open>
  Memory safety of the list of queues under every interleaving: no thread ever accesses a node that has
  been reclaimed, and no node is retired twice. The invariant follows the links only: the nodes from
  the head on form a list that ends with a null pointer; the tail is its last node, or the node in
  front of it while the thread that linked the last node has not yet moved the tail, and then that
  thread's hazard pointer holds it; whatever node a thread works on is allocated and in its hazard
  pointer; an enqueuer's node without successor is the tail; a node about to be retired, or retired,
  is out of the list, and only one thread retires it.
\<close>

section \<open>The view of the links\<close>

definition next_of :: "'a lscq_sys \<Rightarrow> nat \<Rightarrow> ptr option" where
  "next_of s a = map_option next_ptr (nodes (sys_q s) a)"

fun links :: "(nat \<Rightarrow> ptr option) \<Rightarrow> nat list \<Rightarrow> ptr \<Rightarrow> bool" where
  "links N [] p \<longleftrightarrow> True"
| "links N (a # as) p \<longleftrightarrow> N a = Some (first_ptr as p) \<and> links N as p"

lemma links_append: "links N (as @ bs) p \<longleftrightarrow> links N as (first_ptr bs p) \<and> links N bs p"
  by (induction as) auto

lemma links_frame: "links N as p \<Longrightarrow> (\<And>a. a \<in> set as \<Longrightarrow> N' a = N a) \<Longrightarrow> links N' as p"
  by (induction as) auto

lemma links_allocated: "links N as p \<Longrightarrow> a \<in> set as \<Longrightarrow> N a \<noteq> None"
  by (induction as) auto

text \<open>The node a thread works on; a link it has read; an enqueuer's node; a node it is about to retire.\<close>

fun node_at :: "'a lscq_pc \<Rightarrow> nat option" where
  "node_at LIdle = None" | "node_at Crashed = None" | "node_at (EqLoad x) = None" | "node_at DqLoad = None"
| "node_at (EqNext x a) = Some a" | "node_at (EqSwing x a nx) = Some a" | "node_at (EqUsed x a) = Some a"
| "node_at (EqFull x a) = Some a" | "node_at (EqFree x a sz) = Some a" | "node_at (EqWrite x a sz pos) = Some a"
| "node_at (EqAlloc x a sz pos) = Some a" | "node_at (EqSeal x a sz) = Some a"
| "node_at (EqUndoUsed a pos) = Some a" | "node_at (EqUndoRead a pos) = Some a"
| "node_at (EqUndoFree x a pos) = Some a" | "node_at (EqGrow x a) = Some a" | "node_at (EqTail x a b) = Some a"
| "node_at (DqTry a) = Some a" | "node_at (DqNext a) = Some a" | "node_at (DqThreshold a nx) = Some a"
| "node_at (DqRetry a nx) = Some a" | "node_at (DqAdvance a nx) = Some a" | "node_at (DqRetire a) = Some a"
| "node_at (DqUsed a pos) = Some a" | "node_at (DqRead a pos) = Some a" | "node_at (DqFree x a pos) = Some a"

fun link_at :: "'a lscq_pc \<Rightarrow> (nat \<times> nat) option" where
  "link_at (EqSwing x a nx) = Some (a, nx)" | "link_at (EqTail x a b) = Some (a, b)"
| "link_at (DqThreshold a nx) = Some (a, nx)" | "link_at (DqRetry a nx) = Some (a, nx)"
| "link_at (DqAdvance a nx) = Some (a, nx)" | "link_at _ = None"

fun enq_at :: "'a lscq_pc \<Rightarrow> nat option" where
  "enq_at (EqNext x a) = Some a" | "enq_at (EqUsed x a) = Some a" | "enq_at (EqFull x a) = Some a"
| "enq_at (EqFree x a sz) = Some a" | "enq_at (EqWrite x a sz pos) = Some a"
| "enq_at (EqAlloc x a sz pos) = Some a" | "enq_at (EqSeal x a sz) = Some a"
| "enq_at (EqUndoUsed a pos) = Some a" | "enq_at (EqUndoRead a pos) = Some a"
| "enq_at (EqUndoFree x a pos) = Some a" | "enq_at (EqGrow x a) = Some a" | "enq_at _ = None"

fun retire_at :: "'a lscq_pc \<Rightarrow> nat option" where
  "retire_at (DqRetire a) = Some a" | "retire_at _ = None"

lemma enq_at_node: "enq_at p = Some a \<Longrightarrow> node_at p = Some a"
  by (cases p) auto

lemma retire_at_node: "retire_at p = Some a \<Longrightarrow> node_at p = Some a"
  by (cases p) auto

section \<open>The invariant\<close>

definition chain_ok :: "nat list \<Rightarrow> 'a lscq_sys \<Rightarrow> bool" where
  "chain_ok as s \<longleftrightarrow> as \<noteq> [] \<and> distinct as \<and> links (next_of s) as None
     \<and> lq_head (sys_q s) = Some (hd as)
     \<and> set as \<inter> set (retired_at s) = {} \<and> (\<forall>a\<in>set (retired_at s). next_of s a \<noteq> None)"

definition tail_ok :: "nat list \<Rightarrow> 'a lscq_sys \<Rightarrow> bool" where
  "tail_ok as s \<longleftrightarrow> lq_tail (sys_q s) = Some (last as)
     \<or> (\<exists>p u x. lq_tail (sys_q s) = Some p \<and> sys_pc s u = EqTail x p (last as))"

text \<open>What one thread relies on when its program counter is \<open>p\<close>.\<close>

definition thread_ok :: "nat list \<Rightarrow> 'a lscq_sys \<Rightarrow> nat \<Rightarrow> 'a lscq_pc \<Rightarrow> bool" where
  "thread_ok as s t p \<longleftrightarrow>
     (\<forall>a. node_at p = Some a \<longrightarrow> t < participants s \<and> hp1 s t = Some a \<and> next_of s a \<noteq> None)
     \<and> (\<forall>a b. link_at p = Some (a, b) \<longrightarrow> next_of s a = Some (Some b))
     \<and> (\<forall>a. enq_at p = Some a \<longrightarrow> next_of s a = Some None \<longrightarrow> lq_tail (sys_q s) = Some a)
     \<and> (\<forall>a. retire_at p = Some a \<longrightarrow> a \<notin> set as \<and> a \<notin> set (retired_at s))"

definition one_retirer :: "'a lscq_sys \<Rightarrow> bool" where
  "one_retirer s \<longleftrightarrow>
     (\<forall>t u a. retire_at (sys_pc s t) = Some a \<longrightarrow> retire_at (sys_pc s u) = Some a \<longrightarrow> t = u)"

definition lscq_safe :: "nat list \<Rightarrow> 'a lscq_sys \<Rightarrow> bool" where
  "lscq_safe as s \<longleftrightarrow> chain_ok as s \<and> tail_ok as s \<and> (\<forall>t. thread_ok as s t (sys_pc s t))
     \<and> one_retirer s \<and> \<not> bad_access s"

lemma one_retirer_update:
  "one_retirer s \<Longrightarrow> retire_at p = None \<Longrightarrow> sys_pc s' = (sys_pc s)(t := p) \<Longrightarrow> one_retirer s'"
  unfolding one_retirer_def by (metis fun_upd_apply option.distinct(1))

lemma safe_thread: "lscq_safe as s \<Longrightarrow> sys_pc s t = p \<Longrightarrow> thread_ok as s t p"
  by (auto simp: lscq_safe_def)

lemma safe_node: "lscq_safe as s \<Longrightarrow> node_at (sys_pc s t) = Some a \<Longrightarrow> \<exists>n. nodes (sys_q s) a = Some n"
  by (auto simp: lscq_safe_def thread_ok_def next_of_def)

text \<open>Updates that leave the links alone.\<close>

lemma next_of_frame [simp]:
  "next_of (on_q (put_value a v) s) = next_of s" "next_of (at_pc t p s) = next_of s"
  "next_of (log_event e s) = next_of s"
  "next_of (on_q (cas_lq_tail x y) s) = next_of s"
  "next_of (on_q (\<lambda>q. q\<lparr>lq_head := h\<rparr>) s) = next_of s"
  "next_of (s\<lparr>hp1 := h1\<rparr>) = next_of s" "next_of (s\<lparr>hp2 := h2, dangling := d\<rparr>) = next_of s"
  "next_of (s\<lparr>hp1 := h1, hp2 := h2\<rparr>) = next_of s"
  "next_of (s\<lparr>retired_at := r, bad_access := b\<rparr>) = next_of s"
  by (auto simp: next_of_def fun_eq_iff on_q_def at_pc_def log_event_def cas_lq_tail_def option.map_comp comp_def
      map_option_case split: option.splits)

lemma view_frame [simp]:
  "sys_pc (at_pc t p s) = (sys_pc s)(t := p)" "sys_pc (on_q f s) = sys_pc s" "sys_pc (log_event e s) = sys_pc s"
  "sys_q (at_pc t p s) = sys_q s" "sys_q (log_event e s) = sys_q s" "sys_q (on_q f s) = f (sys_q s)"
  "hp1 (at_pc t p s) = hp1 s" "hp1 (on_q f s) = hp1 s" "hp1 (log_event e s) = hp1 s"
  "retired_at (at_pc t p s) = retired_at s" "retired_at (on_q f s) = retired_at s"
  "retired_at (log_event e s) = retired_at s"
  "participants (at_pc t p s) = participants s" "participants (on_q f s) = participants s"
  "participants (log_event e s) = participants s"
  "bad_access (at_pc t p s) = bad_access s" "bad_access (on_q f s) = bad_access s"
  "bad_access (log_event e s) = bad_access s"
  by (simp_all add: at_pc_def on_q_def log_event_def)

text \<open>A step of one thread that keeps the links, both ends, the retired nodes and the hazard pointers.\<close>

lemma safe_local:
  assumes safe: "lscq_safe as s" and pc: "sys_pc s' = (sys_pc s)(t := p)"
    and view: "next_of s' = next_of s" "lq_head (sys_q s') = lq_head (sys_q s)"
      "lq_tail (sys_q s') = lq_tail (sys_q s)" "retired_at s' = retired_at s"
      "participants s' = participants s" "hp1 s' = hp1 s" "bad_access s' = bad_access s"
    and p: "thread_ok as s t p" "retire_at p = None" "\<And>x a b. sys_pc s t \<noteq> EqTail x a b"
  shows "lscq_safe as s'"
proof -
  have "chain_ok as s'"
    using safe view by (simp add: lscq_safe_def chain_ok_def)
  moreover have "tail_ok as s'"
    using safe view p(3) unfolding lscq_safe_def tail_ok_def pc by (metis fun_upd_apply)
  moreover have "thread_ok as s' u (sys_pc s' u)" for u
    using safe view p(1) pc by (auto simp: lscq_safe_def thread_ok_def)
  moreover have "\<not> bad_access s'"
    using safe view by (simp add: lscq_safe_def)
  moreover have "one_retirer s'"
    using safe p(2) pc one_retirer_update unfolding lscq_safe_def by blast
  ultimately show ?thesis
    by (simp add: lscq_safe_def)
qed

lemma safe_updates:
  assumes "lscq_safe as s" "thread_ok as s t p" "retire_at p = None" "\<And>x a b. sys_pc s t \<noteq> EqTail x a b"
  shows "lscq_safe as (at_pc t p s)" "lscq_safe as (at_pc t p (on_q (put_value a v) s))"
    "lscq_safe as (log_event e (at_pc t p s))" "lscq_safe as (log_event e (at_pc t p (on_q (put_value a v) s)))"
  by (rule safe_local [OF assms(1) _ _ _ _ _ _ _ _ assms(2-4)]; simp)+

lemma thread_ok_idle: "node_at p = None \<Longrightarrow> link_at p = None \<Longrightarrow> enq_at p = None \<Longrightarrow> retire_at p = None
    \<Longrightarrow> thread_ok as s t p"
  by (simp add: thread_ok_def)

text \<open>The next program counter works on the same node, or on none.\<close>

lemma thread_ok_same:
  assumes "thread_ok as s t p" "node_at p = Some a" "node_at p' = Some a"
    and "\<And>c b. link_at p' = Some (c, b) \<Longrightarrow> next_of s c = Some (Some b)"
    and "enq_at p' \<noteq> None \<Longrightarrow> enq_at p = Some a \<and> enq_at p' = Some a" "retire_at p' = None"
  shows "thread_ok as s t p'"
  using assms by (auto simp: thread_ok_def)

lemma proceed_cases:
  assumes "proceed t s m f = Some s'"
  obtains b where "m = ret b" "s' = f b" | "s' = at_pc t Crashed s"
  using assms by (auto simp: proceed_def split: option.splits exec.splits)

lemma with_node_cases:
  assumes "with_node a s f = Some s'" "lscq_safe as s" "node_at (sys_pc s t) = Some a"
  obtains n where "nodes (sys_q s) a = Some n" "f n = Some s'"
  using assms safe_node [OF assms(2,3)] by (auto simp: with_node_def)

section \<open>Steps that keep the links\<close>

text \<open>Every step of this kind goes to \<open>p'\<close> in one of the shapes of \<open>safe_updates\<close>.\<close>

lemma safe_move:
  assumes safe: "lscq_safe as s" and pc: "sys_pc s t = p" "node_at p = Some a" "\<And>x a b. p \<noteq> EqTail x a b"
    and p': "p' \<in> {LIdle, Crashed} \<or> (\<exists>x. p' = EqLoad x) \<or> node_at p' = Some a \<and> retire_at p' = None
      \<and> (link_at p' = None \<or> link_at p' = link_at p)
      \<and> (enq_at p' = None \<or> enq_at p = Some a \<and> enq_at p' = Some a)"
  shows "lscq_safe as (at_pc t p' s)" "lscq_safe as (at_pc t p' (on_q (put_value a' v) s))"
    "lscq_safe as (log_event e (at_pc t p' s))"
    "lscq_safe as (log_event e (at_pc t p' (on_q (put_value a' v) s)))"
proof -
  have ok: "thread_ok as s t p"
    using safe_thread [OF safe pc(1)] .
  have "thread_ok as s t p'"
    using p'
  proof (elim disjE)
    assume "node_at p' = Some a \<and> retire_at p' = None \<and> (link_at p' = None \<or> link_at p' = link_at p)
      \<and> (enq_at p' = None \<or> enq_at p = Some a \<and> enq_at p' = Some a)"
    then show ?thesis
      using ok pc(2) by (auto simp: thread_ok_def)
  qed (auto intro: thread_ok_idle)
  moreover have "retire_at p' = None" "\<And>x a b. sys_pc s t \<noteq> EqTail x a b"
    using p' pc by auto
  ultimately show "lscq_safe as (at_pc t p' s)" "lscq_safe as (at_pc t p' (on_q (put_value a' v) s))"
    "lscq_safe as (log_event e (at_pc t p' s))"
    "lscq_safe as (log_event e (at_pc t p' (on_q (put_value a' v) s)))"
    using safe_updates [OF safe] by blast+
qed

lemmas step_defs = enq_used_def enq_full_def enq_free_def enq_write_def enq_alloc_def enq_seal_def
  enq_undo_used_def enq_undo_read_def enq_undo_free_def deq_try_def deq_threshold_def deq_used_def
  deq_read_def deq_free_def Let_def

lemmas thread_step_defs = thread_step_def step_defs with_node_def proceed_def enq_load_def enq_next_def
  enq_grow_def enq_tail_def deq_load_def deq_next_def deq_advance_def deq_retire_def

lemmas step_splits = option.splits exec.splits if_splits sum.splits prod.splits

lemma safe_enq_inner:
  assumes "lscq_safe as s"
  shows "sys_pc s t = EqUsed x a \<Longrightarrow> enq_used t x a s = Some s' \<Longrightarrow> lscq_safe as s'"
    and "sys_pc s t = EqFull x a \<Longrightarrow> enq_full t x a s = Some s' \<Longrightarrow> lscq_safe as s'"
    and "sys_pc s t = EqFree x a sz \<Longrightarrow> enq_free t x a sz s = Some s' \<Longrightarrow> lscq_safe as s'"
    and "sys_pc s t = EqWrite x a sz pos \<Longrightarrow> enq_write t x a sz pos s = Some s' \<Longrightarrow> lscq_safe as s'"
    and "sys_pc s t = EqAlloc x a sz pos \<Longrightarrow> enq_alloc t x a sz pos s = Some s' \<Longrightarrow> lscq_safe as s'"
    and "sys_pc s t = EqSeal x a sz \<Longrightarrow> enq_seal t x a sz s = Some s' \<Longrightarrow> lscq_safe as s'"
    and "sys_pc s t = EqUndoUsed a pos \<Longrightarrow> enq_undo_used t a pos s = Some s' \<Longrightarrow> lscq_safe as s'"
    and "sys_pc s t = EqUndoRead a pos \<Longrightarrow> enq_undo_read t a pos s = Some s' \<Longrightarrow> lscq_safe as s'"
    and "sys_pc s t = EqUndoFree x a pos \<Longrightarrow> enq_undo_free t x a pos s = Some s' \<Longrightarrow> lscq_safe as s'"
  using safe_node [OF assms, of t a]
  by (auto simp: step_defs with_node_def proceed_def intro!: safe_move [OF assms, of t]
      split: option.splits exec.splits if_splits sum.splits prod.splits)

lemma safe_deq_inner:
  assumes "lscq_safe as s"
  shows "sys_pc s t = DqTry a \<Longrightarrow> deq_try t a (DqNext a) s = Some s' \<Longrightarrow> lscq_safe as s'"
    and "sys_pc s t = DqThreshold a nx \<Longrightarrow> deq_threshold t a nx s = Some s' \<Longrightarrow> lscq_safe as s'"
    and "sys_pc s t = DqRetry a nx \<Longrightarrow> deq_try t a (DqAdvance a nx) s = Some s' \<Longrightarrow> lscq_safe as s'"
    and "sys_pc s t = DqUsed a pos \<Longrightarrow> deq_used t a pos s = Some s' \<Longrightarrow> lscq_safe as s'"
    and "sys_pc s t = DqRead a pos \<Longrightarrow> deq_read t a pos s = Some s' \<Longrightarrow> lscq_safe as s'"
    and "sys_pc s t = DqFree x a pos \<Longrightarrow> deq_free t x a pos s = Some s' \<Longrightarrow> lscq_safe as s'"
  using safe_node [OF assms, of t a]
  by (auto simp: step_defs with_node_def proceed_def intro!: safe_move [OF assms, of t]
      split: option.splits exec.splits if_splits sum.splits prod.splits)

section \<open>Steps that read a link or a pointer\<close>

lemma safe_tail_allocated:
  assumes "lscq_safe as s"
  shows "\<exists>a. lq_tail (sys_q s) = Some a \<and> next_of s a \<noteq> None"
proof -
  have ch: "as \<noteq> []" "links (next_of s) as None" and tl: "tail_ok as s"
    using assms by (auto simp: lscq_safe_def chain_ok_def)
  have "next_of s (last as) \<noteq> None"
    using ch links_allocated last_in_set by blast
  moreover have "next_of s p \<noteq> None" if "sys_pc s u = EqTail x p b" for p u x b
    using safe_thread [OF assms that] by (simp add: thread_ok_def)
  ultimately show ?thesis
    using tl by (auto simp: tail_ok_def)
qed

lemma safe_head_allocated:
  assumes "lscq_safe as s"
  shows "lq_head (sys_q s) = Some (hd as)" "next_of s (hd as) \<noteq> None" "hd as \<in> set as"
  using assms links_allocated hd_in_set by (auto simp: lscq_safe_def chain_ok_def)

text \<open>A load of the head or the tail: the thread's first hazard pointer changes.\<close>

lemma safe_protect:
  assumes safe: "lscq_safe as s" and pc: "node_at (sys_pc s t) = None" and t: "t < participants s"
    and a: "next_of s a \<noteq> None" and p: "node_at p = Some a" "link_at p = None" "retire_at p = None"
    and e: "enq_at p = None \<or> enq_at p = Some a \<and> lq_tail (sys_q s) = Some a"
  shows "lscq_safe as (at_pc t p (s\<lparr>hp1 := (hp1 s)(t := Some a)\<rparr>))"
proof -
  let ?s = "at_pc t p (s\<lparr>hp1 := (hp1 s)(t := Some a)\<rparr>)"
  have nt: "\<And>x b c. sys_pc s t \<noteq> EqTail x b c"
    using pc by auto
  have "chain_ok as ?s"
    using safe by (simp add: lscq_safe_def chain_ok_def)
  moreover have "tail_ok as ?s"
  proof -
    have keep: "sys_pc ?s u = EqTail x b c" if "sys_pc s u = EqTail x b c" for u x b c
      using that nt by (cases "u = t") auto
    have q: "sys_q ?s = sys_q s" by simp
    show ?thesis
      using safe keep unfolding lscq_safe_def tail_ok_def q by blast
  qed
  moreover have "thread_ok as ?s u (sys_pc ?s u)" for u
  proof (cases "u = t")
    case True
    with t a p e show ?thesis by (auto simp: thread_ok_def)
  next
    case False
    then show ?thesis
      using safe_thread [OF safe refl, of u] by (auto simp: thread_ok_def)
  qed
  moreover have "one_retirer ?s"
    using safe p(3) by (intro one_retirer_update [of s p ?s t]) (simp_all add: lscq_safe_def)
  moreover have "\<not> bad_access ?s"
    using safe by (simp add: lscq_safe_def)
  ultimately show ?thesis
    by (simp add: lscq_safe_def)
qed

lemma safe_enq_load:
  assumes "lscq_safe as s" "sys_pc s t = EqLoad x" "t < participants s" "enq_load t x s = Some s'"
  shows "lscq_safe as s'"
proof -
  obtain a where a: "lq_tail (sys_q s) = Some a" "next_of s a \<noteq> None"
    using safe_tail_allocated [OF assms(1)] by blast
  have "lscq_safe as (at_pc t (EqNext x a) (s\<lparr>hp1 := (hp1 s)(t := Some a)\<rparr>))"
    by (rule safe_protect [OF assms(1) _ assms(3) a(2)]) (simp_all add: assms(2) a(1))
  then show ?thesis
    using assms(4) a(1) by (simp add: enq_load_def)
qed

lemma safe_deq_load:
  assumes "lscq_safe as s" "sys_pc s t = DqLoad" "t < participants s" "deq_load t s = Some s'"
  shows "lscq_safe as s'"
proof -
  have "lscq_safe as (at_pc t (DqTry (hd as)) (s\<lparr>hp1 := (hp1 s)(t := Some (hd as))\<rparr>))"
    by (rule safe_protect [OF assms(1) _ assms(3) safe_head_allocated(2) [OF assms(1)]]) (simp_all add: assms(2))
  then show ?thesis
    using assms(4) safe_head_allocated(1) [OF assms(1)] by (simp add: deq_load_def)
qed

lemma safe_enq_next:
  assumes "lscq_safe as s" "sys_pc s t = EqNext x a" "enq_next t x a s = Some s'"
  shows "lscq_safe as s'"
proof -
  have ok: "thread_ok as s t (EqNext x a)"
    using safe_thread [OF assms(1,2)] .
  obtain n where n: "nodes (sys_q s) a = Some n"
    using safe_node [OF assms(1), of t a] assms(2) by auto
  have "thread_ok as s t (case next_ptr n of None \<Rightarrow> EqUsed x a | Some nx \<Rightarrow> EqSwing x a nx)"
    using ok n by (auto simp: thread_ok_def next_of_def split: option.split)
  then show ?thesis
    using assms n safe_updates(1) [OF assms(1)]
    by (auto simp: enq_next_def with_node_def split: option.splits)
qed

lemma safe_deq_next:
  assumes "lscq_safe as s" "sys_pc s t = DqNext a" "deq_next t a s = Some s'"
  shows "lscq_safe as s'"
proof -
  obtain n where n: "nodes (sys_q s) a = Some n"
    using safe_node [OF assms(1), of t a] assms(2) by auto
  show ?thesis
  proof (cases "next_ptr n")
    case None
    then show ?thesis
      using assms n safe_move(3) [OF assms(1,2)] by (auto simp: deq_next_def with_node_def)
  next
    case (Some nx)
    have "thread_ok as s t (DqThreshold a nx)"
      using safe_thread [OF assms(1,2)] n Some by (auto simp: thread_ok_def next_of_def)
    then have "lscq_safe as (at_pc t (DqThreshold a nx)
        (s\<lparr>hp2 := (hp2 s)(t := Some nx), dangling := dangling s \<or> nodes (sys_q s) nx = None\<rparr>))"
      by (intro safe_local [OF assms(1), where t = t and p = "DqThreshold a nx"]) (simp_all add: assms(2))
    then show ?thesis
      using assms(3) n Some by (simp add: deq_next_def with_node_def)
  qed
qed

section \<open>Steps that change the list\<close>

lemma safe_parts:
  assumes "lscq_safe as s"
  shows "as \<noteq> []" "distinct as" "links (next_of s) as None" "lq_head (sys_q s) = Some (hd as)"
    "set as \<inter> set (retired_at s) = {}" "\<forall>a\<in>set (retired_at s). next_of s a \<noteq> None"
    "tail_ok as s" "\<And>t. thread_ok as s t (sys_pc s t)" "one_retirer s" "\<not> bad_access s"
  using assms unfolding lscq_safe_def chain_ok_def by blast+

lemma links_last: "as \<noteq> [] \<Longrightarrow> links N as p \<Longrightarrow> N (last as) = Some p"
  by (induction as) auto

text \<open>A node that is the tail and has a successor is the last but one.\<close>

lemma safe_tail_link:
  assumes "lscq_safe as s" "lq_tail (sys_q s) = Some a" "next_of s a = Some (Some nx)"
  shows "nx = last as"
proof -
  note parts = safe_parts [OF assms(1)]
  have "a \<noteq> last as"
    using links_last [OF parts(1,3)] assms(3) by auto
  then obtain u x where u: "sys_pc s u = EqTail x a (last as)"
    using parts(7) assms(2) by (auto simp: tail_ok_def)
  then show ?thesis
    using parts(8) [of u] assms(3) by (auto simp: thread_ok_def)
qed

text \<open>A node that is the tail and has no successor is the last.\<close>

lemma safe_tail_last:
  assumes "lscq_safe as s" "lq_tail (sys_q s) = Some a" "next_of s a = Some None"
  shows "a = last as"
proof (rule ccontr)
  note parts = safe_parts [OF assms(1)]
  assume "a \<noteq> last as"
  then obtain u x where u: "sys_pc s u = EqTail x a (last as)"
    using parts(7) assms(2) by (auto simp: tail_ok_def)
  then show False
    using parts(8) [of u] assms(3) by (auto simp: thread_ok_def)
qed

lemma safe_cas_tail:
  assumes safe: "lscq_safe as s" and l: "link_at (sys_pc s t) = Some (a, nx)"
    and p: "node_at p = None" "link_at p = None" "enq_at p = None" "retire_at p = None"
  shows "lscq_safe as (at_pc t p (on_q (cas_lq_tail (Some a) (Some nx)) s))" (is "lscq_safe as ?s")
proof -
  note parts = safe_parts [OF safe]
  have nx: "next_of s a = Some (Some nx)"
    using parts(8) [of t] l by (simp add: thread_ok_def)
  have "chain_ok as ?s"
    using parts by (simp add: chain_ok_def cas_lq_tail_def)
  moreover have "tail_ok as ?s"
  proof (cases "lq_tail (sys_q s) = Some a")
    case True
    then show ?thesis
      using safe_tail_link [OF safe _ nx] by (simp add: tail_ok_def cas_lq_tail_def)
  next
    case False
    have other: "u \<noteq> t" if "sys_pc s u = EqTail x b c" "lq_tail (sys_q s) = Some b" for u x b c
      using that l False by auto
    have q: "lq_tail (sys_q ?s) = lq_tail (sys_q s)"
      using False by (simp add: cas_lq_tail_def)
    show ?thesis
      using parts(7) other unfolding tail_ok_def q by (metis fun_upd_other view_frame(1,2))
  qed
  moreover have "thread_ok as ?s u (sys_pc ?s u)" for u
  proof (cases "u = t")
    case True
    then show ?thesis using thread_ok_idle [OF p] by simp
  next
    case False
    have "lq_tail (sys_q ?s) = Some c" if "lq_tail (sys_q s) = Some c" "next_of s c = Some None" for c
      using that nx by (auto simp: cas_lq_tail_def)
    then show ?thesis
      using parts(8) [of u] False by (auto simp: thread_ok_def)
  qed
  moreover have "one_retirer ?s"
    using parts(9) p(4) by (intro one_retirer_update [of s p ?s t]) simp_all
  moreover have "\<not> bad_access ?s"
    using parts(10) by simp
  ultimately show ?thesis
    by (simp add: lscq_safe_def)
qed

lemma safe_event [simp]: "lscq_safe as (log_event e s) = lscq_safe as s"
  by (simp add: lscq_safe_def chain_ok_def tail_ok_def thread_ok_def one_retirer_def)

lemma grown_node_next: "grown_node sz w x = ret m \<Longrightarrow> next_ptr m = None"
  by (auto simp: grown_node_def node_new_def bind_run_ret_iff elim!: bind_exec.elims split: sum.splits prod.splits)
     (metis (full_types) old.unit.exhaust sum.exhaust)

lemma safe_link_node:
  assumes safe: "lscq_safe as s" and pc: "sys_pc s t = EqGrow x a" and a: "next_of s a = Some None"
    and b: "nodes (sys_q s) b = None" and m: "next_ptr m = None"
  shows "lscq_safe (as @ [b]) (at_pc t (EqTail x a b)
           (on_q (\<lambda>q. put_next a (Some b) (q\<lparr>nodes := (nodes q)(b \<mapsto> m)\<rparr>)) s))"
    (is "lscq_safe _ ?s")
proof -
  note parts = safe_parts [OF safe]
  have nb: "next_of s b = None"
    using b by (simp add: next_of_def)
  have N0: "next_of (on_q (\<lambda>q. put_next a (Some b) (q\<lparr>nodes := (nodes q)(b \<mapsto> m)\<rparr>)) s)
      = (next_of s)(b := Some None, a := Some (Some b))"
    using a b m by (auto simp: next_of_def fun_eq_iff on_q_def)
  then have N: "next_of ?s = (next_of s)(b := Some None, a := Some (Some b))"
    by simp
  have ab: "a \<noteq> b" using a nb by auto
  have me: "t < participants s" "hp1 s t = Some a" "lq_tail (sys_q s) = Some a"
    using parts(8) [of t] pc a by (auto simp: thread_ok_def)
  have last: "last as = a"
    using safe_tail_last [OF safe me(3) a] by simp
  have fresh: "b \<notin> set as"
    using links_allocated [OF parts(3), of b] nb by blast
  obtain as' where as: "as = as' @ [a]"
    using parts(1) last by (metis append_butlast_last_id)
  have "chain_ok (as @ [b]) ?s"
  proof -
    have "links (next_of s) as' (Some a)"
      using parts(3) unfolding as links_append by simp
    then have "links (next_of ?s) as' (Some a)"
      using parts(2) fresh unfolding as N by (elim links_frame) auto
    then have "links (next_of ?s) (as @ [b]) None"
      using ab unfolding as N by (simp add: links_append)
    moreover have "b \<notin> set (retired_at s)"
      using parts(6) nb by auto
    ultimately show ?thesis
      using parts(1,2,4-6) fresh N by (auto simp: chain_ok_def)
  qed
  moreover have "tail_ok (as @ [b]) ?s"
    using me(3) by (auto simp: tail_ok_def)
  moreover have "thread_ok (as @ [b]) ?s u (sys_pc ?s u)" for u
  proof (cases "u = t")
    case True
    then show ?thesis
      using me ab by (auto simp: thread_ok_def N0)
  next
    case False
    then show ?thesis
      using parts(8) [of u] ab a nb
      by (auto simp: thread_ok_def N0 dest: enq_at_node retire_at_node)
  qed
  moreover have "one_retirer ?s"
    using parts(9) by (intro one_retirer_update [of s "EqTail x a b" ?s t]) simp_all
  moreover have "\<not> bad_access ?s"
    using parts(10) by simp
  ultimately show ?thesis
    by (simp add: lscq_safe_def)
qed

lemma safe_enq_grow:
  assumes "lscq_safe as s" "sys_pc s t = EqGrow x a" "nodes (sys_q s) b = None" "enq_grow t b x a s = Some s'"
  shows "\<exists>as'. lscq_safe as' s'"
proof -
  obtain n where n: "nodes (sys_q s) a = Some n"
    using safe_node [OF assms(1), of t a] assms(2) by auto
  have crash: "lscq_safe as (at_pc t Crashed s)" and again: "lscq_safe as (at_pc t (EqLoad y) s)" for y
    using assms(2) by (auto intro!: safe_move(1) [OF assms(1)])
  show ?thesis
  proof (cases "next_ptr n")
    case None
    then have a: "next_of s a = Some None"
      using n by (simp add: next_of_def)
    have "proceed t s (grown_node (internal_order (sys_q s)) (sched (sys_q s) b) x) (\<lambda>m.
        at_pc t (EqTail x a b) (on_q (\<lambda>q. put_next a (Some b) (q\<lparr>nodes := (nodes q)(b \<mapsto> m)\<rparr>)) s)) = Some s'"
      using assms(4) n None by (simp add: enq_grow_def with_node_def Let_def)
    then show ?thesis
    proof (cases rule: proceed_cases)
      case (1 m)
      then show ?thesis
        using safe_link_node [OF assms(1,2) a assms(3) grown_node_next] by blast
    qed (use crash in blast)
  next
    case (Some nx)
    then have "proceed t s (bind_run (grown_node (internal_order (sys_q s)) (sched (sys_q s) b) x) take_back)
        (\<lambda>x'. at_pc t (EqLoad x') s) = Some s'"
      using assms(4) n by (simp add: enq_grow_def with_node_def Let_def)
    then show ?thesis
      by (cases rule: proceed_cases) (use crash again in blast)+
  qed
qed

lemma safe_deq_advance:
  assumes safe: "lscq_safe as s" and pc: "sys_pc s t = DqAdvance a nx" and step: "deq_advance t a nx s = Some s'"
  shows "\<exists>as'. lscq_safe as' s'"
proof (cases "lq_head (sys_q s) = Some a")
  case False
  then have "s' = at_pc t DqLoad s" using step by (simp add: deq_advance_def)
  moreover have "lscq_safe as (at_pc t DqLoad s)"
    using pc by (intro safe_updates(1) [OF safe] thread_ok_idle) simp_all
  ultimately show ?thesis by blast
next
  case True
  then have s': "s' = at_pc t (DqRetire a) (on_q (\<lambda>q. q\<lparr>lq_head := Some nx\<rparr>) s)"
    using step by (simp add: deq_advance_def)
  note parts = safe_parts [OF safe]
  have me: "t < participants s" "hp1 s t = Some a" "next_of s a = Some (Some nx)"
    using parts(8) [of t] pc by (auto simp: thread_ok_def)
  obtain rest where as: "as = a # nx # rest"
    using parts(1,3,4) True me(3) by (cases as; cases "tl as") auto
  have N: "next_of s' = next_of s" by (simp add: s')
  have "chain_ok (nx # rest) s'"
    using parts(2,3,5,6) unfolding chain_ok_def N by (auto simp: as s')
  moreover have "tail_ok (nx # rest) s'"
  proof -
    have keep: "sys_pc s' u = EqTail x b c" if "sys_pc s u = EqTail x b c" for u x b c
      using that pc by (cases "u = t") (auto simp: s')
    have q: "lq_tail (sys_q s') = lq_tail (sys_q s)" "last (nx # rest) = last as"
      by (simp_all add: s' as)
    show ?thesis
      using parts(7) keep unfolding tail_ok_def q by blast
  qed
  moreover have "thread_ok (nx # rest) s' u (sys_pc s' u)" for u
  proof (cases "u = t")
    case True
    have "a \<notin> set (nx # rest)" "a \<notin> set (retired_at s)"
      using parts(2,5) by (auto simp: as)
    then show ?thesis
      using True me by (simp add: thread_ok_def N) (simp add: s')
  next
    case False
    then show ?thesis
      using parts(8) [of u] unfolding thread_ok_def N by (auto simp: as s')
  qed
  moreover have "one_retirer s'"
  proof -
    have "retire_at (sys_pc s u) \<noteq> Some a" for u
      using parts(8) [of u] by (auto simp: thread_ok_def as)
    moreover have "retire_at (sys_pc s' u) = Some c \<longleftrightarrow> (if u = t then c = a else retire_at (sys_pc s u) = Some c)"
      for u c
      by (auto simp: s')
    ultimately show ?thesis
      using parts(9) unfolding one_retirer_def by metis
  qed
  moreover have "\<not> bad_access s'"
    using parts(10) by (simp add: s')
  ultimately show ?thesis
    unfolding lscq_safe_def by blast
qed

lemma safe_deq_retire:
  assumes safe: "lscq_safe as s" and pc: "sys_pc s t = DqRetire a" and step: "deq_retire t a s = Some s'"
  shows "lscq_safe as s'"
proof -
  note parts = safe_parts [OF safe]
  have me: "a \<notin> set as" "a \<notin> set (retired_at s)" "next_of s a \<noteq> None"
    using parts(8) [of t] pc by (auto simp: thread_ok_def)
  have alloc: "nodes (sys_q s) a \<noteq> None"
    using me(3) by (simp add: next_of_def)
  have s': "s' = at_pc t DqLoad (s\<lparr>retired_at := a # retired_at s, bad_access := bad_access s\<rparr>)"
    using step me(2) alloc by (simp add: deq_retire_def)
  have N: "next_of s' = next_of s" by (simp add: s' next_of_def fun_eq_iff)
  have "chain_ok as s'"
    using parts me(1,3) unfolding chain_ok_def N by (auto simp: s')
  moreover have "tail_ok as s'"
  proof -
    have keep: "sys_pc s' u = EqTail x b c" if "sys_pc s u = EqTail x b c" for u x b c
      using that pc by (cases "u = t") (auto simp: s')
    have q: "lq_tail (sys_q s') = lq_tail (sys_q s)" by (simp add: s')
    show ?thesis
      using parts(7) keep unfolding tail_ok_def q by blast
  qed
  moreover have "thread_ok as s' u (sys_pc s' u)" for u
  proof (cases "u = t")
    case True
    then show ?thesis by (simp add: s' thread_ok_idle)
  next
    case False
    have "retire_at (sys_pc s t) = Some a" using pc by simp
    then have "retire_at (sys_pc s u) \<noteq> Some a"
      using parts(9) False unfolding one_retirer_def by blast
    then show ?thesis
      using parts(8) [of u] False unfolding thread_ok_def N by (auto simp: s')
  qed
  moreover have "one_retirer s'"
    using parts(9) by (intro one_retirer_update [of s DqLoad s' t]) (simp_all add: s')
  moreover have "\<not> bad_access s'"
    using parts(10) by (simp add: s')
  ultimately show ?thesis
    by (simp add: lscq_safe_def)
qed

text \<open>Reclaiming a retired node no hazard pointer holds.\<close>

lemma safe_reclaim:
  assumes safe: "lscq_safe as s" and step: "reclaim a s = Some s'"
  shows "lscq_safe as s'"
proof -
  note parts = safe_parts [OF safe]
  have a: "a \<in> set (retired_at s)" "unprotected a s"
    using step by (auto simp: reclaim_def split: if_splits)
  have "next_of s a \<noteq> None" using parts(6) a(1) by blast
  then obtain n where n: "nodes (sys_q s) a = Some n"
    by (auto simp: next_of_def)
  obtain d where d: "s' = on_q (\<lambda>q. q\<lparr>nodes := (nodes q)(a := None)\<rparr>)
      (s\<lparr>retired_at := removeAll a (retired_at s), reclaimed_values := d\<rparr>)"
    using step a n by (auto simp: reclaim_def with_node_def split: option.splits exec.splits)
  have N: "next_of s' = (next_of s)(a := None)"
    by (auto simp: d next_of_def on_q_def fun_eq_iff)
  have out: "a \<notin> set as" using parts(5) a(1) by blast
  have free: "hp1 s t \<noteq> Some a" if "t < participants s" for t
    using a(2) that by (auto simp: unprotected_def list_all_iff)
  have held: "c \<noteq> a" if "node_at (sys_pc s u) = Some c" for u c
    using parts(8) [of u] that free by (auto simp: thread_ok_def)
  have "links (next_of s') as None"
    using out by (intro links_frame [OF parts(3)]) (auto simp: N)
  then have "chain_ok as s'"
    using parts(1,2,4-6) unfolding chain_ok_def N by (auto simp: d on_q_def)
  moreover have "tail_ok as s'"
    using parts(7) by (simp add: tail_ok_def d on_q_def)
  moreover have "thread_ok as s' u (sys_pc s' u)" for u
  proof -
    have l: "c \<noteq> a" if "link_at (sys_pc s u) = Some (c, b)" for c b
      using that held [of u c] by (cases "sys_pc s u") auto
    show ?thesis
      using parts(8) [of u] held l unfolding thread_ok_def N
      by (auto simp: d on_q_def dest: enq_at_node)
  qed
  moreover have "one_retirer s'"
    using parts(9) by (simp add: one_retirer_def d on_q_def)
  moreover have "\<not> bad_access s'"
    using parts(10) by (simp add: d on_q_def)
  ultimately show ?thesis
    by (simp add: lscq_safe_def)
qed

section \<open>Every step\<close>

text \<open>Only the link of a node and the advance of the head change the list.\<close>

lemma safe_keeps:
  assumes safe: "lscq_safe as s" and t: "t < participants s" and step: "thread_step t b s = Some s'"
    and p: "\<And>x a. sys_pc s t \<noteq> EqGrow x a" "\<And>a nx. sys_pc s t \<noteq> DqAdvance a nx"
  shows "lscq_safe as s'"
proof (cases "sys_pc s t")
  case (EqSwing x a nx)
  then show ?thesis
    using step safe_cas_tail [OF safe, of t a nx "EqLoad x"] by (auto simp: thread_step_def)
next
  case (EqTail x a nx)
  then show ?thesis
    using step safe_cas_tail [OF safe, of t a nx LIdle] by (auto simp: thread_step_def enq_tail_def)
qed (use step t p in \<open>auto simp: thread_step_def dest: safe_enq_inner [OF safe] safe_deq_inner [OF safe]
        safe_enq_load [OF safe] safe_deq_load [OF safe] safe_enq_next [OF safe] safe_deq_next [OF safe] safe_deq_retire [OF safe]\<close>)

lemma safe_thread_step:
  assumes safe: "lscq_safe as s" and t: "t < participants s" and step: "thread_step t b s = Some s'"
  shows "\<exists>as'. lscq_safe as' s'"
proof (cases "sys_pc s t")
  case (EqGrow x a)
  then show ?thesis
    using step safe_enq_grow [OF safe] by (auto simp: thread_step_def split: if_splits)
next
  case (DqAdvance a nx)
  then show ?thesis
    using step safe_deq_advance [OF safe] by (auto simp: thread_step_def)
qed (use safe_keeps [OF safe t step] in auto)

lemma safe_call:
  assumes "lscq_safe as s" "is_idle t s" "node_at p = None" "link_at p = None" "enq_at p = None" "retire_at p = None"
  shows "lscq_safe as (at_pc t p s)"
  using assms by (intro safe_updates(1) thread_ok_idle) (auto simp: is_idle_def)

lemma safe_release:
  assumes "lscq_safe as s" "is_idle t s"
  shows "lscq_safe as (s\<lparr>hp1 := (hp1 s)(t := None), hp2 := (hp2 s)(t := None)\<rparr>)"
proof -
  have "sys_pc s t = LIdle"
    using assms(2) by (auto simp: is_idle_def split: lscq_pc.splits)
  then have "node_at (sys_pc s u) = Some a \<Longrightarrow> u \<noteq> t" for u a by auto
  then have "thread_ok as (s\<lparr>hp1 := (hp1 s)(t := None), hp2 := (hp2 s)(t := None)\<rparr>) u (sys_pc s u)" for u
    using safe_parts(8) [OF assms(1), of u] by (auto simp: thread_ok_def)
  then show ?thesis
    using safe_parts [OF assms(1)] by (simp add: lscq_safe_def chain_ok_def tail_ok_def one_retirer_def)
qed

lemma safe_step:
  assumes "lscq_safe as s" "lscq_step l s = Some s'"
  shows "\<exists>as'. lscq_safe as' s'"
proof (cases l)
  case (CallEnqueue t x)
  then show ?thesis
    using assms safe_call [OF assms(1), of t "EqLoad x"] by (auto split: if_splits)
next
  case (CallDequeue t)
  then show ?thesis
    using assms safe_call [OF assms(1), of t DqLoad] by (auto split: if_splits)
next
  case (RunStep t b)
  then show ?thesis
    using assms safe_thread_step [OF assms(1)] by (auto split: if_splits)
next
  case (Release t)
  then show ?thesis
    using assms safe_release [OF assms(1)] by (auto split: if_splits)
next
  case (Reclaim a)
  then show ?thesis
    using assms safe_reclaim [OF assms(1)] by auto
qed

lemma safe_start:
  assumes "lscq_new sz w = Ret q"
  shows "lscq_safe [0] (lscq_start m q)"
proof -
  obtain n where "node_new sz (w 0) = Ret n" "next_ptr n = None"
      "q = \<lparr>lq_head = Some 0, lq_tail = Some 0, internal_order = sz, nodes = [0 \<mapsto> n], fresh_addr = 1,
            retired = [], sched = w\<rparr>"
    using assms by (auto simp: lscq_new_def node_new_def elim!: bind_exec.elims)
  then show ?thesis
    by (auto simp: lscq_safe_def lscq_start_def chain_ok_def tail_ok_def thread_ok_def one_retirer_def next_of_def)
qed

lemma lscq_reachable_safe:
  assumes "lscq_new sz w = Ret q" "lscq_reachable m q s"
  shows "\<exists>as. lscq_safe as s"
  using assms(2)
  by (induction rule: lscq_reachable.induct) (use safe_start [OF assms(1)] safe_step in blast)+

end
