(* ===== verification/LscqCompact.thy ===== *)
theory LscqCompact
  imports LscqSafe
begin

text \<open>
  Evaluating schedules. A state of \<open>LscqConc\<close> keeps its maps as functions, which grow with every update.
  As long as a schedule stays within a finite list \<open>ks\<close> of threads and addresses, \<open>compact ks\<close> rebuilds
  the maps from their values on \<open>ks\<close> without changing the state, so that a schedule can be evaluated
  with one entry per address; \<open>run_compact\<close> does so after every step and gives what \<open>lscq_run\<close> gives.
\<close>

fun tab :: "(nat \<Rightarrow> 'b) \<Rightarrow> 'b \<Rightarrow> nat list \<Rightarrow> nat \<Rightarrow> 'b" where
  "tab f d [] = (\<lambda>_. d)"
| "tab f d (k # ks) = (tab f d ks)(k := f k)"

lemma tab_eq: "tab f d ks a = (if a \<in> set ks then f a else d)"
  by (induction ks) auto

definition compact :: "nat list \<Rightarrow> 'a lscq_sys \<Rightarrow> 'a lscq_sys" where
  "compact ks s = s\<lparr>sys_q := (sys_q s)\<lparr>nodes := tab (nodes (sys_q s)) None ks\<rparr>,
     sys_pc := tab (sys_pc s) LIdle ks, hp1 := tab (hp1 s) None ks, hp2 := tab (hp2 s) None ks\<rparr>"

definition within :: "nat list \<Rightarrow> 'a lscq_sys \<Rightarrow> bool" where
  "within ks s \<longleftrightarrow> (\<forall>a. a \<notin> set ks \<longrightarrow>
     nodes (sys_q s) a = None \<and> sys_pc s a = LIdle \<and> hp1 s a = None \<and> hp2 s a = None)"

fun label_in :: "nat list \<Rightarrow> 'a lscq_label \<Rightarrow> bool" where
  "label_in ks (CallEnqueue t x) = (t \<in> set ks)"
| "label_in ks (CallDequeue t) = (t \<in> set ks)"
| "label_in ks (RunStep t b) = (t \<in> set ks \<and> b \<in> set ks)"
| "label_in ks (Release t) = (t \<in> set ks)"
| "label_in ks (Reclaim a) = True"

lemma compact_id:
  assumes "within ks s"
  shows "compact ks s = s"
proof -
  have "tab (nodes (sys_q s)) None ks = nodes (sys_q s)" "tab (sys_pc s) LIdle ks = sys_pc s"
    "tab (hp1 s) None ks = hp1 s" "tab (hp2 s) None ks = hp2 s"
    using assms by (auto simp: within_def tab_eq fun_eq_iff)
  then show ?thesis by (simp add: compact_def)
qed

lemma within_updates:
  "within ks s \<Longrightarrow> t \<in> set ks \<Longrightarrow> within ks (at_pc t p s)"
  "within ks s \<Longrightarrow> within ks (log_event e s)"
  "within ks s \<Longrightarrow> within ks (on_q (put_value a v) s)"
  "within ks s \<Longrightarrow> within ks (on_q (cas_lq_tail x y) s)"
  "within ks s \<Longrightarrow> within ks (on_q (\<lambda>q. q\<lparr>lq_head := h\<rparr>) s)"
  "within ks s \<Longrightarrow> b \<in> set ks \<Longrightarrow> within ks (on_q (\<lambda>q. put_next a (Some b) (q\<lparr>nodes := (nodes q)(b \<mapsto> m)\<rparr>)) s)"
  "within ks s \<Longrightarrow> t \<in> set ks \<Longrightarrow> within ks (s\<lparr>hp1 := (hp1 s)(t := h1)\<rparr>)"
  "within ks s \<Longrightarrow> t \<in> set ks \<Longrightarrow> within ks (s\<lparr>hp2 := (hp2 s)(t := h1), dangling := d\<rparr>)"
  "within ks s \<Longrightarrow> t \<in> set ks \<Longrightarrow> within ks (s\<lparr>hp1 := (hp1 s)(t := h1), hp2 := (hp2 s)(t := h2)\<rparr>)"
  "within ks s \<Longrightarrow> within ks (s\<lparr>retired_at := r, bad_access := f\<rparr>)"
  "within ks s \<Longrightarrow> within ks (s\<lparr>bad_access := f\<rparr>)"
  "within ks s \<Longrightarrow> within ks (s\<lparr>retired_at := r\<rparr>)"
  "within ks s \<Longrightarrow> within ks (s\<lparr>retired_at := r, reclaimed_values := vs\<rparr>)"
  "within ks s \<Longrightarrow> within ks (on_q (\<lambda>q. q\<lparr>nodes := (nodes q)(a := None)\<rparr>) s)"
  by (auto simp: within_def at_pc_def log_event_def on_q_def cas_lq_tail_def)

lemma step_within:
  assumes "within ks s" "label_in ks l" "lscq_step l s = Some s'"
  shows "within ks s'"
proof (cases l)
  case (RunStep t b)
  then have t: "t \<in> set ks" "b \<in> set ks" and st: "thread_step t b s = Some s'"
    using assms by (auto split: if_splits)
  note w = within_updates assms(1) t
  show ?thesis
    using st by (cases "sys_pc s t") (auto simp: thread_step_defs intro!: w split: step_splits)
next
  case (Reclaim a)
  then show ?thesis
    using assms by (auto simp: reclaim_def with_node_def intro!: within_updates split: step_splits)
qed (use assms in \<open>auto intro!: within_updates split: if_splits\<close>)

fun run_compact :: "nat list \<Rightarrow> 'a lscq_label list \<Rightarrow> 'a lscq_sys \<Rightarrow> 'a lscq_sys option" where
  "run_compact ks [] s = Some s"
| "run_compact ks (l # ls) s =
     (if label_in ks l
      then (case lscq_step l s of None \<Rightarrow> None | Some s' \<Rightarrow> run_compact ks ls (compact ks s'))
      else None)"

lemma run_compact_run:
  "within ks s \<Longrightarrow> run_compact ks ls s = Some s' \<Longrightarrow> lscq_run ls s = Some s'"
proof (induction ls arbitrary: s)
  case (Cons l ls)
  then obtain s1 where s1: "label_in ks l" "lscq_step l s = Some s1" "run_compact ks ls (compact ks s1) = Some s'"
    by (auto split: if_splits option.splits)
  note w = step_within [OF Cons.prems(1) s1(1,2)]
  then have "lscq_run ls s1 = Some s'"
    using Cons.IH s1(3) by (simp add: compact_id)
  then show ?case
    by (simp add: s1(2))
qed simp

lemma within_start:
  "lscq_new sz w = Ret q \<Longrightarrow> 0 \<in> set ks \<Longrightarrow> within ks (lscq_start m q)"
  by (auto simp: lscq_new_def within_def lscq_start_def elim!: bind_exec.elims intro: gr0I)

text \<open>An evaluated schedule gives an execution and a reachable state.\<close>

lemma run_compact_execution:
  assumes "case lscq_new sz w of
        Ret q \<Rightarrow> (case run_compact ks ls (compact ks (lscq_start m q)) of Some s \<Rightarrow> P s | None \<Rightarrow> False)
      | _ \<Rightarrow> False"
    and "0 \<in> set ks"
  shows "\<exists>q s. lscq_new sz w = Ret q \<and> lscq_run ls (lscq_start m q) = Some s \<and> P s"
proof -
  obtain q s where q: "lscq_new sz w = Ret q" and s: "run_compact ks ls (compact ks (lscq_start m q)) = Some s" "P s"
    using assms(1) by (auto split: exec.splits option.splits)
  note w = within_start [OF q assms(2), of m]
  have "lscq_run ls (lscq_start m q) = Some s"
    using s(1) run_compact_run [OF w] by (simp add: compact_id [OF w])
  then show ?thesis using q s(2) by blast
qed

lemma run_compact_witness:
  assumes "case lscq_new sz w of
        Ret q \<Rightarrow> (case run_compact ks ls (compact ks (lscq_start m q)) of Some s \<Rightarrow> P s | None \<Rightarrow> False)
      | _ \<Rightarrow> False"
    and "0 \<in> set ks"
  shows "\<exists>q s. lscq_new sz w = Ret q \<and> lscq_reachable m q s \<and> P s"
  using run_compact_execution [OF assms] lscq_run_reachable [OF lscq_reachable.start] by blast

end
