(* ===== verification/LscqSegment.thy ===== *)
theory LscqSegment
  imports UnboundedSpec
begin

text \<open>
  A bounded queue some threads are in the middle of operations on, an operation of a ring being one
  step: \<open>segment c k v E F u\<close> says that the queue \<open>v\<close> has \<open>2 ^ k\<close> places, that the threads hold the
  indices \<open>E\<close> of empty slots and \<open>F\<close> of initialised ones, and that its counter is \<open>u\<close> ahead of its
  allocation ring. The lemmas give the outcome of every access of \<open>enqueue_cycle\<close> and \<open>dequeue\<close>.
\<close>

section \<open>The values in the slots\<close>

definition slot_values :: "'a bounded_queue \<Rightarrow> 'a multiset" where
  "slot_values v = image_mset the (filter_mset (\<lambda>b. b \<noteq> None) (mset (backing v)))"

lemma slot_values_cong: "backing v' = backing v \<Longrightarrow> slot_values v' = slot_values v"
  by (simp add: slot_values_def)

lemma slot_values_write:
  assumes "j < length (backing v)" "backing v ! j = None"
  shows "slot_values (v\<lparr>backing := (backing v)[j := Some x]\<rparr>) = add_mset x (slot_values v)"
  using assms by (simp add: slot_values_def mset_update)

lemma slot_values_read:
  assumes "j < length (backing v)" "backing v ! j = Some x"
  shows "slot_values v = add_mset x (slot_values (v\<lparr>backing := (backing v)[j := None]\<rparr>))"
proof -
  have "Some x \<in># mset (backing v)" using assms by (metis nth_mem set_mset_mset)
  then have "mset (backing v) = add_mset (Some x) (mset (backing v) - {#Some x#})" by simp
  then have "slot_values v = image_mset the (filter_mset (\<lambda>b. b \<noteq> None) (add_mset (Some x) (mset (backing v) - {#Some x#})))"
    unfolding slot_values_def by (rule arg_cong)
  then show ?thesis using assms by (simp add: slot_values_def mset_update)
qed

section \<open>The invariant of a segment\<close>

definition seg_inv ::
  "nat \<Rightarrow> nat \<Rightarrow> 'a bounded_queue \<Rightarrow> usize list \<Rightarrow> usize list \<Rightarrow> usize multiset \<Rightarrow> usize multiset \<Rightarrow> nat \<Rightarrow> bool"
where
  "seg_inv c k v as fs E F u \<longleftrightarrow>
     ring_rep c (alloc_queue v) as \<and> ring_rep c (free_queue v) fs \<and> \<not> is_final (free_queue v)
     \<and> ring_half (alloc_queue v) = 2 ^ k \<and> ring_half (free_queue v) = 2 ^ k \<and> 2 ^ k \<le> length (backing v)
     \<and> mset as + mset fs + E + F = all_indices (2 ^ k)
     \<and> (\<forall>j<length (backing v). backing v ! j \<noteq> None \<longleftrightarrow> j \<in> unat ` (set as \<union> set_mset F))
     \<and> used v = of_nat (length as + u)"

definition segment ::
  "nat \<Rightarrow> nat \<Rightarrow> 'a bounded_queue \<Rightarrow> usize multiset \<Rightarrow> usize multiset \<Rightarrow> nat \<Rightarrow> bool"
where
  "segment c k v E F u \<longleftrightarrow> (\<exists>as fs. seg_inv c k v as fs E F u)"

lemma seg_parts:
  assumes "seg_inv c k v as fs E F u"
  shows "ring_rep c (alloc_queue v) as" "ring_rep c (free_queue v) fs" "\<not> is_final (free_queue v)"
    "ring_half (alloc_queue v) = 2 ^ k" "ring_half (free_queue v) = 2 ^ k" "2 ^ k \<le> length (backing v)"
    "mset as + mset fs + E + F = all_indices (2 ^ k)"
    "\<forall>j<length (backing v). backing v ! j \<noteq> None \<longleftrightarrow> j \<in> unat ` (set as \<union> set_mset F)"
    "used v = of_nat (length as + u)"
  using assms unfolding seg_inv_def by blast+

lemma segment_clock: "segment c k v E F u \<Longrightarrow> c \<le> c' \<Longrightarrow> c' < 2 ^ 62 \<Longrightarrow> segment c' k v E F u"
  unfolding segment_def seg_inv_def by (meson scq.rep_clock)

lemma segment_k:
  assumes "segment c k v E F u"
  shows "(2 :: nat) ^ k \<le> 2 ^ 60"
  using assms ring_wf_half ring_rep_wf unfolding segment_def seg_inv_def by metis

lemma indices_length: "mset as + mset fs + E + F = all_indices c \<Longrightarrow> length as + length fs + size E + size F = c"
  by (drule arg_cong [of _ _ size]) (simp add: all_indices_def)

text \<open>Every index is in one place, and in range.\<close>

lemma index_place:
  assumes "add_mset i M = all_indices c" "c \<le> 2 ^ 60"
  shows "unat i < c" "i \<notin># M" "unat i \<notin> unat ` set_mset M"
proof -
  have "i \<in># all_indices c" unfolding assms(1) [symmetric] by simp
  then obtain j where "i = of_nat j" "j < c" by (auto simp: all_indices_def)
  then show "unat i < c" using unat_of_nat_small [of j] assms(2) by simp
  show "i \<notin># M" using all_indices_once [OF assms(2), of i] unfolding assms(1) [symmetric] by (simp add: not_in_iff)
  then show "unat i \<notin> unat ` set_mset M" by (auto simp flip: word_unat_eq_iff)
qed

section \<open>The accesses of a segment\<close>

text \<open>The free ring: an index is fetched, or given back.\<close>

lemma segment_fetch:
  assumes seg: "segment c k v E F u" and c: "Suc c < 2 ^ 62"
  shows "\<exists>popt fq. ring_dequeue (free_queue v) = ret (popt, fq) \<and> slot_values (v\<lparr>free_queue := fq\<rparr>) = slot_values v
    \<and> segment (Suc c) k (v\<lparr>free_queue := fq\<rparr>) (case popt of None \<Rightarrow> E | Some i \<Rightarrow> add_mset i E) F u"
proof -
  obtain as fs where inv: "seg_inv c k v as fs E F u" using seg by (auto simp: segment_def)
  note s = seg_parts [OF inv]
  obtain fq where fq: "ring_dequeue (free_queue v) = ret (case fs of [] \<Rightarrow> None | i # _ \<Rightarrow> Some i, fq)"
      "ring_rep (Suc c) fq (List.tl fs)" "same_shape (free_queue v) fq"
    using scq.deq_returns [OF s(2) c] by blast
  have "segment (Suc c) k (v\<lparr>free_queue := fq\<rparr>) (case fs of [] \<Rightarrow> E | i # _ \<Rightarrow> add_mset i E) F u"
    unfolding segment_def seg_inv_def
    by (rule exI [of _ as], rule exI [of _ "List.tl fs"])
      (use s fq(2) same_shape_facts [OF fq(3)] scq.rep_clock [OF s(1) _ c] in \<open>cases fs; simp\<close>)
  then show ?thesis using fq(1) by (cases fs) (auto simp: slot_values_def)
qed

lemma segment_give:
  assumes seg: "segment c k v (add_mset i E) F u" and c: "Suc c < 2 ^ 62"
  shows "\<exists>fq. ring_enqueue (free_queue v) i = ret (Inr (), fq) \<and> slot_values (v\<lparr>free_queue := fq\<rparr>) = slot_values v
    \<and> segment (Suc c) k (v\<lparr>free_queue := fq\<rparr>) E F u"
proof -
  obtain as fs where inv: "seg_inv c k v as fs (add_mset i E) F u" using seg by (auto simp: segment_def)
  note s = seg_parts [OF inv]
  have "add_mset i (mset as + mset fs + E + F) = all_indices (2 ^ k)" using s(7) by simp
  note place = index_place [OF this segment_k [OF seg]]
  have "length fs < 2 * ring_half (free_queue v)" using indices_length [OF s(7)] s(5) by simp
  then obtain fq where fq: "ring_enqueue (free_queue v) i = ret (Inr (), fq)" "ring_rep (Suc c) fq (fs @ [i])"
      "same_shape (free_queue v) fq"
    using scq.enq_ok [OF s(2,3) _ _ c, of i] place(1) s(5) by auto
  have "segment (Suc c) k (v\<lparr>free_queue := fq\<rparr>) E F u"
    unfolding segment_def seg_inv_def
    by (rule exI [of _ as], rule exI [of _ "fs @ [i]"])
      (use s fq(2) same_shape_facts [OF fq(3)] scq.rep_clock [OF s(1) _ c] in simp)
  then show ?thesis using fq(1) by (auto simp: slot_values_def)
qed

text \<open>The slots: the value of an enqueue is written, that of a dequeue is moved out.\<close>

lemma segment_write:
  assumes seg: "segment c k v (add_mset i E) F u"
  shows "\<exists>v'. write_slot i x v = ret v' \<and> segment c k v' E (add_mset i F) u
    \<and> slot_values v' = add_mset x (slot_values v)"
proof -
  obtain as fs where inv: "seg_inv c k v as fs (add_mset i E) F u" using seg by (auto simp: segment_def)
  note s = seg_parts [OF inv]
  have "add_mset i (mset as + mset fs + E + F) = all_indices (2 ^ k)" using s(7) by simp
  note place = index_place [OF this segment_k [OF seg]]
  have i: "unat i < length (backing v)" using place(1) s(6) by simp
  then have "backing v ! unat i = None" using s(8) place(3) by auto
  note slot_values_write [OF i this, of x]
  moreover have "seg_inv c k (v\<lparr>backing := (backing v)[unat i := Some x]\<rparr>) as fs E (add_mset i F) u"
    using s i unfolding seg_inv_def by (auto simp: nth_list_update)
  ultimately show ?thesis using i by (auto simp: write_slot_def segment_def)
qed

lemma segment_read:
  assumes seg: "segment c k v E (add_mset i F) u"
  shows "\<exists>x v'. read_slot i v = ret (x, v') \<and> segment c k v' (add_mset i E) F u
    \<and> slot_values v = add_mset x (slot_values v')"
proof -
  obtain as fs where inv: "seg_inv c k v as fs E (add_mset i F) u" using seg by (auto simp: segment_def)
  note s = seg_parts [OF inv]
  have "add_mset i (mset as + mset fs + E + F) = all_indices (2 ^ k)" using s(7) by simp
  note place = index_place [OF this segment_k [OF seg]]
  have i: "unat i < length (backing v)" using place(1) s(6) by simp
  then obtain x where x: "backing v ! unat i = Some x" using s(8) by auto
  have "seg_inv c k (v\<lparr>backing := (backing v)[unat i := None]\<rparr>) as fs (add_mset i E) F u"
    using s i place(3) unfolding seg_inv_def by (auto simp: nth_list_update)
  then show ?thesis using i x slot_values_read [OF i x] by (auto simp: read_slot_def segment_def)
qed

text \<open>The allocation ring: an index is stored or refused, or taken.\<close>

lemma segment_store:
  assumes seg: "segment c k v E (add_mset i F) (Suc u)" and c: "c + 2 * 2 ^ k < 2 ^ 62"
  shows "\<exists>res aq. ring_enqueue (alloc_queue v) i = ret (res, aq) \<and> slot_values (v\<lparr>alloc_queue := aq\<rparr>) = slot_values v
    \<and> (case res of Inl _ \<Rightarrow> segment (c + 2 * 2 ^ k) k (v\<lparr>alloc_queue := aq\<rparr>) E (add_mset i F) (Suc u)
       | Inr _ \<Rightarrow> segment (c + 2 * 2 ^ k) k (v\<lparr>alloc_queue := aq\<rparr>) E F u)"
proof -
  obtain as fs where inv: "seg_inv c k v as fs E (add_mset i F) (Suc u)" using seg by (auto simp: segment_def)
  note s = seg_parts [OF inv]
  let ?c = "c + 2 * 2 ^ k"
  have "add_mset i (mset as + mset fs + E + F) = all_indices (2 ^ k)" using s(7) by simp
  note place = index_place [OF this segment_k [OF seg]]
  have "length as < 2 * ring_half (alloc_queue v)" "unat i < ring_half (alloc_queue v)"
    using indices_length [OF s(7)] s(4) place(1) by simp_all
  note bounds = this
  have free: "ring_rep ?c (free_queue v) fs" using scq.rep_clock [OF s(2) _ c] by simp
  show ?thesis
  proof (cases "is_final (alloc_queue v)")
    case True
    then obtain aq where aq: "ring_enqueue (alloc_queue v) i = ret (Inl scq_error.QueueFinalized, aq)"
        "ring_rep ?c aq as" "same_shape (alloc_queue v) aq"
      using scq.enq_final [OF s(1) _ bounds] s(4) c by auto
    have "seg_inv ?c k (v\<lparr>alloc_queue := aq\<rparr>) as fs E (add_mset i F) (Suc u)"
      using s aq(2) free same_shape_facts [OF aq(3)] unfolding seg_inv_def by simp
    then show ?thesis using aq(1) by (auto simp: segment_def slot_values_def)
  next
    case False
    have le: "Suc c \<le> ?c" using one_le_power [of "2 :: nat" k] by simp
    note c1 = le_less_trans [OF le c] le
    obtain aq where aq: "ring_enqueue (alloc_queue v) i = ret (Inr (), aq)" "ring_rep (Suc c) aq (as @ [i])"
        "same_shape (alloc_queue v) aq"
      using scq.enq_ok [OF s(1) False bounds c1(1)] by blast
    have "seg_inv ?c k (v\<lparr>alloc_queue := aq\<rparr>) (as @ [i]) fs E F u"
      using s scq.rep_clock [OF aq(2) c1(2) c] free same_shape_facts [OF aq(3)] unfolding seg_inv_def by simp
    then show ?thesis using aq(1) by (auto simp: segment_def slot_values_def)
  qed
qed

lemma segment_take:
  assumes seg: "segment c k v E F u" and c: "Suc c < 2 ^ 62"
  shows "\<exists>popt aq. ring_dequeue (alloc_queue v) = ret (popt, aq) \<and> slot_values (v\<lparr>alloc_queue := aq\<rparr>) = slot_values v
    \<and> (case popt of None \<Rightarrow> segment (Suc c) k (v\<lparr>alloc_queue := aq\<rparr>) E F u
       | Some i \<Rightarrow> segment (Suc c) k (v\<lparr>alloc_queue := aq\<rparr>) E (add_mset i F) (Suc u))"
proof -
  obtain as fs where inv: "seg_inv c k v as fs E F u" using seg by (auto simp: segment_def)
  note s = seg_parts [OF inv]
  obtain aq where aq: "ring_dequeue (alloc_queue v) = ret (case as of [] \<Rightarrow> None | i # _ \<Rightarrow> Some i, aq)"
      "ring_rep (Suc c) aq (List.tl as)" "same_shape (alloc_queue v) aq"
    using scq.deq_returns [OF s(1) c] by blast
  note facts = s aq(2) same_shape_facts [OF aq(3)] scq.rep_clock [OF s(2) _ c]
  show ?thesis
  proof (cases as)
    case Nil
    then have "seg_inv (Suc c) k (v\<lparr>alloc_queue := aq\<rparr>) [] fs E F u"
      using facts unfolding seg_inv_def by simp
    then show ?thesis using aq(1) Nil by (auto simp: segment_def slot_values_def)
  next
    case (Cons i as')
    then have "seg_inv (Suc c) k (v\<lparr>alloc_queue := aq\<rparr>) as' fs E (add_mset i F) (Suc u)"
      using facts unfolding seg_inv_def by simp
    then show ?thesis using aq(1) Cons by (auto simp: segment_def slot_values_def)
  qed
qed

text \<open>Finalizing it, and storing its threshold.\<close>

lemma segment_seal: "segment c k v E F u \<Longrightarrow> segment c k (v\<lparr>alloc_queue := finalize (alloc_queue v)\<rparr>) E F u"
  unfolding segment_def seg_inv_def using ring_rep_finalize by fastforce

lemma segment_threshold:
  assumes "segment c k v E F u"
  shows "segment c k (store_threshold (retry_threshold v) v) E F u"
proof -
  obtain as fs where inv: "seg_inv c k v as fs E F u" using assms by (auto simp: segment_def)
  note s = seg_parts [OF inv]
  have "0 \<le> sint (retry_threshold v)" by (rule retry_threshold_nonneg [OF ring_rep_wf [OF s(2)]])
  then have "seg_inv c k (store_threshold (retry_threshold v) v) as fs E F u"
    using s ring_rep_threshold [OF s(1)] unfolding seg_inv_def store_threshold_def by simp
  then show ?thesis by (auto simp: segment_def)
qed

text \<open>The counter.\<close>

lemma segment_count: "segment c k v E F u \<Longrightarrow> segment c k (v\<lparr>used := used v + 1\<rparr>) E F (Suc u)"
  and segment_uncount: "segment c k v E F (Suc u) \<Longrightarrow> segment c k (v\<lparr>used := used v - 1\<rparr>) E F u"
  unfolding segment_def seg_inv_def by fastforce+

section \<open>A segment at rest\<close>

lemma slot_values_list:
  assumes "distinct as" "\<forall>i\<in>set as. unat i < length (backing v)"
    and slots: "\<forall>j<length (backing v). backing v ! j \<noteq> None \<longleftrightarrow> j \<in> unat ` set as"
    and vals: "map (\<lambda>i. backing v ! unat i) as = map Some vs"
  shows "slot_values v = mset vs"
proof -
  let ?b = "backing v" and ?js = "filter (\<lambda>j. backing v ! j \<noteq> None) [0..<length (backing v)]"
  have "distinct (map unat as)"
    using assms(1) by (simp add: distinct_map inj_on_def flip: word_unat_eq_iff)
  moreover have "set (map unat as) = set ?js" using assms(2) slots by auto
  ultimately have js: "mset (map unat as) = mset ?js"
    by (intro iffD1 [OF set_eq_iff_mset_eq_distinct]) simp_all
  have "image_mset ((!) ?b) (mset ?js) = mset (map ((!) ?b) (map unat as))"
    unfolding js [symmetric] by (rule mset_map [symmetric])
  also have "\<dots> = mset (map Some vs)" using vals by (simp add: comp_def)
  finally have "image_mset ((!) ?b) (mset ?js) = mset (map Some vs)" .
  moreover have "filter (\<lambda>x. x \<noteq> None) ?b = map ((!) ?b) ?js"
    using filter_map [of "\<lambda>x. x \<noteq> None" "(!) ?b" "[0..<length ?b]"] by (simp only: map_nth comp_def)
  then have "filter_mset (\<lambda>x. x \<noteq> None) (mset ?b) = image_mset ((!) ?b) (mset ?js)"
    by (metis mset_filter mset_map)
  ultimately show ?thesis by (simp add: slot_values_def multiset.map_comp comp_def)
qed

lemma segment_node:
  assumes "node_rep c k v vs"
  shows "segment c k v {#} {#} 0" "slot_values v = mset vs"
proof -
  obtain as fs where inv: "bq_inv c v as fs vs" and cap: "bq_cap v = 2 ^ k"
    using assms by (auto simp: node_rep_def bq_rep_def)
  have places: "mset as + mset fs = all_indices (2 ^ k)" using bq_places [OF inv] cap by simp
  have vals: "map (\<lambda>i. backing v ! unat i) as = map Some vs" "distinct as" "unat (used v) = length as"
    and rest: "\<forall>j<length (backing v). j \<notin> unat ` set as \<longrightarrow> backing v ! j = None"
    using inv by (simp_all add: bq_inv_def)
  have in_range: "\<forall>i\<in>set as. unat i < length (backing v)" using bq_inv_index(2) [OF inv] by simp
  have full: "\<forall>i\<in>set as. backing v ! unat i \<noteq> None"
    using arg_cong [OF vals(1), of set] by auto
  then have slots: "\<forall>j<length (backing v). backing v ! j \<noteq> None \<longleftrightarrow> j \<in> unat ` set as"
    using rest by (metis imageE)
  have "used v = of_nat (length as)" using vals(3) by (metis of_nat_unat ucast_id)
  then have "seg_inv c k v as fs {#} {#} 0"
    using inv places slots cap unfolding seg_inv_def bq_inv_def bq_cap_def by simp
  then show "segment c k v {#} {#} 0" by (auto simp: segment_def)
  show "slot_values v = mset vs" by (rule slot_values_list [OF vals(2) in_range slots vals(1)])
qed

lemma segment_rest:
  assumes "segment c k v {#} {#} 0"
  shows "\<exists>vs. node_rep c k v vs \<and> mset vs = slot_values v"
proof -
  obtain as fs where inv: "seg_inv c k v as fs {#} {#} 0" using assms by (auto simp: segment_def)
  note s = seg_parts [OF inv] and k = segment_k [OF assms]
  have places: "mset (as @ fs) = all_indices (2 ^ k)" using s(7) by simp
  then have dist: "distinct (as @ fs)"
    using all_indices_distinct [OF k] unfolding all_indices_def by (metis mset_eq_imp_distinct_iff)
  have len: "length as + length fs = 2 ^ k" using indices_length [OF s(7)] by simp
  have in_range: "\<forall>i\<in>set as. unat i < length (backing v)"
    using scq.rep_bound [OF s(1)] s(4,6) by fastforce
  have slots: "\<forall>j<length (backing v). backing v ! j \<noteq> None \<longleftrightarrow> j \<in> unat ` set as" using s(8) by simp
  let ?vs = "map (\<lambda>i. the (backing v ! unat i)) as"
  have vals: "map (\<lambda>i. backing v ! unat i) as = map Some ?vs" using in_range slots by auto
  have "length as < 2 ^ 64" using len k by simp
  then have "unat (used v) = length as" using s(9) by (simp add: unat_of_nat_small)
  then have "bq_inv c v as fs ?vs"
    using s dist len slots vals unfolding bq_inv_def bq_cap_def by auto
  then have "node_rep c k v ?vs" using s(5) by (auto simp: node_rep_def bq_rep_def bq_cap_def)
  moreover have "slot_values v = mset ?vs"
    using dist by (intro slot_values_list [OF _ in_range slots vals]) simp
  ultimately show ?thesis by auto
qed

end
