(* ===== verification/LscqConserve.thy ===== *)
theory LscqConserve
  imports LscqSegment LscqSafe
begin

text \<open>
  What becomes of the values of the list of queues under every interleaving, an operation of an index
  ring being one step. Every node is a segment in the hands of the threads that work on it, so no
  thread panics, reads an empty slot or gets stuck; and every value given to \<open>enqueue\<close> is in one place: in
  the hands of a thread, in a slot of an allocated node, returned by a \<open>dequeue\<close>, or dropped with a node.
\<close>

section \<open>What the threads hold\<close>

text \<open>
  The index a thread holds whose slot is empty; the one whose slot is initialised; by how much it keeps the
  counter of its node ahead of the ring; the value it carries.
\<close>

fun empties :: "'a lscq_pc \<Rightarrow> usize multiset" where
  "empties (EqWrite x a sz pos) = {#pos#}"
| "empties (EqUndoFree x a pos) = {#pos#}"
| "empties (DqFree x a pos) = {#pos#}"
| "empties _ = {#}"

fun fulls :: "'a lscq_pc \<Rightarrow> usize multiset" where
  "fulls (EqAlloc x a sz pos) = {#pos#}"
| "fulls (EqUndoUsed a pos) = {#pos#}"
| "fulls (EqUndoRead a pos) = {#pos#}"
| "fulls (DqUsed a pos) = {#pos#}"
| "fulls (DqRead a pos) = {#pos#}"
| "fulls _ = {#}"

fun ahead :: "'a lscq_pc \<Rightarrow> nat" where
  "ahead (EqFull x a) = 1"
| "ahead (EqFree x a sz) = 1"
| "ahead (EqWrite x a sz pos) = 1"
| "ahead (EqAlloc x a sz pos) = 1"
| "ahead (EqUndoUsed a pos) = 1"
| "ahead (DqUsed a pos) = 1"
| "ahead _ = 0"

fun carried :: "'a lscq_pc \<Rightarrow> 'a multiset" where
  "carried (EqLoad x) = {#x#}"
| "carried (EqNext x a) = {#x#}"
| "carried (EqSwing x a nx) = {#x#}"
| "carried (EqUsed x a) = {#x#}"
| "carried (EqFull x a) = {#x#}"
| "carried (EqFree x a sz) = {#x#}"
| "carried (EqWrite x a sz pos) = {#x#}"
| "carried (EqUndoFree x a pos) = {#x#}"
| "carried (EqGrow x a) = {#x#}"
| "carried (DqFree x a pos) = {#x#}"
| "carried _ = {#}"

definition at_node :: "nat \<Rightarrow> ('a lscq_pc \<Rightarrow> 'b::zero) \<Rightarrow> 'a lscq_pc \<Rightarrow> 'b" where
  "at_node a f p = (if node_at p = Some a then f p else 0)"

definition among :: "('a lscq_pc \<Rightarrow> 'b::comm_monoid_add) \<Rightarrow> 'a lscq_sys \<Rightarrow> 'b" where
  "among f s = (\<Sum>t<participants s. f (sys_pc s t))"

definition others :: "('a lscq_pc \<Rightarrow> 'b::comm_monoid_add) \<Rightarrow> nat \<Rightarrow> 'a lscq_sys \<Rightarrow> 'b" where
  "others f t s = (\<Sum>u\<in>{..<participants s} - {t}. f (sys_pc s u))"

lemma among_split: "t < participants s \<Longrightarrow> among f s = f (sys_pc s t) + others f t s"
  unfolding among_def others_def by (intro sum.remove) auto

lemma others_moved:
  assumes "sys_pc s' = (sys_pc s)(t := p)" "participants s' = participants s"
  shows "others f t s' = others f t s"
  unfolding others_def assms by (intro sum.cong) auto

lemma among_moved:
  assumes "sys_pc s' = (sys_pc s)(t := p)" "participants s' = participants s" "t < participants s"
  shows "among f s' = f p + others f t s"
  using among_split [of t s' f] others_moved [OF assms(1,2), of f] assms by simp

lemma among_same:
  assumes "sys_pc s' = (sys_pc s)(t := p)" "participants s' = participants s" "t < participants s" "f p = f (sys_pc s t)"
  shows "among f s' = among f s"
  using among_moved [OF assms(1-3), of f] among_split [OF assms(3), of f] assms(4) by simp

lemma at_node_simps:
  "node_at p = Some a \<Longrightarrow> at_node a f p = f p" "node_at p = None \<Longrightarrow> at_node b f p = 0"
  "node_at p = Some a \<Longrightarrow> b \<noteq> a \<Longrightarrow> at_node b f p = 0"
  by (simp_all add: at_node_def)

section \<open>The invariant\<close>

fun dequeued :: "'a lscq_event list \<Rightarrow> 'a multiset" where
  "dequeued [] = {#}"
| "dequeued (DeqReturned t (Some x) # es) = add_mset x (dequeued es)"
| "dequeued (_ # es) = dequeued es"

lemma dequeued_append [simp]: "dequeued (es @ fs) = dequeued es + dequeued fs"
  by (induction es rule: dequeued.induct) auto

definition stored_values :: "'a lscq_sys \<Rightarrow> 'a multiset" where
  "stored_values s = (\<Sum>a\<in>dom (nodes (sys_q s)). slot_values (node_value (the (nodes (sys_q s) a))))"

definition node_ok :: "nat \<Rightarrow> nat \<Rightarrow> 'a lscq_sys \<Rightarrow> nat \<Rightarrow> 'a bounded_queue \<Rightarrow> bool" where
  "node_ok c k s a v \<longleftrightarrow>
     segment c k v (among (at_node a empties) s) (among (at_node a fulls) s) (among (at_node a ahead) s)"

definition lscq_values :: "nat \<Rightarrow> nat \<Rightarrow> 'a multiset \<Rightarrow> 'a lscq_sys \<Rightarrow> bool" where
  "lscq_values c k V s \<longleftrightarrow>
     k \<le> 60 \<and> 2 ^ k \<le> c \<and> internal_order (sys_q s) = 2 ^ k \<and> finite (dom (nodes (sys_q s)))
     \<and> (\<forall>t. sys_pc s t \<noteq> Crashed)
     \<and> (\<forall>a n. nodes (sys_q s) a = Some n \<longrightarrow> node_ok c k s a (node_value n))
     \<and> V = dequeued (history s) + mset (reclaimed_values s) + among carried s + stored_values s"

lemma values_parts:
  assumes "lscq_values c k V s"
  shows "k \<le> 60" "2 ^ k \<le> c" "internal_order (sys_q s) = 2 ^ k" "finite (dom (nodes (sys_q s)))"
    "sys_pc s t \<noteq> Crashed" "nodes (sys_q s) a = Some n \<Longrightarrow> node_ok c k s a (node_value n)"
    "V = dequeued (history s) + mset (reclaimed_values s) + among carried s + stored_values s"
  using assms unfolding lscq_values_def by blast+

lemma stored_update:
  assumes "finite (dom (nodes (sys_q s)))" "nodes (sys_q s) a = Some n" "nodes (sys_q s') = (nodes (sys_q s))(a \<mapsto> n')"
  shows "stored_values s' + slot_values (node_value n) = stored_values s + slot_values (node_value n')"
proof -
  let ?D = "dom (nodes (sys_q s))" and ?g = "\<lambda>s a. slot_values (node_value (the (nodes (sys_q s) a)))"
  have a: "a \<in> ?D" using assms(2) by blast
  have "dom (nodes (sys_q s')) = ?D" using assms by auto
  moreover have "(\<Sum>b\<in>?D - {a}. ?g s' b) = (\<Sum>b\<in>?D - {a}. ?g s b)"
    using assms(3) by (intro sum.cong) auto
  ultimately show ?thesis
    using sum.remove [OF assms(1) a, of "?g s"] sum.remove [OF assms(1) a, of "?g s'"] assms(2,3)
    by (simp add: stored_values_def)
qed

lemma node_ok_clock: "node_ok c k s a v \<Longrightarrow> c \<le> c' \<Longrightarrow> c' < 2 ^ 62 \<Longrightarrow> node_ok c' k s a v"
  unfolding node_ok_def by (rule segment_clock)

text \<open>A thread moves to \<open>p'\<close>, and the queue of its node changes with it.\<close>

lemma values_node:
  fixes s s' :: "'a lscq_sys"
  assumes inv: "lscq_values c k V s" and c': "c \<le> c'" "c' < 2 ^ 62" and t: "t < participants s"
    and node: "nodes (sys_q s) a = Some n" and p: "node_at (sys_pc s t) = Some a"
    and p': "node_at p' = Some a \<or> node_at p' = None" "p' \<noteq> Crashed"
    and seg: "segment c' k (node_value n') (at_node a empties p' + others (at_node a empties) t s)
        (at_node a fulls p' + others (at_node a fulls) t s) (at_node a ahead p' + others (at_node a ahead) t s)"
    and vals: "carried (sys_pc s t) + slot_values (node_value n) = carried p' + slot_values (node_value n') + dequeued es"
    and s': "sys_pc s' = (sys_pc s)(t := p')" "participants s' = participants s"
      "nodes (sys_q s') = (nodes (sys_q s))(a \<mapsto> n')" "internal_order (sys_q s') = internal_order (sys_q s)"
      "history s' = history s @ es" "reclaimed_values s' = reclaimed_values s"
  shows "lscq_values c' k V s'"
proof -
  note parts = values_parts [OF inv]
  have "node_ok c' k s' b (node_value m)" if m: "nodes (sys_q s') b = Some m" for b m
  proof (cases "b = a")
    case True
    then show ?thesis using seg m s'(3) by (simp add: node_ok_def among_moved [OF s'(1,2) t])
  next
    case False
    have same: "among (at_node b f) s' = among (at_node b f) s" for f :: "'a lscq_pc \<Rightarrow> 'c::comm_monoid_add"
      by (rule among_same [OF s'(1,2) t]) (use p p'(1) False in \<open>auto simp: at_node_def\<close>)
    show ?thesis
      using node_ok_clock [OF parts(6) c'] False m s'(3) unfolding node_ok_def same by simp
  qed
  moreover have "V = dequeued (history s') + mset (reclaimed_values s') + among carried s' + stored_values s'"
  proof -
    have "V + slot_values (node_value n') = dequeued (history s) + mset (reclaimed_values s) + others carried t s
        + carried (sys_pc s t) + (stored_values s + slot_values (node_value n'))"
      using parts(7) among_split [OF t, of carried] by (simp add: ac_simps)
    also have "\<dots> = dequeued (history s) + mset (reclaimed_values s) + others carried t s + stored_values s'
        + (carried (sys_pc s t) + slot_values (node_value n))"
      unfolding stored_update [OF parts(4) node s'(3), symmetric] by (simp only: ac_simps)
    also have "\<dots> = dequeued (history s') + mset (reclaimed_values s') + among carried s' + stored_values s'
        + slot_values (node_value n')"
      unfolding vals by (simp add: s'(5,6) among_moved [OF s'(1,2) t] ac_simps)
    finally show ?thesis by (rule add_right_imp_eq)
  qed
  ultimately show ?thesis
    using parts(1-5) c'(1) p'(2) s' unfolding lscq_values_def by (auto intro: le_trans)
qed

text \<open>A thread moves without holding an index before or after.\<close>

definition handless :: "'a lscq_pc \<Rightarrow> bool" where
  "handless p \<longleftrightarrow> empties p = {#} \<and> fulls p = {#} \<and> ahead p = 0"

lemma values_local:
  fixes s s' :: "'a lscq_sys"
  assumes inv: "lscq_values c k V s" and c': "c \<le> c'" "c' < 2 ^ 62" and t: "t < participants s"
    and p: "handless (sys_pc s t)" "handless p'" "p' \<noteq> Crashed"
    and vals: "V' + carried (sys_pc s t) = V + carried p'" "dequeued es = {#}"
    and s': "sys_pc s' = (sys_pc s)(t := p')" "participants s' = participants s" "nodes (sys_q s') = nodes (sys_q s)"
      "internal_order (sys_q s') = internal_order (sys_q s)" "history s' = history s @ es"
      "reclaimed_values s' = reclaimed_values s"
  shows "lscq_values c' k V' s'"
proof -
  note parts = values_parts [OF inv]
  have same: "among (at_node b empties) s' = among (at_node b empties) s"
    "among (at_node b fulls) s' = among (at_node b fulls) s"
    "among (at_node b ahead) s' = among (at_node b ahead) s" for b
    by (rule among_same [OF s'(1,2) t]; use p(1,2) in \<open>simp add: at_node_def handless_def\<close>)+
  have "V' + carried (sys_pc s t) = dequeued (history s') + mset (reclaimed_values s') + among carried s'
      + stored_values s' + carried (sys_pc s t)"
    unfolding vals(1) parts(7)
    by (simp add: among_split [OF t] among_moved [OF s'(1,2) t] s'(3,5,6) vals(2) stored_values_def ac_simps)
  then have "V' = dequeued (history s') + mset (reclaimed_values s') + among carried s' + stored_values s'"
    by (rule add_right_imp_eq)
  moreover have "node_ok c' k s' a (node_value n)" if "nodes (sys_q s') a = Some n" for a n
    using node_ok_clock [OF parts(6) c'] that s'(3) unfolding node_ok_def same by simp
  ultimately show ?thesis
    using parts(1-5) c'(1) p(3) s' unfolding lscq_values_def by (auto intro: le_trans)
qed

section \<open>The steps inside a node\<close>

text \<open>
  The step \<open>st\<close> of a thread goes on, and what it does keeps the invariant. \<open>node_effect\<close> is what it has to do:
  from the program counter \<open>p\<close> and the queue \<open>v\<close> to \<open>p'\<close> and \<open>v'\<close>, returning what \<open>es\<close> says.
\<close>

definition goes_on :: "nat \<Rightarrow> nat \<Rightarrow> 'a multiset \<Rightarrow> 'a lscq_sys option \<Rightarrow> bool" where
  "goes_on c k V st \<longleftrightarrow> (\<exists>s'. st = Some s' \<and> lscq_values c k V s')"

definition node_effect ::
  "nat \<Rightarrow> nat \<Rightarrow> nat \<Rightarrow> usize multiset \<Rightarrow> usize multiset \<Rightarrow> nat \<Rightarrow> 'a lscq_pc \<Rightarrow> 'a bounded_queue
     \<Rightarrow> 'a lscq_pc \<Rightarrow> 'a bounded_queue \<Rightarrow> 'a lscq_event list \<Rightarrow> bool"
where
  "node_effect c k a E F u p v p' v' es \<longleftrightarrow>
     (node_at p' = Some a \<or> p' = LIdle) \<and> p' \<noteq> Crashed
     \<and> carried p + slot_values v = carried p' + slot_values v' + dequeued es
     \<and> segment c k v' (at_node a empties p' + E) (at_node a fulls p' + F) (at_node a ahead p' + u)"

text \<open>The state after the step, with the events it logs.\<close>

definition after_step ::
  "nat \<Rightarrow> nat \<Rightarrow> 'a lscq_pc \<Rightarrow> 'a bounded_queue \<Rightarrow> 'a lscq_event list \<Rightarrow> 'a lscq_sys \<Rightarrow> 'a lscq_sys"
where
  "after_step t a p' v' es s = fold log_event es (at_pc t p' (on_q (put_value a v') s))"

lemma fold_log: "fold log_event es s = s\<lparr>history := history s @ es\<rparr>"
  by (induction es arbitrary: s) (simp_all add: log_event_def)

lemma put_same: "nodes (sys_q s) a = Some n \<Longrightarrow> on_q (put_value a (node_value n)) s = s"
  by (simp add: on_q_def put_value_def fun_upd_idem)

lemma node_step:
  fixes s :: "'a lscq_sys"
  assumes inv: "lscq_values c k V s" and c: "c + lscq_cost k < 2 ^ 62" and t: "t < participants s"
    and node: "nodes (sys_q s) a = Some n" and p: "sys_pc s t = p" "node_at p = Some a"
    and op: "\<And>E F u. segment c k (node_value n) (empties p + E) (fulls p + F) (ahead p + u) \<Longrightarrow>
      \<exists>p' v' es. st = Some (after_step t a p' v' es s)
        \<and> node_effect (c + lscq_cost k) k a E F u p (node_value n) p' v' es"
  shows "goes_on (c + lscq_cost k) k V st"
proof -
  have "segment c k (node_value n) (empties p + others (at_node a empties) t s)
      (fulls p + others (at_node a fulls) t s) (ahead p + others (at_node a ahead) t s)"
    using values_parts(6) [OF inv node] p by (simp add: node_ok_def among_split [OF t] at_node_simps(1))
  from op [OF this] obtain p' v' es where s': "st = Some (after_step t a p' v' es s)"
      and eff: "node_effect (c + lscq_cost k) k a (others (at_node a empties) t s) (others (at_node a fulls) t s)
        (others (at_node a ahead) t s) p (node_value n) p' v' es"
    by blast
  note eff = eff [unfolded node_effect_def]
  have "lscq_values (c + lscq_cost k) k V (after_step t a p' v' es s)"
    by (rule values_node [OF inv le_add1 c t node, where p' = p' and n' = "n\<lparr>node_value := v'\<rparr>" and es = es])
      (use eff p node in \<open>auto simp: after_step_def fold_log at_pc_def on_q_def\<close>)
  then show ?thesis using s' by (simp add: goes_on_def)
qed

lemma cost_bounds:
  assumes "c + lscq_cost k < 2 ^ 62"
  shows "Suc c \<le> c + lscq_cost k" "Suc c < 2 ^ 62" "c + 2 * 2 ^ k \<le> c + lscq_cost k" "c + 2 * 2 ^ k < 2 ^ 62"
  using assms by (auto simp: lscq_cost_def)

lemma values_enq_free:
  fixes s :: "'a lscq_sys"
  assumes inv: "lscq_values c k V s" and c: "c + lscq_cost k < 2 ^ 62" and t: "t < participants s"
    and node: "nodes (sys_q s) a = Some n" and p: "sys_pc s t = EqFree x a sz"
  shows "goes_on (c + lscq_cost k) k V (enq_free t x a sz s)"
proof (rule node_step [OF inv c t node p])
  fix E F u
  let ?v = "node_value n" and ?pc = "EqFree x a sz"
  assume "segment c k ?v (empties ?pc + E) (fulls ?pc + F) (ahead ?pc + u)"
  then have "segment c k ?v E F (Suc u)" by simp
  from segment_fetch [OF this cost_bounds(2) [OF c]] obtain popt fq where
      fetch: "ring_dequeue (free_queue ?v) = ret (popt, fq)" "slot_values (?v\<lparr>free_queue := fq\<rparr>) = slot_values ?v"
      "segment (Suc c) k (?v\<lparr>free_queue := fq\<rparr>) (case popt of None \<Rightarrow> E | Some i \<Rightarrow> add_mset i E) F (Suc u)"
    by blast
  let ?p' = "case popt of None \<Rightarrow> EqFull x a | Some pos \<Rightarrow> EqWrite x a sz pos"
  have "enq_free t x a sz s = Some (after_step t a ?p' (?v\<lparr>free_queue := fq\<rparr>) [] s)"
    using node fetch(1) by (simp add: enq_free_def with_node_def proceed_def after_step_def Let_def)
  moreover have "node_effect (c + lscq_cost k) k a E F u ?pc ?v ?p' (?v\<lparr>free_queue := fq\<rparr>) []"
    using segment_clock [OF fetch(3) cost_bounds(1) [OF c] c] fetch(2)
    by (cases popt) (simp_all add: node_effect_def at_node_def)
  ultimately show "\<exists>p' v' es. enq_free t x a sz s = Some (after_step t a p' v' es s)
      \<and> node_effect (c + lscq_cost k) k a E F u ?pc ?v p' v' es" by blast
qed simp

lemma values_enq_used:
  fixes s :: "'a lscq_sys"
  assumes inv: "lscq_values c k V s" and c: "c + lscq_cost k < 2 ^ 62" and t: "t < participants s"
    and node: "nodes (sys_q s) a = Some n" and p: "sys_pc s t = EqUsed x a"
  shows "goes_on (c + lscq_cost k) k V (enq_used t x a s)"
proof (rule node_step [OF inv c t node p])
  fix E F u
  let ?v = "node_value n" and ?pc = "EqUsed x a"
  assume seg: "segment c k ?v (empties ?pc + E) (fulls ?pc + F) (ahead ?pc + u)"
  let ?p' = "if used ?v \<ge> ring_capacity (free_queue ?v) then EqFull x a else EqFree x a (used ?v)"
  have "enq_used t x a s = Some (after_step t a ?p' (?v\<lparr>used := used ?v + 1\<rparr>) [] s)"
    using node by (simp add: enq_used_def with_node_def after_step_def Let_def)
  moreover have "node_effect (c + lscq_cost k) k a E F u ?pc ?v ?p' (?v\<lparr>used := used ?v + 1\<rparr>) []"
    using segment_clock [OF segment_count [OF seg] le_add1 c] by (simp add: node_effect_def at_node_def slot_values_def)
  ultimately show "\<exists>p' v' es. enq_used t x a s = Some (after_step t a p' v' es s)
      \<and> node_effect (c + lscq_cost k) k a E F u ?pc ?v p' v' es" by blast
qed simp

lemma values_enq_full:
  fixes s :: "'a lscq_sys"
  assumes inv: "lscq_values c k V s" and c: "c + lscq_cost k < 2 ^ 62" and t: "t < participants s"
    and node: "nodes (sys_q s) a = Some n" and p: "sys_pc s t = EqFull x a"
  shows "goes_on (c + lscq_cost k) k V (enq_full t x a s)"
proof (rule node_step [OF inv c t node p])
  fix E F u
  let ?v = "node_value n" and ?pc = "EqFull x a"
  assume seg: "segment c k ?v (empties ?pc + E) (fulls ?pc + F) (ahead ?pc + u)"
  have "segment c k ?v (empties (EqGrow x a) + E) (fulls (EqGrow x a) + F) (Suc u)" using seg by simp
  note seg' = segment_clock [OF segment_uncount [OF this] le_add1 c]
  have "enq_full t x a s = Some (after_step t a (EqGrow x a) (?v\<lparr>used := used ?v - 1\<rparr>) [] s)"
    using node by (simp add: enq_full_def with_node_def after_step_def Let_def)
  moreover have "node_effect (c + lscq_cost k) k a E F u ?pc ?v (EqGrow x a) (?v\<lparr>used := used ?v - 1\<rparr>) []"
    using seg' by (simp add: node_effect_def at_node_def slot_values_def)
  ultimately show "\<exists>p' v' es. enq_full t x a s = Some (after_step t a p' v' es s)
      \<and> node_effect (c + lscq_cost k) k a E F u ?pc ?v p' v' es" by blast
qed simp

lemma values_enq_undo_used:
  fixes s :: "'a lscq_sys"
  assumes inv: "lscq_values c k V s" and c: "c + lscq_cost k < 2 ^ 62" and t: "t < participants s"
    and node: "nodes (sys_q s) a = Some n" and p: "sys_pc s t = EqUndoUsed a pos"
  shows "goes_on (c + lscq_cost k) k V (enq_undo_used t a pos s)"
proof (rule node_step [OF inv c t node p])
  fix E F u
  let ?v = "node_value n" and ?pc = "EqUndoUsed a pos"
  assume seg: "segment c k ?v (empties ?pc + E) (fulls ?pc + F) (ahead ?pc + u)"
  have "segment c k ?v (empties (EqUndoRead a pos) + E) (fulls (EqUndoRead a pos) + F) (Suc u)" using seg by simp
  note seg' = segment_clock [OF segment_uncount [OF this] le_add1 c]
  have "enq_undo_used t a pos s = Some (after_step t a (EqUndoRead a pos) (?v\<lparr>used := used ?v - 1\<rparr>) [] s)"
    using node by (simp add: enq_undo_used_def with_node_def after_step_def Let_def)
  moreover have "node_effect (c + lscq_cost k) k a E F u ?pc ?v (EqUndoRead a pos) (?v\<lparr>used := used ?v - 1\<rparr>) []"
    using seg' by (simp add: node_effect_def at_node_def slot_values_def)
  ultimately show "\<exists>p' v' es. enq_undo_used t a pos s = Some (after_step t a p' v' es s)
      \<and> node_effect (c + lscq_cost k) k a E F u ?pc ?v p' v' es" by blast
qed simp

lemma values_deq_used:
  fixes s :: "'a lscq_sys"
  assumes inv: "lscq_values c k V s" and c: "c + lscq_cost k < 2 ^ 62" and t: "t < participants s"
    and node: "nodes (sys_q s) a = Some n" and p: "sys_pc s t = DqUsed a pos"
  shows "goes_on (c + lscq_cost k) k V (deq_used t a pos s)"
proof (rule node_step [OF inv c t node p])
  fix E F u
  let ?v = "node_value n" and ?pc = "DqUsed a pos"
  assume seg: "segment c k ?v (empties ?pc + E) (fulls ?pc + F) (ahead ?pc + u)"
  have "segment c k ?v (empties (DqRead a pos) + E) (fulls (DqRead a pos) + F) (Suc u)" using seg by simp
  note seg' = segment_clock [OF segment_uncount [OF this] le_add1 c]
  have "deq_used t a pos s = Some (after_step t a (DqRead a pos) (?v\<lparr>used := used ?v - 1\<rparr>) [] s)"
    using node by (simp add: deq_used_def with_node_def after_step_def Let_def)
  moreover have "node_effect (c + lscq_cost k) k a E F u ?pc ?v (DqRead a pos) (?v\<lparr>used := used ?v - 1\<rparr>) []"
    using seg' by (simp add: node_effect_def at_node_def slot_values_def)
  ultimately show "\<exists>p' v' es. deq_used t a pos s = Some (after_step t a p' v' es s)
      \<and> node_effect (c + lscq_cost k) k a E F u ?pc ?v p' v' es" by blast
qed simp

lemma values_enq_write:
  fixes s :: "'a lscq_sys"
  assumes inv: "lscq_values c k V s" and c: "c + lscq_cost k < 2 ^ 62" and t: "t < participants s"
    and node: "nodes (sys_q s) a = Some n" and p: "sys_pc s t = EqWrite x a sz pos"
  shows "goes_on (c + lscq_cost k) k V (enq_write t x a sz pos s)"
proof (rule node_step [OF inv c t node p])
  fix E F u
  let ?v = "node_value n" and ?pc = "EqWrite x a sz pos"
  assume seg: "segment c k ?v (empties ?pc + E) (fulls ?pc + F) (ahead ?pc + u)"
  have "segment c k ?v (add_mset pos E) F (Suc u)" using seg by simp
  from segment_write [OF this, of x] obtain v' where put: "write_slot pos x ?v = ret v'"
      "segment c k v' E (add_mset pos F) (Suc u)" "slot_values v' = add_mset x (slot_values ?v)"
    by blast
  have "enq_write t x a sz pos s = Some (after_step t a (EqAlloc x a sz pos) v' [] s)"
    using node put(1) by (simp add: enq_write_def with_node_def proceed_def after_step_def)
  moreover have "node_effect (c + lscq_cost k) k a E F u ?pc ?v (EqAlloc x a sz pos) v' []"
    using segment_clock [OF put(2) le_add1 c] put(3) by (simp add: node_effect_def at_node_def)
  ultimately show "\<exists>p' v' es. enq_write t x a sz pos s = Some (after_step t a p' v' es s)
      \<and> node_effect (c + lscq_cost k) k a E F u ?pc ?v p' v' es" by blast
qed simp

lemma values_enq_alloc:
  fixes s :: "'a lscq_sys"
  assumes inv: "lscq_values c k V s" and c: "c + lscq_cost k < 2 ^ 62" and t: "t < participants s"
    and node: "nodes (sys_q s) a = Some n" and p: "sys_pc s t = EqAlloc x a sz pos"
  shows "goes_on (c + lscq_cost k) k V (enq_alloc t x a sz pos s)"
proof (rule node_step [OF inv c t node p])
  fix E F u
  let ?v = "node_value n" and ?pc = "EqAlloc x a sz pos"
  assume seg: "segment c k ?v (empties ?pc + E) (fulls ?pc + F) (ahead ?pc + u)"
  have "segment c k ?v E (add_mset pos F) (Suc u)" using seg by simp
  from segment_store [OF this cost_bounds(4) [OF c]] obtain res aq where
      store: "ring_enqueue (alloc_queue ?v) pos = ret (res, aq)" "slot_values (?v\<lparr>alloc_queue := aq\<rparr>) = slot_values ?v"
      "case res of Inl _ \<Rightarrow> segment (c + 2 * 2 ^ k) k (?v\<lparr>alloc_queue := aq\<rparr>) E (add_mset pos F) (Suc u)
       | Inr _ \<Rightarrow> segment (c + 2 * 2 ^ k) k (?v\<lparr>alloc_queue := aq\<rparr>) E F u"
    by blast
  let ?p' = "case res of Inl _ \<Rightarrow> EqUndoUsed a pos | Inr _ \<Rightarrow> EqSeal x a sz"
  have "enq_alloc t x a sz pos s = Some (after_step t a ?p' (?v\<lparr>alloc_queue := aq\<rparr>) [] s)"
    using node store(1) by (simp add: enq_alloc_def with_node_def proceed_def after_step_def Let_def)
  moreover have "node_effect (c + lscq_cost k) k a E F u ?pc ?v ?p' (?v\<lparr>alloc_queue := aq\<rparr>) []"
    using segment_clock [OF _ cost_bounds(3) [OF c] c] store(2,3)
    by (cases res) (simp_all add: node_effect_def at_node_def)
  ultimately show "\<exists>p' v' es. enq_alloc t x a sz pos s = Some (after_step t a p' v' es s)
      \<and> node_effect (c + lscq_cost k) k a E F u ?pc ?v p' v' es" by blast
qed simp

lemma values_enq_seal:
  fixes s :: "'a lscq_sys"
  assumes inv: "lscq_values c k V s" and c: "c + lscq_cost k < 2 ^ 62" and t: "t < participants s"
    and node: "nodes (sys_q s) a = Some n" and p: "sys_pc s t = EqSeal x a sz"
  shows "goes_on (c + lscq_cost k) k V (enq_seal t x a sz s)"
proof (rule node_step [OF inv c t node p])
  fix E F u
  let ?v = "node_value n" and ?pc = "EqSeal x a sz"
  assume seg: "segment c k ?v (empties ?pc + E) (fulls ?pc + F) (ahead ?pc + u)"
  let ?v' = "if sz + 1 \<ge> ring_capacity (free_queue ?v) then ?v\<lparr>alloc_queue := finalize (alloc_queue ?v)\<rparr> else ?v"
  have "enq_seal t x a sz s = Some (after_step t a LIdle ?v' [EnqReturned t x] s)"
    using node by (simp add: enq_seal_def with_node_def after_step_def put_same Let_def)
  moreover have "node_effect (c + lscq_cost k) k a E F u ?pc ?v LIdle ?v' [EnqReturned t x]"
    using segment_clock [OF seg le_add1 c] segment_seal [of "c + lscq_cost k" k ?v E F u]
    by (simp add: node_effect_def at_node_def slot_values_def)
  ultimately show "\<exists>p' v' es. enq_seal t x a sz s = Some (after_step t a p' v' es s)
      \<and> node_effect (c + lscq_cost k) k a E F u ?pc ?v p' v' es" by blast
qed simp

lemma values_enq_undo_read:
  fixes s :: "'a lscq_sys"
  assumes inv: "lscq_values c k V s" and c: "c + lscq_cost k < 2 ^ 62" and t: "t < participants s"
    and node: "nodes (sys_q s) a = Some n" and p: "sys_pc s t = EqUndoRead a pos"
  shows "goes_on (c + lscq_cost k) k V (enq_undo_read t a pos s)"
proof (rule node_step [OF inv c t node p])
  fix E F u
  let ?v = "node_value n" and ?pc = "EqUndoRead a pos"
  assume seg: "segment c k ?v (empties ?pc + E) (fulls ?pc + F) (ahead ?pc + u)"
  have "segment c k ?v E (add_mset pos F) u" using seg by simp
  from segment_read [OF this] obtain x v' where read: "read_slot pos ?v = ret (x, v')"
      "segment c k v' (add_mset pos E) F u" "slot_values ?v = add_mset x (slot_values v')"
    by blast
  have "enq_undo_read t a pos s = Some (after_step t a (EqUndoFree x a pos) v' [] s)"
    using node read(1) by (simp add: enq_undo_read_def with_node_def proceed_def after_step_def)
  moreover have "node_effect (c + lscq_cost k) k a E F u ?pc ?v (EqUndoFree x a pos) v' []"
    using segment_clock [OF read(2) le_add1 c] read(3) by (simp add: node_effect_def at_node_def)
  ultimately show "\<exists>p' v' es. enq_undo_read t a pos s = Some (after_step t a p' v' es s)
      \<and> node_effect (c + lscq_cost k) k a E F u ?pc ?v p' v' es" by blast
qed simp

lemma values_deq_read:
  fixes s :: "'a lscq_sys"
  assumes inv: "lscq_values c k V s" and c: "c + lscq_cost k < 2 ^ 62" and t: "t < participants s"
    and node: "nodes (sys_q s) a = Some n" and p: "sys_pc s t = DqRead a pos"
  shows "goes_on (c + lscq_cost k) k V (deq_read t a pos s)"
proof (rule node_step [OF inv c t node p])
  fix E F u
  let ?v = "node_value n" and ?pc = "DqRead a pos"
  assume seg: "segment c k ?v (empties ?pc + E) (fulls ?pc + F) (ahead ?pc + u)"
  have "segment c k ?v E (add_mset pos F) u" using seg by simp
  from segment_read [OF this] obtain x v' where read: "read_slot pos ?v = ret (x, v')"
      "segment c k v' (add_mset pos E) F u" "slot_values ?v = add_mset x (slot_values v')"
    by blast
  have "deq_read t a pos s = Some (after_step t a (DqFree x a pos) v' [] s)"
    using node read(1) by (simp add: deq_read_def with_node_def proceed_def after_step_def)
  moreover have "node_effect (c + lscq_cost k) k a E F u ?pc ?v (DqFree x a pos) v' []"
    using segment_clock [OF read(2) le_add1 c] read(3) by (simp add: node_effect_def at_node_def)
  ultimately show "\<exists>p' v' es. deq_read t a pos s = Some (after_step t a p' v' es s)
      \<and> node_effect (c + lscq_cost k) k a E F u ?pc ?v p' v' es" by blast
qed simp

lemma values_enq_undo_free:
  fixes s :: "'a lscq_sys"
  assumes inv: "lscq_values c k V s" and c: "c + lscq_cost k < 2 ^ 62" and t: "t < participants s"
    and node: "nodes (sys_q s) a = Some n" and p: "sys_pc s t = EqUndoFree x a pos"
  shows "goes_on (c + lscq_cost k) k V (enq_undo_free t x a pos s)"
proof (rule node_step [OF inv c t node p])
  fix E F u
  let ?v = "node_value n" and ?pc = "EqUndoFree x a pos"
  assume seg: "segment c k ?v (empties ?pc + E) (fulls ?pc + F) (ahead ?pc + u)"
  have "segment c k ?v (add_mset pos E) F u" using seg by simp
  from segment_give [OF this cost_bounds(2) [OF c]] obtain fq where give: "ring_enqueue (free_queue ?v) pos = ret (Inr (), fq)"
      "slot_values (?v\<lparr>free_queue := fq\<rparr>) = slot_values ?v" "segment (Suc c) k (?v\<lparr>free_queue := fq\<rparr>) E F u"
    by blast
  have "enq_undo_free t x a pos s = Some (after_step t a (EqGrow x a) (?v\<lparr>free_queue := fq\<rparr>) [] s)"
    using node give(1) by (simp add: enq_undo_free_def with_node_def proceed_def after_step_def Let_def)
  moreover have "node_effect (c + lscq_cost k) k a E F u ?pc ?v (EqGrow x a) (?v\<lparr>free_queue := fq\<rparr>) []"
    using segment_clock [OF give(3) cost_bounds(1) [OF c] c] give(2) by (simp add: node_effect_def at_node_def)
  ultimately show "\<exists>p' v' es. enq_undo_free t x a pos s = Some (after_step t a p' v' es s)
      \<and> node_effect (c + lscq_cost k) k a E F u ?pc ?v p' v' es" by blast
qed simp

lemma values_deq_free:
  fixes s :: "'a lscq_sys"
  assumes inv: "lscq_values c k V s" and c: "c + lscq_cost k < 2 ^ 62" and t: "t < participants s"
    and node: "nodes (sys_q s) a = Some n" and p: "sys_pc s t = DqFree x a pos"
  shows "goes_on (c + lscq_cost k) k V (deq_free t x a pos s)"
proof (rule node_step [OF inv c t node p])
  fix E F u
  let ?v = "node_value n" and ?pc = "DqFree x a pos"
  assume seg: "segment c k ?v (empties ?pc + E) (fulls ?pc + F) (ahead ?pc + u)"
  have "segment c k ?v (add_mset pos E) F u" using seg by simp
  from segment_give [OF this cost_bounds(2) [OF c]] obtain fq where give: "ring_enqueue (free_queue ?v) pos = ret (Inr (), fq)"
      "slot_values (?v\<lparr>free_queue := fq\<rparr>) = slot_values ?v" "segment (Suc c) k (?v\<lparr>free_queue := fq\<rparr>) E F u"
    by blast
  have "deq_free t x a pos s = Some (after_step t a (LIdle) (?v\<lparr>free_queue := fq\<rparr>) [DeqReturned t (Some x)] s)"
    using node give(1) by (simp add: deq_free_def with_node_def proceed_def after_step_def Let_def)
  moreover have "node_effect (c + lscq_cost k) k a E F u ?pc ?v (LIdle) (?v\<lparr>free_queue := fq\<rparr>) [DeqReturned t (Some x)]"
    using segment_clock [OF give(3) cost_bounds(1) [OF c] c] give(2) by (simp add: node_effect_def at_node_def)
  ultimately show "\<exists>p' v' es. deq_free t x a pos s = Some (after_step t a p' v' es s)
      \<and> node_effect (c + lscq_cost k) k a E F u ?pc ?v p' v' es" by blast
qed simp

lemma values_deq_threshold:
  fixes s :: "'a lscq_sys"
  assumes inv: "lscq_values c k V s" and c: "c + lscq_cost k < 2 ^ 62" and t: "t < participants s"
    and node: "nodes (sys_q s) a = Some n" and p: "sys_pc s t = DqThreshold a nx"
  shows "goes_on (c + lscq_cost k) k V (deq_threshold t a nx s)"
proof (rule node_step [OF inv c t node p])
  fix E F u
  let ?v = "node_value n" and ?pc = "DqThreshold a nx"
  assume seg: "segment c k ?v (empties ?pc + E) (fulls ?pc + F) (ahead ?pc + u)"
  let ?v' = "store_threshold (retry_threshold ?v) ?v"
  have "deq_threshold t a nx s = Some (after_step t a (DqRetry a nx) ?v' [] s)"
    using node by (simp add: deq_threshold_def with_node_def after_step_def Let_def)
  moreover have "node_effect (c + lscq_cost k) k a E F u ?pc ?v (DqRetry a nx) ?v' []"
    using segment_clock [OF segment_threshold [OF seg] le_add1 c]
    by (simp add: node_effect_def at_node_def slot_values_def store_threshold_def)
  ultimately show "\<exists>p' v' es. deq_threshold t a nx s = Some (after_step t a p' v' es s)
      \<and> node_effect (c + lscq_cost k) k a E F u ?pc ?v p' v' es" by blast
qed simp

lemma values_deq_try:
  fixes s :: "'a lscq_sys"
  assumes inv: "lscq_values c k V s" and c: "c + lscq_cost k < 2 ^ 62" and t: "t < participants s"
    and node: "nodes (sys_q s) a = Some n" and p: "sys_pc s t = p" "node_at p = Some a" "handless p" "carried p = {#}"
    and q: "node_at q = Some a" "handless q" "carried q = {#}" "q \<noteq> Crashed"
  shows "goes_on (c + lscq_cost k) k V (deq_try t a q s)"
proof (rule node_step [OF inv c t node p(1,2)])
  fix E F u
  let ?v = "node_value n"
  assume "segment c k ?v (empties p + E) (fulls p + F) (ahead p + u)"
  then have "segment c k ?v E F u" using p(3) by (simp add: handless_def)
  from segment_take [OF this cost_bounds(2) [OF c]] obtain popt aq where
      take: "ring_dequeue (alloc_queue ?v) = ret (popt, aq)" "slot_values (?v\<lparr>alloc_queue := aq\<rparr>) = slot_values ?v"
      "case popt of None \<Rightarrow> segment (Suc c) k (?v\<lparr>alloc_queue := aq\<rparr>) E F u
       | Some i \<Rightarrow> segment (Suc c) k (?v\<lparr>alloc_queue := aq\<rparr>) E (add_mset i F) (Suc u)"
    by blast
  let ?p' = "case popt of None \<Rightarrow> q | Some pos \<Rightarrow> DqUsed a pos"
  have "deq_try t a q s = Some (after_step t a ?p' (?v\<lparr>alloc_queue := aq\<rparr>) [] s)"
    using node take(1) by (simp add: deq_try_def with_node_def proceed_def after_step_def Let_def)
  moreover have "node_effect (c + lscq_cost k) k a E F u p ?v ?p' (?v\<lparr>alloc_queue := aq\<rparr>) []"
    using segment_clock [OF _ cost_bounds(1) [OF c] c] take(2,3) p(4) q
    by (cases popt) (simp_all add: node_effect_def at_node_def handless_def)
  ultimately show "\<exists>p' v' es. deq_try t a q s = Some (after_step t a p' v' es s)
      \<and> node_effect (c + lscq_cost k) k a E F u p ?v p' v' es" by blast
qed

end
