(* ===== verification/LscqValues.thy ===== *)
theory LscqValues
  imports LscqConserve
begin

text \<open>
  The other steps of the list of queues: those that read or change the links, a call, the reclamation of a
  node. With \<open>LscqConserve\<close> every step of every execution keeps the invariant of the values, and no thread
  inside an operation is ever stuck.
\<close>

section \<open>The steps on the links\<close>

lemma handless_simps [simp]:
  "handless LIdle" "handless (EqLoad x)" "handless (EqNext x a)" "handless (EqSwing x a nx)" "handless (EqUsed x a)"
  "handless (EqGrow x a)" "handless (EqTail x a b)" "handless DqLoad" "handless (DqTry a)" "handless (DqNext a)"
  "handless (DqThreshold a nx)" "handless (DqRetry a nx)" "handless (DqAdvance a nx)" "handless (DqRetire a)"
  by (simp_all add: handless_def)

text \<open>A step that changes no node.\<close>

lemma values_links:
  fixes s s' :: "'a lscq_sys"
  assumes inv: "lscq_values c k V s" and c: "c + lscq_cost k < 2 ^ 62" and t: "t < participants s"
    and p: "handless (sys_pc s t)" "handless p'" "p' \<noteq> Crashed" "carried p' = carried (sys_pc s t)" "dequeued es = {#}"
    and s': "sys_pc s' = (sys_pc s)(t := p')" "participants s' = participants s" "nodes (sys_q s') = nodes (sys_q s)"
      "internal_order (sys_q s') = internal_order (sys_q s)" "history s' = history s @ es"
      "reclaimed_values s' = reclaimed_values s"
  shows "goes_on (c + lscq_cost k) k V (Some s')"
  using values_local [OF inv le_add1 c t p(1-3) _ p(5) s'] p(4) by (simp add: goes_on_def)

lemmas state_updates = at_pc_def on_q_def log_event_def cas_lq_tail_def

lemma values_enq_load:
  assumes inv: "lscq_values c k V s" and c: "c + lscq_cost k < 2 ^ 62" and t: "t < participants s"
    and safe: "lscq_safe as s" and p: "sys_pc s t = EqLoad x"
  shows "goes_on (c + lscq_cost k) k V (enq_load t x s)"
proof -
  obtain a where a: "lq_tail (sys_q s) = Some a" using safe_tail_allocated [OF safe] by blast
  then show ?thesis
    unfolding enq_load_def
    by (simp only: option.case) (rule values_links [OF inv c t, where p' = "EqNext x a" and es = "[]"]; simp add: p state_updates)
qed

lemma values_deq_load:
  assumes inv: "lscq_values c k V s" and c: "c + lscq_cost k < 2 ^ 62" and t: "t < participants s"
    and safe: "lscq_safe as s" and p: "sys_pc s t = DqLoad"
  shows "goes_on (c + lscq_cost k) k V (deq_load t s)"
  unfolding deq_load_def safe_head_allocated(1) [OF safe] option.case
  by (rule values_links [OF inv c t, where p' = "DqTry (hd as)" and es = "[]"]; simp add: p state_updates)

lemma values_enq_next:
  assumes inv: "lscq_values c k V s" and c: "c + lscq_cost k < 2 ^ 62" and t: "t < participants s"
    and node: "nodes (sys_q s) a = Some n" and p: "sys_pc s t = EqNext x a"
  shows "goes_on (c + lscq_cost k) k V (enq_next t x a s)"
  unfolding enq_next_def with_node_def node option.case
  by (rule values_links [OF inv c t, where p' = "case next_ptr n of None \<Rightarrow> EqUsed x a | Some nx \<Rightarrow> EqSwing x a nx" and es = "[]"];
      simp add: p state_updates split: option.split)

lemma values_deq_next:
  assumes inv: "lscq_values c k V s" and c: "c + lscq_cost k < 2 ^ 62" and t: "t < participants s"
    and node: "nodes (sys_q s) a = Some n" and p: "sys_pc s t = DqNext a"
  shows "goes_on (c + lscq_cost k) k V (deq_next t a s)"
proof (cases "next_ptr n")
  case None
  show ?thesis
    unfolding deq_next_def with_node_def node None option.case
    by (rule values_links [OF inv c t, where p' = LIdle and es = "[DeqReturned t None]"]; simp add: p state_updates)
next
  case (Some nx)
  show ?thesis
    unfolding deq_next_def with_node_def node Some option.case
    by (rule values_links [OF inv c t, where p' = "DqThreshold a nx" and es = "[]"]; simp add: p state_updates)
qed

lemma values_swing:
  assumes inv: "lscq_values c k V s" and c: "c + lscq_cost k < 2 ^ 62" and t: "t < participants s"
  shows "sys_pc s t = EqSwing x a nx
      \<Longrightarrow> goes_on (c + lscq_cost k) k V (Some (at_pc t (EqLoad x) (on_q (cas_lq_tail (Some a) (Some nx)) s)))"
    and "sys_pc s t = EqTail x a b \<Longrightarrow> goes_on (c + lscq_cost k) k V (enq_tail t x a b s)"
proof -
  show "goes_on (c + lscq_cost k) k V (Some (at_pc t (EqLoad x) (on_q (cas_lq_tail (Some a) (Some nx)) s)))"
    if "sys_pc s t = EqSwing x a nx"
    by (rule values_links [OF inv c t, where p' = "EqLoad x" and es = "[]"]; simp add: that state_updates)
  show "goes_on (c + lscq_cost k) k V (enq_tail t x a b s)" if "sys_pc s t = EqTail x a b"
    unfolding enq_tail_def
    by (rule values_links [OF inv c t, where p' = LIdle and es = "[EnqReturned t x]"]; simp add: that state_updates)
qed

lemma values_deq_links:
  assumes inv: "lscq_values c k V s" and c: "c + lscq_cost k < 2 ^ 62" and t: "t < participants s"
  shows "sys_pc s t = DqAdvance a nx \<Longrightarrow> goes_on (c + lscq_cost k) k V (deq_advance t a nx s)"
    and "sys_pc s t = DqRetire a \<Longrightarrow> goes_on (c + lscq_cost k) k V (deq_retire t a s)"
proof -
  show "goes_on (c + lscq_cost k) k V (deq_advance t a nx s)" if "sys_pc s t = DqAdvance a nx"
  proof (cases "lq_head (sys_q s) = Some a")
    case True
    then show ?thesis
      unfolding deq_advance_def
      by (simp only: simp_thms if_True)
        (rule values_links [OF inv c t, where p' = "DqRetire a" and es = "[]"]; simp add: that state_updates)
  next
    case False
    then show ?thesis
      unfolding deq_advance_def
      by (simp only: simp_thms if_False)
        (rule values_links [OF inv c t, where p' = DqLoad and es = "[]"]; simp add: that state_updates)
  qed
  show "goes_on (c + lscq_cost k) k V (deq_retire t a s)" if "sys_pc s t = DqRetire a"
    unfolding deq_retire_def
    by (rule values_links [OF inv c t, where p' = DqLoad and es = "[]"]; simp add: that state_updates)
qed

section \<open>A new node\<close>

lemma grown_node_ok:
  assumes "k \<le> 60"
  shows "\<exists>m. grown_node (2 ^ k) w x = ret m \<and> node_rep (Suc (2 ^ k)) k (node_value m) [x] \<and> next_ptr m = None
    \<and> take_back m = ret x"
proof -
  obtain n :: "'a lscq_node" where n: "node_new (2 ^ k) w = Ret n" "node_rep (2 ^ k) k (node_value n) []" "next_ptr n = None"
      "\<not> bq_closed (node_value n)"
    using node_new_rep [OF assms] by blast
  have c: "Suc (Suc (2 ^ k)) < (2 :: nat) ^ 62"
    using power_increasing [OF assms, of "2 :: nat"] by simp
  have "0 < bq_cap (node_value n)" using n(2) by (simp add: node_rep_def)
  then obtain v where v: "enqueue_cycle False (node_value n) x = ret (Inr (), v)" "bq_rep (Suc (2 ^ k)) v [x]" "bq_cap v = 2 ^ k"
    using enqueue_cycle_room [of "2 ^ k" "node_value n" "[]" False x] n(2,4) c by (auto simp: node_rep_def bq_shape_def)
  obtain v2 where v2: "bq_dequeue v = ret (Some x, v2)" "bq_rep (Suc (Suc (2 ^ k))) v2 []"
    using bq_dequeue_some [OF v(2) c] by blast
  have "Suc (Suc (Suc (2 ^ k))) < (2 :: nat) ^ 62"
    using power_increasing [OF assms, of "2 :: nat"] by simp
  then obtain v3 where "bq_drop v2 = ret ([], v3)" using bq_drop_all [OF v2(2)] by blast
  then have "take_back (n\<lparr>node_value := v\<rparr>) = ret x" by (simp add: take_back_def v2(1))
  moreover have "grown_node (2 ^ k) w x = ret (n\<lparr>node_value := v\<rparr>)"
    by (simp add: grown_node_def n(1) bq_enqueue_def v(1))
  ultimately show ?thesis using v(2,3) n(3) by (auto simp: node_rep_def)
qed

lemma nobody_at:
  assumes "lscq_safe as s" "nodes (sys_q s) b = None"
  shows "among (at_node b f) s = 0"
proof -
  have "at_node b f (sys_pc s u) = 0" for u
    using safe_node [OF assms(1), of u b] assms(2) by (auto simp: at_node_def)
  then show ?thesis by (simp add: among_def)
qed

lemma values_link:
  fixes s :: "'a lscq_sys"
  assumes inv: "lscq_values c k V s" and c: "c + lscq_cost k < 2 ^ 62" and t: "t < participants s"
    and safe: "lscq_safe as s" and p: "sys_pc s t = EqGrow x a" and node: "nodes (sys_q s) a = Some n"
    and b: "nodes (sys_q s) b = None" and m: "node_rep (c + lscq_cost k) k (node_value m) [x]"
  shows "lscq_values (c + lscq_cost k) k V (at_pc t (EqTail x a b)
           (on_q (\<lambda>q. put_next a (Some b) (q\<lparr>nodes := (nodes q)(b \<mapsto> m)\<rparr>)) s))"
    (is "lscq_values ?c k V ?s")
proof -
  note parts = values_parts [OF inv]
  have ab: "a \<noteq> b" using node b by auto
  define S where "S = ?s"
  have s': "sys_pc S = (sys_pc s)(t := EqTail x a b)" "participants S = participants s"
      "internal_order (sys_q S) = internal_order (sys_q s)" "history S = history s" "reclaimed_values S = reclaimed_values s"
      "nodes (sys_q S) = (nodes (sys_q s))(b \<mapsto> m, a \<mapsto> n\<lparr>next_ptr := Some b\<rparr>)"
    using node ab by (auto simp: S_def state_updates fun_upd_twist)
  have same: "among (at_node d empties) S = among (at_node d empties) s"
    "among (at_node d fulls) S = among (at_node d fulls) s" "among (at_node d ahead) S = among (at_node d ahead) s" for d
    by (rule among_same [OF s'(1,2) t]; simp add: p at_node_def)+
  have "node_ok ?c k S d (node_value n')" if d: "nodes (sys_q S) d = Some n'" for d n'
  proof (cases "d = b")
    case True
    then have "n' = m" using d ab s'(6) by simp
    with True show ?thesis
      using segment_node(1) [OF m] by (simp add: node_ok_def same nobody_at [OF safe b])
  next
    case False
    then have "\<exists>n0. nodes (sys_q s) d = Some n0 \<and> node_value n0 = node_value n'"
      using d node s'(6) by (auto split: if_splits)
    then show ?thesis using node_ok_clock [OF parts(6) le_add1 c] unfolding node_ok_def same by metis
  qed
  moreover have "stored_values S = add_mset x (stored_values s)"
  proof -
    let ?D = "dom (nodes (sys_q s))" and ?g = "\<lambda>s d. slot_values (node_value (the (nodes (sys_q s) d)))"
    have "dom (nodes (sys_q S)) = insert b ?D" "b \<notin> ?D" using s'(6) node b by auto
    moreover have "(\<Sum>d\<in>?D. ?g S d) = (\<Sum>d\<in>?D. ?g s d)"
      using s'(6) node b by (intro sum.cong) auto
    moreover have "?g S b = {#x#}" using s'(6) ab segment_node(2) [OF m] by simp
    ultimately show ?thesis using parts(4) by (simp add: stored_values_def)
  qed
  moreover have "among carried s = add_mset x (among carried S)"
    using among_split [OF t, of carried] among_moved [OF s'(1,2) t, of carried] p by simp
  ultimately have "lscq_values ?c k V S"
    using parts(1-5,7) s' unfolding lscq_values_def by (auto intro: le_trans)
  then show ?thesis by (simp only: S_def)
qed

lemma values_enq_grow:
  assumes inv: "lscq_values c k V s" and c: "c + lscq_cost k < 2 ^ 62" and t: "t < participants s"
    and safe: "lscq_safe as s" and p: "sys_pc s t = EqGrow x a" and node: "nodes (sys_q s) a = Some n"
    and b: "nodes (sys_q s) b = None"
  shows "goes_on (c + lscq_cost k) k V (enq_grow t b x a s)"
proof -
  note parts = values_parts [OF inv]
  obtain m where m: "grown_node (2 ^ k) (sched (sys_q s) b) x = ret m" "node_rep (Suc (2 ^ k)) k (node_value m) [x]"
      "take_back m = ret x"
    using grown_node_ok [OF parts(1), of "sched (sys_q s) b" x] by blast
  have "Suc (2 ^ k) \<le> c + lscq_cost k" using parts(2) by (simp add: lscq_cost_def)
  note rep = node_rep_clock [OF m(2) this c]
  show ?thesis
  proof (cases "next_ptr n")
    case None
    then have "enq_grow t b x a s = Some (at_pc t (EqTail x a b)
        (on_q (\<lambda>q. put_next a (Some b) (q\<lparr>nodes := (nodes q)(b \<mapsto> m)\<rparr>)) s))"
      using node parts(3) m(1) by (simp add: enq_grow_def with_node_def proceed_def Let_def)
    then show ?thesis using values_link [OF inv c t safe p node b rep] by (simp add: goes_on_def)
  next
    case (Some nx)
    then have again: "enq_grow t b x a s = Some (at_pc t (EqLoad x) s)"
      using node parts(3) m(1,3) by (simp add: enq_grow_def with_node_def proceed_def Let_def)
    show ?thesis
      unfolding again
      by (rule values_links [OF inv c t, where p' = "EqLoad x" and es = "[]"]; simp add: p state_updates)
  qed
qed

section \<open>Every step of a thread\<close>

theorem thread_goes_on:
  assumes inv: "lscq_values c k V s" and c: "c + lscq_cost k < 2 ^ 62" and t: "t < participants s"
    and safe: "lscq_safe as s" and busy: "sys_pc s t \<noteq> LIdle" and b: "nodes (sys_q s) b = None"
  shows "goes_on (c + lscq_cost k) k V (thread_step t b s)"
proof (cases "node_at (sys_pc s t)")
  case None
  then show ?thesis
    using busy values_parts(5) [OF inv, of t] values_enq_load [OF inv c t safe] values_deq_load [OF inv c t safe]
    by (cases "sys_pc s t") (simp_all add: thread_step_def)
next
  case (Some a)
  then obtain n where n: "nodes (sys_q s) a = Some n" using safe_node [OF safe, of t a] by blast
  note node_steps = values_enq_used values_enq_full values_enq_free values_enq_write values_enq_alloc values_enq_seal
    values_enq_undo_used values_enq_undo_read values_enq_undo_free values_deq_threshold values_deq_used values_deq_read
    values_deq_free values_enq_next values_deq_next
  show ?thesis
    using Some n b node_steps [OF inv c t n] values_swing [OF inv c t] values_deq_links [OF inv c t]
      values_enq_grow [OF inv c t safe _ n b] values_deq_try [OF inv c t n]
    by (cases "sys_pc s t") (simp_all add: thread_step_def)
qed

section \<open>Calls and reclamation\<close>

text \<open>The values handed to \<open>enqueue\<close> in a schedule.\<close>

fun called :: "'a lscq_label list \<Rightarrow> 'a multiset" where
  "called [] = {#}"
| "called (CallEnqueue t x # ls) = add_mset x (called ls)"
| "called (_ # ls) = called ls"

lemma called_Cons: "called (l # ls) = called [l] + called ls"
  by (cases l) auto

lemma values_call:
  fixes s :: "'a lscq_sys"
  assumes inv: "lscq_values c k V s" and c: "c + lscq_cost k < 2 ^ 62" and idle: "is_idle t s"
    and p: "handless p" "p \<noteq> Crashed"
  shows "lscq_values (c + lscq_cost k) k (V + carried p) (at_pc t p s)"
proof -
  have "t < participants s" "sys_pc s t = LIdle"
    using idle by (auto simp: is_idle_def split: lscq_pc.splits)
  then show ?thesis
    by (intro values_local [OF inv le_add1 c, where p' = p and es = "[]"]) (use p in \<open>simp_all add: at_pc_def\<close>)
qed

lemma values_view:
  fixes s s' :: "'a lscq_sys"
  assumes "lscq_values c k V s" "c \<le> c'" "c' < 2 ^ 62" "sys_q s' = sys_q s" "participants s' = participants s"
    "sys_pc s' = sys_pc s" "history s' = history s" "reclaimed_values s' = reclaimed_values s"
  shows "lscq_values c' k V s'"
proof -
  have same: "among f s' = among f s" for f :: "'a lscq_pc \<Rightarrow> 'b::comm_monoid_add"
    by (simp add: among_def assms)
  have "node_ok c' k s a (node_value n)" if "nodes (sys_q s) a = Some n" for a n
    using node_ok_clock [OF values_parts(6) [OF assms(1) that] assms(2,3)] .
  then show ?thesis
    using values_parts(1-5,7) [OF assms(1)] assms(2) unfolding lscq_values_def node_ok_def same stored_values_def assms(4-8)
    by (auto intro: le_trans)
qed

text \<open>Nobody works on a retired node that no hazard pointer holds; so it is a queue at rest.\<close>

lemma values_reclaim:
  fixes s :: "'a lscq_sys"
  assumes inv: "lscq_values c k V s" and c: "c + lscq_cost k < 2 ^ 62" and safe: "lscq_safe as s"
    and a: "a \<in> set (retired_at s)" "unprotected a s"
  shows "goes_on (c + lscq_cost k) k V (reclaim a s)"
proof -
  note parts = values_parts [OF inv] and safe_facts = safe_parts [OF safe]
  obtain n where n: "nodes (sys_q s) a = Some n" using safe_facts(6) a(1) by (auto simp: next_of_def)
  have zero: "at_node a f (sys_pc s u) = 0" if "u < participants s" for u and f :: "'a lscq_pc \<Rightarrow> 'b::comm_monoid_add"
    using safe_facts(8) [of u] a(2) that by (auto simp: at_node_def thread_ok_def unprotected_def list_all_iff)
  have nobody: "among (at_node a f) s = 0" for f :: "'a lscq_pc \<Rightarrow> 'b::comm_monoid_add"
    by (simp add: among_def zero)
  have "segment c k (node_value n) {#} {#} 0"
    using parts(6) [OF n] by (simp add: node_ok_def nobody)
  then obtain vs where vs: "node_rep c k (node_value n) vs" "mset vs = slot_values (node_value n)"
    using segment_rest by blast
  then obtain v where drop: "bq_drop (node_value n) = ret (vs, v)"
    using bq_drop_all [of c "node_value n" vs] cost_bounds(2) [OF c] by (auto simp: node_rep_def)
  define s' where "s' = on_q (\<lambda>q. q\<lparr>nodes := (nodes q)(a := None)\<rparr>)
      (s\<lparr>retired_at := removeAll a (retired_at s), reclaimed_values := reclaimed_values s @ vs\<rparr>)"
  have step: "reclaim a s = Some s'"
    using a n drop by (simp add: reclaim_def with_node_def s'_def)
  have view: "sys_pc s' = sys_pc s" "participants s' = participants s" "history s' = history s"
    "internal_order (sys_q s') = internal_order (sys_q s)" "nodes (sys_q s') = (nodes (sys_q s))(a := None)"
    "reclaimed_values s' = reclaimed_values s @ vs"
    by (simp_all add: s'_def on_q_def)
  have same: "among f s' = among f s" for f :: "'a lscq_pc \<Rightarrow> 'b::comm_monoid_add"
    by (simp add: among_def view)
  let ?D = "dom (nodes (sys_q s))" and ?g = "\<lambda>s d. slot_values (node_value (the (nodes (sys_q s) d)))"
  have "stored_values s = slot_values (node_value n) + stored_values s'"
  proof -
    have "(\<Sum>d\<in>?D - {a}. ?g s' d) = (\<Sum>d\<in>?D - {a}. ?g s d)" using view(5) by (intro sum.cong) auto
    moreover have "dom (nodes (sys_q s')) = ?D - {a}" using view(5) by auto
    ultimately show ?thesis
      using sum.remove [OF parts(4), of a "?g s"] n by (auto simp: stored_values_def)
  qed
  then have "V = dequeued (history s') + mset (reclaimed_values s') + among carried s' + stored_values s'"
    using parts(7) vs(2) by (simp add: view same ac_simps)
  moreover have "node_ok (c + lscq_cost k) k s' d (node_value m)" if "nodes (sys_q s') d = Some m" for d m
    using node_ok_clock [OF parts(6) le_add1 c] that view(5) by (auto simp: node_ok_def same split: if_splits)
  ultimately have "lscq_values (c + lscq_cost k) k V s'"
    using parts(1-5) view unfolding lscq_values_def by (auto intro: le_trans)
  then show ?thesis using step by (simp add: goes_on_def)
qed

section \<open>Every execution\<close>

lemma goes_on_step: "goes_on c k V (Some s') \<Longrightarrow> lscq_values c k V s'"
  by (simp add: goes_on_def)

lemma goes_on_some: "goes_on c k V st \<Longrightarrow> \<exists>s'. st = Some s'"
  by (auto simp: goes_on_def)

lemma thread_step_idle: "sys_pc s t = LIdle \<Longrightarrow> thread_step t b s = None"
  by (simp add: thread_step_def)

text \<open>Only the step that links a new node looks at the address; another thread may be given any address.\<close>

lemma thread_step_addr:
  assumes "thread_step t b s = Some s'" "nodes (sys_q s) b \<noteq> None"
  shows "thread_step t b' s = Some s'"
  using assms by (cases "sys_pc s t") (simp_all add: thread_step_def)

lemma fresh_address:
  assumes "lscq_values c k V s"
  shows "\<exists>b. nodes (sys_q s) b = None"
  using ex_new_if_finite [OF infinite_UNIV_nat values_parts(4) [OF assms]] by (auto simp: domIff)

theorem values_label:
  fixes s :: "'a lscq_sys"
  assumes inv: "lscq_values c k V s" and c: "c + lscq_cost k < 2 ^ 62" and safe: "lscq_safe as s"
    and step: "lscq_step l s = Some s'"
  shows "lscq_values (c + lscq_cost k) k (V + called [l]) s'"
proof (cases l)
  case (CallEnqueue t x)
  then show ?thesis using step values_call [OF inv c, of t "EqLoad x"] by (simp split: if_splits)
next
  case (CallDequeue t)
  then show ?thesis using step values_call [OF inv c, of t DqLoad] by (simp split: if_splits)
next
  case (RunStep t b)
  then have t: "t < participants s" and run: "thread_step t b s = Some s'" using step by (simp_all split: if_splits)
  obtain b' where b': "nodes (sys_q s) b' = None" "thread_step t b' s = Some s'"
    using fresh_address [OF inv] thread_step_addr [OF run] run by (cases "nodes (sys_q s) b") auto
  have "sys_pc s t \<noteq> LIdle" using run thread_step_idle by fastforce
  from thread_goes_on [OF inv c t safe this b'(1)] show ?thesis
    using b'(2) RunStep goes_on_step by simp
next
  case (Release t)
  then show ?thesis
    using step by (auto intro: values_view [OF inv le_add1 c] split: if_splits)
next
  case (Reclaim a)
  then have "reclaim a s = Some s'" using step by simp
  then have "goes_on (c + lscq_cost k) k V (Some s')"
    using values_reclaim [OF inv c safe, of a] by (simp add: reclaim_def split: if_splits)
  then show ?thesis using Reclaim goes_on_step by simp
qed

lemma lscq_step_participants:
  assumes "lscq_step l s = Some s'"
  shows "participants s' = participants s"
proof (cases l)
  case (RunStep t b)
  then have "thread_step t b s = Some s'" using assms by (simp split: if_splits)
  then show ?thesis
    by (cases "sys_pc s t") (auto simp: thread_step_defs split: step_splits)
qed (use assms in \<open>auto simp: reclaim_def with_node_def split: step_splits\<close>)

lemma lscq_run_participants: "lscq_run ls s = Some s' \<Longrightarrow> participants s' = participants s"
  by (induction ls arbitrary: s) (auto split: option.splits dest: lscq_step_participants)

theorem values_run:
  fixes s :: "'a lscq_sys"
  assumes "lscq_run ls s = Some s'" "lscq_values c k V s" "lscq_safe as s" "c + length ls * lscq_cost k < 2 ^ 62"
  shows "lscq_values (c + length ls * lscq_cost k) k (V + called ls) s' \<and> (\<exists>as'. lscq_safe as' s')"
  using assms
proof (induction ls arbitrary: s c V as)
  case (Cons l ls)
  then obtain s1 where s1: "lscq_step l s = Some s1" "lscq_run ls s1 = Some s'"
    by (auto split: option.splits)
  obtain as1 where safe: "lscq_safe as1 s1" using safe_step [OF Cons.prems(3) s1(1)] by blast
  have "c + lscq_cost k < 2 ^ 62" using Cons.prems(4) by simp
  note one = values_label [OF Cons.prems(2) this Cons.prems(3) s1(1)]
  have "lscq_values (c + lscq_cost k + length ls * lscq_cost k) k (V + called [l] + called ls) s' \<and> (\<exists>as'. lscq_safe as' s')"
    using Cons.IH [OF s1(2) one safe] Cons.prems(4) by (simp add: add.assoc)
  then show ?case unfolding called_Cons [of l ls] by (simp add: ac_simps)
qed auto

lemma values_start:
  fixes q :: "'a lscq"
  assumes q: "lscq_new (2 ^ k) w = Ret q" and k: "k \<le> 60"
  shows "lscq_values (2 ^ k) k {#} (lscq_start m q)"
proof -
  obtain n :: "'a lscq_node" where n: "node_new (2 ^ k) (w 0) = Ret n" "node_rep (2 ^ k) k (node_value n) []"
    using node_new_rep [OF k] by blast
  have fields: "nodes q = [0 \<mapsto> n]" "internal_order q = 2 ^ k" using q n(1) by (auto simp: lscq_new_def)
  have among: "among f (lscq_start m q) = 0" if "f LIdle = 0" for f :: "'a lscq_pc \<Rightarrow> 'b::comm_monoid_add"
    using that by (simp add: among_def lscq_start_def)
  have nodes_ok: "node_ok (2 ^ k) k (lscq_start m q) a (node_value n')" if "nodes q a = Some n'" for a n'
    using that segment_node(1) [OF n(2)] by (simp add: node_ok_def among at_node_def fields split: if_splits)
  have start: "sys_q (lscq_start m q) = q" "sys_pc (lscq_start m q) t = LIdle" "history (lscq_start m q) = []"
    "reclaimed_values (lscq_start m q) = []" for t
    by (simp_all add: lscq_start_def)
  have "stored_values (lscq_start m q) = {#}"
    using segment_node(2) [OF n(2)] by (simp add: stored_values_def start fields)
  moreover have "finite (dom (nodes q))" by (simp add: fields)
  ultimately show ?thesis
    using k fields(2) nodes_ok by (simp add: lscq_values_def among start)
qed

end
