(* ===== verification/LscqProperties.thy ===== *)
theory LscqProperties
  imports LscqCompact LscqValues
begin

text \<open>
  The properties of the list of queues under concurrency: the memory safety that holds of every
  execution, and two executions, given as schedules and evaluated, in which the code does what it
  should not: a value whose \<open>enqueue\<close> returned is lost, and a reference to a reclaimed node is made.
\<close>

section \<open>Schedules\<close>

definition run_thread :: "nat \<Rightarrow> nat \<Rightarrow> nat \<Rightarrow> usize lscq_label list" where
  "run_thread j t b = replicate j (RunStep t b)"

text \<open>
  Segments of two slots. Thread 0 enqueues 5, then calls \<open>enqueue\<close> of 1 and stops after it has claimed
  the last slot of the first node. Thread 1 finds the node full and links a second one with the value
  2. Thread 2 dequeues 5 and 2, retiring the first node in between. Thread 0 goes on and returns.
  Thread 1 dequeues, and the first node is reclaimed.
\<close>

definition lost_value_schedule :: "usize lscq_label list" where
  "lost_value_schedule =
     [CallEnqueue 0 5] @ run_thread 7 0 0 @ [CallEnqueue 0 1] @ run_thread 3 0 0
     @ [CallEnqueue 1 2] @ run_thread 6 1 1
     @ [CallDequeue 2] @ run_thread 5 2 0 @ [CallDequeue 2] @ run_thread 12 2 0
     @ run_thread 4 0 0 @ [CallDequeue 1] @ run_thread 3 1 0 @ [Release 0, Reclaim 0]"

text \<open>
  Segments of one slot, three nodes. Thread 1 stops in \<open>dequeue\<close> before it reads the link of the first
  node; thread 2 dequeues the rest and retires the first two nodes; the second is reclaimed, as only
  the first is in a hazard pointer; thread 1 reads the link to it.
\<close>

definition dangling_schedule :: "usize lscq_label list" where
  "dangling_schedule =
     [CallEnqueue 0 1] @ run_thread 7 0 0 @ [CallEnqueue 0 2] @ run_thread 6 0 1
     @ [CallEnqueue 0 3] @ run_thread 6 0 2 @ [Release 0]
     @ [CallDequeue 1] @ run_thread 5 1 0 @ [CallDequeue 1] @ run_thread 2 1 0
     @ [CallDequeue 2] @ run_thread 12 2 0 @ [CallDequeue 2] @ run_thread 12 2 0
     @ [Release 2, Reclaim 1] @ run_thread 1 1 0"

text \<open>An execution in which a value is lost, with what the thread and the slots hold at its end.\<close>

lemma lost_value_run:
  "\<exists>q s. lscq_new (2 ^ 1) (\<lambda>_. ([], [])) = Ret q \<and> lscq_run lost_value_schedule (lscq_start 3 q) = Some s
     \<and> dequeued (history s) = {#2, 5#} \<and> reclaimed_values s = [1]"
proof -
  have "case lscq_new 2 (\<lambda>_. ([], [])) of
      Ret q \<Rightarrow> (case run_compact [0, 1, 2] lost_value_schedule (compact [0, 1, 2] (lscq_start 3 q)) of
        Some s \<Rightarrow> dequeued (history s) = {#2, 5#} \<and> reclaimed_values s = [1]
      | None \<Rightarrow> False)
    | _ \<Rightarrow> False"
    by code_simp
  from run_compact_execution [OF this] show ?thesis by simp
qed

section \<open>Memory safety\<close>

text \<open>
  C1. Whatever the interleaving of any number of threads (a ring operation being one step), the reuse of addresses and the time at which
  retired nodes are reclaimed: no thread accesses a node that is not allocated, no node is retired
  twice, the head and the tail always point to allocated nodes, and so does the pointer every thread
  is working on.
\<close>

theorem lscq_memory_safe:
  assumes "lscq_new sz w = Ret q" "lscq_reachable m q s"
  shows "\<not> bad_access s
    \<and> (\<exists>h t. lq_head (sys_q s) = Some h \<and> lq_tail (sys_q s) = Some t
         \<and> nodes (sys_q s) h \<noteq> None \<and> nodes (sys_q s) t \<noteq> None)
    \<and> (\<forall>u a. node_at (sys_pc s u) = Some a \<longrightarrow> nodes (sys_q s) a \<noteq> None)"
proof -
  obtain as where safe: "lscq_safe as s"
    using lscq_reachable_safe [OF assms] by blast
  show ?thesis
    using safe_parts(10) [OF safe] safe_tail_allocated [OF safe] safe_head_allocated [OF safe] safe_node [OF safe]
    by (auto simp: next_of_def)
qed

text \<open>At the end of an execution of three threads over two nodes, the first of which has been reclaimed.\<close>

theorem lscq_memory_safe_witness:
  "\<exists>q s :: usize lscq_sys. lscq_new (2 ^ 1) (\<lambda>_. ([], [])) = Ret q \<and> lscq_reachable 3 q s
     \<and> lscq_run lost_value_schedule (lscq_start 3 q) = Some s \<and> reclaimed_values s = [1] \<and> \<not> bad_access s
     \<and> (\<exists>h. lq_head (sys_q s) = Some h \<and> nodes (sys_q s) h \<noteq> None)"
proof -
  obtain q and s :: "usize lscq_sys" where s: "lscq_new (2 ^ 1) (\<lambda>_. ([], [])) = Ret q"
      "lscq_run lost_value_schedule (lscq_start 3 q) = Some s" "reclaimed_values s = [1]"
    using lost_value_run by blast
  have r: "lscq_reachable 3 q s" using lscq_run_reachable [OF lscq_reachable.start s(2)] .
  show ?thesis using lscq_memory_safe [OF s(1) r] s r by blast
qed

text \<open>
  The tail is never more than one node behind: under every interleaving it points to an allocated
  node that is the last of the list or whose successor is.
\<close>

lemma lscq_tail_lags_one:
  assumes "lscq_new sz w = Ret q" "lscq_reachable m q s"
  shows "\<exists>t n. lq_tail (sys_q s) = Some t \<and> nodes (sys_q s) t = Some n
    \<and> (next_ptr n = None
        \<or> (\<exists>l k. next_ptr n = Some l \<and> nodes (sys_q s) l = Some k \<and> next_ptr k = None))"
proof -
  obtain as where safe: "lscq_safe as s"
    using lscq_reachable_safe [OF assms] by blast
  obtain t p where t: "lq_tail (sys_q s) = Some t" "next_of s t = Some p"
    using safe_tail_allocated [OF safe] by auto
  have end_node: "next_of s (last as) = Some None"
    using links_last [OF safe_parts(1,3) [OF safe]] .
  show ?thesis
  proof (cases p)
    case None
    with t show ?thesis by (auto simp: next_of_def)
  next
    case (Some l)
    then have "l = last as"
      using safe_tail_link [OF safe t(1)] t(2) by simp
    with t Some end_node show ?thesis by (auto simp: next_of_def)
  qed
qed

section \<open>What becomes of the values\<close>

text \<open>
  C2. Whatever the interleaving of any number of threads on an unbounded queue, an operation of an
  index ring being one step: every value handed to \<open>enqueue\<close> is, exactly once, returned by a \<open>dequeue\<close>, in
  the hands of a thread inside an operation, in a slot of an allocated node, or dropped with a
  reclaimed node; none is invented. (That the last of these happens to a value is the defect of the
  theorem \<open>lscq_loses_a_value\<close>.)
\<close>

theorem lscq_conserves:
  assumes "lscq_new (2 ^ k) w = Ret q" "k \<le> 60" "lscq_run ls (lscq_start m q) = Some s"
    and "2 ^ k + length ls * lscq_cost k < 2 ^ 62"
  shows "called ls = dequeued (history s) + mset (reclaimed_values s) + among carried s + stored_values s"
proof -
  have "lscq_values (2 ^ k + length ls * lscq_cost k) k ({#} + called ls) s"
    using values_run [OF assms(3) values_start [OF assms(1,2)] safe_start [OF assms(1)] assms(4)] by blast
  from values_parts(7) [OF this] show ?thesis by simp
qed

theorem lscq_conserves_witness:
  "\<exists>q s. lscq_new (2 ^ 1) (\<lambda>_. ([], [])) = Ret q \<and> lscq_run lost_value_schedule (lscq_start 3 q) = Some s
     \<and> reclaimed_values s = [1] \<and> among carried s = {#} \<and> stored_values s = {#}"
proof -
  obtain q s where s: "lscq_new (2 ^ 1) (\<lambda>_. ([], [])) = Ret q" "lscq_run lost_value_schedule (lscq_start 3 q) = Some s"
      "dequeued (history s) = {#2, 5#}" "reclaimed_values s = [1]"
    using lost_value_run by blast
  have "called lost_value_schedule = {#1, 2, 5#}" by (simp add: lost_value_schedule_def run_thread_def eval_nat_numeral)
  moreover have "2 ^ 1 + length lost_value_schedule * lscq_cost 1 < 2 ^ 62"
    by (simp add: lost_value_schedule_def run_thread_def lscq_cost_def)
  from lscq_conserves [OF s(1) _ s(2) this] have
    "called lost_value_schedule = dequeued (history s) + mset (reclaimed_values s) + among carried s + stored_values s"
    by simp
  ultimately show ?thesis using s by simp
qed

text \<open>
  C17. In every interleaving of the accesses of an unbounded queue in which a ring operation is one step, no thread
  panics or touches an uninitialised slot, and none is ever stuck: a thread inside an operation always
  has a next step, whatever free address its allocation gets, and the domain can always reclaim a
  retired node that no hazard pointer holds. (That the accesses of the ring operations inside one segment, in any
  interleaving, cause no panic and no access to an uninitialised slot either is shown of the bounded
  queue alone, in \<open>BoundedConcProperties\<close>.)
\<close>

theorem lscq_never_stuck:
  assumes "lscq_new (2 ^ k) w = Ret q" "k \<le> 60" "lscq_run ls (lscq_start m q) = Some s"
    and "2 ^ k + Suc (length ls) * lscq_cost k < 2 ^ 62"
  shows "sys_pc s t \<noteq> Crashed
    \<and> (t < m \<and> sys_pc s t \<noteq> LIdle \<and> nodes (sys_q s) b = None \<longrightarrow> (\<exists>s'. lscq_step (RunStep t b) s = Some s'))
    \<and> (a \<in> set (retired_at s) \<and> unprotected a s \<longrightarrow> (\<exists>s'. lscq_step (Reclaim a) s = Some s'))"
proof -
  let ?c = "2 ^ k + length ls * lscq_cost k"
  have c: "?c + lscq_cost k < 2 ^ 62" using assms(4) by simp
  then have "?c < 2 ^ 62" by simp
  then obtain as where inv: "lscq_values ?c k ({#} + called ls) s" and safe: "lscq_safe as s"
    using values_run [OF assms(3) values_start [OF assms(1,2)] safe_start [OF assms(1)]] by blast
  have "participants s = m" using lscq_run_participants [OF assms(3)] by (simp add: lscq_start_def)
  then show ?thesis
    using values_parts(5) [OF inv] goes_on_some [OF thread_goes_on [OF inv c _ safe]]
      goes_on_some [OF values_reclaim [OF inv c safe]]
    by auto
qed

theorem lscq_never_stuck_witness:
  "\<exists>q s. lscq_new (2 ^ 1) (\<lambda>_. ([], [])) = Ret q \<and> lscq_run lost_value_schedule (lscq_start 3 q) = Some (s :: usize lscq_sys)
     \<and> (\<forall>t. sys_pc s t \<noteq> Crashed)"
proof -
  obtain q s where s: "lscq_new (2 ^ 1) (\<lambda>_. ([], [])) = Ret q" "lscq_run lost_value_schedule (lscq_start 3 q) = Some s"
    using lost_value_run by blast
  have "2 ^ 1 + Suc (length lost_value_schedule) * lscq_cost 1 < 2 ^ 62"
    by (simp add: lost_value_schedule_def run_thread_def lscq_cost_def)
  from lscq_never_stuck [OF s(1) _ s(2) this] s show ?thesis by auto
qed

section \<open>Two executions\<close>

text \<open>
  C16. \<open>enqueue\<close> can lose a value: there is an execution in which \<open>enqueue\<close> of 1 returns, the next
  \<open>dequeue\<close> finds the queue empty although 1 was never dequeued, and 1 is dropped with the retired node.
  A thread that finds a node full links a new node without closing the full one, so a slower thread
  that holds a claim on it fills a node that dequeuers have already left.
\<close>

theorem lscq_loses_a_value:
  "\<exists>q s. lscq_new 2 (\<lambda>_. ([], [])) = Ret q \<and> lscq_reachable 3 q s
     \<and> history s = [EnqReturned 0 5, EnqReturned 1 2, DeqReturned 2 (Some 5), DeqReturned 2 (Some 2),
                    EnqReturned 0 (1 :: usize), DeqReturned 1 None]
     \<and> reclaimed_values s = [1]"
proof -
  have "case lscq_new 2 (\<lambda>_. ([], [])) of
      Ret q \<Rightarrow> (case run_compact [0, 1, 2] lost_value_schedule (compact [0, 1, 2] (lscq_start 3 q)) of
        Some s \<Rightarrow> history s = [EnqReturned 0 5, EnqReturned 1 2, DeqReturned 2 (Some 5), DeqReturned 2 (Some 2),
                              EnqReturned 0 (1 :: usize), DeqReturned 1 None]
                 \<and> reclaimed_values s = [1]
      | None \<Rightarrow> False)
    | _ \<Rightarrow> False"
    by code_simp
  from run_compact_witness [OF this] show ?thesis
    by simp
qed

text \<open>
  C20. \<open>dequeue\<close> can make a reference to a node that has been reclaimed: the link of a retired node still
  leads to its successor, so \<open>safe_load\<close> of that link returns it after it has been retired and freed. By
  the memory safety above such a reference is never used to access the node.
\<close>

theorem lscq_dangling_reference:
  "\<exists>q s. lscq_new 1 (\<lambda>_. ([], [])) = Ret q \<and> lscq_reachable 3 q (s :: usize lscq_sys) \<and> dangling s"
proof -
  have "case lscq_new 1 (\<lambda>_. ([], [])) of
      Ret q \<Rightarrow> (case run_compact [0, 1, 2] dangling_schedule (compact [0, 1, 2] (lscq_start 3 q)) of Some s \<Rightarrow> dangling s | None \<Rightarrow> False)
    | _ \<Rightarrow> False"
    by code_simp
  from run_compact_witness [OF this] show ?thesis
    by simp
qed

end
