(* ===== verification/TicketRing.thy ===== *)
theory TicketRing
  imports Prelude
begin

text \<open>
  The protocol of the SCQ ring (\<open>src/scq.rs\<close>) without its words: tickets are natural numbers, a slot
  is never used or carries the ticket of its last owner, a bit that tells whether the slot is safe,
  and an index or nothing. Enqueuers and dequeuers draw tickets and meet at the slots; a step of the
  relation is one atomic access of the code that matters for the slots. The invariant shows that
  every index stored under a ticket is still in its slot or was removed by the one dequeuer that drew
  the same ticket. The theory \<open>ScqConcSim\<close> shows that the code takes only such steps.
\<close>

section \<open>The machine\<close>

datatype 'x cell = Fresh | Cell nat bool "'x option"

text \<open>What a thread is doing to the ring, with the ticket it drew and the slot content it saw.\<close>

datatype 'x claim =
    Free
  | Want 'x | Drawn 'x nat | Seen 'x nat "'x cell" | Poised 'x nat "'x cell"
  | Scanning nat | Marking nat "'x cell" | Taking nat 'x

text \<open>
  \<open>put_at\<close>, \<open>taken\<close> and \<open>passed\<close> are the history: what was stored under which ticket, whose tickets were
  removed, and which dequeuers left their slot with nothing. \<open>base\<close> is the first ticket of the history.
\<close>

record 'x ticket_ring =
  base :: nat
  next_deq :: nat
  next_enq :: nat
  cells :: "'x cell list"
  put_at :: "nat \<Rightarrow> 'x option"
  taken :: "nat set"
  passed :: "nat set"
  claims :: "nat \<Rightarrow> 'x claim"

datatype 'x ticket_event = Stored nat nat 'x | Removed nat nat 'x

definition slot_of :: "'x ticket_ring \<Rightarrow> nat \<Rightarrow> nat" where
  "slot_of S t = t mod length (cells S)"

definition cell_at :: "'x ticket_ring \<Rightarrow> nat \<Rightarrow> 'x cell" where
  "cell_at S t = cells S ! slot_of S t"

definition set_claim :: "nat \<Rightarrow> 'x claim \<Rightarrow> 'x ticket_ring \<Rightarrow> 'x ticket_ring" where
  "set_claim i c S = S\<lparr>claims := (claims S)(i := c)\<rparr>"

definition set_cell :: "nat \<Rightarrow> 'x cell \<Rightarrow> 'x ticket_ring \<Rightarrow> 'x ticket_ring" where
  "set_cell t c S = S\<lparr>cells := (cells S)[slot_of S t := c]\<rparr>"

fun older :: "'x cell \<Rightarrow> nat \<Rightarrow> bool" where
  "older Fresh t \<longleftrightarrow> True"
| "older (Cell u s d) t \<longleftrightarrow> u < t"

fun vacant :: "'x cell \<Rightarrow> bool" where
  "vacant Fresh \<longleftrightarrow> True"
| "vacant (Cell u s d) \<longleftrightarrow> d = None"

fun safe :: "'x cell \<Rightarrow> bool" where
  "safe Fresh \<longleftrightarrow> True"
| "safe (Cell u s d) \<longleftrightarrow> s"

text \<open>What a dequeuer with ticket \<open>h\<close> leaves in a slot of an earlier cycle.\<close>

fun marked :: "nat \<Rightarrow> 'x cell \<Rightarrow> 'x cell" where
  "marked h Fresh = Cell h True None"
| "marked h (Cell u s None) = Cell h s None"
| "marked h (Cell u s (Some x)) = Cell u False (Some x)"

inductive ticket_step ::
  "nat \<Rightarrow> 'x ticket_event list \<Rightarrow> 'x ticket_ring \<Rightarrow> 'x ticket_ring \<Rightarrow> bool" for i
where
  stutter: "ticket_step i [] S S"
| want: "claims S i = Free \<Longrightarrow> ticket_step i [] S (set_claim i (Want x) S)"
| draw: "claims S i = Want x
    \<Longrightarrow> ticket_step i [] S (set_claim i (Drawn x (next_enq S)) (S\<lparr>next_enq := Suc (next_enq S)\<rparr>))"
| see: "claims S i = Drawn x t \<Longrightarrow> cell_at S t = c \<Longrightarrow> older c t \<Longrightarrow> vacant c \<Longrightarrow> \<not> safe c
    \<Longrightarrow> ticket_step i [] S (set_claim i (Seen x t c) S)"
| poise: "claims S i = Drawn x t \<Longrightarrow> cell_at S t = c \<Longrightarrow> older c t \<Longrightarrow> vacant c \<Longrightarrow> safe c
    \<Longrightarrow> ticket_step i [] S (set_claim i (Poised x t c) S)"
| poise_head: "claims S i = Seen x t c \<Longrightarrow> next_deq S \<le> t
    \<Longrightarrow> ticket_step i [] S (set_claim i (Poised x t c) S)"
| redraw: "claims S i = Drawn x t \<Longrightarrow> \<not> (older (cell_at S t) t \<and> vacant (cell_at S t))
    \<Longrightarrow> ticket_step i [] S (set_claim i (Want x) S)"
| redraw_head: "claims S i = Seen x t c \<Longrightarrow> t < next_deq S \<Longrightarrow> ticket_step i [] S (set_claim i (Want x) S)"
| reload: "claims S i = Poised x t c \<Longrightarrow> ticket_step i [] S (set_claim i (Drawn x t) S)"
| refuse: "claims S i = Poised x t c \<Longrightarrow> ticket_step i [] S (set_claim i Free S)"
| store: "claims S i = Poised x t c \<Longrightarrow> cell_at S t = c
    \<Longrightarrow> ticket_step i [Stored i t x] S
          (set_claim i Free (set_cell t (Cell t True (Some x)) (S\<lparr>put_at := (put_at S)(t \<mapsto> x)\<rparr>)))"
| raise: "next_enq S \<le> t \<Longrightarrow> t \<le> next_deq S \<Longrightarrow> ticket_step i [] S (S\<lparr>next_enq := t\<rparr>)"
| scan: "claims S i = Free
    \<Longrightarrow> ticket_step i [] S (set_claim i (Scanning (next_deq S)) (S\<lparr>next_deq := Suc (next_deq S)\<rparr>))"
| mark: "claims S i = Scanning h \<Longrightarrow> cell_at S h = c \<Longrightarrow> older c h
    \<Longrightarrow> ticket_step i [] S (set_claim i (Marking h c) S)"
| rescan: "claims S i = Marking h c \<Longrightarrow> ticket_step i [] S (set_claim i (Scanning h) S)"
| pass: "claims S i = Scanning h \<Longrightarrow> cell_at S h = Cell u s d \<Longrightarrow> h < u \<or> \<not> s \<and> u \<noteq> h \<and> d \<noteq> None
    \<Longrightarrow> ticket_step i [] S (set_claim i Free (S\<lparr>passed := insert h (passed S)\<rparr>))"
| leave: "claims S i = Marking h c \<Longrightarrow> cell_at S h = c
    \<Longrightarrow> ticket_step i [] S
          (set_claim i Free (set_cell h (marked h c) (S\<lparr>passed := insert h (passed S)\<rparr>)))"
| take_up: "claims S i = Scanning h \<Longrightarrow> cell_at S h = Cell h s (Some x)
    \<Longrightarrow> ticket_step i [] S (set_claim i (Taking h x) S)"
| remove: "claims S i = Taking h x \<Longrightarrow> cell_at S h = Cell h s d
    \<Longrightarrow> ticket_step i [Removed i h x] S
          (set_claim i Free (set_cell h (Cell h s None) (S\<lparr>taken := insert h (taken S)\<rparr>)))"

section \<open>The invariant\<close>

fun enq_ticket :: "'x claim \<Rightarrow> nat option" where
  "enq_ticket (Drawn x t) = Some t"
| "enq_ticket (Seen x t c) = Some t"
| "enq_ticket (Poised x t c) = Some t"
| "enq_ticket _ = None"

fun deq_ticket :: "'x claim \<Rightarrow> nat option" where
  "deq_ticket (Scanning h) = Some h"
| "deq_ticket (Marking h c) = Some h"
| "deq_ticket (Taking h x) = Some h"
| "deq_ticket _ = None"

text \<open>Slots only move up in this order: no content comes back.\<close>

fun rank :: "'x cell \<Rightarrow> nat" where
  "rank Fresh = 0"
| "rank (Cell u s d) = 4 * Suc u + (if d = None then 2 else 0) + (if s then 0 else 1)"

definition cells_ok :: "'x ticket_ring \<Rightarrow> bool" where
  "cells_ok S \<longleftrightarrow> cells S \<noteq> [] \<and>
     (\<forall>j u s d. j < length (cells S) \<longrightarrow> cells S ! j = Cell u s d \<longrightarrow> slot_of S u = j
        \<and> (d = None \<longrightarrow> u < next_deq S \<and> (u < base S \<or> u \<in> taken S \<or> u \<in> passed S))
        \<and> (\<forall>x. d = Some x \<longrightarrow> put_at S u = Some x \<and> u \<notin> taken S))"

definition live_ok :: "'x ticket_ring \<Rightarrow> bool" where
  "live_ok S \<longleftrightarrow>
     (\<forall>u x. put_at S u = Some x \<longrightarrow> u \<notin> taken S \<longrightarrow> (\<exists>s. cell_at S u = Cell u s (Some x)))"

definition history_ok :: "'x ticket_ring \<Rightarrow> bool" where
  "history_ok S \<longleftrightarrow> taken S \<subseteq> dom (put_at S) \<and> passed S \<inter> dom (put_at S) = {}
     \<and> taken S \<union> passed S \<subseteq> {base S..<next_deq S} \<and> dom (put_at S) \<subseteq> {base S..<next_enq S}
     \<and> base S \<le> next_deq S \<and> base S \<le> next_enq S"

definition passed_ok :: "'x ticket_ring \<Rightarrow> bool" where
  "passed_ok S \<longleftrightarrow> (\<forall>t\<in>passed S. \<exists>u s d. cell_at S t = Cell u s d \<and> (t \<le> u \<or> \<not> s))"

fun claim_ok :: "'x ticket_ring \<Rightarrow> 'x claim \<Rightarrow> bool" where
  "claim_ok S Free \<longleftrightarrow> True"
| "claim_ok S (Want x) \<longleftrightarrow> True"
| "claim_ok S (Drawn x t) \<longleftrightarrow> base S \<le> t \<and> t < next_enq S \<and> put_at S t = None"
| "claim_ok S (Seen x t c) \<longleftrightarrow> base S \<le> t \<and> t < next_enq S \<and> put_at S t = None
     \<and> older c t \<and> vacant c \<and> rank c \<le> rank (cell_at S t)"
| "claim_ok S (Poised x t c) \<longleftrightarrow> base S \<le> t \<and> t < next_enq S \<and> put_at S t = None
     \<and> older c t \<and> vacant c \<and> rank c \<le> rank (cell_at S t)
     \<and> (\<forall>h\<in>passed S. slot_of S h = slot_of S t \<longrightarrow> t \<le> h \<longrightarrow> rank c < rank (cell_at S t))"
| "claim_ok S (Scanning h) \<longleftrightarrow> base S \<le> h \<and> h < next_deq S \<and> h \<notin> taken S \<and> h \<notin> passed S"
| "claim_ok S (Marking h c) \<longleftrightarrow> base S \<le> h \<and> h < next_deq S \<and> h \<notin> taken S \<and> h \<notin> passed S \<and> older c h"
| "claim_ok S (Taking h x) \<longleftrightarrow> base S \<le> h \<and> h < next_deq S \<and> h \<notin> taken S \<and> h \<notin> passed S
     \<and> (\<exists>s. cell_at S h = Cell h s (Some x))"

definition claims_ok :: "'x ticket_ring \<Rightarrow> bool" where
  "claims_ok S \<longleftrightarrow> (\<forall>i. claim_ok S (claims S i))"

definition one_owner :: "'x ticket_ring \<Rightarrow> bool" where
  "one_owner S \<longleftrightarrow> 
     (\<forall>i j t. enq_ticket (claims S i) = Some t \<longrightarrow> enq_ticket (claims S j) = Some t \<longrightarrow> i = j)
     \<and> (\<forall>i j t. deq_ticket (claims S i) = Some t \<longrightarrow> deq_ticket (claims S j) = Some t \<longrightarrow> i = j)"

text \<open>Every ticket drawn by a dequeuer is accounted for.\<close>

definition all_claimed :: "'x ticket_ring \<Rightarrow> bool" where
  "all_claimed S \<longleftrightarrow> (\<forall>h. base S \<le> h \<longrightarrow> h < next_deq S \<longrightarrow>
     h \<in> taken S \<or> h \<in> passed S \<or> (\<exists>i. deq_ticket (claims S i) = Some h))"

definition ticket_inv :: "'x ticket_ring \<Rightarrow> bool" where
  "ticket_inv S \<longleftrightarrow> cells_ok S \<and> live_ok S \<and> history_ok S \<and> passed_ok S \<and> claims_ok S \<and> one_owner S
     \<and> all_claimed S"


named_theorems ticket_defs "the parts of the invariant"

declare cells_ok_def [ticket_defs] live_ok_def [ticket_defs] history_ok_def [ticket_defs]
  passed_ok_def [ticket_defs] claims_ok_def [ticket_defs] one_owner_def [ticket_defs]
  all_claimed_def [ticket_defs]

section \<open>Frame facts\<close>

lemma set_claim_simps [simp]:
  "base (set_claim i c S) = base S" "next_deq (set_claim i c S) = next_deq S"
  "next_enq (set_claim i c S) = next_enq S" "cells (set_claim i c S) = cells S"
  "put_at (set_claim i c S) = put_at S" "taken (set_claim i c S) = taken S"
  "passed (set_claim i c S) = passed S" "claims (set_claim i c S) = (claims S)(i := c)"
  by (simp_all add: set_claim_def)

lemma set_cell_simps [simp]:
  "base (set_cell t c S) = base S" "next_deq (set_cell t c S) = next_deq S"
  "next_enq (set_cell t c S) = next_enq S" "cells (set_cell t c S) = (cells S)[slot_of S t := c]"
  "put_at (set_cell t c S) = put_at S" "taken (set_cell t c S) = taken S"
  "passed (set_cell t c S) = passed S" "claims (set_cell t c S) = claims S"
  by (simp_all add: set_cell_def)

lemma slot_of_cong: "length (cells S') = length (cells S) \<Longrightarrow> slot_of S' t = slot_of S t"
  by (simp add: slot_of_def)

lemma slot_of_simps [simp]:
  "slot_of (set_claim i c S) = slot_of S" "slot_of (set_cell t e S) = slot_of S"
  "slot_of (S\<lparr>next_enq := n\<rparr>) = slot_of S" "slot_of (S\<lparr>next_deq := n\<rparr>) = slot_of S"
  "slot_of (S\<lparr>put_at := p\<rparr>) = slot_of S" "slot_of (S\<lparr>taken := k\<rparr>) = slot_of S"
  "slot_of (S\<lparr>passed := k\<rparr>) = slot_of S"
  by (simp_all add: slot_of_def fun_eq_iff)

lemma cell_at_simps [simp]:
  "cell_at (set_claim i c S) = cell_at S"
  "cell_at (S\<lparr>next_enq := n\<rparr>) = cell_at S" "cell_at (S\<lparr>next_deq := n\<rparr>) = cell_at S"
  "cell_at (S\<lparr>put_at := p\<rparr>) = cell_at S" "cell_at (S\<lparr>taken := k\<rparr>) = cell_at S"
  "cell_at (S\<lparr>passed := k\<rparr>) = cell_at S"
  by (simp_all add: cell_at_def fun_eq_iff)

lemma slot_less: "cells_ok S \<Longrightarrow> slot_of S t < length (cells S)"
  by (simp add: slot_of_def cells_ok_def)

lemma cell_at_set_cell:
  "cells_ok S \<Longrightarrow>
     cell_at (set_cell t c S) u = (if slot_of S u = slot_of S t then c else cell_at S u)"
  using slot_less [of S t] by (simp add: cell_at_def)

lemma claim_ok_set_claim [simp]: "claim_ok (set_claim i c S) d = claim_ok S d"
  by (cases d) simp_all

lemma cell_owner:
  assumes "cells_ok S" "cell_at S t = Cell u s d"
  shows "slot_of S u = slot_of S t"
    "d = None \<Longrightarrow> u < next_deq S \<and> (u < base S \<or> u \<in> taken S \<or> u \<in> passed S)"
    "d = Some x \<Longrightarrow> put_at S u = Some x \<and> u \<notin> taken S"
  using assms slot_less [OF assms(1), of t] unfolding cells_ok_def cell_at_def by force+

text \<open>A vacant older content is below whatever an owner of the ticket leaves behind.\<close>

lemma rank_older: "older c t \<Longrightarrow> t \<le> u \<Longrightarrow> rank c < rank (Cell u s d)"
  by (cases c) auto

lemma rank_vacant_occupied:
  "vacant c \<Longrightarrow> rank c \<le> rank (Cell u s (Some x)) \<Longrightarrow> rank c < rank (Cell u s' (Some x))"
  by (cases c) (auto split: if_splits, presburger+)

lemma rank_marked: "older c h \<Longrightarrow> rank c \<le> rank (marked h c)"
  by (cases "(h, c)" rule: marked.cases) auto

lemma rank_vacant_marked:
  assumes "vacant c'" "older c' t" "t \<le> h" "rank c' \<le> rank c"
  shows "rank c' < rank (marked h c)"
proof (cases "(h, c)" rule: marked.cases)
  case (3 h u s x)
  with assms(1,4) rank_vacant_occupied [of c' u s x False] show ?thesis by simp
qed (use assms rank_older in \<open>auto simp del: rank.simps\<close>)

section \<open>Steps that change claims only\<close>

lemma claims_ok_update: "claims_ok S \<Longrightarrow> claim_ok S c \<Longrightarrow> claims_ok (set_claim i c S)"
  by (simp add: claims_ok_def)

lemma one_owner_update:
  assumes "one_owner S"
    and "\<And>j t. enq_ticket c = Some t \<Longrightarrow> enq_ticket (claims S j) = Some t \<Longrightarrow> j = i"
    and "\<And>j t. deq_ticket c = Some t \<Longrightarrow> deq_ticket (claims S j) = Some t \<Longrightarrow> j = i"
  shows "one_owner (set_claim i c S)"
  using assms unfolding one_owner_def by (auto simp del: split_paired_All)

lemma one_owner_keep:
  assumes "one_owner S"
    and "enq_ticket c = enq_ticket (claims S i) \<or> enq_ticket c = None"
    and "deq_ticket c = deq_ticket (claims S i) \<or> deq_ticket c = None"
  shows "one_owner (set_claim i c S)"
proof (rule one_owner_update [OF assms(1)])
  show "j = i" if "enq_ticket c = Some t" "enq_ticket (claims S j) = Some t" for j t
    using assms(1,2) that unfolding one_owner_def by (elim disjE) (metis, simp)
  show "j = i" if "deq_ticket c = Some t" "deq_ticket (claims S j) = Some t" for j t
    using assms(1,3) that unfolding one_owner_def by (elim disjE) (metis, simp)
qed

lemma all_claimed_update:
  assumes "all_claimed S" "deq_ticket c = deq_ticket (claims S i)"
  shows "all_claimed (set_claim i c S)"
  unfolding all_claimed_def
proof (intro allI impI)
  fix h assume "base (set_claim i c S) \<le> h" "h < next_deq (set_claim i c S)"
  with assms(1) have "h \<in> taken S \<or> h \<in> passed S \<or> (\<exists>j. deq_ticket (claims S j) = Some h)"
    by (simp add: all_claimed_def)
  moreover have "deq_ticket (claims (set_claim i c S) j) = deq_ticket (claims S j)" for j
    using assms(2) by simp
  ultimately show "h \<in> taken (set_claim i c S) \<or> h \<in> passed (set_claim i c S)
      \<or> (\<exists>j. deq_ticket (claims (set_claim i c S) j) = Some h)"
    by simp
qed

lemma claim_update:
  assumes "ticket_inv S" "claim_ok S c"
    and "enq_ticket c = enq_ticket (claims S i) \<or> enq_ticket c = None"
    and "deq_ticket c = deq_ticket (claims S i)"
  shows "ticket_inv (set_claim i c S)"
  using assms claims_ok_update [of S c i] one_owner_keep [of S c i] all_claimed_update [of S c i]
  by (auto simp: ticket_inv_def cells_ok_def live_ok_def history_ok_def passed_ok_def)


section \<open>Drawing tickets\<close>

lemma claim_ok_grow:
  assumes "claim_ok S c" "next_enq S \<le> e" "next_deq S \<le> d"
  shows "claim_ok (S\<lparr>next_enq := e, next_deq := d\<rparr>) c"
  using assms by (cases c) (auto simp: cell_at_def slot_of_def)

lemma grow:
  assumes "ticket_inv S" "next_enq S \<le> e"
  shows "ticket_inv (S\<lparr>next_enq := e\<rparr>)"
proof -
  have "claim_ok (S\<lparr>next_enq := e\<rparr>) (claims S j)" for j
    using claim_ok_grow [of S "claims S j" e "next_deq S"] assms
    by (simp add: ticket_inv_def claims_ok_def)
  moreover have "dom (put_at S) \<subseteq> {base S..<e}"
    using assms by (force simp: ticket_inv_def history_ok_def)
  ultimately show ?thesis
    using assms
    by (auto simp: ticket_inv_def ticket_defs cell_at_def slot_of_def)
qed

lemma enq_ticket_bound: "claim_ok S c \<Longrightarrow> enq_ticket c = Some t \<Longrightarrow> t < next_enq S \<and> put_at S t = None"
  by (cases c) auto

lemma deq_ticket_bound:
  "claim_ok S c \<Longrightarrow> deq_ticket c = Some t
     \<Longrightarrow> base S \<le> t \<and> t < next_deq S \<and> t \<notin> taken S \<and> t \<notin> passed S"
  by (cases c) auto

lemma inv_draw:
  assumes inv: "ticket_inv S" and i: "claims S i = Want x"
  shows "ticket_inv (set_claim i (Drawn x (next_enq S)) (S\<lparr>next_enq := Suc (next_enq S)\<rparr>))"
    (is "ticket_inv (set_claim i ?c ?S)")
proof -
  have g: "ticket_inv ?S"
    using inv by (rule grow) simp
  have new: "put_at S (next_enq S) = None"
    using inv by (auto simp: ticket_inv_def history_ok_def)
  have "claim_ok ?S ?c"
    using inv new by (auto simp: ticket_inv_def history_ok_def)
  with g have "claims_ok (set_claim i ?c ?S)"
    by (intro claims_ok_update) (simp_all add: ticket_inv_def)
  moreover have "one_owner (set_claim i ?c ?S)"
  proof (rule one_owner_update)
    show "one_owner ?S" using g by (simp add: ticket_inv_def)
    show "j = i" if "enq_ticket ?c = Some t" "enq_ticket (claims ?S j) = Some t" for j t
      using enq_ticket_bound [of S "claims S j" t] that inv by (simp add: ticket_inv_def claims_ok_def)
  qed simp
  moreover have "all_claimed (set_claim i ?c ?S)"
    using g i by (intro all_claimed_update) (simp_all add: ticket_inv_def)
  ultimately show ?thesis
    using g by (simp add: ticket_inv_def cells_ok_def live_ok_def history_ok_def passed_ok_def)
qed

lemma inv_scan:
  assumes inv: "ticket_inv S" and i: "claims S i = Free"
  shows "ticket_inv (set_claim i (Scanning (next_deq S)) (S\<lparr>next_deq := Suc (next_deq S)\<rparr>))"
    (is "ticket_inv (set_claim i ?c ?S)")
proof -
  have "claim_ok ?S (claims S j)" for j
    using claim_ok_grow [of S "claims S j" "next_enq S" "Suc (next_deq S)"] inv
    by (simp add: ticket_inv_def claims_ok_def)
  then have g: "claims_ok ?S" "one_owner ?S"
    using inv by (simp_all add: ticket_inv_def claims_ok_def one_owner_def)
  have "claim_ok ?S ?c"
    using inv by (auto simp: ticket_inv_def history_ok_def)
  with g have "claims_ok (set_claim i ?c ?S)"
    by (intro claims_ok_update)
  moreover have "one_owner (set_claim i ?c ?S)"
  proof (rule one_owner_update [OF g(2)])
    show "j = i" if "deq_ticket ?c = Some t" "deq_ticket (claims ?S j) = Some t" for j t
      using deq_ticket_bound [of S "claims S j" t] that inv by (simp add: ticket_inv_def claims_ok_def)
  qed simp
  moreover have "all_claimed (set_claim i ?c ?S)"
    unfolding all_claimed_def
  proof (intro allI impI)
    fix h assume h: "base (set_claim i ?c ?S) \<le> h" "h < next_deq (set_claim i ?c ?S)"
    show "h \<in> taken (set_claim i ?c ?S) \<or> h \<in> passed (set_claim i ?c ?S)
        \<or> (\<exists>j. deq_ticket (claims (set_claim i ?c ?S) j) = Some h)"
    proof (cases "h = next_deq S")
      case True
      then show ?thesis by (auto intro: exI [of _ i])
    next
      case False
      with h inv have "h \<in> taken S \<or> h \<in> passed S \<or> (\<exists>j. deq_ticket (claims S j) = Some h)"
        by (simp add: ticket_inv_def all_claimed_def)
      then show ?thesis
      proof (elim disjE exE)
        fix j assume "deq_ticket (claims S j) = Some h"
        with i have "deq_ticket (claims (set_claim i ?c ?S) j) = Some h"
          by auto
        then show ?thesis by blast
      qed auto
    qed
  qed
  moreover have "live_ok ?S" "passed_ok ?S"
    using inv by (simp_all add: ticket_inv_def live_ok_def passed_ok_def)
  moreover have "history_ok ?S"
    using inv by (force simp: ticket_inv_def history_ok_def)
  moreover have "cells_ok ?S"
    using inv by (simp add: ticket_inv_def cells_ok_def less_Suc_eq)
  ultimately show ?thesis
    by (simp add: ticket_inv_def cells_ok_def live_ok_def history_ok_def passed_ok_def)
qed


section \<open>Moves at a slot\<close>

text \<open>A dequeuer whose ticket is now in the history gives up its claim.\<close>

lemma all_claimed_done:
  assumes "all_claimed S" "deq_ticket (claims S i) = Some h" "h \<in> taken S' \<union> passed S'"
    and "taken S \<subseteq> taken S'" "passed S \<subseteq> passed S'" "claims S' = (claims S)(i := Free)"
    and "base S' = base S" "next_deq S' = next_deq S"
  shows "all_claimed S'"
  unfolding all_claimed_def
proof (intro allI impI)
  fix g assume "base S' \<le> g" "g < next_deq S'"
  with assms(1,7,8) have "g \<in> taken S \<or> g \<in> passed S \<or> (\<exists>j. deq_ticket (claims S j) = Some g)"
    by (simp add: all_claimed_def)
  then show "g \<in> taken S' \<or> g \<in> passed S' \<or> (\<exists>j. deq_ticket (claims S' j) = Some g)"
  proof (elim disjE exE)
    fix j assume j: "deq_ticket (claims S j) = Some g"
    show ?thesis
    proof (cases "j = i")
      case True
      with j assms(2,3) show ?thesis by auto
    next
      case False
      with j assms(6) have "deq_ticket (claims S' j) = Some g" by simp
      then show ?thesis by blast
    qed
  qed (use assms(4,5) in blast)+
qed

text \<open>What the other threads see of a move at the slot of \<open>t\<close>: a higher rank, never a lower one.\<close>

lemma claim_ok_move:
  assumes "claim_ok S c" "cells_ok S" "cells_ok S'"
    and base: "base S' = base S" "next_enq S' = next_enq S" "next_deq S' = next_deq S"
    and slot: "slot_of S' = slot_of S"
    and cell: "\<And>u. cell_at S' u = (if slot_of S u = slot_of S t then e else cell_at S u)"
    and rank: "rank (cell_at S t) \<le> rank e"
    and fresh: "\<And>u. enq_ticket c = Some u \<Longrightarrow> put_at S' u = put_at S u"
    and mine: "\<And>u. deq_ticket c = Some u \<Longrightarrow> u \<notin> taken S' \<and> u \<notin> passed S'"
    and hist: "\<And>x u. c = Taking u x \<Longrightarrow> slot_of S u = slot_of S t \<Longrightarrow> \<exists>s. e = Cell u s (Some x)"
    and late: "\<And>x u c'. c = Poised x u c' \<Longrightarrow> slot_of S u = slot_of S t \<Longrightarrow> vacant c' \<Longrightarrow> older c' u
                 \<Longrightarrow> rank c' \<le> rank (cell_at S t)
                 \<Longrightarrow> \<forall>h\<in>passed S' - passed S. u \<le> h \<longrightarrow> rank c' < rank e"
    and pass: "\<And>h. h \<in> passed S' - passed S \<Longrightarrow> slot_of S h = slot_of S t"
  shows "claim_ok S' c"
proof -
  have up: "rank (cell_at S u) \<le> rank (cell_at S' u)" for u
    using rank cell [of u] by (auto simp: cell_at_def)
  show ?thesis
  proof (cases c)
    case (Seen x u c')
    with assms(1) base fresh [of u] up [of u] show ?thesis by auto
  next
    case (Poised x u c')
    have "rank c' < rank (cell_at S' u)"
      if "h \<in> passed S'" "slot_of S h = slot_of S u" "u \<le> h" for h
    proof (cases "h \<in> passed S")
      case True
      with assms(1) Poised that up [of u] show ?thesis by force
    next
      case False
      with that pass [of h] have eq: "slot_of S u = slot_of S t" by simp
      then have "cell_at S u = cell_at S t" by (simp add: cell_at_def)
      with late [OF Poised eq] False that assms(1) Poised eq cell [of u] show ?thesis by auto
    qed
    with assms(1) base fresh [of u] up [of u] Poised slot show ?thesis by auto
  next
    case (Taking h x)
    with assms(1) base mine [of h] hist [OF Taking] cell [of h] show ?thesis by auto
  qed (use assms(1) base fresh mine in auto)
qed

lemma slot_of_update [simp]: "slot_of (S\<lparr>claims := f\<rparr>) = slot_of S"
  by (simp add: slot_of_def fun_eq_iff)

lemma cells_ok_move:
  assumes "cells_ok S" "cells S' = (cells S)[slot_of S t := e]"
    and "base S' = base S" "next_deq S' = next_deq S"
    and "taken S \<subseteq> taken S'" "passed S \<subseteq> passed S'"
    and old: "\<And>u. slot_of S u \<noteq> slot_of S t \<Longrightarrow> put_at S' u = put_at S u \<and> (u \<in> taken S' \<longrightarrow> u \<in> taken S)"
    and new: "\<And>u s d. e = Cell u s d \<Longrightarrow> slot_of S u = slot_of S t
        \<and> (d = None \<longrightarrow> u < next_deq S \<and> (u < base S \<or> u \<in> taken S' \<or> u \<in> passed S'))
        \<and> (\<forall>x. d = Some x \<longrightarrow> put_at S' u = Some x \<and> u \<notin> taken S')"
  shows "cells_ok S'"
proof -
  have slot: "slot_of S' = slot_of S"
    using assms(2) by (simp add: slot_of_def fun_eq_iff)
  have body: "slot_of S u = j
      \<and> (d = None \<longrightarrow> u < next_deq S \<and> (u < base S \<or> u \<in> taken S' \<or> u \<in> passed S'))
      \<and> (\<forall>x. d = Some x \<longrightarrow> put_at S' u = Some x \<and> u \<notin> taken S')"
    if j: "j < length (cells S)" "cells S' ! j = Cell u s d" for j u s d
  proof (cases "j = slot_of S t")
    case True
    with j assms(2) have "e = Cell u s d" by simp
    with new True show ?thesis by simp
  next
    case False
    with j assms(1,2) have "slot_of S u = j"
        "d = None \<longrightarrow> u < next_deq S \<and> (u < base S \<or> u \<in> taken S \<or> u \<in> passed S)"
        "\<forall>x. d = Some x \<longrightarrow> put_at S u = Some x \<and> u \<notin> taken S"
      by (simp_all add: cells_ok_def)
    with False old [of u] assms(5,6) show ?thesis by auto
  qed
  have len: "length (cells S') = length (cells S)" and ne: "cells S' \<noteq> []"
    using assms(1,2) by (simp_all add: cells_ok_def)
  show ?thesis
    unfolding cells_ok_def slot assms(3,4) len using ne body by blast
qed

lemma inv_store:
  assumes inv: "ticket_inv S" and i: "claims S i = Poised x t c" and c: "cell_at S t = c"
  shows "ticket_inv
    (set_claim i Free (set_cell t (Cell t True (Some x)) (S\<lparr>put_at := (put_at S)(t \<mapsto> x)\<rparr>)))"
    (is "ticket_inv ?S")
proof -
  note parts = inv [unfolded ticket_inv_def]
  have co: "cells_ok S" using parts by simp
  have ok: "claim_ok S (claims S i)" using parts by (simp add: claims_ok_def)
  have t: "base S \<le> t" "t < next_enq S" "put_at S t = None" "older c t" "vacant c"
      "\<forall>h\<in>passed S. slot_of S h = slot_of S t \<longrightarrow> h < t"
    using ok i c by auto
  have nt: "t \<notin> taken S" "t \<notin> passed S"
    using t parts by (auto simp: history_ok_def)
  have cell: "cell_at ?S u = (if slot_of S u = slot_of S t then Cell t True (Some x) else cell_at S u)" for u
    using slot_less [OF co, of t] by (simp add: cell_at_def)
  have vac: "cell_at S u = c" if "slot_of S u = slot_of S t" for u
    using that c by (simp add: cell_at_def)
  have "cells_ok ?S"
    using nt by (intro cells_ok_move [OF co, where t = t and e = "Cell t True (Some x)"]) auto
  moreover have "live_ok ?S"
    unfolding live_ok_def
  proof (intro allI impI)
    fix u y assume u: "put_at ?S u = Some y" "u \<notin> taken ?S"
    show "\<exists>s. cell_at ?S u = Cell u s (Some y)"
    proof (cases "u = t")
      case True
      with u cell [of t] show ?thesis by (intro exI [of _ True]) simp
    next
      case False
      with u parts obtain s where "cell_at S u = Cell u s (Some y)"
        by (auto simp: live_ok_def)
      with cell [of u] vac [of u] t(5) show ?thesis by auto
    qed
  qed
  moreover have "history_ok ?S"
    using parts t nt by (auto simp: history_ok_def)
  moreover have "passed_ok ?S"
    unfolding passed_ok_def
  proof
    fix h assume "h \<in> passed ?S"
    then have h: "h \<in> passed S" by simp
    then obtain u s d where "cell_at S h = Cell u s d" "h \<le> u \<or> \<not> s"
      using parts by (auto simp: passed_ok_def)
    with cell [of h] t(6) h show "\<exists>u s d. cell_at ?S h = Cell u s d \<and> (h \<le> u \<or> \<not> s)"
      by (cases "slot_of S h = slot_of S t") (auto intro: less_imp_le)
  qed
  moreover have "claims_ok ?S"
    unfolding claims_ok_def
  proof
    fix j
    show "claim_ok ?S (claims ?S j)"
    proof (cases "j = i")
      case False
      show ?thesis
      proof (rule claim_ok_move [where t = t and S = S])
        show "claim_ok S (claims ?S j)"
          using False parts by (simp add: claims_ok_def)
        show "put_at ?S u = put_at S u" if "enq_ticket (claims ?S j) = Some u" for u
          using that False i parts by (auto simp: one_owner_def)
        show "u \<notin> taken ?S \<and> u \<notin> passed ?S" if "deq_ticket (claims ?S j) = Some u" for u
          using that False deq_ticket_bound [of S "claims S j" u] parts by (simp add: claims_ok_def)
        show "\<exists>s. Cell t True (Some x) = Cell u s (Some y)"
          if "claims ?S j = Taking u y" "slot_of S u = slot_of S t" for y u
        proof -
          have "claim_ok S (Taking u y)"
            using that(1) False parts by (auto simp: claims_ok_def dest: spec [of _ j])
          with vac [OF that(2)] t(5) show ?thesis by auto
        qed
        show "rank (cell_at S t) \<le> rank (Cell t True (Some x))"
          using rank_older [OF t(4) order.refl, of True "Some x"] c by simp
      qed (use co \<open>cells_ok ?S\<close> cell in simp_all)
    qed simp
  qed
  moreover have "one_owner ?S"
    using parts by (intro one_owner_keep) (simp_all add: one_owner_def)
  moreover have "all_claimed ?S"
    using parts i by (intro all_claimed_update) (simp_all add: all_claimed_def)
  ultimately show ?thesis by (simp add: ticket_inv_def)
qed


lemma set_cell_same [simp]: "set_cell t (cell_at S t) S = S"
  by (simp add: set_cell_def cell_at_def)

text \<open>What a dequeuer that gives up the slot of its ticket \<open>h\<close> may leave there, as \<open>e\<close>.\<close>

definition departing :: "nat \<Rightarrow> nat \<Rightarrow> 'a cell \<Rightarrow> 'a ticket_ring \<Rightarrow> bool" where
  "departing i h e S \<longleftrightarrow> ticket_inv S \<and> deq_ticket (claims S i) = Some h
     \<and> (\<exists>u s d. e = Cell u s d \<and> (h \<le> u \<or> \<not> s))
     \<and> (e = cell_at S h \<or> vacant (cell_at S h) \<and> e = Cell h (safe (cell_at S h)) None
         \<or> (\<exists>u s s' x. cell_at S h = Cell u s (Some x) \<and> e = Cell u s' (Some x)))
     \<and> (\<forall>s x. cell_at S h \<noteq> Cell h s (Some x)) \<and> rank (cell_at S h) \<le> rank e
     \<and> (\<forall>(c :: 'a cell) t. vacant c \<longrightarrow> older c t \<longrightarrow> t \<le> h \<longrightarrow> rank c \<le> rank (cell_at S h) \<longrightarrow> rank c < rank e)"

definition departed :: "nat \<Rightarrow> nat \<Rightarrow> 'a cell \<Rightarrow> 'a ticket_ring \<Rightarrow> 'a ticket_ring" where
  "departed i h e S = set_claim i Free (set_cell h e (S\<lparr>passed := insert h (passed S)\<rparr>))"

lemma departing_parts:
  fixes S :: "'a ticket_ring" and c :: "'a cell"
  assumes "departing i h e S"
  shows "cells_ok S" "live_ok S" "history_ok S" "passed_ok S" "claims_ok S" "one_owner S" "all_claimed S"
    "deq_ticket (claims S i) = Some h" "\<exists>u s d. e = Cell u s d \<and> (h \<le> u \<or> \<not> s)"
    "e = cell_at S h \<or> vacant (cell_at S h) \<and> e = Cell h (safe (cell_at S h)) None
       \<or> (\<exists>u s s' x. cell_at S h = Cell u s (Some x) \<and> e = Cell u s' (Some x))"
    "cell_at S h \<noteq> Cell h s (Some x)" "rank (cell_at S h) \<le> rank e"
    "vacant c \<Longrightarrow> older c t \<Longrightarrow> t \<le> h \<Longrightarrow> rank c \<le> rank (cell_at S h) \<Longrightarrow> rank c < rank e"
proof -
  note d = assms [unfolded departing_def ticket_inv_def]
  show "cells_ok S" "live_ok S" "history_ok S" "passed_ok S" "claims_ok S" "one_owner S" "all_claimed S"
    "deq_ticket (claims S i) = Some h" "\<exists>u s d. e = Cell u s d \<and> (h \<le> u \<or> \<not> s)"
    "e = cell_at S h \<or> vacant (cell_at S h) \<and> e = Cell h (safe (cell_at S h)) None
       \<or> (\<exists>u s s' x. cell_at S h = Cell u s (Some x) \<and> e = Cell u s' (Some x))" "rank (cell_at S h) \<le> rank e"
    using d by (simp_all only: simp_thms)
  have "\<forall>s x. cell_at S h \<noteq> Cell h s (Some x)" using d by (elim conjE)
  then show "cell_at S h \<noteq> Cell h s (Some x)" by simp
  have "\<forall>(c :: 'a cell) t. vacant c \<longrightarrow> older c t \<longrightarrow> t \<le> h \<longrightarrow> rank c \<le> rank (cell_at S h) \<longrightarrow> rank c < rank e"
    using d by (elim conjE)
  then show "vacant c \<Longrightarrow> older c t \<Longrightarrow> t \<le> h \<Longrightarrow> rank c \<le> rank (cell_at S h) \<Longrightarrow> rank c < rank e" by blast
qed

lemma departing_ticket:
  assumes "departing i h e S"
  shows "base S \<le> h" "h < next_deq S" "h \<notin> taken S" "h \<notin> passed S" "put_at S h = None"
proof -
  note parts = departing_parts [OF assms]
  show h: "base S \<le> h" "h < next_deq S" "h \<notin> taken S" "h \<notin> passed S"
    using deq_ticket_bound [of S "claims S i" h] parts(5,8) by (simp_all add: claims_ok_def)
  show "put_at S h = None"
    using parts(2,11) h(3) unfolding live_ok_def by (metis option.exhaust)
qed

lemma departed_cell:
  assumes "departing i h e S"
  shows "cell_at (departed i h e S) u = (if slot_of S u = slot_of S h then e else cell_at S u)"
    and "slot_of S u = slot_of S h \<Longrightarrow> cell_at S u = cell_at S h"
  using slot_less [OF departing_parts(1) [OF assms], of h] by (simp_all add: departed_def cell_at_def)

lemma departed_cells:
  assumes dep: "departing i h e S"
  shows "cells_ok (departed i h e S)"
proof -
  note parts = departing_parts [OF dep]
  show ?thesis
    unfolding departed_def
  proof (rule cells_ok_move [OF parts(1), where t = h and e = e])
    let ?S = "set_claim i Free (set_cell h e (S\<lparr>passed := insert h (passed S)\<rparr>))"
    fix u s d assume eq: "e = Cell u s d"
    note own = cell_owner [OF parts(1), of h]
    show "slot_of S u = slot_of S h
        \<and> (d = None \<longrightarrow> u < next_deq S \<and> (u < base S \<or> u \<in> taken ?S \<or> u \<in> passed ?S))
        \<and> (\<forall>x. d = Some x \<longrightarrow> put_at ?S u = Some x \<and> u \<notin> taken ?S)"
      using parts(10)
    proof (elim disjE conjE exE)
      assume "e = cell_at S h"
      with eq own [of u s d] show ?thesis by auto
    next
      assume "e = Cell h (safe (cell_at S h)) None"
      with eq departing_ticket(2) [OF dep] show ?thesis by simp
    next
      fix u' s' s2 x assume "cell_at S h = Cell u' s' (Some x)" "e = Cell u' s2 (Some x)"
      with eq own [of u' s' "Some x"] show ?thesis by auto
    qed
  qed auto
qed

lemma departed_live:
  assumes dep: "departing i h e S"
  shows "live_ok (departed i h e S)"
  unfolding live_ok_def
proof (intro allI impI)
  note parts = departing_parts [OF dep] and cell = departed_cell [OF dep]
  fix u y assume "put_at (departed i h e S) u = Some y" "u \<notin> taken (departed i h e S)"
  then obtain s where s: "cell_at S u = Cell u s (Some y)"
    using parts(2) by (auto simp: live_ok_def departed_def)
  show "\<exists>s. cell_at (departed i h e S) u = Cell u s (Some y)"
  proof (cases "slot_of S u = slot_of S h")
    case True
    with s cell(2) [of u] have "cell_at S h = Cell u s (Some y)" by simp
    with parts(10) cell(1) [of u] True show ?thesis by (elim disjE conjE exE) simp_all
  next
    case False
    with s cell(1) [of u] show ?thesis by simp
  qed
qed

lemma departed_passed:
  assumes dep: "departing i h e S"
  shows "passed_ok (departed i h e S)"
  unfolding passed_ok_def
proof
  note parts = departing_parts [OF dep] and cell = departed_cell [OF dep]
  fix g assume g: "g \<in> passed (departed i h e S)"
  show "\<exists>u s d. cell_at (departed i h e S) g = Cell u s d \<and> (g \<le> u \<or> \<not> s)"
  proof (cases "g = h")
    case False
    with g parts(4) obtain u s d where gc: "cell_at S g = Cell u s d" "g \<le> u \<or> \<not> s"
      by (auto simp: passed_ok_def departed_def)
    show ?thesis
    proof (cases "slot_of S g = slot_of S h")
      case True
      have c0: "cell_at S h = Cell u s d" using gc(1) cell(2) [OF True] by simp
      have "\<exists>u s d. e = Cell u s d \<and> (g \<le> u \<or> \<not> s)"
        using parts(10)
      proof (elim disjE conjE exE)
        assume "e = Cell h (safe (cell_at S h)) None"
        with c0 gc(2) parts(12) show ?thesis by (auto split: if_splits)
      next
        fix u' s1 s2 x assume "cell_at S h = Cell u' s1 (Some x)" "e = Cell u' s2 (Some x)"
        with c0 gc(2) parts(12) show ?thesis by (auto split: if_splits)
      qed (use c0 gc(2) in simp)
      with cell(1) [of g] True show ?thesis by simp
    qed (use cell(1) [of g] gc in simp)
  qed (use parts(9) cell(1) [of h] in simp)
qed

lemma departed_claims:
  fixes S :: "'a ticket_ring"
  assumes dep: "departing i h e S"
  shows "claims_ok (departed i h e S)"
  unfolding claims_ok_def
proof
  let ?S = "departed i h e S"
  note parts = departing_parts [OF dep] and cell = departed_cell [OF dep]
  have claims: "claims ?S = (claims S)(i := Free)" "taken ?S = taken S" "passed ?S = insert h (passed S)"
    by (simp_all add: departed_def)
  fix j
  show "claim_ok ?S (claims ?S j)"
  proof (cases "j = i")
    case False
    show ?thesis
    proof (rule claim_ok_move [where t = h and S = S])
      show "claim_ok S (claims ?S j)"
        using False parts(5) by (simp add: claims_ok_def claims)
      show "u \<notin> taken ?S \<and> u \<notin> passed ?S" if "deq_ticket (claims ?S j) = Some u" for u
        using that False parts(5,6,8) deq_ticket_bound [of S "claims S j" u]
        by (auto simp: claims_ok_def one_owner_def claims)
      show "\<exists>s. e = Cell u s (Some y)"
        if "claims ?S j = Taking u y" "slot_of S u = slot_of S h" for y u
      proof -
        have "claim_ok S (Taking u y)"
          using that(1) False parts(5) by (auto simp: claims_ok_def claims dest: spec [of _ j])
        with cell(2) [OF that(2)] parts(10) show ?thesis by auto
      qed
      show "\<forall>g\<in>passed ?S - passed S. u \<le> g \<longrightarrow> rank c' < rank e"
        if "vacant c'" "older c' u" "rank c' \<le> rank (cell_at S h)" for u and c' :: "'a cell"
        using parts(13) [OF that(1,2) _ that(3)] by (auto simp: claims)
    qed (use parts(1,12) departed_cells [OF dep] cell(1) in \<open>auto simp: departed_def\<close>)
  qed (simp add: claims)
qed

lemma inv_depart:
  fixes S :: "'a ticket_ring"
  assumes inv: "ticket_inv S" and i: "deq_ticket (claims S i) = Some h"
    and e: "\<exists>u s d. e = Cell u s d \<and> (h \<le> u \<or> \<not> s)"
    and content: "e = cell_at S h \<or> vacant (cell_at S h) \<and> e = Cell h (safe (cell_at S h)) None
                  \<or> (\<exists>u s s' x. cell_at S h = Cell u s (Some x) \<and> e = Cell u s' (Some x))"
    and other: "\<And>s x. cell_at S h \<noteq> Cell h s (Some x)"
    and rank: "rank (cell_at S h) \<le> rank e"
    and late: "\<And>(c :: 'a cell) t. vacant c \<Longrightarrow> older c t \<Longrightarrow> t \<le> h \<Longrightarrow> rank c \<le> rank (cell_at S h)
                 \<Longrightarrow> rank c < rank e"
  shows "ticket_inv (set_claim i Free (set_cell h e (S\<lparr>passed := insert h (passed S)\<rparr>)))"
proof -
  have dep: "departing i h e S"
    unfolding departing_def using late other by (intro conjI allI impI inv i e content rank) simp_all
  note parts = departing_parts [OF dep] and h = departing_ticket [OF dep]
  have "history_ok (departed i h e S)"
    using parts(3) h by (auto simp: history_ok_def departed_def)
  moreover have "one_owner (departed i h e S)"
    using parts(6) unfolding departed_def by (intro one_owner_keep) (simp_all add: one_owner_def)
  moreover have "all_claimed (departed i h e S)"
    by (rule all_claimed_done [OF parts(7)]) (use i in \<open>auto simp: departed_def\<close>)
  ultimately have "ticket_inv (departed i h e S)"
    using departed_cells [OF dep] departed_live [OF dep] departed_passed [OF dep] departed_claims [OF dep]
    by (simp add: ticket_inv_def)
  then show ?thesis by (simp only: departed_def)
qed


lemma inv_pass:
  fixes S :: "'a ticket_ring"
  assumes inv: "ticket_inv S" and i: "claims S i = Scanning h"
    and c: "cell_at S h = Cell u s d" "h < u \<or> \<not> s \<and> u \<noteq> h \<and> d \<noteq> None"
  shows "ticket_inv (set_claim i Free (S\<lparr>passed := insert h (passed S)\<rparr>))"
proof -
  have "rank c' < rank (cell_at S h)"
    if "vacant c'" "older c' t" "t \<le> h" "rank c' \<le> rank (cell_at S h)" for c' :: "'a cell" and t
    using c(2)
  proof
    assume "h < u"
    with that c(1) rank_older [of c' t u s d] show ?thesis by simp
  next
    assume "\<not> s \<and> u \<noteq> h \<and> d \<noteq> None"
    with that c(1) rank_vacant_occupied [of c' u s _ s] show ?thesis by fastforce
  qed
  then have "ticket_inv
      (set_claim i Free (set_cell h (cell_at S h) (S\<lparr>passed := insert h (passed S)\<rparr>)))"
    using inv i c by (intro inv_depart) (auto simp del: rank.simps)
  then show ?thesis
    using set_cell_same [of h "S\<lparr>passed := insert h (passed S)\<rparr>"] by simp
qed

lemma inv_leave:
  fixes S :: "'a ticket_ring"
  assumes inv: "ticket_inv S" and i: "claims S i = Marking h c" and c: "cell_at S h = c"
  shows "ticket_inv (set_claim i Free (set_cell h (marked h c) (S\<lparr>passed := insert h (passed S)\<rparr>)))"
proof (rule inv_depart [OF inv])
  have "claim_ok S (Marking h c)"
    using inv i by (auto simp: ticket_inv_def claims_ok_def dest: spec [of _ i])
  then have old: "older c h" by simp
  show "deq_ticket (claims S i) = Some h" using i by simp
  show "\<exists>u s d. marked h c = Cell u s d \<and> (h \<le> u \<or> \<not> s)"
    by (cases "(h, c)" rule: marked.cases) auto
  show "marked h c = cell_at S h
      \<or> vacant (cell_at S h) \<and> marked h c = Cell h (safe (cell_at S h)) None
      \<or> (\<exists>u s s' x. cell_at S h = Cell u s (Some x) \<and> marked h c = Cell u s' (Some x))"
    using c by (cases "(h, c)" rule: marked.cases) auto
  show "cell_at S h \<noteq> Cell h s (Some x)" for s x
    using old c by auto
  show "rank (cell_at S h) \<le> rank (marked h c)"
    using old c by (simp add: rank_marked)
  show "rank c' < rank (marked h c)"
    if "vacant c'" "older c' t" "t \<le> h" "rank c' \<le> rank (cell_at S h)" for c' :: "'a cell" and t
    using that c by (simp add: rank_vacant_marked)
qed

lemma inv_remove:
  assumes inv: "ticket_inv S" and i: "claims S i = Taking h x" and c: "cell_at S h = Cell h s d"
  shows "ticket_inv (set_claim i Free (set_cell h (Cell h s None) (S\<lparr>taken := insert h (taken S)\<rparr>)))"
    (is "ticket_inv ?S") and "d = Some x" and "put_at S h = Some x" and "h \<notin> taken S"
proof -
  note parts = inv [unfolded ticket_inv_def]
  have co: "cells_ok S" using parts by simp
  have "claim_ok S (Taking h x)"
    using parts i by (auto simp: claims_ok_def dest: spec [of _ i])
  with c have h: "base S \<le> h" "h < next_deq S" "h \<notin> passed S" and d: "d = Some x" and nt: "h \<notin> taken S"
    by auto
  then have put: "put_at S h = Some x"
    using cell_owner(3) [OF co c] by simp
  show "d = Some x" "put_at S h = Some x" "h \<notin> taken S" by fact+
  have cell: "cell_at ?S u = (if slot_of S u = slot_of S h then Cell h s None else cell_at S u)" for u
    using slot_less [OF co, of h] by (simp add: cell_at_def)
  have same: "cell_at S u = Cell h s d" if "slot_of S u = slot_of S h" for u
    using that c by (simp add: cell_at_def)
  have "cells_ok ?S"
    using h by (intro cells_ok_move [OF co, where t = h and e = "Cell h s None"]) auto
  moreover have "live_ok ?S"
    unfolding live_ok_def
  proof (intro allI impI)
    fix u y assume u: "put_at ?S u = Some y" "u \<notin> taken ?S"
    then obtain s' where "cell_at S u = Cell u s' (Some y)"
      using parts by (auto simp: live_ok_def)
    with u cell [of u] same [of u] show "\<exists>s. cell_at ?S u = Cell u s (Some y)" by auto
  qed
  moreover have "history_ok ?S"
    using parts h put by (auto simp: history_ok_def)
  moreover have "passed_ok ?S"
    unfolding passed_ok_def
  proof
    fix g assume "g \<in> passed ?S"
    then obtain u s' d' where "cell_at S g = Cell u s' d'" "g \<le> u \<or> \<not> s'"
      using parts by (auto simp: passed_ok_def)
    with cell [of g] same [of g] show "\<exists>u s d. cell_at ?S g = Cell u s d \<and> (g \<le> u \<or> \<not> s)"
      by (cases "slot_of S g = slot_of S h") auto
  qed
  moreover have "claims_ok ?S"
    unfolding claims_ok_def
  proof
    fix j
    show "claim_ok ?S (claims ?S j)"
    proof (cases "j = i")
      case False
      show ?thesis
      proof (rule claim_ok_move [where t = h and S = S])
        show "claim_ok S (claims ?S j)"
          using False parts by (simp add: claims_ok_def)
        show "u \<notin> taken ?S \<and> u \<notin> passed ?S" if "deq_ticket (claims ?S j) = Some u" for u
          using that False i deq_ticket_bound [of S "claims S j" u] parts
          by (auto simp: claims_ok_def one_owner_def)
        show "\<exists>s'. Cell h s None = Cell u s' (Some y)"
          if "claims ?S j = Taking u y" "slot_of S u = slot_of S h" for y u
        proof -
          have j: "claims S j = Taking u y" using that(1) False by simp
          then have "claim_ok S (Taking u y)"
            using parts by (auto simp: claims_ok_def dest: spec [of _ j])
          with same [OF that(2)] have "u = h" by auto
          then have "j = i" using j i parts by (auto simp: one_owner_def)
          with False show ?thesis by simp
        qed
      qed (use co \<open>cells_ok ?S\<close> cell c d in auto)
    qed simp
  qed
  moreover have "one_owner ?S"
    using parts by (intro one_owner_keep) (simp_all add: one_owner_def)
  moreover have "all_claimed ?S"
  proof (rule all_claimed_done)
    show "all_claimed S" using parts by simp
  qed (use i in auto)
  ultimately show "ticket_inv ?S" by (simp add: ticket_inv_def)
qed

section \<open>Every step keeps the invariant\<close>

lemma claim_ok_at: "ticket_inv S \<Longrightarrow> claims S i = c \<Longrightarrow> claim_ok S c"
  by (auto simp: ticket_inv_def claims_ok_def)

lemma inv_poise:
  assumes inv: "ticket_inv S" and i: "claims S i = Drawn x t" and c: "cell_at S t = c"
    and "older c t" "vacant c" "safe c"
  shows "ticket_inv (set_claim i (Poised x t c) S)"
proof (rule claim_update [OF inv])
  have "rank c < rank (cell_at S t)"
    if h: "h \<in> passed S" "slot_of S h = slot_of S t" "t \<le> h" for h
  proof -
    obtain u s d where "cell_at S h = Cell u s d" "h \<le> u \<or> \<not> s"
      using inv h(1) by (auto simp: ticket_inv_def passed_ok_def)
    moreover have "cell_at S h = c" using h(2) c by (simp add: cell_at_def)
    ultimately show ?thesis using assms(4-6) h(3) by auto
  qed
  then have "\<forall>h\<in>passed S. slot_of S h = slot_of S t \<longrightarrow> t \<le> h \<longrightarrow> rank c < rank (cell_at S t)"
    by blast
  moreover have "rank c \<le> rank (cell_at S t)"
    by (simp add: c)
  ultimately show "claim_ok S (Poised x t c)"
    using assms(4,5) claim_ok_at [OF inv i] by simp
qed (use i in simp_all)

lemma inv_poise_head:
  assumes inv: "ticket_inv S" and i: "claims S i = Seen x t c" and head: "next_deq S \<le> t"
  shows "ticket_inv (set_claim i (Poised x t c) S)"
proof (rule claim_update [OF inv])
  have "h < t" if "h \<in> passed S" for h
    using inv head that by (auto simp: ticket_inv_def history_ok_def)
  then have "\<forall>h\<in>passed S. slot_of S h = slot_of S t \<longrightarrow> t \<le> h \<longrightarrow> rank c < rank (cell_at S t)"
    using not_le by blast
  then show "claim_ok S (Poised x t c)"
    using claim_ok_at [OF inv i] by simp
qed (use i in simp_all)

theorem ticket_step_inv:
  assumes "ticket_step i es S S'" "ticket_inv S"
  shows "ticket_inv S'"
  using assms
proof (cases rule: ticket_step.cases)
  case (want x)
  with assms(2) show ?thesis by (auto intro!: claim_update)
next
  case (draw x)
  with assms(2) show ?thesis by (auto intro: inv_draw)
next
  case (see x t c)
  with assms(2) claim_ok_at [of S i "Drawn x t"] show ?thesis by (auto intro!: claim_update)
next
  case (poise x t c)
  with assms(2) show ?thesis by (auto intro: inv_poise)
next
  case (poise_head x t c)
  with assms(2) show ?thesis by (auto intro: inv_poise_head)
next
  case (redraw x t)
  with assms(2) show ?thesis by (auto intro!: claim_update)
next
  case (redraw_head x t c)
  with assms(2) show ?thesis by (auto intro!: claim_update)
next
  case (reload x t c)
  with assms(2) claim_ok_at [of S i "Poised x t c"] show ?thesis by (auto intro!: claim_update)
next
  case (refuse x t c)
  with assms(2) show ?thesis by (auto intro!: claim_update)
next
  case (store x t c)
  with assms(2) show ?thesis by (auto intro: inv_store)
next
  case (raise t)
  with assms(2) show ?thesis by (auto intro: grow)
next
  case scan
  with assms(2) show ?thesis by (auto intro: inv_scan)
next
  case (mark h c)
  with assms(2) claim_ok_at [of S i "Scanning h"] show ?thesis by (auto intro!: claim_update)
next
  case (rescan h c)
  with assms(2) claim_ok_at [of S i "Marking h c"] show ?thesis by (auto intro!: claim_update)
next
  case (pass h u s d)
  with assms(2) show ?thesis by (auto intro: inv_pass)
next
  case (leave h c)
  with assms(2) show ?thesis by (auto intro: inv_leave)
next
  case (take_up h s x)
  with assms(2) claim_ok_at [of S i "Scanning h"] show ?thesis by (auto intro!: claim_update)
next
  case (remove h x s d)
  with assms(2) show ?thesis by (auto intro: inv_remove)
qed simp

end
