(* ===== verification/TicketLog.thy ===== *)
theory TicketLog
  imports TicketRing
begin

text \<open>
  What the invariant of the ticket machine says about the indices: what is in the slots is what was
  stored and not removed (\<open>contents_live\<close>, \<open>ticket_step_contents\<close>), and the log of the stores and the
  removals matches the history (\<open>ticket_step_log\<close>).
\<close>

section \<open>What the invariant says\<close>

text \<open>The indices in the slots, and those an event adds or takes.\<close>

fun cell_items :: "'x cell \<Rightarrow> 'x multiset" where
  "cell_items (Cell u s (Some x)) = {#x#}"
| "cell_items _ = {#}"

definition contents :: "'x ticket_ring \<Rightarrow> 'x multiset" where
  "contents S = \<Sum>\<^sub># (image_mset cell_items (mset (cells S)))"

fun stored_items :: "'x ticket_event list \<Rightarrow> 'x multiset" where
  "stored_items [] = {#}"
| "stored_items (Stored i t x # es) = add_mset x (stored_items es)"
| "stored_items (Removed i t x # es) = stored_items es"

fun removed_items :: "'x ticket_event list \<Rightarrow> 'x multiset" where
  "removed_items [] = {#}"
| "removed_items (Stored i t x # es) = removed_items es"
| "removed_items (Removed i t x # es) = add_mset x (removed_items es)"

lemma stored_items_append [simp]: "stored_items (es @ fs) = stored_items es + stored_items fs"
  by (induction es rule: stored_items.induct) auto

lemma removed_items_append [simp]: "removed_items (es @ fs) = removed_items es + removed_items fs"
  by (induction es rule: removed_items.induct) auto

lemma contents_cong: "cells S' = cells S \<Longrightarrow> contents S' = contents S"
  by (simp add: contents_def)

lemma contents_set_claim [simp]: "contents (set_claim i c S) = contents S"
  by (simp add: contents_def)

lemma contents_move:
  assumes "cells_ok S" "cells S' = (cells S)[slot_of S t := c]"
  shows "contents S' + cell_items (cell_at S t) = contents S + cell_items c"
proof -
  have t: "slot_of S t < length (cells S)" using assms(1) by (rule slot_less)
  then have "mset (cells S) = add_mset (cell_at S t) (mset (cells S) - {#cell_at S t#})"
    by (simp add: cell_at_def)
  then have "contents S = cell_items (cell_at S t)
      + \<Sum>\<^sub># (image_mset cell_items (mset (cells S) - {#cell_at S t#}))"
    unfolding contents_def by (metis image_mset_add_mset sum_mset.insert)
  with t assms(2) show ?thesis
    by (simp add: contents_def mset_update cell_at_def)
qed

lemma vacant_items: "vacant c \<Longrightarrow> cell_items c = {#}"
  by (cases c) auto

lemma marked_items: "cell_items (marked h c) = cell_items c"
  by (cases "(h, c)" rule: marked.cases) auto

lemma ticket_step_contents:
  assumes "ticket_step i es S S'" "ticket_inv S"
  shows "contents S' + removed_items es = contents S + stored_items es"
proof -
  have co: "cells_ok S" using assms(2) by (simp add: ticket_inv_def)
  from assms show ?thesis
  proof (cases rule: ticket_step.cases)
    case (store x t c)
    have "vacant c"
      using claim_ok_at [OF assms(2) store(3)] by simp
    with store contents_move [OF co, of S' t "Cell t True (Some x)"] show ?thesis
      by (simp add: vacant_items)
  next
    case (leave h c)
    with contents_move [OF co, of S' h "marked h c"] show ?thesis
      by (simp add: marked_items)
  next
    case (remove h x s d)
    then have "d = Some x"
      using inv_remove(2) [OF assms(2)] by blast
    with remove contents_move [OF co, of S' h "Cell h s None"] show ?thesis
      by simp
  qed (simp_all add: contents_def)
qed


section \<open>The live tickets\<close>

text \<open>The tickets whose index is in its slot.\<close>

definition live :: "'x ticket_ring \<Rightarrow> nat set" where
  "live S = dom (put_at S) - taken S"

lemma finite_live: "ticket_inv S \<Longrightarrow> finite (live S)"
  by (rule finite_subset [of _ "{base S..<next_enq S}"]) (auto simp: live_def ticket_inv_def history_ok_def)

lemma live_cell: "ticket_inv S \<Longrightarrow> t \<in> live S \<Longrightarrow> \<exists>s. cell_at S t = Cell t s (Some (the (put_at S t)))"
  by (auto simp: live_def ticket_inv_def live_ok_def)

lemma image_mset_set: "finite A \<Longrightarrow> image_mset f (mset_set A) = (\<Sum>x\<in>A. {#f x#})"
  by (induction A rule: finite_induct) auto

lemma sum_mset_nth: "\<Sum>\<^sub># (image_mset f (mset xs)) = (\<Sum>j<length xs. f (xs ! j))"
proof -
  have "\<Sum>\<^sub># (image_mset f (mset xs)) = sum_list (map f xs)"
    by (simp flip: mset_map add: sum_mset_sum_list)
  then show ?thesis
    by (simp add: sum_list_sum_nth atLeast0LessThan)
qed

lemma contents_live:
  assumes inv: "ticket_inv S"
  shows "contents S = image_mset (\<lambda>t. the (put_at S t)) (mset_set (live S))"
proof -
  have co: "cells_ok S" using inv by (simp add: ticket_inv_def)
  have inj: "inj_on (slot_of S) (live S)"
  proof
    fix t u assume tu: "t \<in> live S" "u \<in> live S" "slot_of S t = slot_of S u"
    then have "cell_at S t = cell_at S u" by (simp add: cell_at_def)
    with live_cell [OF inv tu(1)] live_cell [OF inv tu(2)] show "t = u" by auto
  qed
  have outside: "cell_items (cells S ! j) = {#}" if "j < length (cells S)" "j \<notin> slot_of S ` live S" for j
  proof (rule ccontr)
    assume "cell_items (cells S ! j) \<noteq> {#}"
    then obtain u s x where "cells S ! j = Cell u s (Some x)"
      by (cases "cells S ! j" rule: cell_items.cases) auto
    with co that(1) have "slot_of S u = j" "u \<in> live S"
      by (auto simp: cells_ok_def live_def)
    with that(2) show False by auto
  qed
  have "contents S = (\<Sum>j<length (cells S). cell_items (cells S ! j))"
    by (simp add: contents_def sum_mset_nth)
  also have "\<dots> = (\<Sum>j\<in>slot_of S ` live S. cell_items (cells S ! j))"
    using outside slot_less [OF co] by (intro sum.mono_neutral_right) auto
  also have "\<dots> = (\<Sum>t\<in>live S. cell_items (cell_at S t))"
    using inj by (simp add: sum.reindex cell_at_def)
  also have "\<dots> = (\<Sum>t\<in>live S. {#the (put_at S t)#})"
    using live_cell [OF inv] by (intro sum.cong) force+
  finally show ?thesis
    using finite_live [OF inv] by (simp add: image_mset_set)
qed

section \<open>The log\<close>

fun stored_by :: "nat \<Rightarrow> 'x ticket_event list \<Rightarrow> (nat \<times> 'x) list" where
  "stored_by i [] = []"
| "stored_by i (Stored j t x # es) = (if j = i then (t, x) # stored_by i es else stored_by i es)"
| "stored_by i (Removed j t x # es) = stored_by i es"

fun removed_by :: "nat \<Rightarrow> 'x ticket_event list \<Rightarrow> (nat \<times> 'x) list" where
  "removed_by i [] = []"
| "removed_by i (Stored j t x # es) = removed_by i es"
| "removed_by i (Removed j t x # es) = (if j = i then (t, x) # removed_by i es else removed_by i es)"

fun stored_tickets :: "'x ticket_event list \<Rightarrow> nat list" where
  "stored_tickets [] = []"
| "stored_tickets (Stored j t x # es) = t # stored_tickets es"
| "stored_tickets (Removed j t x # es) = stored_tickets es"

fun removed_tickets :: "'x ticket_event list \<Rightarrow> nat list" where
  "removed_tickets [] = []"
| "removed_tickets (Stored j t x # es) = removed_tickets es"
| "removed_tickets (Removed j t x # es) = t # removed_tickets es"

lemma log_append [simp]:
  shows "stored_by i (es @ fs) = stored_by i es @ stored_by i fs"
    and "removed_by i (es @ fs) = removed_by i es @ removed_by i fs"
    and "stored_tickets (es @ fs) = stored_tickets es @ stored_tickets fs"
    and "removed_tickets (es @ fs) = removed_tickets es @ removed_tickets fs"
proof -
  show "stored_by i (es @ fs) = stored_by i es @ stored_by i fs"
    by (induction i es rule: stored_by.induct) auto
  show "removed_by i (es @ fs) = removed_by i es @ removed_by i fs"
    by (induction i es rule: removed_by.induct) auto
  show "stored_tickets (es @ fs) = stored_tickets es @ stored_tickets fs"
    by (induction es rule: stored_tickets.induct) auto
  show "removed_tickets (es @ fs) = removed_tickets es @ removed_tickets fs"
    by (induction es rule: removed_tickets.induct) auto
qed

lemma set_stored_by: "(t, x) \<in> set (stored_by i es) \<longleftrightarrow> Stored i t x \<in> set es"
  by (induction i es rule: stored_by.induct) auto

lemma set_removed_by: "(t, x) \<in> set (removed_by i es) \<longleftrightarrow> Removed i t x \<in> set es"
  by (induction i es rule: removed_by.induct) auto

lemma set_stored_tickets: "t \<in> set (stored_tickets es) \<longleftrightarrow> (\<exists>i x. Stored i t x \<in> set es)"
  by (induction es rule: stored_tickets.induct) auto

lemma set_removed_tickets: "t \<in> set (removed_tickets es) \<longleftrightarrow> (\<exists>i x. Removed i t x \<in> set es)"
  by (induction es rule: removed_tickets.induct) auto

lemmas set_log = set_stored_by set_removed_by set_stored_tickets set_removed_tickets

text \<open>
  The log tells the history: \<open>X\<close> is what was stored before it began. In it no ticket occurs twice,
  and the tickets of each thread ascend, up to the one it holds now.
\<close>

definition log_ok :: "(nat \<Rightarrow> 'x option) \<Rightarrow> 'x ticket_ring \<Rightarrow> 'x ticket_event list \<Rightarrow> bool" where
  "log_ok X S es \<longleftrightarrow>
     (\<forall>t x. X t = Some x \<longrightarrow> put_at S t = Some x)
     \<and> (\<forall>i t x. Stored i t x \<in> set es \<longrightarrow> put_at S t = Some x)
     \<and> (\<forall>t x. put_at S t = Some x \<longrightarrow> X t = Some x \<or> (\<exists>i. Stored i t x \<in> set es))
     \<and> (\<forall>i t x. Removed i t x \<in> set es \<longrightarrow> put_at S t = Some x)
     \<and> set (removed_tickets es) = taken S
     \<and> distinct (stored_tickets es) \<and> distinct (removed_tickets es)
     \<and> (\<forall>i. sorted_wrt (<) (map fst (stored_by i es)) \<and> sorted_wrt (<) (map fst (removed_by i es)))
     \<and> (\<forall>i t x u. Stored i t x \<in> set es \<longrightarrow> enq_ticket (claims S i) = Some u \<longrightarrow> t < u)
     \<and> (\<forall>i t x u. Removed i t x \<in> set es \<longrightarrow> deq_ticket (claims S i) = Some u \<longrightarrow> t < u)"

lemma log_ok_quiet:
  assumes "log_ok X S es" "put_at S' = put_at S" "taken S' = taken S"
    and "\<And>i u. enq_ticket (claims S' i) = Some u \<Longrightarrow>
           enq_ticket (claims S i) = Some u \<or> (\<forall>t\<in>dom (put_at S). t < u)"
    and "\<And>i u. deq_ticket (claims S' i) = Some u \<Longrightarrow>
           deq_ticket (claims S i) = Some u \<or> (\<forall>t\<in>taken S. t < u)"
  shows "log_ok X S' es"
proof -
  have "t < u" if "Stored i t x \<in> set es" "enq_ticket (claims S' i) = Some u" for i t x u
  proof -
    have "put_at S t = Some x" using assms(1) that(1) unfolding log_ok_def by blast
    then have "t \<in> dom (put_at S)" by (rule domI)
    then show ?thesis using assms(1) assms(4) [OF that(2)] that(1) unfolding log_ok_def by blast
  qed
  moreover have "t < u" if r: "Removed i t x \<in> set es" "deq_ticket (claims S' i) = Some u" for i t x u
  proof -
    have "t \<in> taken S" using assms(1) r(1) set_log(4) [of t es] unfolding log_ok_def by blast
    then show ?thesis using assms(1) assms(5) [OF r(2)] r(1) unfolding log_ok_def by blast
  qed
  ultimately show ?thesis
    using assms(1) unfolding log_ok_def assms(2,3) by blast
qed

lemma log_ok_store:
  assumes inv: "ticket_inv S" and i: "claims S i = Poised x t c" and log: "log_ok X S fs"
    and put: "put_at S' = (put_at S)(t \<mapsto> x)" "taken S' = taken S" "claims S' = (claims S)(i := Free)"
  shows "log_ok X S' (fs @ [Stored i t x])"
proof -
  let ?es = "fs @ [Stored i t x]"
  have new: "put_at S t = None" using claim_ok_at [OF inv i] by simp
  have below: "u < t" if "Stored i u y \<in> set fs" for u y
    using log i that unfolding log_ok_def by (metis enq_ticket.simps(3))
  have notin: "t \<notin> set (stored_tickets fs)"
    using log new unfolding set_log log_ok_def by fastforce
  have keep: "put_at S' u = Some y" if "put_at S u = Some y" for u y
    using that new put by auto
  have sorted: "sorted_wrt (<) (map fst (stored_by j ?es))" for j
    using log below set_log(1) [of _ _ i fs] by (auto simp: log_ok_def sorted_wrt_append)
  have origin: "X u = Some y \<or> (\<exists>j. Stored j u y \<in> set ?es)" if "put_at S' u = Some y" for u y
  proof (cases "u = t")
    case False
    with that put have "put_at S u = Some y" by simp
    with log have "X u = Some y \<or> (\<exists>j. Stored j u y \<in> set fs)"
      unfolding log_ok_def by blast
    then show ?thesis by auto
  qed (use that put in auto)
  have history: "put_at S' u = Some y"
    if "X u = Some y \<or> Stored j u y \<in> set ?es \<or> Removed j u y \<in> set ?es" for j u y
  proof -
    have "put_at S u = Some y" if "X u = Some y \<or> Stored j u y \<in> set fs \<or> Removed j u y \<in> set fs"
      using log that unfolding log_ok_def by blast
    then show ?thesis
      using that new put(1) by auto
  qed
  have held: "Stored j u y \<in> set fs \<and> enq_ticket (claims S j) = Some v"
    if "Stored j u y \<in> set ?es" "enq_ticket (claims S' j) = Some v" for j u y v
    using that put by (auto split: if_splits)
  have claimed: "Removed j u y \<in> set fs \<and> deq_ticket (claims S j) = Some v"
    if "Removed j u y \<in> set ?es" "deq_ticket (claims S' j) = Some v" for j u y v
    using that put by (auto split: if_splits)
  have "\<forall>j u y v. Stored j u y \<in> set ?es \<longrightarrow> enq_ticket (claims S' j) = Some v \<longrightarrow> u < v"
    using log held unfolding log_ok_def by meson
  moreover have "\<forall>j u y v. Removed j u y \<in> set ?es \<longrightarrow> deq_ticket (claims S' j) = Some v \<longrightarrow> u < v"
    using log claimed unfolding log_ok_def by meson
  moreover have "set (removed_tickets ?es) = taken S'" "distinct (stored_tickets ?es)"
      "distinct (removed_tickets ?es)" "\<forall>j. sorted_wrt (<) (map fst (removed_by j ?es))"
    using log put(2) notin by (simp_all add: log_ok_def)
  ultimately show ?thesis
    using sorted origin history unfolding log_ok_def by blast
qed

lemma log_ok_remove:
  assumes inv: "ticket_inv S" and i: "claims S i = Taking h x" "cell_at S h = Cell h s d"
    and log: "log_ok X S fs"
    and put: "put_at S' = put_at S" "taken S' = insert h (taken S)" "claims S' = (claims S)(i := Free)"
  shows "log_ok X S' (fs @ [Removed i h x])"
proof -
  let ?es = "fs @ [Removed i h x]"
  note rm = inv_remove(2-4) [OF inv i]
  have below: "u < h" if "Removed i u y \<in> set fs" for u y
    using log i(1) that unfolding log_ok_def by (metis deq_ticket.simps(3))
  have sorted: "sorted_wrt (<) (map fst (removed_by j ?es))" for j
    using log below set_log(2) [of _ _ i fs] by (auto simp: log_ok_def sorted_wrt_append)
  have tickets: "set (removed_tickets ?es) = taken S'" "distinct (removed_tickets ?es)"
    using log put rm(3) by (auto simp: log_ok_def)
  have held: "Stored j u y \<in> set fs \<and> enq_ticket (claims S j) = Some v"
    if "Stored j u y \<in> set ?es" "enq_ticket (claims S' j) = Some v" for j u y v
    using that put by (auto split: if_splits)
  have claimed: "Removed j u y \<in> set fs \<and> deq_ticket (claims S j) = Some v"
    if "Removed j u y \<in> set ?es" "deq_ticket (claims S' j) = Some v" for j u y v
    using that put by (auto split: if_splits)
  have "\<forall>j u y v. Stored j u y \<in> set ?es \<longrightarrow> enq_ticket (claims S' j) = Some v \<longrightarrow> u < v"
    using log held unfolding log_ok_def by meson
  moreover have "\<forall>j u y v. Removed j u y \<in> set ?es \<longrightarrow> deq_ticket (claims S' j) = Some v \<longrightarrow> u < v"
    using log claimed unfolding log_ok_def by meson
  moreover have "\<forall>j u y. Removed j u y \<in> set ?es \<longrightarrow> put_at S' u = Some y"
    using log put(1) rm(2) by (auto simp: log_ok_def)
  ultimately show ?thesis
    using log sorted tickets put(1) by (simp add: log_ok_def)
qed

theorem ticket_step_log:
  assumes step: "ticket_step i es S S'" and inv: "ticket_inv S" and log: "log_ok X S fs"
  shows "log_ok X S' (fs @ es)"
  using step
proof (cases rule: ticket_step.cases)
  case (draw x)
  have "t < next_enq S" if "put_at S t = Some y" for t y
    using inv that by (auto simp: ticket_inv_def history_ok_def)
  with draw log show ?thesis
    by (auto intro!: log_ok_quiet [OF log] split: if_splits)
next
  case scan
  have "t < next_deq S" if "t \<in> taken S" for t
    using inv that by (auto simp: ticket_inv_def history_ok_def)
  with scan log show ?thesis
    by (auto intro!: log_ok_quiet [OF log] split: if_splits)
next
  case (store x t c)
  then show ?thesis
    using log_ok_store [OF inv store(3) log, of S'] by simp
next
  case (remove h x s d)
  then show ?thesis
    using log_ok_remove [OF inv remove(3,4) log, of S'] by simp
qed (use log in \<open>auto intro!: log_ok_quiet [OF log] split: if_splits\<close>)

end
