(* ===== verification/ScqConc.thy ===== *)
theory ScqConc
  imports IndexRing TicketLog
begin

text \<open>
  The index ring of \<open>src/scq.rs\<close> under concurrency, one atomic access per step. \<open>ring_pc\<close> says between
  which two accesses of \<open>enqueue\<close>, \<open>dequeue\<close> or \<open>catchup\<close> a thread is, with the local variables it
  still needs; \<open>ring_step\<close> is its next access. The accesses are taken as sequentially consistent.
  \<open>compare_exchange_weak\<close> fails spuriously whenever the ghost list \<open>spurious\<close> of the ring says so, in the
  order in which the exchanges of all threads reach the ring. \<open>Backoff\<close> and \<open>yield_marker\<close> only wait.
\<close>

section \<open>The program counter\<close>

text \<open>
  The index of an enqueue is kept as the code keeps it, after \<open>eidx ^= n - 1\<close>. \<open>EnLoad\<close> holds the
  ticket, \<open>EnHead\<close>, \<open>EnFinal\<close> and \<open>EnSwap\<close> also the entry they loaded; \<open>DeLoad\<close> the ticket and the
  attempts, \<open>DeSwap\<close> also the entry and the one to put in its place; \<open>CaSwap\<close>, \<open>CaHead\<close> and \<open>CaTail\<close> are
  the loop of \<open>catchup\<close>; \<open>DeCount\<close> is \<open>threshold.fetch_sub\<close>, after \<open>catchup\<close> or not.
\<close>

datatype ring_pc =
    RingIdle
  | EnTicket usize
  | EnLoad usize usize
  | EnHead usize usize usize
  | EnFinal usize usize usize
  | EnSwap usize usize usize
  | EnThreshold | EnReset
  | DeThreshold
  | DeTicket
  | DeLoad usize "32 word"
  | DeSwap usize "32 word" usize usize
  | DeTake usize usize
  | DeTail usize
  | CaSwap usize usize | CaHead | CaTail usize
  | DeCount bool
  | EnDone "scq_error + unit"
  | DeDone "usize option"
  | RingPanic

text \<open>The number of slots as \<open>enqueue\<close> computes it and as \<open>dequeue\<close> does.\<close>

definition enq_n :: "scq_ring \<Rightarrow> usize" where
  "enq_n r = push_bit 1 (lfring_pow2 (order r))"

definition deq_n :: "scq_ring \<Rightarrow> usize" where
  "deq_n r = lfring_pow2 (order r + 1)"

section \<open>The steps of enqueue\<close>

definition enqueue_call :: "usize \<Rightarrow> scq_ring \<Rightarrow> ring_pc" where
  "enqueue_call eidx r =
     (if eidx \<ge> ring_capacity r then EnDone (Inl IndexLargerThanOrder)
      else EnTicket (eidx XOR (enq_n r - 1)))"

text \<open>Before the exchange a finalizable ring is asked whether it is finalized.\<close>

definition enqueue_claim :: "usize \<Rightarrow> usize \<Rightarrow> usize \<Rightarrow> scq_ring \<Rightarrow> ring_pc" where
  "enqueue_claim eidx tk entry r =
     (if length (is_finalized r) = 1 then EnFinal eidx tk entry else EnSwap eidx tk entry)"

definition enqueue_load :: "usize \<Rightarrow> usize \<Rightarrow> scq_ring \<Rightarrow> ring_pc" where
  "enqueue_load eidx tk r =
     (let n = enq_n r; tcycle = modup (push_bit 1 tk) n; tidx = lfring_map tk n
      in if unat tidx < length (array r)
         then
           (let entry = array r ! unat tidx; ecycle = modup entry n
            in if is_lt (lfring_signed_cmp ecycle tcycle)
               then if entry = ecycle then enqueue_claim eidx tk entry r
                    else if entry = (ecycle XOR n) then EnHead eidx tk entry
                    else EnTicket eidx
               else EnTicket eidx)
         else RingPanic)"

definition enqueue_swap :: "usize \<Rightarrow> usize \<Rightarrow> usize \<Rightarrow> scq_ring \<Rightarrow> ring_pc \<times> scq_ring" where
  "enqueue_swap eidx tk entry r =
     (let n = enq_n r; tcycle = modup (push_bit 1 tk) n; tidx = lfring_map tk n
      in case cas_slot_weak (unat tidx) entry (tcycle XOR eidx) r of
           (ok, r1) \<Rightarrow> (if ok then EnThreshold else EnLoad eidx tk, r1))"

definition full_threshold :: "scq_ring \<Rightarrow> isize" where
  "full_threshold r = lfring_threshold3 (lfring_pow2 (order r)) (enq_n r)"

section \<open>The steps of dequeue\<close>

definition dequeue_load :: "usize \<Rightarrow> 32 word \<Rightarrow> scq_ring \<Rightarrow> ring_pc" where
  "dequeue_load hk attempt r =
     (let n = deq_n r; hcycle = modup (push_bit 1 hk) n; hidx = lfring_map hk n
      in if unat hidx < length (array r)
         then
           (let entry = array r ! unat hidx; ecycle = modup entry n;
                swap = (\<lambda>attempt entry_new.
                  if is_lt (lfring_signed_cmp ecycle hcycle) then DeSwap hk attempt entry entry_new
                  else DeTail hk)
            in if ecycle = hcycle then DeTake hk entry
               else if (entry OR n) \<noteq> ecycle
               then (if entry = (entry AND NOT n) then DeTail hk else swap attempt (entry AND NOT n))
               else if sint (attempt + 1) \<le> 10 then DeLoad hk (attempt + 1)
               else swap (attempt + 1) (hcycle XOR (NOT entry AND n)))
         else RingPanic)"

definition dequeue_swap ::
  "usize \<Rightarrow> 32 word \<Rightarrow> usize \<Rightarrow> usize \<Rightarrow> scq_ring \<Rightarrow> ring_pc \<times> scq_ring"
where
  "dequeue_swap hk attempt entry entry_new r =
     (case cas_slot_weak (unat (lfring_map hk (deq_n r))) entry entry_new r of
        (ok, r1) \<Rightarrow> (if ok then DeTail hk else DeLoad hk attempt, r1))"

definition dequeue_take :: "usize \<Rightarrow> usize \<Rightarrow> scq_ring \<Rightarrow> ring_pc \<times> scq_ring" where
  "dequeue_take hk entry r =
     (let n = deq_n r; i = unat (lfring_map hk n)
      in (DeDone (Some (entry AND (n - 1))), r\<lparr>array := (array r)[i := (array r ! i OR (n - 1))]\<rparr>))"

definition dequeue_tail :: "usize \<Rightarrow> scq_ring \<Rightarrow> ring_pc" where
  "dequeue_tail hk r =
     (let tk = tail r
      in if is_le (lfring_signed_cmp tk (hk + 1)) then CaSwap tk (hk + 1) else DeCount False)"

definition catchup_swap :: "usize \<Rightarrow> usize \<Rightarrow> scq_ring \<Rightarrow> ring_pc \<times> scq_ring" where
  "catchup_swap tk hk r =
     (case cas_tail_weak tk hk r of (ok, r1) \<Rightarrow> (if ok then DeCount True else CaHead, r1))"

definition catchup_tail :: "usize \<Rightarrow> scq_ring \<Rightarrow> ring_pc" where
  "catchup_tail hk r =
     (if is_ge (lfring_signed_cmp (tail r) hk) then DeCount True else CaSwap (tail r) hk)"

definition dequeue_count :: "bool \<Rightarrow> scq_ring \<Rightarrow> ring_pc \<times> scq_ring" where
  "dequeue_count caught_up r =
     (if caught_up \<or> sint (threshold r) \<le> 0 then DeDone None else DeTicket,
      r\<lparr>threshold := threshold r - 1\<rparr>)"

section \<open>The step of a thread\<close>

fun ring_step :: "ring_pc \<Rightarrow> scq_ring \<Rightarrow> ring_pc \<times> scq_ring" where
  "ring_step (EnTicket eidx) r = (EnLoad eidx (tail r), r\<lparr>tail := tail r + 1\<rparr>)"
| "ring_step (EnLoad eidx tk) r = (enqueue_load eidx tk r, r)"
| "ring_step (EnHead eidx tk entry) r =
     (if is_le (lfring_signed_cmp (head r) tk) then enqueue_claim eidx tk entry r else EnTicket eidx, r)"
| "ring_step (EnFinal eidx tk entry) r =
     (if is_finalized r ! 0 then EnDone (Inl QueueFinalized) else EnSwap eidx tk entry, r)"
| "ring_step (EnSwap eidx tk entry) r = enqueue_swap eidx tk entry r"
| "ring_step EnThreshold r = (if threshold r \<noteq> full_threshold r then EnReset else EnDone (Inr ()), r)"
| "ring_step EnReset r = (EnDone (Inr ()), r\<lparr>threshold := full_threshold r\<rparr>)"
| "ring_step DeThreshold r = (if sint (threshold r) < 0 then DeDone None else DeTicket, r)"
| "ring_step DeTicket r = (DeLoad (head r) 0, r\<lparr>head := head r + 1\<rparr>)"
| "ring_step (DeLoad hk attempt) r = (dequeue_load hk attempt r, r)"
| "ring_step (DeSwap hk attempt entry entry_new) r = dequeue_swap hk attempt entry entry_new r"
| "ring_step (DeTake hk entry) r = dequeue_take hk entry r"
| "ring_step (DeTail hk) r = (dequeue_tail hk r, r)"
| "ring_step (CaSwap tk hk) r = catchup_swap tk hk r"
| "ring_step CaHead r = (CaTail (head r), r)"
| "ring_step (CaTail hk) r = (catchup_tail hk r, r)"
| "ring_step (DeCount b) r = dequeue_count b r"
| "ring_step p r = (p, r)"

fun ring_at_rest :: "ring_pc \<Rightarrow> bool" where
  "ring_at_rest RingIdle = True"
| "ring_at_rest (EnDone _) = True"
| "ring_at_rest (DeDone _) = True"
| "ring_at_rest RingPanic = True"
| "ring_at_rest _ = False"

text \<open>
  What a step did to the contents: a successful exchange of \<open>enqueue\<close> stored the index under the
  ticket, the \<open>fetch_or\<close> of \<open>dequeue\<close> removed one.
\<close>

fun ring_event :: "nat \<Rightarrow> ring_pc \<Rightarrow> scq_ring \<Rightarrow> usize ticket_event list" where
  "ring_event t (EnSwap eidx tk entry) r =
     (case enqueue_swap eidx tk entry r of
        (EnThreshold, _) \<Rightarrow> [Stored t (unat tk) (eidx XOR (enq_n r - 1))] | _ \<Rightarrow> [])"
| "ring_event t (DeTake hk entry) r = [Removed t (unat hk) (entry AND (deq_n r - 1))]"
| "ring_event t p r = []"

section \<open>Threads on one ring\<close>

record ring_sys =
  the_ring :: scq_ring
  ring_pcs :: "nat \<Rightarrow> ring_pc"
  ring_log :: "usize ticket_event list"

definition ring_start :: "scq_ring \<Rightarrow> ring_sys" where
  "ring_start r = \<lparr>the_ring = r, ring_pcs = (\<lambda>_. RingIdle), ring_log = []\<rparr>"

datatype ring_label = CallEnq nat usize | CallDeq nat | Access nat | Seal

definition set_ring_pc :: "nat \<Rightarrow> ring_pc \<Rightarrow> ring_sys \<Rightarrow> ring_sys" where
  "set_ring_pc t p s = s\<lparr>ring_pcs := (ring_pcs s)(t := p)\<rparr>"

text \<open>
  A thread at rest may call an operation; any thread may take its next step; the owner of the ring may
  finalize it.
\<close>

fun ring_sys_step :: "ring_label \<Rightarrow> ring_sys \<Rightarrow> ring_sys option" where
  "ring_sys_step (CallEnq t eidx) s =
     (if ring_at_rest (ring_pcs s t) then Some (set_ring_pc t (enqueue_call eidx (the_ring s)) s) else None)"
| "ring_sys_step (CallDeq t) s =
     (if ring_at_rest (ring_pcs s t) then Some (set_ring_pc t DeThreshold s) else None)"
| "ring_sys_step (Access t) s =
     (case ring_step (ring_pcs s t) (the_ring s) of
        (p, r) \<Rightarrow> Some (set_ring_pc t p
          (s\<lparr>the_ring := r, ring_log := ring_log s @ ring_event t (ring_pcs s t) (the_ring s)\<rparr>)))"
| "ring_sys_step Seal s = Some (s\<lparr>the_ring := finalize (the_ring s)\<rparr>)"

fun ring_sys_run :: "ring_label list \<Rightarrow> ring_sys \<Rightarrow> ring_sys option" where
  "ring_sys_run [] s = Some s"
| "ring_sys_run (l # ls) s =
     (case ring_sys_step l s of None \<Rightarrow> None | Some s' \<Rightarrow> ring_sys_run ls s')"

text \<open>The index in a slot, if there is one; the code tests for one in the same way.\<close>

definition slot_index :: "usize \<Rightarrow> usize \<Rightarrow> usize option" where
  "slot_index n entry = (if (entry OR n) \<noteq> modup entry n then Some (entry AND (n - 1)) else None)"

definition ring_indices :: "scq_ring \<Rightarrow> usize list" where
  "ring_indices r = List.map_filter (slot_index (deq_n r)) (array r)"

end
