(* ===== verification/SlotWords.thy ===== *)
theory SlotWords
  imports ScqConc
begin

text \<open>
  The words in the slots of a ring of \<open>src/scq.rs\<close>: \<open>encode k c\<close> is the word that stands for the
  content \<open>c\<close> in a ring of \<open>2 ^ k\<close> slots. The lemmas evaluate every test and every update of the code
  on such a word.
\<close>

section \<open>The encoding\<close>

fun encode :: "nat \<Rightarrow> usize cell \<Rightarrow> usize" where
  "encode k Fresh = -1"
| "encode k (Cell u s d) =
     (let e = (case d of None \<Rightarrow> cycle_of k u | Some x \<Rightarrow> entry_of k u x)
      in if s then e else e AND NOT (2 ^ k))"

definition index_ok :: "nat \<Rightarrow> usize \<Rightarrow> bool" where
  "index_ok k x \<longleftrightarrow> 0 < k \<and> 2 * unat x < 2 ^ k"

lemma index_okD:
  assumes "index_ok k x"
  shows "take_bit k x = x" "k \<le> 61 \<Longrightarrow> x \<noteq> mask k"
proof -
  have "unat x < 2 ^ k" using assms by (simp add: index_ok_def)
  then show "take_bit k x = x" by (rule small_index) simp
  show "x \<noteq> mask k" if "k \<le> 61"
  proof
    assume "x = mask k"
    then have "unat x = 2 ^ k - 1"
      using that unat_mask [of k] by (simp add: mask_eq_exp_minus_1 [where ?'a = nat])
    with assms have "2 * (2 ^ k - 1) < (2 :: nat) ^ k" by (simp add: index_ok_def)
    then have "(2 :: nat) ^ k \<le> 1" by simp
    then have "k = 0" by (simp add: le_Suc_eq)
    with assms \<open>x = mask k\<close> show False by (simp add: index_ok_def)
  qed
qed

text \<open>A content a ring of \<open>2 ^ k\<close> slots may hold: a ticket in range, an index the ring accepts.\<close>

fun cell_wf :: "nat \<Rightarrow> usize cell \<Rightarrow> bool" where
  "cell_wf k Fresh \<longleftrightarrow> True"
| "cell_wf k (Cell u s d) \<longleftrightarrow> u < 2 ^ 62 \<and> (\<forall>x. d = Some x \<longrightarrow> index_ok k x)"

lemma bit_encode:
  assumes "cell_wf k (Cell u s d)" "k \<le> 61"
  shows "bit (encode k (Cell u s d)) i \<longleftrightarrow>
    (if i < k then (case d of None \<Rightarrow> True | Some x \<Rightarrow> bit x i)
     else if i = k then s else bit (cycle_of k u) i)"
proof (cases d)
  case None
  with assms bit_cycle_of_low [of i k u] show ?thesis
    by (auto simp: bit_simps Let_def dest: bit_imp_le_length)
next
  case (Some x)
  then have "take_bit k x = x" using assms(1) index_okD(1) by simp
  with Some assms bit_cycle_of_low [of k k u] bit_entry_of [of k x u i] show ?thesis
    by (auto simp: bit_simps Let_def dest: bit_imp_le_length)
qed

lemma index_ok_bit: "index_ok k x \<Longrightarrow> k \<le> 61 \<Longrightarrow> \<exists>i<k. \<not> bit x i"
proof (rule ccontr)
  assume x: "index_ok k x" and k: "k \<le> 61" and "\<not> (\<exists>i<k. \<not> bit x i)"
  then have "bit x i \<longleftrightarrow> i < k" for i
    by (metis bit_take_bit_iff index_okD(1))
  then have "x = mask k"
    using k by (intro bit_eqI) (auto simp: bit_simps)
  with index_okD(2) [OF x k] show False by simp
qed

section \<open>The tests of the code\<close>

lemma modup_encode:
  assumes "cell_wf k (Cell u s d)" "k \<le> 61"
  shows "modup (encode k (Cell u s d)) (2 ^ k) = cycle_of k u"
  unfolding modup_pow2
proof (rule bit_eqI)
  fix i show "bit (encode k (Cell u s d) OR mask (Suc k)) i \<longleftrightarrow> bit (cycle_of k u) i"
    unfolding bit_or_iff bit_encode [OF assms]
    using assms(2) bit_cycle_of_low [of i k u] bit_imp_le_length [of "cycle_of k u" i]
    by (auto simp: bit_mask_iff less_Suc_eq)
qed

lemma encode_occupied:
  assumes "cell_wf k (Cell u s d)" "k \<le> 61"
  shows "(encode k (Cell u s d) OR 2 ^ k) = cycle_of k u \<longleftrightarrow> d = None"
proof
  assume eq: "(encode k (Cell u s d) OR 2 ^ k) = cycle_of k u"
  show "d = None"
  proof (cases d)
    case (Some x)
    then obtain i where i: "i < k" "\<not> bit x i"
      using index_ok_bit assms by fastforce
    have "bit (encode k (Cell u s d) OR 2 ^ k) i \<longleftrightarrow> bit (cycle_of k u) i"
      using eq by simp
    with i assms Some bit_cycle_of_low [of i k u] show ?thesis
      unfolding bit_or_iff bit_encode [OF assms] by (auto simp: bit_exp_iff)
  qed simp
next
  assume d: "d = None"
  show "(encode k (Cell u s d) OR 2 ^ k) = cycle_of k u"
  proof (rule bit_eqI)
    fix i show "bit (encode k (Cell u s d) OR 2 ^ k) i \<longleftrightarrow> bit (cycle_of k u) i"
      unfolding bit_or_iff bit_encode [OF assms]
      using d assms(2) bit_cycle_of_low [of i k u] by (auto simp: bit_exp_iff)
  qed
qed

lemma encode_vacant_safe:
  assumes "cell_wf k (Cell u s d)" "k \<le> 61"
  shows "encode k (Cell u s d) = cycle_of k u \<longleftrightarrow> d = None \<and> s"
proof
  assume eq: "encode k (Cell u s d) = cycle_of k u"
  then have "(encode k (Cell u s d) OR 2 ^ k) = cycle_of k u"
    using assms(2) by (simp add: cycle_of_or_n)
  moreover have "bit (encode k (Cell u s d)) k"
    using eq bit_cycle_of_low [of k k u] assms(2) by simp
  ultimately show "d = None \<and> s"
    using encode_occupied [OF assms] unfolding bit_encode [OF assms] by simp
qed simp

lemma encode_vacant_unsafe:
  assumes "cell_wf k (Cell u s d)" "k \<le> 61"
  shows "encode k (Cell u s d) = (cycle_of k u XOR 2 ^ k) \<longleftrightarrow> d = None \<and> \<not> s"
proof
  assume eq: "encode k (Cell u s d) = (cycle_of k u XOR 2 ^ k)"
  have "(encode k (Cell u s d) OR 2 ^ k) = cycle_of k u"
    unfolding eq
    by (rule bit_eqI) (use bit_cycle_of_low [of k k u] assms(2) in \<open>auto simp: bit_simps\<close>)
  moreover have "\<not> bit (encode k (Cell u s d)) k"
    using eq bit_cycle_of_low [of k k u] assms(2) by (simp add: bit_simps)
  ultimately show "d = None \<and> \<not> s"
    using encode_occupied [OF assms] unfolding bit_encode [OF assms] by simp
next
  assume "d = None \<and> \<not> s"
  then show "encode k (Cell u s d) = (cycle_of k u XOR 2 ^ k)"
    by (intro bit_eqI) (use bit_cycle_of_low [of k k u] assms(2) in \<open>auto simp: bit_simps\<close>)
qed

lemma cycle_of_not_minus_one: "t < 2 ^ 62 \<Longrightarrow> k \<le> 61 \<Longrightarrow> cycle_of k t \<noteq> -1"
proof
  assume t: "t < 2 ^ 62" "k \<le> 61" and "cycle_of k t = -1"
  then have "unat (-1 :: usize) < 2 ^ 63"
    using unat_cycle_of_bound [of t k] by simp
  then show False
    by (simp add: unsigned_minus_1_eq_mask mask_eq_exp_minus_1)
qed

section \<open>The updates of the code\<close>

text \<open>What an enqueuer writes, what a dequeuer leaves, and the index that comes out.\<close>

lemma encode_store:
  "index_ok k x \<Longrightarrow> (cycle_of k t XOR (x XOR (2 ^ k - 1))) = encode k (Cell t True (Some x))"
  by (simp add: entry_of_def)

lemma encode_unsafe:
  assumes "cell_wf k (Cell u s d)" "k \<le> 61"
  shows "(encode k (Cell u s d) AND NOT (2 ^ k)) = encode k (Cell u False d)"
proof -
  have wf: "cell_wf k (Cell u False d)" using assms(1) by simp
  show ?thesis
  proof (rule bit_eqI)
    fix i assume "possible_bit TYPE(usize) i"
    then show "bit (encode k (Cell u s d) AND NOT (2 ^ k)) i \<longleftrightarrow> bit (encode k (Cell u False d)) i"
      unfolding bit_and_iff bit_encode [OF assms] bit_encode [OF wf assms(2)]
      using assms(2) by (auto simp: bit_not_iff bit_exp_iff split: option.split)
  qed
qed

lemma encode_clear:
  assumes "cell_wf k (Cell u s d)" "k \<le> 61"
  shows "(encode k (Cell u s d) OR (2 ^ k - 1)) = encode k (Cell u s None)"
proof -
  have wf: "cell_wf k (Cell u s None)" using assms(1) by simp
  show ?thesis
    unfolding two_power_minus_one
  proof (rule bit_eqI)
    fix i assume "possible_bit TYPE(usize) i"
    then show "bit (encode k (Cell u s d) OR mask k) i \<longleftrightarrow> bit (encode k (Cell u s None)) i"
      unfolding bit_or_iff bit_encode [OF assms] bit_encode [OF wf assms(2)]
      using assms(2) by (auto simp: bit_mask_iff)
  qed
qed

lemma encode_index:
  assumes "cell_wf k (Cell u s (Some x))" "k \<le> 61"
  shows "(encode k (Cell u s (Some x)) AND (2 ^ k - 1)) = x"
  unfolding two_power_minus_one
proof (rule bit_eqI)
  fix i
  have "bit x i \<Longrightarrow> i < k"
    using assms(1) by (metis bit_take_bit_iff cell_wf.simps(2) index_okD(1))
  then show "bit (encode k (Cell u s (Some x)) AND mask k) i \<longleftrightarrow> bit x i"
    unfolding bit_and_iff bit_encode [OF assms] using assms(2) by (auto simp: bit_mask_iff)
qed

lemma encode_skip:
  assumes "cell_wf k (Cell u s d)" "h < 2 ^ 62" "k \<le> 61"
  shows "(cycle_of k h XOR (NOT (encode k (Cell u s d)) AND 2 ^ k)) = encode k (Cell h s None)"
proof -
  have wf: "cell_wf k (Cell h s None)" using assms(2) by simp
  show ?thesis
  proof (rule bit_eqI)
    fix i assume "possible_bit TYPE(usize) i"
    then show "bit (cycle_of k h XOR (NOT (encode k (Cell u s d)) AND 2 ^ k)) i
        \<longleftrightarrow> bit (encode k (Cell h s None)) i"
      unfolding bit_xor_iff bit_and_iff bit_not_iff bit_encode [OF assms(1,3)] bit_encode [OF wf assms(3)]
      using assms(3) bit_cycle_of_low [of i k h] by (auto simp: bit_exp_iff bit_not_iff)
  qed
qed

lemma encode_skip_fresh: "k \<le> 61 \<Longrightarrow> (cycle_of k h XOR (NOT (-1) AND 2 ^ k)) = encode k (Cell h True None)"
  by simp

section \<open>Words and contents\<close>

text \<open>The tests, for any content; \<open>cyc\<close> is the word of its cycle.\<close>

fun cyc :: "nat \<Rightarrow> usize cell \<Rightarrow> usize" where
  "cyc k Fresh = -1"
| "cyc k (Cell u s d) = cycle_of k u"

lemma cell_tests:
  assumes "cell_wf k c" "k \<le> 61"
  shows "modup (encode k c) (2 ^ k) = cyc k c"
    and "(encode k c OR 2 ^ k) = cyc k c \<longleftrightarrow> vacant c"
    and "encode k c = cyc k c \<longleftrightarrow> vacant c \<and> safe c"
    and "encode k c = (cyc k c XOR 2 ^ k) \<longleftrightarrow> vacant c \<and> \<not> safe c"
proof -
  have "(-1 :: usize) \<noteq> (- 1 XOR 2 ^ k)"
  proof
    assume "(-1 :: usize) = (- 1 XOR 2 ^ k)"
    then have "bit (-1 :: usize) k = bit (- 1 XOR 2 ^ k :: usize) k" by simp
    with assms(2) show False by (simp add: bit_simps)
  qed
  then show "modup (encode k c) (2 ^ k) = cyc k c"
    "(encode k c OR 2 ^ k) = cyc k c \<longleftrightarrow> vacant c"
    "encode k c = cyc k c \<longleftrightarrow> vacant c \<and> safe c"
    "encode k c = (cyc k c XOR 2 ^ k) \<longleftrightarrow> vacant c \<and> \<not> safe c"
    using assms modup_encode encode_occupied encode_vacant_safe encode_vacant_unsafe modup_minus_one
    by (cases c; simp del: encode.simps(2))+
qed

lemma cyc_older:
  assumes "cell_wf k c" "k \<le> 61" "t < 2 ^ 62"
    and "\<And>u s d. c = Cell u s d \<Longrightarrow> u mod 2 ^ k = t mod 2 ^ k"
  shows "is_lt (lfring_signed_cmp (cyc k c) (cycle_of k t)) \<longleftrightarrow> older c t"
proof (cases c)
  case Fresh
  with assms show ?thesis by (simp add: is_lt_minus_one)
next
  case (Cell u s d)
  then have u: "u < 2 ^ 62" "u mod 2 ^ k = t mod 2 ^ k" using assms by auto
  have "u div 2 ^ k < t div 2 ^ k \<longleftrightarrow> u < t"
    using u(2) mod_eq_div_less [of u "2 ^ k" t] div_le_mono [of t u "2 ^ k"] by fastforce
  with Cell u assms show ?thesis by (simp add: is_lt_cycle_of)
qed

lemma cyc_same:
  assumes "cell_wf k c" "k \<le> 61" "t < 2 ^ 62"
    and "\<And>u s d. c = Cell u s d \<Longrightarrow> u mod 2 ^ k = t mod 2 ^ k"
  shows "cyc k c = cycle_of k t \<longleftrightarrow> (\<exists>s d. c = Cell t s d)"
proof (cases c)
  case Fresh
  with assms cycle_of_not_minus_one [of t k] show ?thesis by auto
next
  case (Cell u s d)
  then have u: "u < 2 ^ 62" "u mod 2 ^ k = t mod 2 ^ k" using assms by auto
  have "u div 2 ^ k = t div 2 ^ k \<longleftrightarrow> u = t"
    using u(2) by (metis div_mult_mod_eq)
  with Cell u assms show ?thesis by (simp add: cycle_of_eq_iff)
qed

text \<open>No two contents of the same slot have the same word: an exchange finds what was loaded.\<close>

lemma encode_inj:
  assumes "cell_wf k c" "cell_wf k c'" "k \<le> 61" "encode k c = encode k c'"
    and "\<And>u s d. c = Cell u s d \<Longrightarrow> u mod 2 ^ k = t mod 2 ^ k"
    and "\<And>u s d. c' = Cell u s d \<Longrightarrow> u mod 2 ^ k = t mod 2 ^ k"
  shows "c = c'"
proof -
  have eq: "cyc k c = cyc k c'"
    using cell_tests(1) assms(1-4) by metis
  show ?thesis
  proof (cases c)
    case Fresh
    with eq assms(2,3) cycle_of_not_minus_one show ?thesis by (cases c') auto
  next
    case (Cell u s d)
    note c = this
    obtain u' s' d' where c': "c' = Cell u' s' d'"
      using eq c assms(1,3) cycle_of_not_minus_one [of u k] by (cases c') auto
    have "u mod 2 ^ k = u' mod 2 ^ k" using assms(5,6) c c' by metis
    moreover have "u div 2 ^ k = u' div 2 ^ k"
      using eq c c' assms(1-3) by (simp add: cycle_of_eq_iff)
    ultimately have u: "u' = u" by (metis div_mult_mod_eq)
    have "d' = None \<longleftrightarrow> d = None"
      using encode_occupied [of k u s d] encode_occupied [of k u s' d'] assms(1-4) c c' u by metis
    moreover have "s' = s"
      using bit_encode [of k u s d k] bit_encode [of k u s' d' k] assms(1-4) c c' u by simp
    moreover have "x' = x" if "d = Some x" "d' = Some x'" for x x'
      using encode_index [of k u s x] encode_index [of k u s' x'] assms(1-4) c c' u that by metis
    ultimately show ?thesis
      using c c' u by (cases d; cases d') auto
  qed
qed

end
