(* ===== verification/ScqConcSim.thy ===== *)
theory ScqConcSim
  imports SlotWords
begin

text \<open>
  The words of the concurrent ring and the tickets they stand for: \<open>ring_sim\<close> relates the ring and
  the program counters of \<open>ScqConc\<close> to a state of the ticket machine. Every access of a thread is a
  step of that machine (\<open>ring_step_sim\<close>), so its invariant holds of the code.
\<close>

lemma slot_bits_used_exchange [simp]: "slot_bits (used_exchange r) = slot_bits r"
  by (simp add: used_exchange_def)

section \<open>The relation\<close>

text \<open>A content that may be in the slot of the ticket \<open>t\<close>.\<close>

definition fits :: "nat \<Rightarrow> nat \<Rightarrow> usize cell \<Rightarrow> bool" where
  "fits k t c \<longleftrightarrow> cell_wf k c \<and> (\<forall>u s d. c = Cell u s d \<longrightarrow> u mod 2 ^ k = t mod 2 ^ k)"

text \<open>\<open>hd\<close> is the head of the ring. The index of an enqueuer is kept exclusive-or the mask.\<close>

fun pc_rel :: "nat \<Rightarrow> nat \<Rightarrow> ring_pc \<Rightarrow> usize claim \<Rightarrow> bool" where
  "pc_rel k hdt (EnTicket e) C \<longleftrightarrow> (\<exists>x. index_ok k x \<and> e = (x XOR (2 ^ k - 1)) \<and> C = Want x)"
| "pc_rel k hdt (EnLoad e tk) C \<longleftrightarrow>
     (\<exists>x. index_ok k x \<and> e = (x XOR (2 ^ k - 1)) \<and> C = Drawn x (unat tk))"
| "pc_rel k hdt (EnHead e tk w) C \<longleftrightarrow>
     (\<exists>x c. index_ok k x \<and> e = (x XOR (2 ^ k - 1)) \<and> C = Seen x (unat tk) c
        \<and> w = encode k c \<and> fits k (unat tk) c)"
| "pc_rel k hdt (EnFinal e tk w) C \<longleftrightarrow>
     (\<exists>x c. index_ok k x \<and> e = (x XOR (2 ^ k - 1)) \<and> C = Poised x (unat tk) c
        \<and> w = encode k c \<and> fits k (unat tk) c)"
| "pc_rel k hdt (EnSwap e tk w) C \<longleftrightarrow>
     (\<exists>x c. index_ok k x \<and> e = (x XOR (2 ^ k - 1)) \<and> C = Poised x (unat tk) c
        \<and> w = encode k c \<and> fits k (unat tk) c)"
| "pc_rel k hdt (DeLoad hk a) C \<longleftrightarrow> C = Scanning (unat hk)"
| "pc_rel k hdt (DeSwap hk a w w') C \<longleftrightarrow>
     (\<exists>c. C = Marking (unat hk) c \<and> w = encode k c \<and> w' = encode k (marked (unat hk) c)
        \<and> fits k (unat hk) c)"
| "pc_rel k hdt (DeTake hk w) C \<longleftrightarrow>
     (\<exists>x. C = Taking (unat hk) x \<and> index_ok k x \<and> (w AND (2 ^ k - 1)) = x)"
| "pc_rel k hdt (DeTail hk) C \<longleftrightarrow> C = Free \<and> unat hk < hdt"
| "pc_rel k hdt (CaSwap tk hk) C \<longleftrightarrow> C = Free \<and> unat tk \<le> unat hk \<and> unat hk \<le> hdt"
| "pc_rel k hdt (CaTail hk) C \<longleftrightarrow> C = Free \<and> unat hk \<le> hdt"
| "pc_rel k hdt RingPanic C \<longleftrightarrow> False"
| "pc_rel k hdt _ C \<longleftrightarrow> C = Free"

definition ring_sim :: "nat \<Rightarrow> scq_ring \<Rightarrow> (nat \<Rightarrow> ring_pc) \<Rightarrow> usize ticket_ring \<Rightarrow> bool" where
  "ring_sim N r P S \<longleftrightarrow>
     ring_wf r \<and> N < 2 ^ 62
     \<and> array r = map (encode (slot_bits r)) (cells S) \<and> (\<forall>c\<in>set (cells S). cell_wf (slot_bits r) c)
     \<and> unat (head r) = next_deq S \<and> unat (tail r) = next_enq S
     \<and> next_deq S \<le> N \<and> next_enq S \<le> N
     \<and> (\<forall>t. pc_rel (slot_bits r) (next_deq S) (P t) (claims S t))"

lemma pc_rel_mono: "pc_rel k d p C \<Longrightarrow> d \<le> d' \<Longrightarrow> pc_rel k d' p C"
  by (cases p) auto

section \<open>What a thread reads\<close>

lemma sim_slots: "ring_sim N r P S \<Longrightarrow> length (cells S) = 2 ^ slot_bits r"
  using ring_words(8) [of r] by (simp add: ring_sim_def)

lemma sim_facts:
  assumes "ring_sim N r P S"
  shows "enq_n r = 2 ^ slot_bits r" "deq_n r = 2 ^ slot_bits r" "slot_bits r \<le> 61" "0 < slot_bits r"
    and "unat (lfring_map tk (2 ^ slot_bits r)) = slot_of S (unat tk)"
    "unat (lfring_map tk (2 ^ slot_bits r)) < length (array r)"
    "modup (push_bit 1 tk) (2 ^ slot_bits r) = cycle_of (slot_bits r) (unat tk)"
proof -
  have wf: "ring_wf r" using assms by (simp add: ring_sim_def)
  show "enq_n r = 2 ^ slot_bits r" "deq_n r = 2 ^ slot_bits r" "slot_bits r \<le> 61"
    using ring_words [OF wf] by (simp_all add: enq_n_def deq_n_def)
  show "unat (lfring_map tk (2 ^ slot_bits r)) = slot_of S (unat tk)"
    using sim_slots [OF assms] by (simp add: unat_lfring_map slot_of_def)
  show "unat (lfring_map tk (2 ^ slot_bits r)) < length (array r)"
    using ring_words(8) [OF wf] by (simp add: unat_lfring_map)
  show "modup (push_bit 1 tk) (2 ^ slot_bits r) = cycle_of (slot_bits r) (unat tk)"
    by (rule ticket_cycle)
qed (simp add: slot_bits_def)

lemmas sim_words = sim_facts(1-4)
lemmas sim_ticket = sim_facts(5-7)

lemma sim_load:
  assumes sim: "ring_sim N r P S" and inv: "ticket_inv S"
  shows "array r ! unat (lfring_map tk (2 ^ slot_bits r)) = encode (slot_bits r) (cell_at S (unat tk))"
    and "fits (slot_bits r) (unat tk) (cell_at S (unat tk))"
proof -
  have co: "cells_ok S" using inv by (simp add: ticket_inv_def)
  have lt: "slot_of S (unat tk) < length (cells S)" using co by (rule slot_less)
  show "array r ! unat (lfring_map tk (2 ^ slot_bits r)) = encode (slot_bits r) (cell_at S (unat tk))"
    using sim lt sim_ticket(1) [OF sim, of tk] by (simp add: ring_sim_def cell_at_def)
  have "u mod 2 ^ slot_bits r = unat tk mod 2 ^ slot_bits r" if "cell_at S (unat tk) = Cell u s d" for u s d
    using cell_owner(1) [OF co that] sim_slots [OF sim] by (simp add: slot_of_def)
  moreover have "cell_wf (slot_bits r) (cell_at S (unat tk))"
    using sim lt by (simp add: ring_sim_def cell_at_def)
  ultimately show "fits (slot_bits r) (unat tk) (cell_at S (unat tk))"
    by (simp add: fits_def)
qed

text \<open>The tests of the code on what was loaded.\<close>

lemma fits_tests:
  assumes "fits k t c" "k \<le> 61" "t < 2 ^ 62"
  shows "modup (encode k c) (2 ^ k) = cyc k c"
    and "(encode k c OR 2 ^ k) = cyc k c \<longleftrightarrow> vacant c"
    and "encode k c = cyc k c \<longleftrightarrow> vacant c \<and> safe c"
    and "encode k c = (cyc k c XOR 2 ^ k) \<longleftrightarrow> vacant c \<and> \<not> safe c"
    and "is_lt (lfring_signed_cmp (cyc k c) (cycle_of k t)) \<longleftrightarrow> older c t"
    and "cyc k c = cycle_of k t \<longleftrightarrow> (\<exists>s d. c = Cell t s d)"
  using assms cell_tests [of k c] cyc_older [of k c t] cyc_same [of k c t] by (auto simp: fits_def)

lemma fits_inj: "fits k t c \<Longrightarrow> fits k t c' \<Longrightarrow> k \<le> 61 \<Longrightarrow> encode k c = encode k c' \<Longrightarrow> c = c'"
  using encode_inj [of k c c' t] by (auto simp: fits_def)

lemma fits_marked: "fits k h c \<Longrightarrow> h < 2 ^ 62 \<Longrightarrow> fits k h (marked h c)"
  by (cases "(h, c)" rule: marked.cases) (auto simp: fits_def)

lemma marked_word:
  assumes "fits k h c" "h < 2 ^ 62" "k \<le> 61"
  shows "vacant c \<Longrightarrow> (cycle_of k h XOR (NOT (encode k c) AND 2 ^ k)) = encode k (marked h c)"
    and "\<not> vacant c \<Longrightarrow> (encode k c AND NOT (2 ^ k)) = encode k (marked h c)"
proof -
  have wf: "cell_wf k c" using assms(1) by (simp add: fits_def)
  show "(cycle_of k h XOR (NOT (encode k c) AND 2 ^ k)) = encode k (marked h c)" if "vacant c"
  proof (cases c)
    case (Cell u s d)
    with that encode_skip [OF wf [unfolded Cell] assms(2,3)] show ?thesis by simp
  qed simp
  show "(encode k c AND NOT (2 ^ k)) = encode k (marked h c)" if "\<not> vacant c"
  proof (cases c)
    case (Cell u s d)
    with that obtain x where "d = Some x" by auto
    with encode_unsafe [OF wf [unfolded Cell] assms(3)] Cell show ?thesis
      by (simp del: encode.simps)
  qed (use that in simp)
qed

section \<open>What a step leaves\<close>

lemma sim_claim:
  assumes "ring_sim N r P S" "pc_rel (slot_bits r) (next_deq S) p c"
  shows "ring_sim N r (P(t := p)) (set_claim t c S)"
  using assms by (simp add: ring_sim_def)

lemma sim_stay:
  assumes "ring_sim N r P S" "pc_rel (slot_bits r) (next_deq S) p (claims S t)"
  shows "ring_sim N r (P(t := p)) S"
  using assms by (auto simp: ring_sim_def)

text \<open>Fields that the relation does not see.\<close>

lemma sim_hidden [simp]:
  "ring_sim N (r\<lparr>threshold := v\<rparr>) P S = ring_sim N r P S"
  "ring_sim N (used_exchange r) P S = ring_sim N r P S"
  by (simp_all add: ring_sim_def ring_wf_def used_exchange_def)

lemma sim_later: "ring_sim N r P S \<Longrightarrow> Suc N < 2 ^ 62 \<Longrightarrow> ring_sim (Suc N) r P S"
  by (auto simp: ring_sim_def)

lemma sim_write:
  assumes sim: "ring_sim N r P S" and wf: "cell_wf (slot_bits r) c"
    and e: "e = encode (slot_bits r) c" and i: "i = unat (lfring_map tk (2 ^ slot_bits r))"
    and S': "cells S' = (cells S)[slot_of S (unat tk) := c]" "next_deq S' = next_deq S"
      "next_enq S' = next_enq S" "claims S' = (claims S)(t := C)"
    and p: "pc_rel (slot_bits r) (next_deq S) p C"
  shows "ring_sim N (r\<lparr>array := (array r)[i := e]\<rparr>) (P(t := p)) S'"
proof -
  have "\<forall>c'\<in>set ((cells S)[slot_of S (unat tk) := c]). cell_wf (slot_bits r) c'"
    using sim wf set_update_subset_insert [of "cells S" "slot_of S (unat tk)" c]
    by (auto simp: ring_sim_def)
  then show ?thesis
    using sim p S' sim_ticket(1) [OF sim, of tk] sim_slots [OF sim]
    by (simp add: ring_sim_def ring_wf_def e i map_update)
qed


section \<open>Every access is a step of the ticket machine\<close>

definition simulated ::
  "nat \<Rightarrow> nat \<Rightarrow> usize ticket_event list \<Rightarrow> ring_pc \<Rightarrow> scq_ring \<Rightarrow> (nat \<Rightarrow> ring_pc)
     \<Rightarrow> usize ticket_ring \<Rightarrow> bool"
where
  "simulated N t es p r P S \<longleftrightarrow> (\<exists>S'. ticket_step t es S S' \<and> ring_sim N r (P(t := p)) S')"

lemma simulatedI: "ticket_step t es S S' \<Longrightarrow> ring_sim N r (P(t := p)) S' \<Longrightarrow> simulated N t es p r P S"
  by (auto simp: simulated_def)

lemma simulated_claim:
  assumes "ring_sim N r P S" "ticket_step t es S (set_claim t c S)"
    and "pc_rel (slot_bits r) (next_deq S) p c"
  shows "simulated N t es p r P S"
  by (rule simulatedI [OF assms(2) sim_claim [OF assms(1,3)]])

lemma simulated_stay:
  assumes "ring_sim N r P S" "pc_rel (slot_bits r) (next_deq S) p (claims S t)"
  shows "simulated N t [] p r P S"
  by (rule simulatedI [OF ticket_step.stutter sim_stay [OF assms]])

lemma sim_pc: "ring_sim N r P S \<Longrightarrow> pc_rel (slot_bits r) (next_deq S) (P t) (claims S t)"
  by (simp add: ring_sim_def)

lemma sim_bounds:
  assumes "ring_sim N r P S" "ticket_inv S"
  shows "enq_ticket (claims S t) = Some u \<Longrightarrow> u < next_enq S \<and> u < 2 ^ 62"
    and "deq_ticket (claims S t) = Some h \<Longrightarrow> h < next_deq S \<and> h < 2 ^ 62"
  using assms enq_ticket_bound [of S "claims S t" u] deq_ticket_bound [of S "claims S t" h]
  by (auto simp: ring_sim_def ticket_inv_def claims_ok_def)

lemma sim_draw:
  assumes sim: "ring_sim N r P S" and N: "Suc N < 2 ^ 62" and p: "P t = EnTicket e"
  shows "simulated (Suc N) t [] (EnLoad e (tail r)) (r\<lparr>tail := tail r + 1\<rparr>) P S"
proof -
  obtain x where x: "index_ok (slot_bits r) x" "e = (x XOR (2 ^ slot_bits r - 1))" "claims S t = Want x"
    using sim_pc [OF sim, of t] p by auto
  have tail: "unat (tail r) = next_enq S" "next_enq S \<le> N"
    using sim by (simp_all add: ring_sim_def)
  then have "unat (tail r + 1) = Suc (next_enq S)"
    using N by (subst unat_plus_one) auto
  then have "ring_sim (Suc N) (r\<lparr>tail := tail r + 1\<rparr>) (P(t := EnLoad e (tail r)))
      (set_claim t (Drawn x (next_enq S)) (S\<lparr>next_enq := Suc (next_enq S)\<rparr>))"
    using sim N x tail by (auto simp: ring_sim_def ring_wf_def)
  then show ?thesis
    by (intro simulatedI [OF ticket_step.draw [of S t x]]) (simp_all add: x)
qed

lemma sim_enqueue_claim:
  assumes "ring_sim N r P S" "ticket_step t [] S (set_claim t (Poised x (unat tk) c) S)"
    and "index_ok (slot_bits r) x" "e = (x XOR (2 ^ slot_bits r - 1))" "fits (slot_bits r) (unat tk) c"
  shows "simulated N t [] (enqueue_claim e tk (encode (slot_bits r) c) r) r P S"
  using assms by (intro simulated_claim) (auto simp: enqueue_claim_def)

lemma sim_enqueue_load:
  assumes sim: "ring_sim N r P S" and inv: "ticket_inv S" and p: "P t = EnLoad e tk"
  shows "simulated N t [] (enqueue_load e tk r) r P S"
proof -
  let ?k = "slot_bits r" and ?c = "cell_at S (unat tk)"
  obtain x where x: "index_ok ?k x" "e = (x XOR (2 ^ ?k - 1))" "claims S t = Drawn x (unat tk)"
    using sim_pc [OF sim, of t] p by auto
  have tk: "unat tk < 2 ^ 62"
    using sim_bounds(1) [OF sim inv, of t "unat tk"] x(3) by simp
  note load = sim_load [OF sim inv, of tk]
  note tests = fits_tests [OF load(2) sim_words(3) [OF sim] tk]
  have eq: "enqueue_load e tk r =
      (if older ?c (unat tk) \<and> vacant ?c
       then if safe ?c then enqueue_claim e tk (encode ?k ?c) r else EnHead e tk (encode ?k ?c)
       else EnTicket e)"
    using sim_words [OF sim] sim_ticket [OF sim, of tk] load(1) tests by (simp add: enqueue_load_def Let_def)
  consider "older ?c (unat tk)" "vacant ?c" "safe ?c" | "older ?c (unat tk)" "vacant ?c" "\<not> safe ?c"
    | "\<not> (older ?c (unat tk) \<and> vacant ?c)" by blast
  then show ?thesis
  proof cases
    case 1
    then have "simulated N t [] (enqueue_claim e tk (encode ?k ?c) r) r P S"
      using x load(2) by (intro sim_enqueue_claim [OF sim ticket_step.poise]) auto
    with 1 eq show ?thesis by simp
  next
    case 2
    then have "simulated N t [] (EnHead e tk (encode ?k ?c)) r P S"
      using x load(2) by (intro simulated_claim [OF sim ticket_step.see]) auto
    with 2 eq show ?thesis by simp
  next
    case 3
    have "simulated N t [] (EnTicket e) r P S"
      using x 3 by (intro simulated_claim [OF sim ticket_step.redraw]) auto
    with 3 eq show ?thesis by auto
  qed
qed

lemma sim_enqueue_head:
  assumes sim: "ring_sim N r P S" and inv: "ticket_inv S" and p: "P t = EnHead e tk w"
  shows "simulated N t []
    (if is_le (lfring_signed_cmp (head r) tk) then enqueue_claim e tk w r else EnTicket e) r P S"
proof -
  let ?k = "slot_bits r"
  obtain x c where x: "index_ok ?k x" "e = (x XOR (2 ^ ?k - 1))" "claims S t = Seen x (unat tk) c"
      "w = encode ?k c" "fits ?k (unat tk) c"
    using sim_pc [OF sim, of t] p by auto
  have tk: "unat tk < 2 ^ 62"
    using sim_bounds(1) [OF sim inv, of t "unat tk"] x(3) by simp
  have h: "unat (head r) = next_deq S" "next_deq S < 2 ^ 62"
    using sim by (auto simp: ring_sim_def)
  have le: "is_le (lfring_signed_cmp (head r) tk) \<longleftrightarrow> next_deq S \<le> unat tk"
    using tk h by (subst is_le_signed_cmp) auto
  show ?thesis
  proof (cases "next_deq S \<le> unat tk")
    case True
    then have "simulated N t [] (enqueue_claim e tk w r) r P S"
      unfolding x(4) using x by (intro sim_enqueue_claim [OF sim ticket_step.poise_head]) auto
    with True le show ?thesis by simp
  next
    case False
    have "simulated N t [] (EnTicket e) r P S"
      using x False by (intro simulated_claim [OF sim ticket_step.redraw_head]) auto
    with False le show ?thesis by simp
  qed
qed

lemma sim_enqueue_swap:
  assumes sim: "ring_sim N r P S" and inv: "ticket_inv S" and p: "P t = EnSwap e tk w"
    and step: "enqueue_swap e tk w r = (p', r')"
  shows "simulated N t (ring_event t (EnSwap e tk w) r) p' r' P S"
proof -
  let ?k = "slot_bits r" and ?i = "unat (lfring_map tk (2 ^ slot_bits r))"
  obtain x c where x: "index_ok ?k x" "e = (x XOR (2 ^ ?k - 1))" "claims S t = Poised x (unat tk) c"
      "w = encode ?k c" "fits ?k (unat tk) c"
    using sim_pc [OF sim, of t] p by auto
  have tk: "unat tk < 2 ^ 62"
    using sim_bounds(1) [OF sim inv, of t "unat tk"] x(3) by simp
  note load = sim_load [OF sim inv, of tk]
  have w: "array r ! ?i = w \<longleftrightarrow> cell_at S (unat tk) = c"
    using load x(4,5) fits_inj [OF load(2) x(5) sim_words(3) [OF sim]] by auto
  note words = sim_words [OF sim] sim_ticket [OF sim, of tk]
  show ?thesis
  proof (cases "array r ! ?i = w \<and> \<not> fails_now r")
    case True
    let ?r = "(used_exchange r)\<lparr>array := (array r)[?i := (cycle_of ?k (unat tk) XOR e)]\<rparr>"
    have eq: "enqueue_swap e tk w r = (EnThreshold, ?r)"
      using True words by (simp add: enqueue_swap_def cas_slot_weak_def)
    have "((x XOR (2 ^ ?k - 1)) XOR (2 ^ ?k - 1)) = x"
      by (simp add: xor.assoc)
    then have ev: "ring_event t (EnSwap e tk w) r = [Stored t (unat tk) x]"
      using eq words x(2) by simp
    have sim': "ring_sim N (used_exchange r) P S" using sim by simp
    have "ring_sim N ((used_exchange r)\<lparr>array := (array (used_exchange r))[?i := (cycle_of ?k (unat tk) XOR e)]\<rparr>)
        (P(t := EnThreshold))
        (set_claim t Free (set_cell (unat tk) (Cell (unat tk) True (Some x))
           (S\<lparr>put_at := (put_at S)(unat tk \<mapsto> x)\<rparr>)))"
    proof (rule sim_write [OF sim', where c = "Cell (unat tk) True (Some x)" and C = Free])
      show "(cycle_of ?k (unat tk) XOR e) = encode (slot_bits (used_exchange r)) (Cell (unat tk) True (Some x))"
        using encode_store [OF x(1)] x(2) by (simp add: used_exchange_def)
      show "cell_wf (slot_bits (used_exchange r)) (Cell (unat tk) True (Some x))"
        using tk x(1) by (simp add: used_exchange_def)
    qed (simp_all add: used_exchange_def)
    moreover have "cell_at S (unat tk) = c" using True w by simp
    ultimately show ?thesis
      using eq step ev x(3) by (auto intro!: simulatedI [OF ticket_step.store])
  next
    case False
    have eq: "enqueue_swap e tk w r = (EnLoad e tk, used_exchange r)"
      using False words by (auto simp: enqueue_swap_def cas_slot_weak_def)
    then have ev: "ring_event t (EnSwap e tk w) r = []" by simp
    have "simulated N t [] (EnLoad e tk) (used_exchange r) P S"
      using sim x by (intro simulated_claim [OF _ ticket_step.reload]) auto
    with eq ev step show ?thesis by simp
  qed
qed


lemma sim_ticket_head:
  assumes sim: "ring_sim N r P S" and N: "Suc N < 2 ^ 62" and p: "P t = DeTicket"
  shows "simulated (Suc N) t [] (DeLoad (head r) 0) (r\<lparr>head := head r + 1\<rparr>) P S"
proof -
  have C: "claims S t = Free"
    using sim_pc [OF sim, of t] p by simp
  have head: "unat (head r) = next_deq S" "next_deq S \<le> N"
    using sim by (simp_all add: ring_sim_def)
  then have head': "unat (head r + 1) = Suc (next_deq S)"
    using N unat_plus_one [of "head r"] by simp
  have "pc_rel (slot_bits r) (Suc (next_deq S)) (P u) (claims S u)" for u
    by (rule pc_rel_mono [OF sim_pc [OF sim]]) simp
  then have "ring_sim (Suc N) (r\<lparr>head := head r + 1\<rparr>) (P(t := DeLoad (head r) 0))
      (set_claim t (Scanning (next_deq S)) (S\<lparr>next_deq := Suc (next_deq S)\<rparr>))"
    using sim N head head' sim_slots [OF sim] by (simp add: ring_sim_def ring_wf_def)
  then show ?thesis
    by (intro simulatedI [OF ticket_step.scan [of S t]]) (simp_all add: C)
qed

text \<open>
  What a dequeuer that holds the ticket \<open>hk\<close> knows of the slot it loads, and the three things the
  slot may hold: its own index, another index, none.
\<close>

definition at_scan ::
  "nat \<Rightarrow> nat \<Rightarrow> usize \<Rightarrow> scq_ring \<Rightarrow> (nat \<Rightarrow> ring_pc) \<Rightarrow> usize ticket_ring \<Rightarrow> bool"
where
  "at_scan N t hk r P S \<longleftrightarrow> ring_sim N r P S \<and> ticket_inv S \<and> claims S t = Scanning (unat hk)"

lemma at_scan_parts:
  assumes "at_scan N t hk r P S"
  shows "ring_sim N r P S" "ticket_inv S" "claims S t = Scanning (unat hk)"
    "claim_ok S (Scanning (unat hk))" "unat hk < next_deq S" "unat hk < 2 ^ 62"
    "slot_bits r \<le> 61" "fits (slot_bits r) (unat hk) (cell_at S (unat hk))"
proof -
  show s: "ring_sim N r P S" "ticket_inv S" "claims S t = Scanning (unat hk)"
    using assms by (simp_all add: at_scan_def)
  show "claim_ok S (Scanning (unat hk))" by (rule claim_ok_at [OF s(2,3)])
  show "unat hk < next_deq S" "unat hk < 2 ^ 62"
    using sim_bounds(2) [OF s(1,2), of t "unat hk"] s(3) by simp_all
  show "slot_bits r \<le> 61" by (rule sim_words(3) [OF s(1)])
  show "fits (slot_bits r) (unat hk) (cell_at S (unat hk))" by (rule sim_load(2) [OF s(1,2)])
qed

text \<open>The code's tests on the word are tests on the content of the slot.\<close>

lemma dequeue_load_cell:
  assumes "at_scan N t hk r P S" and k: "k = slot_bits r" and h: "h = unat hk" and c: "c = cell_at S h"
  shows "dequeue_load hk a r =
     (if \<exists>s d. c = Cell h s d then DeTake hk (encode k c)
      else if \<not> vacant c
      then (if encode k c = (encode k c AND NOT (2 ^ k)) then DeTail hk
            else if older c h then DeSwap hk a (encode k c) (encode k c AND NOT (2 ^ k))
            else DeTail hk)
      else if sint (a + 1) \<le> 10 then DeLoad hk (a + 1)
      else if older c h
      then DeSwap hk (a + 1) (encode k c) (cycle_of k h XOR (NOT (encode k c) AND 2 ^ k))
      else DeTail hk)"
proof -
  note at = at_scan_parts [OF assms(1)]
  note tests = fits_tests [OF at(8,7,6)]
  show ?thesis
    using sim_words [OF at(1)] sim_ticket [OF at(1), of hk] sim_load(1) [OF at(1,2), of hk] tests
    by (simp add: dequeue_load_def Let_def k h c)
qed

lemma simulated_mark:
  assumes "at_scan N t hk r P S" "older (cell_at S (unat hk)) (unat hk)"
  shows "simulated N t [] (DeSwap hk a (encode (slot_bits r) (cell_at S (unat hk)))
           (encode (slot_bits r) (marked (unat hk) (cell_at S (unat hk))))) r P S"
  using assms(2) at_scan_parts [OF assms(1)] by (intro simulated_claim [OF _ ticket_step.mark]) auto

lemma simulated_pass:
  assumes at: "at_scan N t hk r P S" and c: "cell_at S (unat hk) = Cell u s d"
    and "unat hk < u \<or> \<not> s \<and> u \<noteq> unat hk \<and> d \<noteq> None"
  shows "simulated N t [] (DeTail hk) r P S"
proof (rule simulatedI)
  show "ticket_step t [] S (set_claim t Free (S\<lparr>passed := insert (unat hk) (passed S)\<rparr>))"
    using at_scan_parts(3) [OF at] c assms(3) by (intro ticket_step.pass) auto
  show "ring_sim N r (P(t := DeTail hk)) (set_claim t Free (S\<lparr>passed := insert (unat hk) (passed S)\<rparr>))"
    using at_scan_parts(1,5) [OF at] by (simp add: ring_sim_def)
qed

lemma sim_load_mine:
  assumes at: "at_scan N t hk r P S" and c: "cell_at S (unat hk) = Cell (unat hk) s d"
  shows "simulated N t [] (dequeue_load hk a r) r P S"
proof -
  let ?k = "slot_bits r" and ?c = "cell_at S (unat hk)"
  note p = at_scan_parts [OF at]
  obtain x where d: "d = Some x"
    using cell_owner(2) [of S "unat hk" "unat hk" s d] p(2,4) c by (cases d) (auto simp: ticket_inv_def)
  have "index_ok ?k x"
    using p(8) c d by (simp add: fits_def)
  moreover have "(encode ?k ?c AND (2 ^ ?k - 1)) = x"
    using encode_index [of ?k "unat hk" s x] p(7,8) c d by (simp add: fits_def del: encode.simps)
  ultimately have "simulated N t [] (DeTake hk (encode ?k ?c)) r P S"
    using p(3) c d by (intro simulated_claim [OF p(1) ticket_step.take_up]) auto
  with dequeue_load_cell [OF at refl refl refl, of a] c show ?thesis by auto
qed

lemma unsafe_word:
  assumes f: "fits k h (Cell u s (Some x))" and k: "k \<le> 61"
  shows "encode k (Cell u s (Some x)) = (encode k (Cell u s (Some x)) AND NOT (2 ^ k)) \<longleftrightarrow> \<not> s"
proof -
  have wf: "cell_wf k (Cell u s (Some x))" using f by (simp add: fits_def)
  have "fits k h (Cell u False (Some x))" using f by (simp add: fits_def)
  then have "encode k (Cell u s (Some x)) = encode k (Cell u False (Some x)) \<longleftrightarrow> \<not> s"
    using fits_inj [OF f, of "Cell u False (Some x)"] k by (auto simp del: encode.simps)
  with encode_unsafe [OF wf k] show ?thesis by (simp del: encode.simps)
qed

lemma sim_load_other:
  assumes at: "at_scan N t hk r P S" and c: "cell_at S (unat hk) = Cell u s (Some x)" "u \<noteq> unat hk"
  shows "simulated N t [] (dequeue_load hk a r) r P S"
proof -
  let ?k = "slot_bits r" and ?c = "cell_at S (unat hk)"
  note p = at_scan_parts [OF at] and eq = dequeue_load_cell [OF at refl refl refl, of a]
  have unsafe: "encode ?k ?c = (encode ?k ?c AND NOT (2 ^ ?k)) \<longleftrightarrow> \<not> s"
    using unsafe_word [of ?k "unat hk" u s x] p(7,8) c(1) by (simp del: encode.simps)
  show ?thesis
  proof (cases "s \<and> older ?c (unat hk)")
    case True
    then have "dequeue_load hk a r = DeSwap hk a (encode ?k ?c) (encode ?k (marked (unat hk) ?c))"
      using eq c unsafe marked_word(2) [OF p(8,6,7)] by (simp del: encode.simps)
    with simulated_mark [OF at] True show ?thesis by simp
  next
    case False
    then have "dequeue_load hk a r = DeTail hk"
      using eq c unsafe by (auto simp del: encode.simps)
    moreover have "unat hk < u \<or> \<not> s \<and> u \<noteq> unat hk \<and> Some x \<noteq> None"
      using False c by auto
    ultimately show ?thesis using simulated_pass [OF at c(1)] by simp
  qed
qed

lemma sim_load_vacant:
  assumes at: "at_scan N t hk r P S" and c: "vacant (cell_at S (unat hk))"
    "\<nexists>s d. cell_at S (unat hk) = Cell (unat hk) s d"
  shows "simulated N t [] (dequeue_load hk a r) r P S"
proof -
  let ?k = "slot_bits r" and ?c = "cell_at S (unat hk)"
  note p = at_scan_parts [OF at] and eq = dequeue_load_cell [OF at refl refl refl, of a]
  consider "sint (a + 1) \<le> 10" | "\<not> sint (a + 1) \<le> 10" "older ?c (unat hk)"
    | "\<not> sint (a + 1) \<le> 10" "\<not> older ?c (unat hk)" by blast
  then show ?thesis
  proof cases
    case 1
    then have "dequeue_load hk a r = DeLoad hk (a + 1)"
      using eq c by (auto simp del: encode.simps)
    then show ?thesis using simulated_stay [OF p(1)] p(3) by simp
  next
    case 2
    then have "dequeue_load hk a r = DeSwap hk (a + 1) (encode ?k ?c) (encode ?k (marked (unat hk) ?c))"
      using eq c marked_word(1) [OF p(8,6,7)] by (auto simp del: encode.simps)
    with simulated_mark [OF at 2(2)] show ?thesis by simp
  next
    case 3
    then obtain u s d where u: "?c = Cell u s d" "unat hk \<le> u"
      by (cases ?c) auto
    then have "unat hk < u" using c(2) le_neq_implies_less by blast
    moreover have "dequeue_load hk a r = DeTail hk"
      using eq c 3 by (auto simp del: encode.simps)
    ultimately show ?thesis using simulated_pass [OF at u(1)] by simp
  qed
qed

lemma sim_dequeue_load:
  assumes sim: "ring_sim N r P S" and inv: "ticket_inv S" and p: "P t = DeLoad hk a"
  shows "simulated N t [] (dequeue_load hk a r) r P S"
proof -
  have at: "at_scan N t hk r P S"
    using sim_pc [OF sim, of t] p sim inv by (simp add: at_scan_def)
  consider s d where "cell_at S (unat hk) = Cell (unat hk) s d"
    | u s x where "cell_at S (unat hk) = Cell u s (Some x)" "u \<noteq> unat hk"
    | "vacant (cell_at S (unat hk))" "\<nexists>s d. cell_at S (unat hk) = Cell (unat hk) s d"
  proof (cases "cell_at S (unat hk)")
    case (Cell u s d)
    then show ?thesis using that by (cases "u = unat hk"; cases d) auto
  qed (use that(3) in simp)
  then show ?thesis
    by cases (auto intro: sim_load_mine [OF at] sim_load_other [OF at] sim_load_vacant [OF at])
qed

lemma sim_dequeue_swap:
  assumes sim: "ring_sim N r P S" and inv: "ticket_inv S" and p: "P t = DeSwap hk a w w'"
    and step: "dequeue_swap hk a w w' r = (p', r')"
  shows "simulated N t [] p' r' P S"
proof -
  let ?k = "slot_bits r" and ?i = "unat (lfring_map hk (2 ^ slot_bits r))"
  obtain c where c: "claims S t = Marking (unat hk) c" "w = encode ?k c"
      "w' = encode ?k (marked (unat hk) c)" "fits ?k (unat hk) c"
    using sim_pc [OF sim, of t] p by auto
  have h: "unat hk < next_deq S" "unat hk < 2 ^ 62"
    using sim_bounds(2) [OF sim inv, of t "unat hk"] c(1) by simp_all
  note load = sim_load [OF sim inv, of hk]
  have w: "array r ! ?i = w \<longleftrightarrow> cell_at S (unat hk) = c"
    using load c(2,4) fits_inj [OF load(2) c(4) sim_words(3) [OF sim]] by auto
  note words = sim_words [OF sim] sim_ticket [OF sim, of hk]
  show ?thesis
  proof (cases "array r ! ?i = w \<and> \<not> fails_now r")
    case True
    have eq: "dequeue_swap hk a w w' r = (DeTail hk, (used_exchange r)\<lparr>array := (array r)[?i := w']\<rparr>)"
      using True words by (simp add: dequeue_swap_def cas_slot_weak_def)
    have sim': "ring_sim N (used_exchange r) P S" using sim by simp
    have "ring_sim N ((used_exchange r)\<lparr>array := (array (used_exchange r))[?i := w']\<rparr>)
        (P(t := DeTail hk))
        (set_claim t Free (set_cell (unat hk) (marked (unat hk) c)
           (S\<lparr>passed := insert (unat hk) (passed S)\<rparr>)))"
    proof (rule sim_write [OF sim', where c = "marked (unat hk) c" and C = Free])
      show "cell_wf (slot_bits (used_exchange r)) (marked (unat hk) c)"
        using fits_marked [OF c(4) h(2)] by (simp add: fits_def)
    qed (use c(3) h in simp_all)
    moreover have "cell_at S (unat hk) = c" using True w by simp
    ultimately show ?thesis
      using eq step c(1) by (auto intro!: simulatedI [OF ticket_step.leave])
  next
    case False
    then have "dequeue_swap hk a w w' r = (DeLoad hk a, used_exchange r)"
      using words by (auto simp: dequeue_swap_def cas_slot_weak_def)
    moreover have "simulated N t [] (DeLoad hk a) (used_exchange r) P S"
      using sim c by (intro simulated_claim [OF _ ticket_step.rescan]) auto
    ultimately show ?thesis using step by simp
  qed
qed

lemma sim_dequeue_take:
  assumes sim: "ring_sim N r P S" and inv: "ticket_inv S" and p: "P t = DeTake hk w"
    and step: "dequeue_take hk w r = (p', r')"
  shows "simulated N t (ring_event t (DeTake hk w) r) p' r' P S"
proof -
  let ?k = "slot_bits r" and ?i = "unat (lfring_map hk (2 ^ slot_bits r))" and ?h = "unat hk"
  obtain x where x: "claims S t = Taking ?h x" "index_ok ?k x" "(w AND (2 ^ ?k - 1)) = x"
    using sim_pc [OF sim, of t] p by auto
  obtain s where s: "cell_at S ?h = Cell ?h s (Some x)"
    using claim_ok_at [OF inv x(1)] by auto
  note load = sim_load [OF sim inv, of hk]
  note words = sim_words [OF sim] sim_ticket [OF sim, of hk]
  have wf: "cell_wf ?k (Cell ?h s (Some x))" using load(2) s by (simp add: fits_def)
  have "(array r ! ?i OR (2 ^ ?k - 1)) = encode ?k (Cell ?h s None)"
    using load(1) s encode_clear [OF wf words(3)] by (simp del: encode.simps)
  then have eq: "dequeue_take hk w r =
      (DeDone (Some x), r\<lparr>array := (array r)[?i := encode ?k (Cell ?h s None)]\<rparr>)"
    using words x(3) by (simp add: dequeue_take_def Let_def del: encode.simps)
  have ev: "ring_event t (DeTake hk w) r = [Removed t ?h x]"
    using words x(3) by simp
  have "ring_sim N (r\<lparr>array := (array r)[?i := encode ?k (Cell ?h s None)]\<rparr>) (P(t := DeDone (Some x)))
      (set_claim t Free (set_cell ?h (Cell ?h s None) (S\<lparr>taken := insert ?h (taken S)\<rparr>)))"
    using wf by (intro sim_write [OF sim, where c = "Cell ?h s None" and C = Free]) simp_all
  with eq ev step x(1) s show ?thesis
    by (auto intro!: simulatedI [OF ticket_step.remove] simp del: encode.simps)
qed

lemma sim_dequeue_tail:
  assumes sim: "ring_sim N r P S" and N: "Suc N < 2 ^ 62" and p: "P t = DeTail hk"
  shows "simulated N t [] (dequeue_tail hk r) r P S"
proof -
  have C: "claims S t = Free" "unat hk < next_deq S"
    using sim_pc [OF sim, of t] p by simp_all
  have b: "unat (tail r) = next_enq S" "next_enq S \<le> N" "next_deq S \<le> N"
    using sim by (simp_all add: ring_sim_def)
  have hk: "unat (hk + 1) = Suc (unat hk)"
    using C(2) b N unat_plus_one [of hk] by simp
  have "is_le (lfring_signed_cmp (tail r) (hk + 1)) \<longleftrightarrow> unat (tail r) \<le> unat (hk + 1)"
    using b N hk C(2) by (intro is_le_signed_cmp) auto
  then show ?thesis
    using C hk by (intro simulated_stay [OF sim]) (auto simp: dequeue_tail_def Let_def)
qed

lemma sim_catchup_swap:
  assumes sim: "ring_sim N r P S" and p: "P t = CaSwap tk hk"
    and step: "catchup_swap tk hk r = (p', r')"
  shows "simulated N t [] p' r' P S"
proof -
  have C: "claims S t = Free" "unat tk \<le> unat hk" "unat hk \<le> next_deq S"
    using sim_pc [OF sim, of t] p by simp_all
  have tail: "unat (tail r) = next_enq S" using sim by (simp add: ring_sim_def)
  show ?thesis
  proof (cases "tail r = tk \<and> \<not> fails_now r")
    case True
    then have "catchup_swap tk hk r = (DeCount True, (used_exchange r)\<lparr>tail := hk\<rparr>)"
      by (simp add: catchup_swap_def cas_tail_weak_def)
    moreover have "ring_sim N ((used_exchange r)\<lparr>tail := hk\<rparr>) (P(t := DeCount True))
        (S\<lparr>next_enq := unat hk\<rparr>)"
      using sim C sim_slots [OF sim] by (auto simp: ring_sim_def ring_wf_def)
    ultimately show ?thesis
      using step True C tail by (auto intro!: simulatedI [OF ticket_step.raise])
  next
    case False
    then have "catchup_swap tk hk r = (CaHead, used_exchange r)"
      by (auto simp: catchup_swap_def cas_tail_weak_def)
    with step C(1) sim show ?thesis by (auto intro!: simulated_stay)
  qed
qed

lemma sim_catchup_tail:
  assumes sim: "ring_sim N r P S" and p: "P t = CaTail hk"
  shows "simulated N t [] (catchup_tail hk r) r P S"
proof -
  have C: "claims S t = Free" "unat hk \<le> next_deq S"
    using sim_pc [OF sim, of t] p by simp_all
  have "unat (tail r) \<le> N" "unat hk \<le> N" "N < 2 ^ 62"
    using sim C(2) by (simp_all add: ring_sim_def)
  then have "is_ge (lfring_signed_cmp (tail r) hk) \<longleftrightarrow> unat hk \<le> unat (tail r)"
    by (intro is_ge_signed_cmp) auto
  then show ?thesis
    using C by (intro simulated_stay [OF sim]) (auto simp: catchup_tail_def)
qed

lemma simulated_later: "simulated N t es p r P S \<Longrightarrow> Suc N < 2 ^ 62 \<Longrightarrow> simulated (Suc N) t es p r P S"
  unfolding simulated_def using sim_later by blast

theorem ring_step_sim:
  assumes sim: "ring_sim N r P S" and inv: "ticket_inv S" and N: "Suc N < 2 ^ 62"
    and step: "ring_step (P t) r = (p', r')"
  shows "simulated (Suc N) t (ring_event t (P t) r) p' r' P S"
proof -
  have stay: "simulated N t [] p r P S"
    if "pc_rel (slot_bits r) (next_deq S) p (claims S t)" for p
    using simulated_stay [OF sim that] .
  have hidden: "simulated N t [] p (r\<lparr>threshold := v\<rparr>) P S"
    if "pc_rel (slot_bits r) (next_deq S) p (claims S t)" for p v
    using simulated_stay [of N "r\<lparr>threshold := v\<rparr>" P S p t] sim that by simp
  note pc = sim_pc [OF sim, of t]
  show ?thesis
  proof (cases "P t")
    case (EnTicket e)
    with step sim_draw [OF sim N EnTicket] show ?thesis by auto
  next
    case (EnLoad e tk)
    with step simulated_later [OF sim_enqueue_load [OF sim inv EnLoad] N] show ?thesis by auto
  next
    case (EnHead e tk w)
    with step simulated_later [OF sim_enqueue_head [OF sim inv EnHead] N] show ?thesis by auto
  next
    case (EnFinal e tk w)
    then obtain x c where x: "index_ok (slot_bits r) x" "e = (x XOR (2 ^ slot_bits r - 1))"
        "claims S t = Poised x (unat tk) c" "w = encode (slot_bits r) c" "fits (slot_bits r) (unat tk) c"
      using pc by auto
    have "simulated N t [] (EnDone (Inl QueueFinalized)) r P S"
      using x by (intro simulated_claim [OF sim ticket_step.refuse]) auto
    moreover have "simulated N t [] (EnSwap e tk w) r P S"
      using x by (intro stay) auto
    ultimately show ?thesis
      using step EnFinal simulated_later [OF _ N] by auto
  next
    case (EnSwap e tk w)
    with step simulated_later [OF sim_enqueue_swap [OF sim inv EnSwap] N] show ?thesis
      by (simp del: ring_event.simps)
  next
    case DeTicket
    with step sim_ticket_head [OF sim N DeTicket] show ?thesis by auto
  next
    case (DeLoad hk a)
    with step simulated_later [OF sim_dequeue_load [OF sim inv DeLoad] N] show ?thesis by auto
  next
    case (DeSwap hk a w w')
    with step simulated_later [OF sim_dequeue_swap [OF sim inv DeSwap] N] show ?thesis by auto
  next
    case (DeTake hk w)
    with step simulated_later [OF sim_dequeue_take [OF sim inv DeTake] N] show ?thesis
      by (simp del: ring_event.simps)
  next
    case (DeTail hk)
    with step simulated_later [OF sim_dequeue_tail [OF sim N DeTail] N] show ?thesis by auto
  next
    case (CaSwap tk hk)
    with step simulated_later [OF sim_catchup_swap [OF sim CaSwap] N] show ?thesis by auto
  next
    case CaHead
    have "unat (head r) = next_deq S" using sim by (simp add: ring_sim_def)
    with CaHead step pc simulated_later [OF stay N] show ?thesis by auto
  next
    case (CaTail hk)
    with step simulated_later [OF sim_catchup_tail [OF sim CaTail] N] show ?thesis by auto
  next
    case (DeCount b)
    with step pc simulated_later [OF hidden N] show ?thesis by (auto simp: dequeue_count_def)
  next
    case EnReset
    with step pc simulated_later [OF hidden N] show ?thesis by auto
  next
    case RingPanic
    with pc show ?thesis by simp
  next
    case (EnDone res)
    show ?thesis
      using step pc simulated_later [OF stay N] unfolding EnDone by auto
  next
    case (DeDone res)
    show ?thesis
      using step pc simulated_later [OF stay N] unfolding DeDone by auto
  qed (use step pc simulated_later [OF stay N] in auto)
qed

end
