(* ===== verification/ScqConcRun.thy ===== *)
theory ScqConcRun
  imports ScqConcSim "HOL-Library.Sublist"
begin

text \<open>
  Runs of the concurrent ring: a quiet ring of the sequential development is a start of the ticket
  machine, every label of a run is simulated, and what follows for the log and the contents.
\<close>

section \<open>Start\<close>

lemma list_of_choice: "(\<And>j. j < n \<Longrightarrow> \<exists>c. Q j c) \<Longrightarrow> \<exists>cs. length cs = n \<and> (\<forall>j<n. Q j (cs ! j))"
proof (induction n)
  case (Suc n)
  then obtain cs where cs: "length cs = n" "\<forall>j<n. Q j (cs ! j)" by auto
  obtain c where "Q n c" using Suc.prems by blast
  with cs show ?case
    by (intro exI [of _ "cs @ [c]"]) (auto simp: nth_append less_Suc_eq)
qed simp

lemma mod_window_inj:
  assumes "(h + i) mod m = (h + j) mod m" "i < m" "j < (m :: nat)"
  shows "i = j"
proof (rule ccontr)
  assume "i \<noteq> j"
  then consider "h + i < h + j" | "h + j < h + i" by linarith
  then show False
    using mod_eq_gap [of "h + i" m "h + j"] mod_eq_gap [of "h + j" m "h + i"] assms by cases simp_all
qed

definition start_puts :: "nat \<Rightarrow> 'x list \<Rightarrow> nat \<Rightarrow> 'x option" where
  "start_puts h xs t = (if h \<le> t \<and> t < h + length xs then Some (xs ! (t - h)) else None)"

lemma start_puts_Nil [simp]: "start_puts h [] t = None"
  by (simp add: start_puts_def)

definition start_of :: "scq_ring \<Rightarrow> usize list \<Rightarrow> usize cell list \<Rightarrow> usize ticket_ring" where
  "start_of r xs cs = \<lparr>base = unat (head r), next_deq = unat (head r), next_enq = unat (tail r),
     cells = cs, put_at = start_puts (unat (head r)) xs, taken = {}, passed = {}, claims = (\<lambda>_. Free)\<rparr>"

text \<open>The content of a slot of a quiet ring.\<close>

definition quiet_cell :: "scq_ring \<Rightarrow> usize list \<Rightarrow> nat \<Rightarrow> usize cell \<Rightarrow> bool" where
  "quiet_cell r xs j e \<longleftrightarrow> encode (slot_bits r) e = array r ! j \<and> cell_wf (slot_bits r) e
     \<and> (\<forall>u s d. e = Cell u s d \<longrightarrow> u mod 2 ^ slot_bits r = j
          \<and> (d = None \<longrightarrow> u < unat (head r))
          \<and> (\<forall>x. d = Some x \<longrightarrow> start_puts (unat (head r)) xs u = Some x))
     \<and> (\<forall>i<length xs. j = (unat (head r) + i) mod 2 ^ slot_bits r
          \<longrightarrow> e = Cell (unat (head r) + i) True (Some (xs ! i)))"

lemma quiet_slot:
  assumes rep: "ring_rep c r xs" and j: "j < 2 ^ slot_bits r"
  shows "\<exists>e. quiet_cell r xs j e"
proof (cases "\<exists>i<length xs. j = (unat (head r) + i) mod 2 ^ slot_bits r")
  case True
  then obtain i where i: "i < length xs" "j = (unat (head r) + i) mod 2 ^ slot_bits r" by blast
  have x: "unat (xs ! i) < ring_half r" and u: "unat (head r) + i < 2 ^ 62" and len: "length xs \<le> 2 ^ slot_bits r"
    using rep i(1) by (auto simp: ring_rep_def slots_rep_def)
  have e: "array r ! j = entry_of (slot_bits r) (unat (head r) + i) (xs ! i)"
    using rep i by (auto simp: ring_rep_def slots_rep_def)
  have one: "i' = i" if "i' < length xs" "j = (unat (head r) + i') mod 2 ^ slot_bits r" for i'
    using that i len by (intro mod_window_inj [of "unat (head r)" i' "2 ^ slot_bits r" i]) simp_all
  have "index_ok (slot_bits r) (xs ! i)"
    using x two_halves [of r] by (simp add: index_ok_def) (simp add: slot_bits_def)
  then have "quiet_cell r xs j (Cell (unat (head r) + i) True (Some (xs ! i)))"
    unfolding quiet_cell_def
  proof (intro conjI allI impI)
    fix i' assume "i' < length xs" "j = (unat (head r) + i') mod 2 ^ slot_bits r"
    then show "Cell (unat (head r) + i) True (Some (xs ! i))
        = Cell (unat (head r) + i') True (Some (xs ! i'))"
      using one [of i'] by simp
  qed (use i e u in \<open>simp_all add: start_puts_def\<close>)
  then show ?thesis by blast
next
  case False
  then have "free_slot (slot_bits r) (unat (head r)) j (array r ! j)"
    using rep j by (auto simp: ring_rep_def slots_rep_def)
  then show ?thesis
    unfolding free_slot_def
  proof (elim disjE exE conjE)
    assume "array r ! j = -1"
    with False show ?thesis by (intro exI [of _ Fresh]) (auto simp: quiet_cell_def)
  next
    fix u assume u: "u < unat (head r)" "u mod 2 ^ slot_bits r = j" "array r ! j = cycle_of (slot_bits r) u"
    moreover have "u < 2 ^ 62" using u(1) rep by (auto simp: ring_rep_def)
    ultimately show ?thesis using False by (intro exI [of _ "Cell u True None"]) (auto simp: quiet_cell_def)
  qed
qed

lemma ring_rep_start:
  assumes rep: "ring_rep c r xs"
  shows "\<exists>cs. ticket_inv (start_of r xs cs) \<and> ring_sim c r (\<lambda>_. RingIdle) (start_of r xs cs)"
proof -
  let ?k = "slot_bits r" and ?h = "unat (head r)"
  obtain cs where cs: "length cs = 2 ^ ?k" "\<forall>j<2 ^ ?k. quiet_cell r xs j (cs ! j)"
    using list_of_choice [of "2 ^ ?k" "quiet_cell r xs"] quiet_slot [OF rep] by blast
  let ?S = "start_of r xs cs"
  have wf: "ring_wf r" and n: "length (array r) = 2 ^ ?k" and b: "?h + length xs \<le> unat (tail r)"
    "unat (tail r) \<le> c" "c < 2 ^ 62"
    using rep ring_words(8) [of r] by (auto simp: ring_rep_def)
  have slot: "slot_of ?S u = u mod 2 ^ ?k" for u
    using cs(1) by (simp add: slot_of_def start_of_def)
  have "cs \<noteq> []" using cs(1) by auto
  then have "cells_ok ?S"
    using cs slot by (auto simp: cells_ok_def start_of_def quiet_cell_def)
  moreover have "live_ok ?S"
    unfolding live_ok_def
  proof (intro allI impI)
    fix u x assume "put_at ?S u = Some x"
    then have u: "?h \<le> u" "u < ?h + length xs" "x = xs ! (u - ?h)"
      by (auto simp: start_of_def start_puts_def split: if_splits)
    have "quiet_cell r xs (u mod 2 ^ ?k) (cs ! (u mod 2 ^ ?k))"
      using cs(2) by simp
    then have "u - ?h < length xs \<longrightarrow> u mod 2 ^ ?k = (?h + (u - ?h)) mod 2 ^ ?k
        \<longrightarrow> cs ! (u mod 2 ^ ?k) = Cell (?h + (u - ?h)) True (Some (xs ! (u - ?h)))"
      unfolding quiet_cell_def by blast
    with u have "cs ! (u mod 2 ^ ?k) = Cell u True (Some x)" by simp
    then have "cell_at ?S u = Cell u True (Some x)"
      unfolding cell_at_def slot by (simp add: start_of_def)
    then show "\<exists>s. cell_at ?S u = Cell u s (Some x)" by blast
  qed
  moreover have "history_ok ?S" "passed_ok ?S" "claims_ok ?S" "one_owner ?S" "all_claimed ?S"
    using b by (auto simp: ticket_defs start_of_def start_puts_def split: if_splits)
  ultimately have "ticket_inv ?S" by (simp add: ticket_inv_def)
  moreover have "array r = map (encode ?k) cs"
    using cs n by (intro nth_equalityI) (auto simp: quiet_cell_def)
  then have "ring_sim c r (\<lambda>_. RingIdle) ?S"
    using wf b cs by (auto simp: ring_sim_def start_of_def in_set_conv_nth quiet_cell_def)
  ultimately show ?thesis by blast
qed


section \<open>The state of a concurrent ring\<close>

text \<open>
  \<open>ring_conc N X M r P es\<close>: the ring \<open>r\<close> with its threads at \<open>P\<close> is a state the ticket machine allows;
  \<open>es\<close> is its log since the tickets \<open>X\<close> and the indices \<open>M\<close> were in it, and no ticket is beyond \<open>N\<close>.
\<close>

definition ring_at ::
  "nat \<Rightarrow> (nat \<Rightarrow> usize option) \<Rightarrow> usize multiset \<Rightarrow> scq_ring \<Rightarrow> (nat \<Rightarrow> ring_pc)
     \<Rightarrow> usize ticket_event list \<Rightarrow> usize ticket_ring \<Rightarrow> bool"
where
  "ring_at N X M r P es S \<longleftrightarrow> ring_sim N r P S \<and> ticket_inv S \<and> log_ok X S es
     \<and> contents S + removed_items es = M + stored_items es"

definition ring_conc ::
  "nat \<Rightarrow> (nat \<Rightarrow> usize option) \<Rightarrow> usize multiset \<Rightarrow> scq_ring \<Rightarrow> (nat \<Rightarrow> ring_pc)
     \<Rightarrow> usize ticket_event list \<Rightarrow> bool"
where
  "ring_conc N X M r P es \<longleftrightarrow> (\<exists>S. ring_at N X M r P es S)"

lemma sum_singletons: "(\<Sum>t\<in>{h..<h + length xs}. {#xs ! (t - h)#}) = mset xs"
proof (induction xs rule: rev_induct)
  case (snoc x xs)
  have "{h..<h + length (xs @ [x])} = insert (h + length xs) {h..<h + length xs}"
    by auto
  moreover have "(\<Sum>t\<in>{h..<h + length xs}. {#(xs @ [x]) ! (t - h)#})
      = (\<Sum>t\<in>{h..<h + length xs}. {#xs ! (t - h)#})"
    by (intro sum.cong) (auto simp: nth_append)
  ultimately show ?case using snoc by simp
qed simp

lemma start_contents:
  assumes "ticket_inv (start_of r xs cs)"
  shows "contents (start_of r xs cs) = mset xs"
proof -
  let ?h = "unat (head r)"
  have live: "live (start_of r xs cs) = {?h..<?h + length xs}"
    by (auto simp: live_def start_of_def start_puts_def split: if_splits)
  have "contents (start_of r xs cs)
      = (\<Sum>t\<in>{?h..<?h + length xs}. {#the (put_at (start_of r xs cs) t)#})"
    unfolding contents_live [OF assms] live by (simp add: image_mset_set)
  also have "\<dots> = (\<Sum>t\<in>{?h..<?h + length xs}. {#xs ! (t - ?h)#})"
    by (intro sum.cong) (auto simp: start_of_def start_puts_def)
  finally show ?thesis by (simp add: sum_singletons)
qed

theorem ring_conc_start:
  assumes "ring_rep c r xs"
  shows "ring_conc c (start_puts (unat (head r)) xs) (mset xs) r (\<lambda>_. RingIdle) []"
proof -
  obtain cs where cs: "ticket_inv (start_of r xs cs)" "ring_sim c r (\<lambda>_. RingIdle) (start_of r xs cs)"
    using ring_rep_start [OF assms] by blast
  have "log_ok (start_puts (unat (head r)) xs) (start_of r xs cs) []"
    by (simp add: log_ok_def start_of_def)
  with cs start_contents [OF cs(1)] show ?thesis
    unfolding ring_conc_def ring_at_def by (intro exI [of _ "start_of r xs cs"]) simp
qed

lemma ring_at_step:
  assumes at: "ring_at N X M r P es S" and N: "Suc N < 2 ^ 62" and step: "ring_step (P t) r = (p', r')"
  shows "\<exists>S'. ring_at (Suc N) X M r' (P(t := p')) (es @ ring_event t (P t) r) S'
           \<and> ticket_step t (ring_event t (P t) r) S S'"
proof -
  note at' = at [unfolded ring_at_def]
  obtain S' where S': "ticket_step t (ring_event t (P t) r) S S'" "ring_sim (Suc N) r' (P(t := p')) S'"
    using ring_step_sim [where P = P and t = t, OF _ _ N step] at' unfolding simulated_def by blast
  have inv: "ticket_inv S" using at' by simp
  have "contents S' + removed_items (ring_event t (P t) r) = contents S + stored_items (ring_event t (P t) r)"
    using ticket_step_contents [OF S'(1) inv] .
  then have "contents S' + removed_items (es @ ring_event t (P t) r)
      = contents S + removed_items es + stored_items (ring_event t (P t) r)"
    by (simp add: ac_simps)
  with at' S' ticket_step_inv [OF S'(1) inv] ticket_step_log [OF S'(1) inv] show ?thesis
    by (intro exI [of _ S']) (simp add: ring_at_def ac_simps)
qed

theorem ring_conc_step:
  assumes "ring_conc N X M r P es" "Suc N < 2 ^ 62" "ring_step (P t) r = (p', r')"
  shows "ring_conc (Suc N) X M r' (P(t := p')) (es @ ring_event t (P t) r)"
  using assms ring_at_step [of N X M r P es _ t p' r'] unfolding ring_conc_def by blast

text \<open>Calls and the seal do not touch the slots.\<close>

lemma at_rest_free: "pc_rel k d p C \<Longrightarrow> ring_at_rest p \<Longrightarrow> C = Free"
  by (cases p) auto

lemma ring_at_claim:
  assumes "ring_at N X M r P es S" "ticket_step t [] S (set_claim t c S)"
    and "pc_rel (slot_bits r) (next_deq S) p c"
  shows "ring_at N X M r (P(t := p)) es (set_claim t c S)"
  using assms sim_claim ticket_step_inv ticket_step_log [OF assms(2), of X es]
  by (auto simp: ring_at_def)

lemma ring_at_rest_again:
  assumes "ring_at N X M r P es S" "ring_at_rest (P t)" "pc_rel (slot_bits r) (next_deq S) p Free"
  shows "ring_at N X M r (P(t := p)) es S"
proof -
  have sim: "ring_sim N r P S" using assms(1) by (simp add: ring_at_def)
  have "claims S t = Free" using at_rest_free [OF sim_pc [OF sim] assms(2)] .
  with sim_stay [OF sim] assms(1,3) show ?thesis by (simp add: ring_at_def)
qed

lemma index_ok_capacity: "ring_wf r \<Longrightarrow> \<not> eidx \<ge> ring_capacity r \<Longrightarrow> index_ok (slot_bits r) eidx"
  using ring_words(4) [of r] two_halves [of r]
  by (simp add: index_ok_def word_le_nat_alt slot_bits_def not_le)

lemma ring_at_call_enq:
  assumes S: "ring_at N X M r P es S" and rest: "ring_at_rest (P t)"
  shows "\<exists>S'. ring_at N X M r (P(t := enqueue_call eidx r)) es S' \<and> ticket_step t [] S S'"
proof -
  have sim: "ring_sim N r P S" using S by (simp add: ring_at_def)
  show ?thesis
  proof (cases "eidx \<ge> ring_capacity r")
    case True
    then have "ring_at N X M r (P(t := enqueue_call eidx r)) es S"
      by (intro ring_at_rest_again [OF S rest]) (simp add: enqueue_call_def)
    then show ?thesis using ticket_step.stutter by blast
  next
    case False
    have free: "claims S t = Free"
      using at_rest_free [OF sim_pc [OF sim] rest] .
    have "index_ok (slot_bits r) eidx"
      using index_ok_capacity [OF _ False] sim by (simp add: ring_sim_def)
    then have "ring_at N X M r (P(t := enqueue_call eidx r)) es (set_claim t (Want eidx) S)"
      using False sim_words(1) [OF sim]
      by (intro ring_at_claim [OF S ticket_step.want [OF free]]) (auto simp: enqueue_call_def)
    then show ?thesis using ticket_step.want [OF free] by blast
  qed
qed

lemma ring_conc_call_enq:
  "ring_conc N X M r P es \<Longrightarrow> ring_at_rest (P t) \<Longrightarrow> ring_conc N X M r (P(t := enqueue_call eidx r)) es"
  unfolding ring_conc_def using ring_at_call_enq by blast

lemma ring_conc_rest:
  assumes "ring_conc N X M r P es" "ring_at_rest (P t)"
    and "p = DeThreshold \<or> p = RingIdle"
  shows "ring_conc N X M r (P(t := p)) es"
proof -
  obtain S where "ring_at N X M r P es S" using assms(1) by (auto simp: ring_conc_def)
  then have "ring_at N X M r (P(t := p)) es S"
    using assms(2,3) by (intro ring_at_rest_again) auto
  then show ?thesis by (auto simp: ring_conc_def)
qed

lemma ring_conc_finalize: "ring_conc N X M r P es \<Longrightarrow> ring_conc N X M (finalize r) P es"
  by (simp add: ring_conc_def ring_at_def ring_sim_def ring_wf_def finalize_def)

lemma ring_conc_later: "ring_conc N X M r P es \<Longrightarrow> N \<le> N' \<Longrightarrow> N' < 2 ^ 62 \<Longrightarrow> ring_conc N' X M r P es"
  by (auto simp: ring_conc_def ring_at_def ring_sim_def)

section \<open>Runs\<close>

theorem ring_sys_run_conc:
  assumes "ring_sys_run ls s = Some s'" "ring_conc N X M (the_ring s) (ring_pcs s) (ring_log s)"
    and "N + length ls < 2 ^ 62"
  shows "ring_conc (N + length ls) X M (the_ring s') (ring_pcs s') (ring_log s')"
  using assms
proof (induction ls s arbitrary: N rule: ring_sys_run.induct)
  case (2 l ls s)
  then obtain s1 where s1: "ring_sys_step l s = Some s1" "ring_sys_run ls s1 = Some s'"
    by (auto split: option.splits)
  have N: "Suc N < 2 ^ 62" using 2(4) by simp
  have "ring_conc (Suc N) X M (the_ring s1) (ring_pcs s1) (ring_log s1)"
  proof (cases l)
    case (CallEnq t eidx)
    with s1(1) ring_conc_later [OF ring_conc_call_enq [OF 2(3)] _ N] show ?thesis
      by (auto simp: set_ring_pc_def split: if_splits)
  next
    case (CallDeq t)
    with s1(1) ring_conc_later [OF ring_conc_rest [OF 2(3), where p = DeThreshold] _ N] show ?thesis
      by (auto simp: set_ring_pc_def split: if_splits)
  next
    case (Access t)
    obtain p r where "ring_step (ring_pcs s t) (the_ring s) = (p, r)" by fastforce
    with s1(1) Access ring_conc_step [OF 2(3) N] show ?thesis
      by (auto simp: set_ring_pc_def)
  next
    case Seal
    with s1(1) ring_conc_later [OF ring_conc_finalize [OF 2(3)] _ N] show ?thesis by auto
  qed
  then have "ring_conc (Suc N + length ls) X M (the_ring s') (ring_pcs s') (ring_log s')"
    using 2(4) by (intro 2(1) [OF s1]) simp_all
  then show ?case by simp
qed simp


section \<open>What holds of a concurrent ring\<close>

lemma slot_index_encode:
  assumes "cell_wf k c" "k \<le> 61"
  shows "slot_index (2 ^ k) (encode k c) = (case c of Fresh \<Rightarrow> None | Cell u s d \<Rightarrow> d)"
proof (cases c)
  case Fresh
  then show ?thesis by (simp add: slot_index_def modup_minus_one)
next
  case (Cell u s d)
  with assms have wf: "cell_wf k (Cell u s d)" by simp
  show ?thesis
  proof (cases d)
    case None
    with cell_tests(1,2) [OF wf assms(2)] Cell show ?thesis
      by (simp add: slot_index_def del: encode.simps)
  next
    case (Some x)
    with cell_tests(1,2) [OF wf assms(2)] encode_index [of k u s x] wf assms(2) Cell show ?thesis
      by (simp add: slot_index_def del: encode.simps)
  qed
qed

lemma mset_map_filter_items:
  "(\<And>c. c \<in> set cs \<Longrightarrow> f (g c) = (case c of Fresh \<Rightarrow> None | Cell u s d \<Rightarrow> d))
     \<Longrightarrow> mset (List.map_filter f (map g cs)) = \<Sum>\<^sub># (image_mset cell_items (mset cs))"
proof (induction cs)
  case (Cons c cs)
  then show ?case
    by (cases c rule: cell_items.cases) (auto simp: List.map_filter_simps)
qed (simp add: List.map_filter_simps)

lemma sim_indices:
  assumes "ring_sim N r P S"
  shows "mset (ring_indices r) = contents S"
proof -
  have "array r = map (encode (slot_bits r)) (cells S)" and wf: "\<forall>c\<in>set (cells S). cell_wf (slot_bits r) c"
    using assms by (simp_all add: ring_sim_def)
  moreover have "slot_index (2 ^ slot_bits r) (encode (slot_bits r) c)
      = (case c of Fresh \<Rightarrow> None | Cell u s d \<Rightarrow> d)" if "c \<in> set (cells S)" for c
    using wf that sim_words(3) [OF assms] by (intro slot_index_encode) auto
  ultimately show ?thesis
    by (simp add: ring_indices_def sim_words(2) [OF assms] contents_def mset_map_filter_items)
qed

lemma ring_conc_indices:
  "ring_conc N X M r P es \<Longrightarrow> mset (ring_indices r) + removed_items es = M + stored_items es"
  by (auto simp: ring_conc_def ring_at_def sim_indices)

text \<open>A ticket under which an index was put, and the index is not removed: it is in a slot.\<close>

lemma ring_conc_put:
  assumes "ring_conc N X M r P es" and put: "X t = Some x \<or> (\<exists>p. Stored p t x \<in> set es)"
  shows "t \<notin> set (removed_tickets es) \<Longrightarrow> x \<in># mset (ring_indices r)"
    and "Removed q t y \<in> set es \<Longrightarrow> y = x"
proof -
  obtain S where S: "ring_sim N r P S" "ticket_inv S" and log: "log_ok X S es"
    using assms(1) by (auto simp: ring_conc_def ring_at_def)
  have at: "put_at S t = Some x" using log put unfolding log_ok_def by blast
  show "x \<in># mset (ring_indices r)" if "t \<notin> set (removed_tickets es)"
  proof -
    have "set (removed_tickets es) = taken S" using log unfolding log_ok_def by blast
    with that at have "t \<in> live S" by (auto simp: live_def)
    then have "the (put_at S t) \<in># contents S"
      using finite_live [OF S(2)] by (simp add: contents_live [OF S(2)])
    then show ?thesis using at sim_indices [OF S(1)] by simp
  qed
  show "y = x" if "Removed q t y \<in> set es"
  proof -
    have "put_at S t = Some y" using log that unfolding log_ok_def by blast
    then show ?thesis using at by simp
  qed
qed

lemma ring_conc_no_panic: "ring_conc N X M r P es \<Longrightarrow> P t \<noteq> RingPanic"
  by (auto simp: ring_conc_def ring_at_def ring_sim_def dest: spec [of _ t])

text \<open>The ticket of a dequeuer that is still at its slot.\<close>

fun dequeuing :: "ring_pc \<Rightarrow> nat option" where
  "dequeuing (DeLoad hk a) = Some (unat hk)"
| "dequeuing (DeSwap hk a w w') = Some (unat hk)"
| "dequeuing (DeTake hk w) = Some (unat hk)"
| "dequeuing _ = None"

lemma pc_rel_dequeuing: "pc_rel k d p C \<Longrightarrow> dequeuing p = deq_ticket C"
  by (cases p) auto

lemma ring_conc_claimed:
  assumes "ring_conc N X M r P es" "X t = Some x \<or> (\<exists>i. Stored i t x \<in> set es)" "t < unat (head r)"
  shows "(\<exists>q. Removed q t x \<in> set es) \<or> (\<exists>q. dequeuing (P q) = Some t)"
proof -
  obtain S where S: "ring_sim N r P S" "ticket_inv S" "log_ok X S es"
    using assms(1) by (auto simp: ring_conc_def ring_at_def)
  have put: "put_at S t = Some x" using S(3) assms(2) unfolding log_ok_def by blast
  then have "base S \<le> t" "t \<notin> passed S" "t < next_deq S"
    using S(1,2) assms(3) by (auto simp: ticket_inv_def history_ok_def ring_sim_def)
  then consider "t \<in> taken S" | q where "deq_ticket (claims S q) = Some t"
    using S(2) by (auto simp: ticket_inv_def all_claimed_def)
  then show ?thesis
  proof cases
    case 1
    moreover have "set (removed_tickets es) = taken S" using S(3) unfolding log_ok_def by blast
    ultimately obtain q y where "Removed q t y \<in> set es"
      using set_removed_tickets [of t es] by blast
    moreover from this have "put_at S t = Some y" using S(3) unfolding log_ok_def by blast
    ultimately show ?thesis using put by auto
  next
    case 2
    with pc_rel_dequeuing [OF sim_pc [OF S(1)]] show ?thesis by metis
  qed
qed

lemma ascending_subseq:
  assumes "sorted_wrt (<) (map fst xs)" "sorted_wrt (<) (map fst ys)" "set xs \<subseteq> set ys"
  shows "subseq xs (ys :: (nat \<times> 'a) list)"
  using assms
proof (induction ys arbitrary: xs)
  case (Cons y ys)
  show ?case
  proof (cases xs)
    case (Cons x xs')
    show ?thesis
    proof (cases "x = y")
      case True
      have "y \<notin> set xs'"
        using Cons.prems(1) Cons True by auto
      then have "subseq xs' ys"
        using Cons.prems Cons by (intro Cons.IH) auto
      with True Cons show ?thesis by simp
    next
      case False
      then have x: "x \<in> set ys" using Cons.prems(3) Cons by auto
      then have "fst y < fst x" using Cons.prems(2) by auto
      then have "y \<notin> set xs" using Cons.prems(1) Cons False by fastforce
      then have "subseq xs ys"
        using Cons.prems by (intro Cons.IH) auto
      then show ?thesis by auto
    qed
  qed simp
qed simp

lemma ring_conc_sorted:
  assumes "ring_conc N X M r P es"
  shows "sorted_wrt (<) (map fst (stored_by p es))" "sorted_wrt (<) (map fst (removed_by q es))"
  using assms by (auto simp: ring_conc_def ring_at_def log_ok_def)

lemma distinct_count_atmost_1_le: "distinct xs \<longleftrightarrow> (\<forall>x. count (mset xs) x \<le> 1)"
  by (simp add: distinct_count_atmost_1 le_Suc_eq count_mset_0_iff)

lemma ring_conc_order:
  assumes "ring_conc N X M r P es"
  shows "distinct (stored_tickets es)" "distinct (removed_tickets es)"
    "subseq (filter (\<lambda>e. e \<in> set (stored_by p es)) (removed_by q es)) (stored_by p es)"
    "(t, x) \<in> set (removed_by q es) \<Longrightarrow> X t = Some x \<or> (\<exists>p. (t, x) \<in> set (stored_by p es))"
proof -
  obtain S where log: "log_ok X S es"
    using assms by (auto simp: ring_conc_def ring_at_def)
  then have sorted: "sorted_wrt (<) (map fst (stored_by p es))" "sorted_wrt (<) (map fst (removed_by q es))"
    and d: "distinct (stored_tickets es)" "distinct (removed_tickets es)"
    unfolding log_ok_def by blast+
  show "distinct (stored_tickets es)" "distinct (removed_tickets es)" by fact+
  have "sorted_wrt (<) (map fst (filter f (removed_by q es)))" for f
    using sorted(2) by (simp add: sorted_wrt_map sorted_wrt_filter)
  then show "subseq (filter (\<lambda>e. e \<in> set (stored_by p es)) (removed_by q es)) (stored_by p es)"
    using sorted(1) by (intro ascending_subseq) auto
  show "X t = Some x \<or> (\<exists>p. (t, x) \<in> set (stored_by p es))" if "(t, x) \<in> set (removed_by q es)"
    using log that unfolding log_ok_def set_log by blast
qed

text \<open>Every word of the array is the code of a slot content that belongs where it is.\<close>

lemma ring_conc_typed:
  assumes "ring_conc N X M r P es" "j < 2 ^ slot_bits r"
  shows "array r ! j = -1 \<or> (\<exists>u sf d. array r ! j = encode (slot_bits r) (Cell u sf d) \<and> u mod 2 ^ slot_bits r = j
    \<and> (case d of None \<Rightarrow> u < unat (head r) | Some x \<Rightarrow> u < unat (tail r) \<and> index_ok (slot_bits r) x))"
proof -
  obtain S where sim: "ring_sim N r P S" and inv: "ticket_inv S"
    using assms(1) by (auto simp: ring_conc_def ring_at_def)
  have len: "length (cells S) = 2 ^ slot_bits r" by (rule sim_slots [OF sim])
  have word: "array r ! j = encode (slot_bits r) (cells S ! j)" and wf: "cell_wf (slot_bits r) (cells S ! j)"
    and ends: "unat (head r) = next_deq S" "unat (tail r) = next_enq S"
    using sim assms(2) len by (simp_all add: ring_sim_def)
  show ?thesis
  proof (cases "cells S ! j")
    case Fresh
    then show ?thesis using word by simp
  next
    case (Cell u sf d)
    have "slot_of S u = j" "d = None \<Longrightarrow> u < next_deq S" "\<And>x. d = Some x \<Longrightarrow> put_at S u = Some x"
      using inv Cell assms(2) len unfolding ticket_inv_def cells_ok_def by metis+
    moreover have "u < next_enq S" if "put_at S u = Some x" for x
    proof -
      have "dom (put_at S) \<subseteq> {base S..<next_enq S}" using inv by (simp add: ticket_inv_def history_ok_def)
      then show ?thesis using that by (auto simp: subset_iff)
    qed
    ultimately have "array r ! j = encode (slot_bits r) (Cell u sf d) \<and> u mod 2 ^ slot_bits r = j
        \<and> (case d of None \<Rightarrow> u < unat (head r) | Some x \<Rightarrow> u < unat (tail r) \<and> index_ok (slot_bits r) x)"
      using word wf Cell ends len by (auto simp: slot_of_def simp del: encode.simps split: option.split)
    then show ?thesis by blast
  qed
qed

lemma ring_conc_words:
  assumes "ring_conc N X M r P es"
  shows "ring_wf r" "unat (head r) \<le> N" "unat (tail r) \<le> N"
  using assms by (auto simp: ring_conc_def ring_at_def ring_sim_def)

end
