(* ===== verification/ScqSolo.thy ===== *)
theory ScqSolo
  imports ScqConc
begin

text \<open>
  A thread of the concurrent ring that runs alone does what the sequential operation does, access by
  access; and \<open>dequeue\<close> run alone returns from every state of the ring, whatever other threads left in
  it. So the two models of \<open>src/scq.rs\<close> agree, and a dequeue is obstruction-free.
\<close>

definition alone :: "ring_pc \<times> scq_ring \<Rightarrow> ring_pc \<times> scq_ring" where
  "alone x = ring_step (fst x) (snd x)"

definition reaches :: "ring_pc \<times> scq_ring \<Rightarrow> ring_pc \<times> scq_ring \<Rightarrow> bool" where
  "reaches x y \<longleftrightarrow> (\<exists>m. (alone ^^ m) x = y)"

lemma reaches_refl [simp]: "reaches x x"
  unfolding reaches_def by (intro exI [of _ 0]) simp

lemma reaches_step: "reaches (alone x) y \<Longrightarrow> reaches x y"
  unfolding reaches_def by (metis funpow_swap1 funpow.simps(2) comp_apply)

lemma reaches_trans: "reaches x y \<Longrightarrow> reaches y z \<Longrightarrow> reaches x z"
  unfolding reaches_def by (metis comp_apply funpow_add)

lemma reaches_next: "ring_step p r = y \<Longrightarrow> reaches y z \<Longrightarrow> reaches (p, r) z"
  by (rule reaches_step) (simp add: alone_def)

lemma reaches_one: "ring_step p r = y \<Longrightarrow> reaches (p, r) y"
  by (rule reaches_next [OF _ reaches_refl])

text \<open>What no operation changes.\<close>

definition same_slots :: "scq_ring \<Rightarrow> scq_ring \<Rightarrow> bool" where
  "same_slots r r' \<longleftrightarrow> order r' = order r \<and> is_finalized r' = is_finalized r
     \<and> length (array r') = length (array r)"

lemma same_slots_n: "same_slots r r' \<Longrightarrow> enq_n r' = enq_n r \<and> deq_n r' = deq_n r"
  by (simp add: same_slots_def enq_n_def deq_n_def)

lemma same_slots_refl [simp]: "same_slots r r"
  by (simp add: same_slots_def)

lemma same_slots_trans: "same_slots r r' \<Longrightarrow> same_slots r' r'' \<Longrightarrow> same_slots r r''"
  by (simp add: same_slots_def)

lemma same_slots_updates [simp]:
  "same_slots r (r\<lparr>head := h\<rparr>)" "same_slots r (r\<lparr>tail := t\<rparr>)" "same_slots r (r\<lparr>threshold := v\<rparr>)"
  "same_slots r (r\<lparr>spurious := w\<rparr>)" "same_slots r (used_exchange r)"
  "same_slots r (r\<lparr>array := (array r)[i := e], spurious := w\<rparr>)"
  "same_slots r (r\<lparr>array := (array r)[i := e]\<rparr>)"
  by (simp_all add: same_slots_def used_exchange_def)

lemma ring_step_shape: "ring_step p r = (p', r') \<Longrightarrow> same_slots r r'"
  by (cases p) (auto simp: enqueue_swap_def dequeue_swap_def dequeue_take_def catchup_swap_def dequeue_count_def
      cas_slot_weak_def cas_tail_weak_def same_slots_def Let_def split: if_splits prod.splits)

section \<open>The scan of a slot\<close>

definition scan_pc :: "usize \<Rightarrow> scan_exit \<Rightarrow> ring_pc" where
  "scan_pc hk exit = (case exit of Taken x \<Rightarrow> DeDone (Some x) | Skipped \<Rightarrow> DeTail hk)"

text \<open>Leaving with an exchange: it fails only as often as the ghost list says.\<close>

definition scan_done :: "usize \<Rightarrow> 32 word \<Rightarrow> scq_ring \<Rightarrow> bool" where
  "scan_done hk a r \<longleftrightarrow> (\<exists>exit r'.
     dequeue_scan (modup (push_bit 1 hk) (deq_n r)) (lfring_map hk (deq_n r)) (deq_n r) a r = ret (exit, r')
     \<and> reaches (DeLoad hk a, r) (scan_pc hk exit, r') \<and> same_slots r r' \<and> threshold r' = threshold r)"

lemma shorter_spurious: "fails_now r \<Longrightarrow> length (spurious (used_exchange r)) < length (spurious r)"
  by (cases "spurious r") (auto simp: fails_now_def used_exchange_def)

lemma deq_n_used_exchange [simp]: "deq_n (used_exchange r) = deq_n r" "enq_n (used_exchange r) = enq_n r"
  by (simp_all add: deq_n_def enq_n_def)

text \<open>The ways a round of the \<open>'again\<close> loop ends: with an exchange, with nothing, with the index.\<close>

lemma scan_swap:
  fixes a b :: "32 word" and hk :: usize and r :: scq_ring
  defines "n \<equiv> deq_n r" and "j \<equiv> lfring_map hk (deq_n r)"
    and "hc \<equiv> modup (push_bit 1 hk) (deq_n r)" and "e \<equiv> array r ! unat (lfring_map hk (deq_n r))"
  assumes again: "\<And>a'. fails_now r \<Longrightarrow> scan_done hk a' (used_exchange r)"
    and seq: "dequeue_scan hc j n a r =
        (case cas_slot_weak (unat j) e w r of (ok, r1) \<Rightarrow>
           if ok then ret (Skipped, r1) else dequeue_scan hc j n b r1)"
    and load: "ring_step (DeLoad hk a) r = (DeSwap hk b e w, r)"
  shows "scan_done hk a r"
proof (cases "fails_now r")
  case True
  then have cas: "cas_slot_weak (unat j) e w r = (False, used_exchange r)"
    by (simp add: cas_slot_weak_def j_def e_def)
  obtain exit r' where r': "dequeue_scan hc j n b (used_exchange r) = ret (exit, r')"
      "reaches (DeLoad hk b, used_exchange r) (scan_pc hk exit, r')"
      "same_slots (used_exchange r) r'" "threshold r' = threshold r"
    using again [OF True, of b] by (auto simp: scan_done_def n_def j_def hc_def)
  have "ring_step (DeSwap hk b e w) r = (DeLoad hk b, used_exchange r)"
    using cas by (simp add: dequeue_swap_def j_def)
  then have "reaches (DeLoad hk a, r) (scan_pc hk exit, r')"
    by (rule reaches_next [OF load reaches_next [OF _ r'(2)]])
  with r' seq cas show ?thesis
    using same_slots_trans [of r "used_exchange r" r']
    by (auto simp: scan_done_def n_def j_def hc_def)
next
  case False
  let ?r = "(used_exchange r)\<lparr>array := (array r)[unat j := w]\<rparr>"
  have cas: "cas_slot_weak (unat j) e w r = (True, ?r)"
    using False by (simp add: cas_slot_weak_def j_def e_def)
  then have "ring_step (DeSwap hk b e w) r = (DeTail hk, ?r)"
    by (simp add: dequeue_swap_def j_def)
  then have "reaches (DeLoad hk a, r) (DeTail hk, ?r)"
    by (rule reaches_next [OF load reaches_next [OF _ reaches_refl]])
  with seq cas show ?thesis
    by (auto simp: scan_done_def scan_pc_def same_slots_def n_def j_def hc_def)
qed

lemma scan_leave:
  assumes "dequeue_scan (modup (push_bit 1 hk) (deq_n r)) (lfring_map hk (deq_n r)) (deq_n r) a r = ret (Skipped, r)"
    and "ring_step (DeLoad hk a) r = (DeTail hk, r)"
  shows "scan_done hk a r"
  using assms(1) reaches_next [OF assms(2) reaches_refl] by (auto simp: scan_done_def scan_pc_def)

lemma scan_take:
  assumes range: "unat (lfring_map hk (deq_n r)) < length (array r)"
    and mine: "modup (array r ! unat (lfring_map hk (deq_n r))) (deq_n r) = modup (push_bit 1 hk) (deq_n r)"
  shows "scan_done hk a r"
proof -
  let ?n = "deq_n r" let ?i = "unat (lfring_map hk ?n)" let ?e = "array r ! ?i"
  let ?r = "r\<lparr>array := (array r)[?i := (?e OR (?n - 1))]\<rparr>"
  have "dequeue_scan (modup (push_bit 1 hk) ?n) (lfring_map hk ?n) ?n a r = ret (Taken (?e AND (?n - 1)), ?r)"
    using range mine by (subst dequeue_scan.simps) (simp add: Let_def)
  moreover have "ring_step (DeLoad hk a) r = (DeTake hk ?e, r)"
    using range mine by (simp add: dequeue_load_def Let_def)
  moreover have "ring_step (DeTake hk ?e) r = (DeDone (Some (?e AND (?n - 1))), ?r)"
    by (simp add: dequeue_take_def Let_def)
  ultimately show ?thesis
    using reaches_next [OF _ reaches_next [OF _ reaches_refl]]
    by (auto simp: scan_done_def scan_pc_def)
qed

lemma scan_again:
  assumes more: "scan_done hk (a + 1) r"
    and load: "ring_step (DeLoad hk a) r = (DeLoad hk (a + 1), r)"
    and seq: "dequeue_scan (modup (push_bit 1 hk) (deq_n r)) (lfring_map hk (deq_n r)) (deq_n r) a r
      = dequeue_scan (modup (push_bit 1 hk) (deq_n r)) (lfring_map hk (deq_n r)) (deq_n r) (a + 1) r"
  shows "scan_done hk a r"
  using more reaches_next [OF load] unfolding scan_done_def seq by blast

text \<open>One round, by what the slot holds.\<close>

lemma scan_round:
  fixes a :: "32 word"
  assumes range: "unat (lfring_map hk (deq_n r)) < length (array r)"
    and again: "\<And>a'. fails_now r \<Longrightarrow> scan_done hk a' (used_exchange r)"
    and more: "sint (a + 1) \<le> 10 \<Longrightarrow> scan_done hk (a + 1) r"
  shows "scan_done hk a r"
proof -
  let ?n = "deq_n r" let ?e = "array r ! unat (lfring_map hk ?n)"
  let ?hc = "modup (push_bit 1 hk) ?n" let ?ec = "modup ?e ?n"
  note unfold = dequeue_scan.simps [of ?hc "lfring_map hk ?n" ?n a r, simplified]
  note step = unfold dequeue_load_def Let_def
  consider (take) "?ec = ?hc"
    | (clear) "?ec \<noteq> ?hc" "(?e OR ?n) \<noteq> ?ec" "?e = (?e AND NOT ?n) \<or> \<not> is_lt (lfring_signed_cmp ?ec ?hc)"
    | (mark) "?ec \<noteq> ?hc" "(?e OR ?n) \<noteq> ?ec" "?e \<noteq> (?e AND NOT ?n)" "is_lt (lfring_signed_cmp ?ec ?hc)"
    | (more) "?ec \<noteq> ?hc" "(?e OR ?n) = ?ec" "sint (a + 1) \<le> 10"
    | (skip) "?ec \<noteq> ?hc" "(?e OR ?n) = ?ec" "\<not> sint (a + 1) \<le> 10" "is_lt (lfring_signed_cmp ?ec ?hc)"
    | (pass) "?ec \<noteq> ?hc" "(?e OR ?n) = ?ec" "\<not> sint (a + 1) \<le> 10" "\<not> is_lt (lfring_signed_cmp ?ec ?hc)"
    by blast
  then show ?thesis
  proof cases
    case take
    then show ?thesis by (rule scan_take [OF range])
  next
    case clear
    with range show ?thesis by (intro scan_leave) (auto simp: step)
  next
    case mark
    with range show ?thesis
      by (intro scan_swap [where w = "?e AND NOT ?n" and b = a, OF again]) (simp_all add: step)
  next
    case more
    show ?thesis
      by (rule scan_again [OF assms(3)]) (use more range in \<open>simp_all add: step\<close>)
  next
    case skip
    with range show ?thesis
      by (intro scan_swap [where w = "?hc XOR (NOT ?e AND ?n)" and b = "a + 1", OF again])
        (simp_all add: step)
  next
    case pass
    with range show ?thesis by (intro scan_leave) (simp_all add: step)
  qed
qed

lemma attempts_run_out:
  fixes a :: "32 word"
  assumes "sint (a + 1) \<le> 10"
  shows "unat (10 - (a + 1)) < unat (10 - a)"
proof -
  have "a \<noteq> 10" using assms by auto
  then have nz: "10 - a \<noteq> 0" by simp
  then have "unat (10 - a - 1) = unat (10 - a) - 1" by (rule unat_minus_one)
  moreover have "0 < unat (10 - a)" using nz unat_gt_0 [of "10 - a"] by blast
  moreover have "10 - (a + 1) = 10 - a - 1" by simp
  ultimately show ?thesis by presburger
qed

lemma scan_returns:
  assumes "unat (lfring_map hk (deq_n r)) < length (array r)"
  shows "scan_done hk a r"
  using assms
proof (induction "(length (spurious r), unat (10 - a))" arbitrary: r a
    rule: wf_induct_rule [OF wf_lex_prod [OF wf_less wf_less]])
  case 1
  show ?case
  proof (rule scan_round [OF 1(2)])
    show "scan_done hk a' (used_exchange r)" if "fails_now r" for a'
      using 1(2) shorter_spurious [OF that] by (intro 1(1)) auto
    show "scan_done hk (a + 1) r" if "sint (a + 1) \<le> 10"
      using 1(2) attempts_run_out [OF that] by (intro 1(1)) auto
  qed
qed


section \<open>catchup\<close>

definition catchup_done :: "usize \<Rightarrow> usize \<Rightarrow> scq_ring \<Rightarrow> bool" where
  "catchup_done tk hk r \<longleftrightarrow> (\<exists>r'. catchup tk hk r = ret r' \<and> reaches (CaSwap tk hk, r) (DeCount True, r')
     \<and> same_slots r r' \<and> threshold r' = threshold r)"

text \<open>A round whose exchange fails loads both counters again.\<close>

lemma catchup_failed:
  assumes "\<not> (tail r = tk \<and> \<not> fails_now r)" "catchup_done (tail r) (head r) (used_exchange r)"
  shows "catchup_done tk hk r"
proof -
  have cas: "cas_tail_weak tk hk r = (False, used_exchange r)"
    using assms(1) by (auto simp: cas_tail_weak_def)
  have steps: "ring_step (CaSwap tk hk) r = (CaHead, used_exchange r)"
      "ring_step CaHead (used_exchange r) = (CaTail (head r), used_exchange r)"
    using cas by (simp_all add: catchup_swap_def)
  have via: "reaches (CaSwap tk hk, r) y" if "reaches (CaTail (head r), used_exchange r) y" for y
    by (rule reaches_next [OF steps(1) reaches_next [OF steps(2) that]])
  show ?thesis
  proof (cases "is_ge (lfring_signed_cmp (tail r) (head r))")
    case True
    then have "ring_step (CaTail (head r)) (used_exchange r) = (DeCount True, used_exchange r)"
      by (simp add: catchup_tail_def)
    then have "reaches (CaSwap tk hk, r) (DeCount True, used_exchange r)"
      by (intro via reaches_one)
    moreover have "catchup tk hk r = ret (used_exchange r)"
      using True cas by (subst catchup.simps) simp
    ultimately show ?thesis by (auto simp: catchup_done_def)
  next
    case False
    then have "ring_step (CaTail (head r)) (used_exchange r) = (CaSwap (tail r) (head r), used_exchange r)"
      by (simp add: catchup_tail_def)
    moreover have "catchup tk hk r = catchup (tail r) (head r) (used_exchange r)"
      using False cas by (subst catchup.simps) simp
    moreover obtain r' where r': "catchup (tail r) (head r) (used_exchange r) = ret r'"
        "reaches (CaSwap (tail r) (head r), used_exchange r) (DeCount True, r')"
        "same_slots (used_exchange r) r'" "threshold r' = threshold r"
      using assms(2) by (auto simp: catchup_done_def)
    ultimately have "reaches (CaSwap tk hk, r) (DeCount True, r')" "catchup tk hk r = ret r'"
      by (auto intro!: via reaches_next)
    with r' same_slots_trans [of r "used_exchange r" r'] show ?thesis
      by (auto simp: catchup_done_def)
  qed
qed

lemma catchup_swaps:
  assumes "tail r = tk" "\<not> fails_now r"
  shows "catchup_done tk hk r"
proof -
  have cas: "cas_tail_weak tk hk r = (True, (used_exchange r)\<lparr>tail := hk\<rparr>)"
    using assms by (simp add: cas_tail_weak_def)
  then have "catchup tk hk r = ret ((used_exchange r)\<lparr>tail := hk\<rparr>)"
    by (subst catchup.simps) simp
  moreover have "reaches (CaSwap tk hk, r) (DeCount True, (used_exchange r)\<lparr>tail := hk\<rparr>)"
    using cas by (intro reaches_one) (simp add: catchup_swap_def)
  ultimately show ?thesis
    by (auto simp: catchup_done_def same_slots_def)
qed

lemma catchup_returns: "catchup_done tk hk r"
proof -
  have current: "catchup_done (tail r) hk r" for hk r
  proof (induction r arbitrary: hk rule: spurious_induct)
    case (step r)
    then show ?case
      using catchup_swaps [of r "tail r" hk] catchup_failed [of r "tail r" hk] by (cases "fails_now r") auto
  qed
  then show ?thesis
    using catchup_swaps [of r tk hk] catchup_failed [of r tk hk] current [of "used_exchange r" "head r"]
    by auto
qed

section \<open>dequeue\<close>

definition slots_in_range :: "scq_ring \<Rightarrow> bool" where
  "slots_in_range r \<longleftrightarrow> (\<forall>w. unat (lfring_map w (deq_n r)) < length (array r)
     \<and> unat (lfring_map w (enq_n r)) < length (array r))"

lemma slots_in_range_same: "slots_in_range r \<Longrightarrow> same_slots r r' \<Longrightarrow> slots_in_range r'"
  using same_slots_n [of r r'] by (simp add: slots_in_range_def same_slots_def)

lemma ring_wf_in_range: "ring_wf r \<Longrightarrow> slots_in_range r"
  using ring_words(2,3,8) [of r]
  by (simp add: slots_in_range_def deq_n_def enq_n_def unat_lfring_map)

definition dequeue_done :: "scq_ring \<Rightarrow> bool" where
  "dequeue_done r \<longleftrightarrow> (\<exists>res r'. dequeue_loop (deq_n r) r = ret (res, r')
     \<and> reaches (DeTicket, r) (DeDone res, r') \<and> same_slots r r')"

lemma dequeue_round:
  assumes "slots_in_range r"
    and again: "\<And>r'. 0 < sint (threshold r) \<Longrightarrow> same_slots r r' \<Longrightarrow> threshold r' = threshold r - 1
      \<Longrightarrow> dequeue_done r'"
  shows "dequeue_done r"
proof -
  let ?hk = "head r" and ?r1 = "r\<lparr>head := head r + 1\<rparr>"
  have n: "deq_n ?r1 = deq_n r" by (simp add: deq_n_def)
  have draw: "ring_step DeTicket r = (DeLoad ?hk 0, ?r1)" by simp
  obtain exit r2 where scan: "dequeue_scan (modup (push_bit 1 ?hk) (deq_n r)) (lfring_map ?hk (deq_n r))
        (deq_n r) 0 ?r1 = ret (exit, r2)"
      "reaches (DeLoad ?hk 0, ?r1) (scan_pc ?hk exit, r2)" "same_slots ?r1 r2" "threshold r2 = threshold r"
    using scan_returns [of ?hk ?r1 0] assms(1) n by (auto simp: scan_done_def slots_in_range_def)
  have s2: "same_slots r r2" using scan(3) by (simp add: same_slots_def)
  have to: "reaches (DeTicket, r) (scan_pc ?hk exit, r2)"
    using reaches_next [OF draw scan(2)] .
  note unfold = dequeue_loop.simps [of "deq_n r" r]
  show ?thesis
  proof (cases exit)
    case (Taken x)
    then have "dequeue_loop (deq_n r) r = ret (Some x, r2)"
      using scan(1) by (subst unfold) (simp add: Let_def)
    with to s2 Taken show ?thesis by (auto simp: dequeue_done_def scan_pc_def)
  next
    case Skipped
    then have on: "reaches (DeTicket, r) (DeTail ?hk, r2)" using to by (simp add: scan_pc_def)
    show ?thesis
    proof (cases "is_le (lfring_signed_cmp (tail r2) (?hk + 1))")
      case True
      obtain r3 where r3: "catchup (tail r2) (?hk + 1) r2 = ret r3"
          "reaches (CaSwap (tail r2) (?hk + 1), r2) (DeCount True, r3)" "same_slots r2 r3"
        using catchup_returns [of "tail r2" "?hk + 1" r2] by (auto simp: catchup_done_def)
      let ?r4 = "r3\<lparr>threshold := threshold r3 - 1\<rparr>"
      have "ring_step (DeTail ?hk) r2 = (CaSwap (tail r2) (?hk + 1), r2)"
        using True by (simp add: dequeue_tail_def Let_def)
      then have "reaches (DeTail ?hk, r2) (DeCount True, r3)" using r3(2) by (rule reaches_next)
      then have "reaches (DeTicket, r) (DeCount True, r3)" by (rule reaches_trans [OF on])
      moreover have "reaches (DeCount True, r3) (DeDone None, ?r4)"
        by (rule reaches_one) (simp add: dequeue_count_def)
      ultimately have "reaches (DeTicket, r) (DeDone None, ?r4)" by (rule reaches_trans)
      moreover have "dequeue_loop (deq_n r) r = ret (None, ?r4)"
        using scan(1) Skipped True r3(1) by (subst unfold) (simp add: Let_def)
      moreover have "same_slots r ?r4"
        using same_slots_trans [OF s2 r3(3)] by (simp add: same_slots_def)
      ultimately show ?thesis by (auto simp: dequeue_done_def)
    next
      case False
      let ?r3 = "r2\<lparr>threshold := threshold r2 - 1\<rparr>"
      have s3: "same_slots r ?r3" using s2 by (simp add: same_slots_def)
      have tail: "ring_step (DeTail ?hk) r2 = (DeCount False, r2)"
        using False by (simp add: dequeue_tail_def Let_def)
      show ?thesis
      proof (cases "sint (threshold r2) \<le> 0")
        case True
        then have "reaches (DeCount False, r2) (DeDone None, ?r3)"
          by (intro reaches_one) (simp add: dequeue_count_def)
        from reaches_next [OF tail this] have "reaches (DeTicket, r) (DeDone None, ?r3)"
          by (rule reaches_trans [OF on])
        moreover have "dequeue_loop (deq_n r) r = ret (None, ?r3)"
          using scan(1) Skipped False True by (subst unfold) (simp add: Let_def)
        ultimately show ?thesis using s3 by (auto simp: dequeue_done_def)
      next
        case more: False
        then have count: "ring_step (DeCount False) r2 = (DeTicket, ?r3)" by (simp add: dequeue_count_def)
        obtain res r' where r': "dequeue_loop (deq_n ?r3) ?r3 = ret (res, r')"
            "reaches (DeTicket, ?r3) (DeDone res, r')" "same_slots ?r3 r'"
          using again [OF _ s3] more scan(4) by (auto simp: dequeue_done_def)
        have "reaches (DeTail ?hk, r2) (DeDone res, r')"
          by (rule reaches_next [OF tail reaches_next [OF count r'(2)]])
        then have "reaches (DeTicket, r) (DeDone res, r')" by (rule reaches_trans [OF on])
        moreover have "dequeue_loop (deq_n r) r = dequeue_loop (deq_n r) ?r3"
          using scan(1) Skipped False more by (subst unfold) (simp add: Let_def)
        ultimately show ?thesis
          using r' same_slots_trans [OF s3 r'(3)] same_slots_n [OF s3] by (auto simp: dequeue_done_def)
      qed
    qed
  qed
qed

lemma dequeue_returns: "slots_in_range r \<Longrightarrow> dequeue_done r"
proof (induction "nat (sint (threshold r))" arbitrary: r rule: less_induct)
  case less
  show ?case
  proof (rule dequeue_round [OF less(2)])
    fix r' assume r': "0 < sint (threshold r)" "same_slots r r'" "threshold r' = threshold r - 1"
    then have "sint (threshold r') = sint (threshold r) - 1"
      by (simp add: sint_minus_one)
    with r' show "dequeue_done r'"
      using less(2) by (intro less(1) slots_in_range_same [OF less(2)]) auto
  qed
qed

lemma ring_dequeue_solo:
  assumes "slots_in_range r"
  shows "\<exists>res r'. ring_dequeue r = ret (res, r') \<and> reaches (DeThreshold, r) (DeDone res, r')"
proof (cases "sint (threshold r) < 0")
  case True
  then have "ring_step DeThreshold r = (DeDone None, r)" "ring_dequeue r = ret (None, r)"
    by (simp_all add: ring_dequeue_def)
  then show ?thesis using reaches_one by blast
next
  case False
  then have "ring_step DeThreshold r = (DeTicket, r)" "ring_dequeue r = dequeue_loop (deq_n r) r"
    by (simp_all add: ring_dequeue_def deq_n_def)
  with dequeue_returns [OF assms] reaches_next show ?thesis
    unfolding dequeue_done_def by metis
qed


section \<open>enqueue\<close>

definition retry_pc :: "usize \<Rightarrow> retry_exit \<Rightarrow> ring_pc" where
  "retry_pc eidx exit = (case exit of Finished res \<Rightarrow> EnDone res | NextTicket \<Rightarrow> EnTicket eidx)"

definition retry_done :: "usize \<Rightarrow> usize \<Rightarrow> scq_ring \<Rightarrow> bool" where
  "retry_done eidx tk r \<longleftrightarrow> (\<exists>exit r'.
     enqueue_retry eidx (lfring_pow2 (order r)) (enq_n r) tk (modup (push_bit 1 tk) (enq_n r))
       (lfring_map tk (enq_n r)) r = ret (exit, r')
     \<and> reaches (EnLoad eidx tk, r) (retry_pc eidx exit, r') \<and> same_slots r r')"

text \<open>From the claim of an entry on: the finalization test, the exchange, the threshold.\<close>

lemma claim_round:
  fixes tk eidx :: usize and r :: scq_ring
  defines "i \<equiv> unat (lfring_map tk (enq_n r))"
  assumes again: "fails_now r \<Longrightarrow> retry_done eidx tk (used_exchange r)"
    and to: "reaches (EnLoad eidx tk, r) (enqueue_claim eidx tk (array r ! i) r, r)"
    and seq: "enqueue_retry eidx (lfring_pow2 (order r)) (enq_n r) tk (modup (push_bit 1 tk) (enq_n r))
       (lfring_map tk (enq_n r)) r =
       (if length (is_finalized r) = 1 \<and> is_finalized r ! 0
        then ret (Finished (Inl QueueFinalized), r)
        else (case cas_slot_weak i (array r ! i) (modup (push_bit 1 tk) (enq_n r) XOR eidx) r of
           (ok, r1) \<Rightarrow>
             if \<not> ok then enqueue_retry eidx (lfring_pow2 (order r)) (enq_n r) tk
                 (modup (push_bit 1 tk) (enq_n r)) (lfring_map tk (enq_n r)) r1
             else (let thr = lfring_threshold3 (lfring_pow2 (order r)) (enq_n r);
                       r2 = (if threshold r1 \<noteq> thr then r1\<lparr>threshold := thr\<rparr> else r1)
                   in ret (Finished (Inr ()), r2))))"
  shows "retry_done eidx tk r"
proof (cases "length (is_finalized r) = 1 \<and> is_finalized r ! 0")
  case True
  then have "reaches (enqueue_claim eidx tk (array r ! i) r, r) (EnDone (Inl QueueFinalized), r)"
    by (intro reaches_one) (simp add: enqueue_claim_def)
  with True to seq reaches_trans show ?thesis by (auto simp: retry_done_def retry_pc_def)
next
  case False
  then have "reaches (enqueue_claim eidx tk (array r ! i) r, r) (EnSwap eidx tk (array r ! i), r)"
    by (cases "length (is_finalized r) = 1")
      (auto simp: enqueue_claim_def intro: reaches_one)
  with to have to: "reaches (EnLoad eidx tk, r) (EnSwap eidx tk (array r ! i), r)"
    by (rule reaches_trans)
  show ?thesis
  proof (cases "fails_now r")
    case True
    then have "reaches (EnSwap eidx tk (array r ! i), r) (EnLoad eidx tk, used_exchange r)"
      by (intro reaches_one) (simp add: enqueue_swap_def cas_slot_weak_def i_def Let_def)
    from reaches_trans [OF to this]
    have to: "reaches (EnLoad eidx tk, r) (EnLoad eidx tk, used_exchange r)" .
    show ?thesis
      using again [OF True] False True seq reaches_trans [OF to] same_slots_trans [of r "used_exchange r"]
      by (auto simp: retry_done_def cas_slot_weak_def)
  next
    case success: False
    let ?r1 = "(used_exchange r)\<lparr>array := (array r)[i := (modup (push_bit 1 tk) (enq_n r) XOR eidx)]\<rparr>"
    let ?thr = "full_threshold r"
    let ?r2 = "if threshold r \<noteq> ?thr then ?r1\<lparr>threshold := ?thr\<rparr> else ?r1"
    have "reaches (EnSwap eidx tk (array r ! i), r) (EnThreshold, ?r1)"
      using success by (intro reaches_one) (simp add: enqueue_swap_def cas_slot_weak_def i_def Let_def)
    moreover have ft: "full_threshold ?r1 = ?thr" "threshold ?r1 = threshold r"
      by (simp_all add: full_threshold_def enq_n_def)
    have "reaches (EnThreshold, ?r1) (EnDone (Inr ()), ?r2)"
    proof (cases "threshold r = ?thr")
      case True
      with ft show ?thesis by (intro reaches_one) simp
    next
      case False
      with ft have "ring_step EnThreshold ?r1 = (EnReset, ?r1)"
          "ring_step EnReset ?r1 = (EnDone (Inr ()), ?r2)"
        by simp_all
      then show ?thesis by (intro reaches_next [OF _ reaches_one])
    qed
    ultimately have "reaches (EnLoad eidx tk, r) (EnDone (Inr ()), ?r2)"
      using to reaches_trans by blast
    moreover have "enqueue_retry eidx (lfring_pow2 (order r)) (enq_n r) tk (modup (push_bit 1 tk) (enq_n r))
       (lfring_map tk (enq_n r)) r = ret (Finished (Inr ()), ?r2)"
      unfolding seq using success False by (simp add: cas_slot_weak_def full_threshold_def Let_def)
    moreover have "same_slots r ?r2"
      by (simp add: same_slots_def)
    ultimately show ?thesis by (auto simp: retry_done_def retry_pc_def)
  qed
qed

lemma retry_returns:
  assumes "slots_in_range r"
  shows "retry_done eidx tk r"
  using assms
proof (induction r rule: spurious_induct)
  case (step r)
  let ?n = "enq_n r" let ?i = "unat (lfring_map tk ?n)" let ?e = "array r ! ?i"
  let ?ec = "modup ?e ?n" let ?tc = "modup (push_bit 1 tk) ?n"
  have range: "?i < length (array r)" using step(2) by (simp add: slots_in_range_def)
  have again: "retry_done eidx tk (used_exchange r)" if "fails_now r"
    using step(1) [OF that] slots_in_range_same [OF step(2), of "used_exchange r"] by simp
  note unfold = enqueue_retry.simps [of eidx "lfring_pow2 (order r)" ?n tk ?tc "lfring_map tk ?n" r]
  let ?fits = "is_lt (lfring_signed_cmp ?ec ?tc)"
  have leave: "retry_done eidx tk r"
    if "\<not> (?fits \<and> (?e = ?ec \<or> (?e = (?ec XOR ?n) \<and> is_le (lfring_signed_cmp (head r) tk))))"
      "reaches (EnLoad eidx tk, r) (EnTicket eidx, r)"
  proof -
    have "enqueue_retry eidx (lfring_pow2 (order r)) ?n tk ?tc (lfring_map tk ?n) r = ret (NextTicket, r)"
      using range that(1) by (subst unfold) (auto simp: Let_def)
    with that(2) show ?thesis by (auto simp: retry_done_def retry_pc_def)
  qed
  have claim: "retry_done eidx tk r"
    if "?fits \<and> (?e = ?ec \<or> (?e = (?ec XOR ?n) \<and> is_le (lfring_signed_cmp (head r) tk)))"
      "reaches (EnLoad eidx tk, r) (enqueue_claim eidx tk ?e r, r)"
  proof (rule claim_round [OF again that(2)])
    show "enqueue_retry eidx (lfring_pow2 (order r)) ?n tk ?tc (lfring_map tk ?n) r =
       (if length (is_finalized r) = 1 \<and> is_finalized r ! 0
        then ret (Finished (Inl QueueFinalized), r)
        else (case cas_slot_weak ?i ?e (?tc XOR eidx) r of
           (ok, r1) \<Rightarrow>
             if \<not> ok then enqueue_retry eidx (lfring_pow2 (order r)) ?n tk ?tc (lfring_map tk ?n) r1
             else (let thr = lfring_threshold3 (lfring_pow2 (order r)) ?n;
                       r2 = (if threshold r1 \<noteq> thr then r1\<lparr>threshold := thr\<rparr> else r1)
                   in ret (Finished (Inr ()), r2))))"
      using range that(1) by (subst unfold) (simp add: Let_def)
  qed
  consider (no) "\<not> ?fits" | (safe) "?fits" "?e = ?ec" | (unsafe) "?fits" "?e \<noteq> ?ec" "?e = (?ec XOR ?n)"
    | (full) "?fits" "?e \<noteq> ?ec" "?e \<noteq> (?ec XOR ?n)" by blast
  then show ?case
  proof cases
    case no
    then have "reaches (EnLoad eidx tk, r) (EnTicket eidx, r)"
      using range by (intro reaches_one) (simp add: enqueue_load_def Let_def)
    with no show ?thesis by (intro leave) simp_all
  next
    case full
    then have "reaches (EnLoad eidx tk, r) (EnTicket eidx, r)"
      using range by (intro reaches_one) (simp add: enqueue_load_def Let_def)
    with full show ?thesis by (intro leave) simp_all
  next
    case safe
    then have "reaches (EnLoad eidx tk, r) (enqueue_claim eidx tk ?e r, r)"
      using range by (intro reaches_one) (simp add: enqueue_load_def Let_def)
    with safe show ?thesis by (intro claim) blast+
  next
    case unsafe
    then have load: "ring_step (EnLoad eidx tk) r = (EnHead eidx tk ?e, r)"
      using range by (simp add: enqueue_load_def Let_def)
    show ?thesis
    proof (cases "is_le (lfring_signed_cmp (head r) tk)")
      case True
      then have "reaches (EnLoad eidx tk, r) (enqueue_claim eidx tk ?e r, r)"
        by (intro reaches_next [OF load] reaches_one) simp
      with unsafe True show ?thesis by (intro claim) blast+
    next
      case False
      then have "reaches (EnLoad eidx tk, r) (EnTicket eidx, r)"
        by (intro reaches_next [OF load] reaches_one) simp
      with unsafe False show ?thesis by (intro leave) blast+
    qed
  qed
qed

text \<open>The loop over tickets may not end; when it does, the steps end in the same place.\<close>

lemma enqueue_loop_solo:
  "enqueue_loop eidx half n r = Some out \<Longrightarrow> \<forall>res r'. out = Ret (res, r') \<longrightarrow>
     slots_in_range r \<longrightarrow> half = lfring_pow2 (order r) \<longrightarrow> n = enq_n r \<longrightarrow>
     reaches (EnTicket eidx, r) (EnDone res, r')"
proof (induction rule: enqueue_loop.raw_induct [rotated, consumes 1])
  case (1 loop eidx half n r out)
  show ?case
  proof (intro allI impI)
    fix res r'
    assume out: "out = Ret (res, r')" and range: "slots_in_range r"
      and half: "half = lfring_pow2 (order r)" and n: "n = enq_n r"
    let ?tk = "tail r" and ?r1 = "r\<lparr>tail := tail r + 1\<rparr>"
    have same: "same_slots r ?r1" by simp
    have n1: "enq_n ?r1 = enq_n r" "order ?r1 = order r" by (simp_all add: enq_n_def)
    obtain exit r2 where retry: "enqueue_retry eidx half n ?tk (modup (push_bit 1 ?tk) n) (lfring_map ?tk n) ?r1
          = ret (exit, r2)"
        "reaches (EnLoad eidx ?tk, ?r1) (retry_pc eidx exit, r2)" "same_slots ?r1 r2"
      using retry_returns [OF slots_in_range_same [OF range same], of eidx ?tk] n1 half n
      by (auto simp: retry_done_def)
    have to: "reaches (EnTicket eidx, r) (retry_pc eidx exit, r2)"
      using retry(2) by (intro reaches_next [of "EnTicket eidx" r]) simp_all
    have s2: "same_slots r r2" using same_slots_trans [OF same retry(3)] .
    show "reaches (EnTicket eidx, r) (EnDone res, r')"
    proof (cases exit)
      case (Finished res')
      then have "res' = res \<and> r2 = r'"
        using 1(2) retry(1) out by (simp add: Let_def)
      with to Finished show ?thesis by (simp add: retry_pc_def)
    next
      case NextTicket
      then have "loop eidx half n r2 = Some out"
        using 1(2) retry(1) by (simp add: Let_def)
      then have "reaches (EnTicket eidx, r2) (EnDone res, r')"
        using 1(1) out slots_in_range_same [OF range s2] s2 half n same_slots_n [OF s2]
        by (auto simp: same_slots_def)
      with to NextTicket reaches_trans show ?thesis by (auto simp: retry_pc_def)
    qed
  qed
qed

lemma ring_enqueue_solo:
  assumes "slots_in_range r" "ring_enqueue r eidx = ret (res, r')"
  shows "reaches (enqueue_call eidx r, r) (EnDone res, r')"
proof (cases "eidx \<ge> ring_capacity r")
  case True
  with assms(2) show ?thesis by (auto simp: ring_enqueue_def enqueue_call_def)
next
  case False
  then have "enqueue_loop (eidx XOR (enq_n r - 1)) (lfring_pow2 (order r)) (enq_n r) r = Some (Ret (res, r'))"
    using assms(2) by (simp add: ring_enqueue_def enq_n_def Let_def)
  from enqueue_loop_solo [OF this] assms(1) False show ?thesis by (simp add: enqueue_call_def)
qed

end
