(* ===== verification/ScqConcProperties.thy ===== *)
theory ScqConcProperties
  imports ScqConcRun ScqSolo
begin

text \<open>
  The properties of the index ring of \<open>src/scq.rs\<close> when any number of threads enqueue and dequeue at
  once, one atomic access at a time. The witnesses run a schedule in which the enqueuer with the
  earlier ticket stores later than the other one, and a dequeuer waits for it.
\<close>

definition race_ring :: scq_ring where
  "race_ring = new_alloc_ring_empty 0 1 []"

definition race_schedule :: "ring_label list" where
  "race_schedule = [CallEnq 0 1, CallEnq 1 0, Access 1, Access 0, Access 0, Access 0, Access 0, Access 0,
     CallDeq 2, Access 2, Access 2, Access 2, Access 1, Access 1, Access 2, Access 2]"

lemma race_run:
  "map_option (\<lambda>s. (ring_log s, ring_indices (the_ring s))) (ring_sys_run race_schedule (ring_start race_ring))
     = Some ([Stored 0 1 1, Stored 1 0 0, Removed 2 0 0], [1])"
  by code_simp

lemma race_start: "ring_rep 0 race_ring []"
  unfolding race_ring_def by (rule ring_rep_alloc_empty) simp_all

lemma race_end:
  "\<exists>s. ring_sys_run race_schedule (ring_start race_ring) = Some s
     \<and> ring_log s = [Stored 0 1 1, Stored 1 0 0, Removed 2 0 0] \<and> ring_indices (the_ring s) = [1]"
  using race_run by auto

lemma ring_run_state:
  assumes "ring_rep c r xs" "ring_sys_run ls (ring_start r) = Some s" "c + length ls < 2 ^ 62"
  shows "ring_conc (c + length ls) (start_puts (unat (head r)) xs) (mset xs)
           (the_ring s) (ring_pcs s) (ring_log s)"
  using ring_sys_run_conc [OF assms(2) _ assms(3)] ring_conc_start [OF assms(1)]
  by (simp add: ring_start_def)

text \<open>
  C8. Whatever the interleaving of the atomic accesses of any number of threads, and whichever weak
  exchanges fail spuriously, a ring that held the indices \<open>xs\<close> neither loses, duplicates nor invents an
  index: what it held and what was stored is what was removed and what its slots hold now. No access
  is out of range, and an index whose ticket the head has passed was removed or is being fetched by
  the one dequeuer that drew the ticket.
\<close>

theorem ring_concurrent_conserves:
  assumes "ring_rep c r xs" "ring_sys_run ls (ring_start r) = Some s" "c + length ls < 2 ^ 62"
  shows "mset xs + stored_items (ring_log s) = removed_items (ring_log s) + mset (ring_indices (the_ring s))
    \<and> (\<forall>t. ring_pcs s t \<noteq> RingPanic)
    \<and> (\<forall>p t x. (t, x) \<in> set (stored_by p (ring_log s)) \<and> t < unat (head (the_ring s)) \<longrightarrow>
         (\<exists>q. (t, x) \<in> set (removed_by q (ring_log s)) \<or> dequeuing (ring_pcs s q) = Some t))"
proof -
  note conc = ring_run_state [OF assms]
  show ?thesis
    using ring_conc_indices [OF conc] ring_conc_no_panic [OF conc] ring_conc_claimed [OF conc]
    unfolding set_log by (simp add: ac_simps) blast
qed

theorem ring_concurrent_conserves_witness:
  "\<exists>s. ring_sys_run race_schedule (ring_start race_ring) = Some s
     \<and> ring_log s = [Stored 0 1 1, Stored 1 0 0, Removed 2 0 0] \<and> ring_indices (the_ring s) = [1]
     \<and> mset [] + stored_items (ring_log s) = removed_items (ring_log s) + mset (ring_indices (the_ring s))"
proof -
  obtain s where s: "ring_sys_run race_schedule (ring_start race_ring) = Some s"
      "ring_log s = [Stored 0 1 1, Stored 1 0 0, Removed 2 0 0]" "ring_indices (the_ring s) = [1]"
    using race_end by blast
  have "0 + length race_schedule < 2 ^ 62" by (simp add: race_schedule_def)
  from ring_concurrent_conserves [OF race_start s(1) this] s show ?thesis by blast
qed

text \<open>
  C7. The ring is a queue of tickets for its threads, whatever their interleaving: no ticket is used
  twice on either side; what a thread removes under a ticket is what some thread stored under that
  ticket, or what the ring held under it at the start; and the indices that a consumer gets from a
  producer come in the order in which the producer stored them.
\<close>

theorem ring_concurrent_fifo:
  assumes "ring_rep c r xs" "ring_sys_run ls (ring_start r) = Some s" "c + length ls < 2 ^ 62"
  shows "distinct (stored_tickets (ring_log s)) \<and> distinct (removed_tickets (ring_log s))
    \<and> (\<forall>q t x. (t, x) \<in> set (removed_by q (ring_log s)) \<longrightarrow>
         start_puts (unat (head r)) xs t = Some x \<or> (\<exists>p. (t, x) \<in> set (stored_by p (ring_log s))))
    \<and> (\<forall>p q. subseq (filter (\<lambda>e. e \<in> set (stored_by p (ring_log s))) (removed_by q (ring_log s)))
              (stored_by p (ring_log s)))"
  using ring_conc_order [OF ring_run_state [OF assms]] by blast

theorem ring_concurrent_fifo_witness:
  "\<exists>s. ring_sys_run race_schedule (ring_start race_ring) = Some s
     \<and> removed_by 2 (ring_log s) = [(0, 0)] \<and> (\<exists>p. (0, 0) \<in> set (stored_by p (ring_log s)))"
proof -
  obtain s where s: "ring_sys_run race_schedule (ring_start race_ring) = Some s"
      "ring_log s = [Stored 0 1 1, Stored 1 0 0, Removed 2 0 0]"
    using race_end by blast
  have "0 + length race_schedule < 2 ^ 62" by (simp add: race_schedule_def)
  from ring_concurrent_fifo [OF race_start s(1) this]
  have "\<forall>q t x. (t, x) \<in> set (removed_by q (ring_log s)) \<longrightarrow>
      start_puts (unat (head race_ring)) [] t = Some x \<or> (\<exists>p. (t, x) \<in> set (stored_by p (ring_log s)))"
    by blast
  moreover have "(0, 0) \<in> set (removed_by 2 (ring_log s))" using s(2) by simp
  moreover have "start_puts (unat (head race_ring)) [] 0 = None"
    by simp
  ultimately have "\<exists>p. (0, 0) \<in> set (stored_by p (ring_log s))"
    by fastforce
  with s show ?thesis by simp
qed

text \<open>
  C25. The steps are those of the operations: in every state that threads can bring a ring into,
  wherever they are stalled, a \<open>dequeue\<close> that now runs alone returns, with the result and the ring that
  \<open>ring_dequeue\<close> computes; and an \<open>enqueue\<close> that runs alone reaches what \<open>ring_enqueue\<close> computes.
\<close>

theorem ring_alone_is_sequential:
  assumes "ring_rep c r xs" "ring_sys_run ls (ring_start r) = Some s" "c + length ls < 2 ^ 62"
  shows "(\<exists>res r'. ring_dequeue (the_ring s) = ret (res, r') \<and> reaches (DeThreshold, the_ring s) (DeDone res, r'))
    \<and> (\<forall>x res r'. ring_enqueue (the_ring s) x = ret (res, r') \<longrightarrow>
          reaches (enqueue_call x (the_ring s), the_ring s) (EnDone res, r'))"
proof -
  have "ring_wf (the_ring s)"
    using ring_run_state [OF assms] by (auto simp: ring_conc_def ring_at_def ring_sim_def)
  then have "slots_in_range (the_ring s)" by (rule ring_wf_in_range)
  then show ?thesis using ring_dequeue_solo ring_enqueue_solo by blast
qed

text \<open>One enqueuer has drawn its ticket and stalls; the other one has stored its index.\<close>

theorem ring_alone_is_sequential_witness:
  "\<exists>s res r'. ring_sys_run (take 8 race_schedule) (ring_start race_ring) = Some s
     \<and> ring_pcs s 1 = EnLoad 3 0 \<and> ring_dequeue (the_ring s) = ret (res, r')
     \<and> reaches (DeThreshold, the_ring s) (DeDone res, r')"
proof -
  have "map_option (\<lambda>s. ring_pcs s 1) (ring_sys_run (take 8 race_schedule) (ring_start race_ring)) = Some (EnLoad 3 0)"
    by code_simp
  then obtain s where s: "ring_sys_run (take 8 race_schedule) (ring_start race_ring) = Some s" "ring_pcs s 1 = EnLoad 3 0"
    by auto
  have "0 + length (take 8 race_schedule) < 2 ^ 62" by (simp add: race_schedule_def)
  from ring_alone_is_sequential [OF race_start s(1) this] s show ?thesis by blast
qed

text \<open>
  C29. The words of the ring stay well typed under every interleaving: the array keeps its length, and each of
  its words is the initial one or the code of a ticket of that slot, its safe bit and either the mark of
  a dequeuer, with a ticket the head has passed, or an index in range, with a ticket the tail has passed;
  neither counter is beyond the number of accesses.
\<close>

theorem ring_concurrent_typed:
  assumes "ring_rep c r xs" "ring_sys_run ls (ring_start r) = Some s" "c + length ls < 2 ^ 62"
    and "j < 2 ^ slot_bits (the_ring s)"
  shows "length (array (the_ring s)) = 2 ^ slot_bits (the_ring s)
    \<and> unat (head (the_ring s)) \<le> c + length ls \<and> unat (tail (the_ring s)) \<le> c + length ls
    \<and> (array (the_ring s) ! j = -1
        \<or> (\<exists>u sf d. array (the_ring s) ! j = encode (slot_bits (the_ring s)) (Cell u sf d)
             \<and> u mod 2 ^ slot_bits (the_ring s) = j
             \<and> (case d of None \<Rightarrow> u < unat (head (the_ring s))
                | Some x \<Rightarrow> u < unat (tail (the_ring s)) \<and> index_ok (slot_bits (the_ring s)) x)))"
  using ring_conc_typed [OF ring_run_state [OF assms(1-3)] assms(4)] ring_conc_words [OF ring_run_state [OF assms(1-3)]]
  by (simp add: ring_wf_def)

theorem ring_concurrent_typed_witness:
  "\<exists>s. ring_sys_run race_schedule (ring_start race_ring) = Some s
     \<and> length (array (the_ring s)) = 2 ^ slot_bits (the_ring s) \<and> unat (tail (the_ring s)) \<le> 16"
proof -
  obtain s where s: "ring_sys_run race_schedule (ring_start race_ring) = Some s"
    using race_end by blast
  have "0 + length race_schedule < 2 ^ 62" by (simp add: race_schedule_def)
  from ring_concurrent_typed [OF race_start s this, of 0] s show ?thesis by (simp add: race_schedule_def)
qed

section \<open>The word of an entry\<close>

text \<open>The bits above the safe bit are the lap of the ticket.\<close>

lemma encode_lap:
  assumes "cell_wf k (Cell u s d)" "k \<le> 61"
  shows "unat (drop_bit (k + 1) (encode k (Cell u s d))) = u div 2 ^ k"
proof -
  have "drop_bit (Suc k) (encode k (Cell u s d)) = drop_bit (Suc k) (cycle_of k u)"
    by (rule bit_eqI) (simp add: bit_drop_bit_eq bit_encode [OF assms] del: encode.simps)
  moreover have "unat (drop_bit (Suc k) (cycle_of k u)) = unat (cycle_of k u) div 2 ^ Suc k"
    by (simp only: unat_drop_bit_eq drop_bit_eq_div [where 'a = nat])
  moreover have "(m * 2 ^ Suc k + (2 ^ Suc k - 1)) div 2 ^ Suc k = m" for m :: nat
    by (subst div_mult_self3) simp_all
  ultimately show ?thesis
    using assms unat_cycle_of62 [of u k] by (simp del: encode.simps power_Suc)
qed

lemma encode_safe_bit:
  assumes "cell_wf k (Cell u True d)" "k \<le> 61"
  shows "(encode k (Cell u True d) AND 2 ^ k) = 2 ^ k"
  by (rule bit_eqI) (use bit_encode [OF assms] assms(2) in \<open>auto simp: bit_and_iff bit_exp_iff simp del: encode.simps\<close>)

text \<open>An entry is taken under its own ticket and under no other ticket of its slot.\<close>

lemma load_entry:
  assumes wf: "ring_wf r" and w: "array r ! unat (lfring_map hk (deq_n r)) = encode (slot_bits r) (Cell u s (Some x))"
    and ok: "cell_wf (slot_bits r) (Cell u s (Some x))"
    and t: "unat hk < 2 ^ 62" "unat hk mod 2 ^ slot_bits r = u mod 2 ^ slot_bits r"
  shows "dequeue_load hk a r = DeTake hk (encode (slot_bits r) (Cell u s (Some x))) \<longleftrightarrow> unat hk = u"
proof -
  let ?k = "slot_bits r" and ?c = "Cell u s (Some x)"
  have k: "?k \<le> 61" and n: "deq_n r = 2 ^ ?k" and range: "unat (lfring_map hk (2 ^ ?k)) < length (array r)"
    using ring_words(2,5,8) [OF wf] by (simp_all add: deq_n_def unat_lfring_map)
  have f: "fits ?k (unat hk) ?c" using ok t(2) by (simp add: fits_def)
  note tests = fits_tests [OF f k t(1)]
  show ?thesis
    using w range n tests by (auto simp: dequeue_load_def Let_def ticket_cycle simp del: encode.simps)
qed

text \<open>
  C40. What an enqueuer writes is what the dequeuer of the same ticket reads: the exchange of \<open>enqueue\<close>
  puts one word into the slot of its ticket, in which the safe bit is set, the low bits are the index and the
  bits above with the number of the slot give the ticket back; \<open>dequeue\<close> takes that word
  under this ticket and under no other ticket of the slot, returns the index, and its \<open>fetch_or\<close> leaves
  a slot without one.
\<close>

theorem stored_entry_is_taken:
  assumes "ring_wf r" "unat tk < 2 ^ 62" "x < ring_capacity r"
    and "ring_step (EnSwap (x XOR (enq_n r - 1)) tk entry) r = (EnThreshold, r1)"
  shows "let n = enq_n r; i = unat (lfring_map tk n); w = array r1 ! i in
      array r1 = (array r)[i := w] \<and> (w AND n) = n \<and> slot_index n w = Some x
    \<and> unat (drop_bit (slot_bits r + 1) w) * 2 ^ slot_bits r + i = unat tk
    \<and> (\<forall>hk a. unat hk < 2 ^ 62 \<and> lfring_map hk n = lfring_map tk n \<longrightarrow>
          (ring_step (DeLoad hk a) r1 = (DeTake hk w, r1) \<longleftrightarrow> hk = tk))
    \<and> ring_step (DeTake tk w) r1 = (DeDone (Some x), r1\<lparr>array := (array r1)[i := (w OR (n - 1))]\<rparr>)
    \<and> slot_index n (w OR (n - 1)) = None"
proof -
  let ?k = "slot_bits r" and ?i = "unat (lfring_map tk (2 ^ slot_bits r))"
  let ?c = "Cell (unat tk) True (Some x)"
  note words = ring_words [OF assms(1)]
  have k: "?k \<le> 61" and n: "enq_n r = 2 ^ ?k" "deq_n r = 2 ^ ?k" and i: "?i < length (array r)" "?i = unat tk mod 2 ^ ?k"
    using words(2,3,5,8) by (simp_all add: enq_n_def deq_n_def unat_lfring_map)
  have x: "index_ok ?k x" using index_ok_capacity [OF assms(1)] assms(3) by (simp add: not_le)
  have ok: "cell_wf ?k ?c" "cell_wf ?k (Cell (unat tk) True None)" using x assms(2) by simp_all
  have r1: "r1 = (used_exchange r)\<lparr>array := (array r)[?i := encode ?k ?c]\<rparr>"
    using assms(4) n ticket_cycle(1) [of tk ?k] encode_store [OF x, of "unat tk"]
    by (auto simp: enqueue_swap_def cas_slot_weak_def Let_def simp del: encode.simps split: if_splits)
  then have w: "array r1 ! ?i = encode ?k ?c" and ar: "array r1 = (array r)[?i := encode ?k ?c]"
    and wf1: "ring_wf r1" and k1: "slot_bits r1 = ?k" and d1: "deq_n r1 = 2 ^ ?k"
    using i(1) assms(1) n(2) by (simp_all add: ring_wf_def deq_n_def used_exchange_def del: encode.simps)
  have idx: "slot_index (2 ^ ?k) (encode ?k ?c) = Some x" "slot_index (2 ^ ?k) (encode ?k ?c OR (2 ^ ?k - 1)) = None"
    using cell_tests [OF ok(1) k] cell_tests [OF ok(2) k] encode_index [OF ok(1) k] encode_clear [OF ok(1) k]
    by (simp_all add: slot_index_def del: encode.simps)
  have lap: "unat (drop_bit (?k + 1) (encode ?k ?c)) * 2 ^ ?k + ?i = unat tk"
    using encode_lap [OF ok(1) k] i(2) by (simp add: div_mult_mod_eq del: encode.simps)
  have only: "ring_step (DeLoad hk a) r1 = (DeTake hk (encode ?k ?c), r1) \<longleftrightarrow> hk = tk"
    if "unat hk < 2 ^ 62" "lfring_map hk (2 ^ ?k) = lfring_map tk (2 ^ ?k)" for hk a
    using load_entry [OF wf1, of hk "unat tk" True x a] w k1 d1 ok(1) that
      arg_cong [OF that(2), of unat]
    by (simp add: unat_lfring_map word_unat_eq_iff del: encode.simps)
  have take: "ring_step (DeTake tk (encode ?k ?c)) r1
      = (DeDone (Some x), r1\<lparr>array := (array r1)[?i := (encode ?k ?c OR (2 ^ ?k - 1))]\<rparr>)"
    using d1 w encode_index [OF ok(1) k] by (simp add: dequeue_take_def Let_def del: encode.simps)
  show ?thesis
    unfolding n(1) Let_def w
    using ar encode_safe_bit [OF ok(1) k] idx lap only take by (intro conjI allI impI) blast+
qed

text \<open>Ticket 6 of a ring of four slots, and its dequeuer; the dequeuer of ticket 2, a lap behind, does not take the word.\<close>

theorem stored_entry_is_taken_witness:
  "\<exists>r1. ring_step (EnSwap (1 XOR (enq_n race_ring - 1)) 6 (- 1)) race_ring = (EnThreshold, r1)
     \<and> ring_step (DeLoad 6 0) r1 = (DeTake 6 (array r1 ! 2), r1)
     \<and> ring_step (DeLoad 2 0) r1 \<noteq> (DeTake 2 (array r1 ! 2), r1)
     \<and> fst (ring_step (DeTake 6 (array r1 ! 2)) r1) = DeDone (Some 1)"
proof -
  have "map_prod id array (ring_step (EnSwap (1 XOR (enq_n race_ring - 1)) 6 (- 1)) race_ring)
      = (EnThreshold, [- 1, - 1, 13, - 1])"
    by code_simp
  then obtain r1 where r1: "ring_step (EnSwap (1 XOR (enq_n race_ring - 1)) 6 (- 1)) race_ring = (EnThreshold, r1)"
    by (cases "ring_step (EnSwap (1 XOR (enq_n race_ring - 1)) 6 (- 1)) race_ring") auto
  have wf: "ring_wf race_ring" using race_start by (simp add: ring_rep_def)
  have c: "(1 :: usize) < ring_capacity race_ring" "enq_n race_ring = 4" by code_simp+
  have m: "lfring_map 6 4 = 2" "lfring_map 2 4 = 2" by code_simp+
  from stored_entry_is_taken [OF wf _ c(1) r1] r1 show ?thesis by (auto simp: c(2) m Let_def)
qed

end
