(* ===== verification/BoundedConc.thy ===== *)
theory BoundedConc
  imports BoundedQueue ScqConcRun
begin

text \<open>
  The bounded queue of \<open>src/scq.rs\<close> under concurrency. A step of a thread is one access of shared
  memory: an atomic access of the counter \<open>used\<close>, an access of one of the two index rings as in
  \<open>ScqConc\<close>, or a read or a write of a slot of the backing array. \<open>FINALIZE\<close> of \<open>enqueue_cycle\<close> is the field
  \<open>sealing\<close>; the public \<open>enqueue\<close> calls it with \<open>false\<close>, the unbounded queue with \<open>true\<close>.
\<close>

section \<open>The program counter\<close>

text \<open>
  Where a thread is in \<open>enqueue_cycle\<close> or \<open>dequeue\<close>, with the state of the ring operation it is in.
  \<open>QAlloc\<close> and \<open>QSeal\<close> keep the value of the enqueue, \<open>QUsed\<close> and \<open>QRead\<close> the ticket of the dequeue,
  for the log only.
\<close>

datatype 'a queue_pc =
    QIdle
  | QCount 'a | QFull 'a | QFree 'a usize ring_pc | QWrite 'a usize usize
  | QAlloc 'a usize usize ring_pc | QSeal 'a
  | QUndoUsed usize | QUndoRead usize | QUndoFree 'a usize ring_pc
  | QTake ring_pc | QUsed nat usize | QRead nat usize | QGive 'a usize ring_pc
  | QEnqDone "'a \<times> queue_error + unit" | QDeqDone "'a option"
  | QPanic | QUndefined

text \<open>\<open>value_log\<close> lists the values with the tickets of the allocation ring; the other logs are those of the rings.\<close>

record 'a queue_sys =
  the_queue :: "'a bounded_queue"
  sealing :: bool
  threads :: nat
  queue_pcs :: "nat \<Rightarrow> 'a queue_pc"
  value_log :: "'a ticket_event list"
  alloc_log :: "usize ticket_event list"
  free_log :: "usize ticket_event list"

definition queue_start :: "bool \<Rightarrow> nat \<Rightarrow> 'a bounded_queue \<Rightarrow> 'a queue_sys" where
  "queue_start fin m q = \<lparr>the_queue = q, sealing = fin, threads = m, queue_pcs = (\<lambda>_. QIdle),
     value_log = [], alloc_log = [], free_log = []\<rparr>"

definition goto :: "nat \<Rightarrow> 'a queue_pc \<Rightarrow> 'a queue_sys \<Rightarrow> 'a queue_sys" where
  "goto t p s = s\<lparr>queue_pcs := (queue_pcs s)(t := p)\<rparr>"

definition set_queue :: "'a bounded_queue \<Rightarrow> 'a queue_sys \<Rightarrow> 'a queue_sys" where
  "set_queue q s = s\<lparr>the_queue := q\<rparr>"

section \<open>Inside a ring operation\<close>

text \<open>Where the operation goes on when the ring operation has ended.\<close>

fun after_free :: "'a \<Rightarrow> usize \<Rightarrow> ring_pc \<Rightarrow> 'a queue_pc" where
  "after_free x sz (DeDone None) = QFull x"
| "after_free x sz (DeDone (Some pos)) = QWrite x sz pos"
| "after_free x sz RingPanic = QPanic"
| "after_free x sz p = QFree x sz p"

definition after_alloc :: "bool \<Rightarrow> usize \<Rightarrow> 'a \<Rightarrow> usize \<Rightarrow> usize \<Rightarrow> ring_pc \<Rightarrow> 'a queue_pc" where
  "after_alloc fin capacity x sz pos p =
     (case p of
        EnDone (Inl error) \<Rightarrow> QUndoUsed pos
      | EnDone (Inr u) \<Rightarrow> (if fin \<and> sz + 1 \<ge> capacity then QSeal x else QEnqDone (Inr ()))
      | RingPanic \<Rightarrow> QPanic
      | _ \<Rightarrow> QAlloc x sz pos p)"

fun after_undo :: "'a \<Rightarrow> usize \<Rightarrow> ring_pc \<Rightarrow> 'a queue_pc" where
  "after_undo x pos (EnDone (Inl error)) = QPanic"
| "after_undo x pos (EnDone (Inr u)) = QEnqDone (Inl (x, queue_error.QueueFinalized))"
| "after_undo x pos RingPanic = QPanic"
| "after_undo x pos p = QUndoFree x pos p"

fun after_give :: "'a \<Rightarrow> usize \<Rightarrow> ring_pc \<Rightarrow> 'a queue_pc" where
  "after_give x pos (EnDone (Inl error)) = QPanic"
| "after_give x pos (EnDone (Inr u)) = QDeqDone (Some x)"
| "after_give x pos RingPanic = QPanic"
| "after_give x pos p = QGive x pos p"

text \<open>The ticket is the one the dequeue of the ring held before its last access.\<close>

definition after_take :: "ring_pc \<Rightarrow> ring_pc \<Rightarrow> 'a queue_pc" where
  "after_take before p =
     (case p of
        DeDone None \<Rightarrow> QDeqDone None
      | DeDone (Some pos) \<Rightarrow> QUsed (case dequeuing before of Some t \<Rightarrow> t | None \<Rightarrow> 0) pos
      | RingPanic \<Rightarrow> QPanic
      | _ \<Rightarrow> QTake p)"

text \<open>One access of the free ring; one of the allocation ring, which may store the value \<open>v\<close>.\<close>

definition free_access ::
  "nat \<Rightarrow> ring_pc \<Rightarrow> (ring_pc \<Rightarrow> 'a queue_pc) \<Rightarrow> 'a queue_sys \<Rightarrow> 'a queue_sys"
where
  "free_access t p f s =
     (let q = the_queue s
      in case ring_step p (free_queue q) of (p', r) \<Rightarrow>
           goto t (f p') (set_queue (q\<lparr>free_queue := r\<rparr>)
             (s\<lparr>free_log := free_log s @ ring_event t p (free_queue q)\<rparr>)))"

fun value_events :: "'a option \<Rightarrow> usize ticket_event list \<Rightarrow> 'a ticket_event list" where
  "value_events (Some v) [Stored t tk i] = [Stored t tk v]"
| "value_events _ _ = []"

definition alloc_access ::
  "nat \<Rightarrow> ring_pc \<Rightarrow> 'a option \<Rightarrow> (ring_pc \<Rightarrow> 'a queue_pc) \<Rightarrow> 'a queue_sys \<Rightarrow> 'a queue_sys"
where
  "alloc_access t p v f s =
     (let q = the_queue s; es = ring_event t p (alloc_queue q)
      in case ring_step p (alloc_queue q) of (p', r) \<Rightarrow>
           goto t (f p') (set_queue (q\<lparr>alloc_queue := r\<rparr>)
             (s\<lparr>alloc_log := alloc_log s @ es, value_log := value_log s @ value_events v es\<rparr>)))"

section \<open>The step of a thread\<close>

definition slot_outcome :: "nat \<Rightarrow> 'b run \<Rightarrow> ('b \<Rightarrow> 'a queue_sys) \<Rightarrow> 'a queue_sys \<Rightarrow> 'a queue_sys" where
  "slot_outcome t m f s = (case m of Some (Ret b) \<Rightarrow> f b | Some Panic \<Rightarrow> goto t QPanic s | _ \<Rightarrow> goto t QUndefined s)"

definition queue_step :: "nat \<Rightarrow> 'a queue_sys \<Rightarrow> 'a queue_sys" where
  "queue_step t s =
     (let q = the_queue s in
      case queue_pcs s t of
        QCount x \<Rightarrow> goto t (if used q \<ge> ring_capacity (free_queue q) then QFull x
                             else QFree x (used q) DeThreshold) (set_queue (q\<lparr>used := used q + 1\<rparr>) s)
      | QFull x \<Rightarrow> goto t (QEnqDone (Inl (x, QueueFull))) (set_queue (q\<lparr>used := used q - 1\<rparr>) s)
      | QFree x sz p \<Rightarrow> free_access t p (after_free x sz) s
      | QWrite x sz pos \<Rightarrow> slot_outcome t (write_slot pos x q) (\<lambda>q'.
          goto t (after_alloc (sealing s) (ring_capacity (free_queue q')) x sz pos
                    (enqueue_call pos (alloc_queue q'))) (set_queue q' s)) s
      | QAlloc x sz pos p \<Rightarrow>
          alloc_access t p (Some x) (after_alloc (sealing s) (ring_capacity (free_queue q)) x sz pos) s
      | QSeal x \<Rightarrow> goto t (QEnqDone (Inr ())) (set_queue (q\<lparr>alloc_queue := finalize (alloc_queue q)\<rparr>) s)
      | QUndoUsed pos \<Rightarrow> goto t (QUndoRead pos) (set_queue (q\<lparr>used := used q - 1\<rparr>) s)
      | QUndoRead pos \<Rightarrow> slot_outcome t (read_slot pos q) (\<lambda>(x, q').
          goto t (after_undo x pos (enqueue_call pos (free_queue q'))) (set_queue q' s)) s
      | QUndoFree x pos p \<Rightarrow> free_access t p (after_undo x pos) s
      | QTake p \<Rightarrow> alloc_access t p None (after_take p) s
      | QUsed tk pos \<Rightarrow> goto t (QRead tk pos) (set_queue (q\<lparr>used := used q - 1\<rparr>) s)
      | QRead tk pos \<Rightarrow> slot_outcome t (read_slot pos q) (\<lambda>(x, q').
          goto t (after_give x pos (enqueue_call pos (free_queue q')))
            (set_queue q' (s\<lparr>value_log := value_log s @ [Removed t tk x]\<rparr>))) s
      | QGive x pos p \<Rightarrow> free_access t p (after_give x pos) s
      | _ \<Rightarrow> s)"

fun queue_at_rest :: "'a queue_pc \<Rightarrow> bool" where
  "queue_at_rest QIdle = True"
| "queue_at_rest (QEnqDone r) = True"
| "queue_at_rest (QDeqDone r) = True"
| "queue_at_rest _ = False"

datatype 'a queue_label = CallEnqueue nat 'a | CallDequeue nat | QStep nat

fun queue_sys_step :: "'a queue_label \<Rightarrow> 'a queue_sys \<Rightarrow> 'a queue_sys option" where
  "queue_sys_step (CallEnqueue t x) s =
     (if t < threads s \<and> queue_at_rest (queue_pcs s t) then Some (goto t (QCount x) s) else None)"
| "queue_sys_step (CallDequeue t) s =
     (if t < threads s \<and> queue_at_rest (queue_pcs s t) then Some (goto t (QTake DeThreshold) s) else None)"
| "queue_sys_step (QStep t) s = (if t < threads s then Some (queue_step t s) else None)"

fun queue_sys_run :: "'a queue_label list \<Rightarrow> 'a queue_sys \<Rightarrow> 'a queue_sys option" where
  "queue_sys_run [] s = Some s"
| "queue_sys_run (l # ls) s =
     (case queue_sys_step l s of None \<Rightarrow> None | Some s' \<Rightarrow> queue_sys_run ls s')"

end
