(* ===== verification/BoundedConcInv.thy ===== *)
theory BoundedConcInv
  imports BoundedConc ScqSolo
begin

text \<open>
  The invariant of the concurrent bounded queue. Each ring is a state the ticket machine allows, and
  every index is in exactly one place: in the free ring, in the allocation ring, or in the hands of one
  thread. So two threads never work on the same slot, and no ring operation can fail unexpectedly.
\<close>

section \<open>What a thread is doing\<close>

fun free_pc :: "'a queue_pc \<Rightarrow> ring_pc" where
  "free_pc (QFree x sz p) = p"
| "free_pc (QUndoFree x pos p) = p"
| "free_pc (QGive x pos p) = p"
| "free_pc _ = RingIdle"

fun alloc_pc :: "'a queue_pc \<Rightarrow> ring_pc" where
  "alloc_pc (QAlloc x sz pos p) = p"
| "alloc_pc (QTake p) = p"
| "alloc_pc _ = RingIdle"

text \<open>The index an enqueuer of a ring has not stored yet, as it keeps it.\<close>

fun storing :: "ring_pc \<Rightarrow> usize option" where
  "storing (EnTicket e) = Some e"
| "storing (EnLoad e tk) = Some e"
| "storing (EnHead e tk w) = Some e"
| "storing (EnFinal e tk w) = Some e"
| "storing (EnSwap e tk w) = Some e"
| "storing _ = None"

fun enq_side :: "ring_pc \<Rightarrow> bool" where
  "enq_side EnThreshold = True"
| "enq_side EnReset = True"
| "enq_side p = (storing p \<noteq> None)"

fun deq_side :: "ring_pc \<Rightarrow> bool" where
  "deq_side DeThreshold = True" | "deq_side DeTicket = True" | "deq_side (DeLoad h a) = True"
| "deq_side (DeSwap h a w w') = True" | "deq_side (DeTake h w) = True" | "deq_side (DeTail h) = True"
| "deq_side (CaSwap t h) = True" | "deq_side CaHead = True" | "deq_side (CaTail h) = True"
| "deq_side (DeCount b) = True" | "deq_side _ = False"

definition unstored :: "ring_pc \<Rightarrow> usize \<Rightarrow> usize multiset" where
  "unstored p pos = (if storing p = None then {#} else {#pos#})"

text \<open>The indices in the hands of a thread; those whose slot is initialised; those it dequeued.\<close>

fun held :: "'a queue_pc \<Rightarrow> usize multiset" where
  "held (QWrite x sz pos) = {#pos#}"
| "held (QAlloc x sz pos p) = unstored p pos"
| "held (QUndoUsed pos) = {#pos#}"
| "held (QUndoRead pos) = {#pos#}"
| "held (QUndoFree x pos p) = unstored p pos"
| "held (QUsed tk pos) = {#pos#}"
| "held (QRead tk pos) = {#pos#}"
| "held (QGive x pos p) = unstored p pos"
| "held _ = {#}"

fun filled :: "'a queue_pc \<Rightarrow> usize multiset" where
  "filled (QAlloc x sz pos p) = unstored p pos"
| "filled (QUndoUsed pos) = {#pos#}"
| "filled (QUndoRead pos) = {#pos#}"
| "filled (QUsed tk pos) = {#pos#}"
| "filled (QRead tk pos) = {#pos#}"
| "filled _ = {#}"

text \<open>
  Where the ring operation of a thread may be. The index it stores is masked with \<open>n - 1\<close>; \<open>may\<close> tells
  whether the free ring can be finalized at all.
\<close>

definition storing_ok :: "usize \<Rightarrow> bool \<Rightarrow> usize \<Rightarrow> ring_pc \<Rightarrow> bool" where
  "storing_ok n may pos p \<longleftrightarrow> enq_side p \<and> (\<forall>e. storing p = Some e \<longrightarrow> e = (pos XOR (n - 1)))
     \<and> (\<forall>e tk w. p = EnFinal e tk w \<longrightarrow> may)"

fun queue_pc_ok :: "usize \<Rightarrow> bool \<Rightarrow> 'a queue_pc \<Rightarrow> bool" where
  "queue_pc_ok n may (QFree x sz p) \<longleftrightarrow> deq_side p"
| "queue_pc_ok n may (QTake p) \<longleftrightarrow> deq_side p"
| "queue_pc_ok n may (QAlloc x sz pos p) \<longleftrightarrow> storing_ok n True pos p"
| "queue_pc_ok n may (QUndoFree x pos p) \<longleftrightarrow> storing_ok n may pos p"
| "queue_pc_ok n may (QGive x pos p) \<longleftrightarrow> storing_ok n may pos p"
| "queue_pc_ok n may QPanic \<longleftrightarrow> False"
| "queue_pc_ok n may QUndefined \<longleftrightarrow> False"
| "queue_pc_ok n may _ \<longleftrightarrow> True"

definition pc_in :: "'a bounded_queue \<Rightarrow> 'b queue_pc \<Rightarrow> bool" where
  "pc_in q = queue_pc_ok (enq_n (free_queue q)) (length (is_finalized (free_queue q)) = 1)"

definition total :: "('a queue_pc \<Rightarrow> 'b multiset) \<Rightarrow> 'a queue_sys \<Rightarrow> 'b multiset" where
  "total f s = (\<Sum>t<threads s. f (queue_pcs s t))"

section \<open>The invariant of the rings and the indices\<close>

definition places :: "'a queue_sys \<Rightarrow> usize multiset" where
  "places s = mset (ring_indices (alloc_queue (the_queue s))) + mset (ring_indices (free_queue (the_queue s)))
     + total held s"

definition queue_core ::
  "nat \<Rightarrow> nat \<Rightarrow> nat \<Rightarrow> usize list \<Rightarrow> usize list \<Rightarrow> 'a queue_sys \<Rightarrow> bool"
where
  "queue_core N ha hf as fs s \<longleftrightarrow>
     ring_conc N (start_puts ha as) (mset as) (alloc_queue (the_queue s)) (\<lambda>t. alloc_pc (queue_pcs s t))
       (alloc_log s)
     \<and> ring_conc N (start_puts hf fs) (mset fs) (free_queue (the_queue s)) (\<lambda>t. free_pc (queue_pcs s t))
       (free_log s)
     \<and> ring_half (alloc_queue (the_queue s)) = bq_cap (the_queue s) \<and> \<not> is_final (free_queue (the_queue s))
     \<and> bq_cap (the_queue s) \<le> length (backing (the_queue s))
     \<and> (\<forall>t. threads s \<le> t \<longrightarrow> queue_pcs s t = QIdle)
     \<and> (\<forall>t. pc_in (the_queue s) (queue_pcs s t))
     \<and> places s = all_indices (bq_cap (the_queue s))"

section \<open>Ring operations in progress\<close>

lemma enqueue_claim_storing: "storing (enqueue_claim e tk w r) = Some e"
  by (simp add: enqueue_claim_def)

lemma ring_step_storing:
  assumes "storing p = Some e" "ring_step p r = (p', r')" "p' \<noteq> RingPanic"
  shows "storing p' = Some e \<and> ring_event t p r = []
     \<or> p' = EnThreshold \<and> (\<exists>tk. ring_event t p r = [Stored t tk (e XOR (enq_n r - 1))])
     \<or> p' = EnDone (Inl scq_error.QueueFinalized) \<and> is_finalized r ! 0 \<and> (\<exists>tk w. p = EnFinal e tk w) \<and> ring_event t p r = []"
  using assms enqueue_claim_storing
  by (cases p) (auto simp: enqueue_load_def enqueue_swap_def Let_def split: if_splits prod.splits)

lemma ring_step_stored:
  assumes "enq_side p" "storing p = None" "ring_step p r = (p', r')"
  shows "storing p' = None \<and> enq_side p' \<and> ring_event t p r = [] \<or> p' = EnDone (Inr ()) \<and> ring_event t p r = []"
  using assms by (cases p) (auto split: if_splits)

lemma ring_step_dequeue:
  assumes "deq_side p" "ring_step p r = (p', r')" "p' \<noteq> RingPanic"
  shows "deq_side p' \<and> ring_event t p r = [] \<or> p' = DeDone None \<and> ring_event t p r = []
     \<or> (\<exists>x tk. p' = DeDone (Some x) \<and> dequeuing p = Some tk \<and> ring_event t p r = [Removed t tk x])"
  using assms
  by (cases p) (auto simp: dequeue_load_def dequeue_swap_def dequeue_take_def dequeue_tail_def catchup_swap_def
      catchup_tail_def dequeue_count_def Let_def split: if_splits prod.splits)


section \<open>How a step changes the places\<close>

lemma total_goto: "t < threads s \<Longrightarrow> total f (goto t p s) + f (queue_pcs s t) = total f s + f p"
  using sum_fun_upd [of t "threads s" f "queue_pcs s" p] by (simp add: total_def goto_def)

lemma total_cong: "threads s' = threads s \<Longrightarrow> queue_pcs s' = queue_pcs s \<Longrightarrow> total f s' = total f s"
  by (simp add: total_def)

lemma ring_conc_move:
  assumes "ring_conc N X M r P es" "ring_conc N' X M r' P' (es @ ev)"
  shows "mset (ring_indices r') + removed_items ev = mset (ring_indices r) + stored_items ev"
proof -
  have "mset (ring_indices r') + removed_items ev + removed_items es
      = mset (ring_indices r) + stored_items ev + removed_items es"
    using ring_conc_indices [OF assms(1)] ring_conc_indices [OF assms(2)]
    by (simp add: ac_simps)
  then show ?thesis by simp
qed

text \<open>What a ring loses or gains, its thread gains or loses.\<close>

lemma exchange:
  fixes a :: "'b multiset"
  assumes "b + removed = a + stored" "h' + stored = h + removed"
  shows "b + h' = a + h"
proof -
  have "b + h' + (stored + removed) = (b + removed) + (h' + stored)" by (simp only: ac_simps)
  also have "\<dots> = a + h + (stored + removed)" unfolding assms by (simp only: ac_simps)
  finally show ?thesis by (rule add_right_imp_eq)
qed

lemma ring_half_enq_n: "order r' = order r \<Longrightarrow> ring_half r' = ring_half r \<and> enq_n r' = enq_n r"
  by (simp add: ring_half_def enq_n_def)

text \<open>The new state: queue, logs and the program counter of the thread \<open>t\<close>.\<close>

lemma queue_core_update:
  fixes s :: "'a queue_sys"
  assumes core: "queue_core N ha hf as fs s" and t: "t < threads s"
    and alloc: "ring_conc N' (start_puts ha as) (mset as) (alloc_queue q')
        ((\<lambda>u. alloc_pc (queue_pcs s u))(t := alloc_pc p')) al"
    and free: "ring_conc N' (start_puts hf fs) (mset fs) (free_queue q')
        ((\<lambda>u. free_pc (queue_pcs s u))(t := free_pc p')) fl"
    and shape: "order (alloc_queue q') = order (alloc_queue (the_queue s))"
      "same_slots (free_queue (the_queue s)) (free_queue q')"
      "length (backing q') = length (backing (the_queue s))"
    and pc: "pc_in (the_queue s) p'"
    and move: "mset (ring_indices (alloc_queue q')) + mset (ring_indices (free_queue q')) + held p'
      = mset (ring_indices (alloc_queue (the_queue s))) + mset (ring_indices (free_queue (the_queue s)))
        + held (queue_pcs s t)"
  shows "queue_core N' ha hf as fs
    (goto t p' (set_queue q' (s\<lparr>alloc_log := al, free_log := fl, value_log := vl\<rparr>)))"
    (is "queue_core N' ha hf as fs ?s")
proof -
  have cap: "bq_cap q' = bq_cap (the_queue s)" "ring_half (alloc_queue q') = bq_cap (the_queue s)"
    "is_final (free_queue q') = is_final (free_queue (the_queue s))"
    "pc_in q' = (pc_in (the_queue s) :: 'a queue_pc \<Rightarrow> bool)"
    using core shape by (auto simp: queue_core_def bq_cap_def ring_half_def same_slots_def is_final_def enq_n_def pc_in_def)
  have q: "the_queue ?s = q'" "queue_pcs ?s = (queue_pcs s)(t := p')" "threads ?s = threads s"
    by (simp_all add: goto_def set_queue_def)
  have fun_eqs: "(\<lambda>u. alloc_pc (queue_pcs ?s u)) = (\<lambda>u. alloc_pc (queue_pcs s u))(t := alloc_pc p')"
    "(\<lambda>u. free_pc (queue_pcs ?s u)) = (\<lambda>u. free_pc (queue_pcs s u))(t := free_pc p')"
    by (auto simp: q(2))
  have "total held ?s + held (queue_pcs s t) = total held s + held p'"
    using total_goto [of t "set_queue q' (s\<lparr>alloc_log := al, free_log := fl, value_log := vl\<rparr>)" held p'] t
      total_cong [of "set_queue q' (s\<lparr>alloc_log := al, free_log := fl, value_log := vl\<rparr>)" s held]
    by (simp add: set_queue_def)
  then have "places ?s + (held p' + held (queue_pcs s t)) = places s + (held p' + held (queue_pcs s t))"
    using move unfolding places_def q(1) by (simp add: ac_simps)
  then have "places ?s = places s" by (rule add_right_imp_eq)
  then show ?thesis
    using core alloc free shape(3) pc cap t unfolding queue_core_def fun_eqs q(1)
    by (auto simp: q(2,3)) (simp_all add: goto_def set_queue_def)
qed


section \<open>Every step keeps the invariant\<close>

text \<open>A step of a thread inside a ring: the ring, its program counter when the operation goes on.\<close>

lemma ring_conc_advance:
  assumes conc: "ring_conc N X M r P es" and N: "Suc N < 2 ^ 62" and step: "ring_step p r = (p', r')"
    and p: "P t = p" and "p'' = p' \<or> p'' = RingIdle \<and> ring_at_rest p'"
  shows "ring_conc (Suc N) X M r' (P(t := p'')) (es @ ring_event t p r)" and "p' \<noteq> RingPanic"
proof -
  have next_state: "ring_conc (Suc N) X M r' (P(t := p')) (es @ ring_event t p r)"
    using ring_conc_step [OF conc N, of t p' r'] step p by simp
  then show "p' \<noteq> RingPanic"
    using ring_conc_no_panic [of "Suc N" X M r' "P(t := p')" _ t] by auto
  show "ring_conc (Suc N) X M r' (P(t := p'')) (es @ ring_event t p r)"
    using assms(5)
  proof
    assume "p'' = RingIdle \<and> ring_at_rest p'"
    with ring_conc_rest [OF next_state, of t RingIdle] show ?thesis by simp
  qed (use next_state in simp)
qed

lemma ring_conc_wf: "ring_conc N X M r P es \<Longrightarrow> ring_wf r"
  by (auto simp: ring_conc_def ring_at_def ring_sim_def)

text \<open>Indices in the hands of a thread are in range, and in no other place.\<close>

lemma held_index:
  assumes core: "queue_core N ha hf as fs s" and t: "t < threads s" and i: "i \<in># held (queue_pcs s t)"
  shows "unat i < bq_cap (the_queue s)"
    and "i \<notin># mset (ring_indices (alloc_queue (the_queue s)))"
    and "i \<notin># mset (ring_indices (free_queue (the_queue s)))"
    and "u < threads s \<Longrightarrow> u \<noteq> t \<Longrightarrow> i \<notin># held (queue_pcs s u)"
    and "count (held (queue_pcs s t)) i = 1"
proof -
  let ?c = "bq_cap (the_queue s)"
  have places: "places s = all_indices ?c"
    using core by (simp add: queue_core_def)
  have c: "?c \<le> 2 ^ 60"
    using core ring_wf_half [OF ring_conc_wf] unfolding queue_core_def bq_cap_def by blast
  have split: "total held s = held (queue_pcs s t) + (\<Sum>u\<in>{..<threads s} - {t}. held (queue_pcs s u))"
    unfolding total_def using t by (intro sum.remove) auto
  have "i \<in># places s" using i by (simp add: places_def split)
  then obtain j where j: "i = of_nat j" "j < ?c"
    using places by (auto simp: all_indices_def)
  then show "unat i < ?c"
    using c unat_of_nat_small [of j] by simp
  have one: "count (places s) i \<le> 1"
    unfolding places by (rule all_indices_once [OF c])
  have pos: "1 \<le> count (held (queue_pcs s t)) i"
    using i by (simp add: Suc_le_eq)
  have parts: "count (mset (ring_indices (alloc_queue (the_queue s)))) i
      + count (mset (ring_indices (free_queue (the_queue s)))) i
      + count (held (queue_pcs s t)) i
      + count (\<Sum>u\<in>{..<threads s} - {t}. held (queue_pcs s u)) i \<le> 1"
    using one unfolding places_def split by simp
  show "i \<notin># mset (ring_indices (alloc_queue (the_queue s)))"
    "i \<notin># mset (ring_indices (free_queue (the_queue s)))"
    unfolding not_in_iff using parts pos by linarith+
  show "count (held (queue_pcs s t)) i = 1" using parts pos by linarith
  show "i \<notin># held (queue_pcs s u)" if "u < threads s" "u \<noteq> t"
  proof -
    have "(\<Sum>v\<in>{..<threads s} - {t}. held (queue_pcs s v))
        = held (queue_pcs s u) + (\<Sum>v\<in>{..<threads s} - {t} - {u}. held (queue_pcs s v))"
      using that by (intro sum.remove) auto
    then have "count (held (queue_pcs s u)) i \<le> count (\<Sum>v\<in>{..<threads s} - {t}. held (queue_pcs s v)) i"
      by simp
    then show ?thesis
      unfolding not_in_iff using parts pos by linarith
  qed
qed


lemma ring_conc_keep:
  "ring_conc N X M r P es \<Longrightarrow> Suc N < 2 ^ 62 \<Longrightarrow> P t = p \<Longrightarrow> ring_conc (Suc N) X M r (P(t := p)) es"
  by (auto intro: ring_conc_later)

lemma ring_conc_begin_dequeue:
  assumes "ring_conc N X M r P es" "Suc N < 2 ^ 62" "P t = RingIdle"
  shows "ring_conc (Suc N) X M r (P(t := DeThreshold)) es"
  using ring_conc_rest [OF assms(1), of t DeThreshold] assms by (auto intro: ring_conc_later)

lemma ring_conc_begin_enqueue:
  assumes "ring_conc N X M r P es" "Suc N < 2 ^ 62" "P t = RingIdle" "unat pos < ring_half r"
  shows "enqueue_call pos r = EnTicket (pos XOR (enq_n r - 1))"
    and "ring_conc (Suc N) X M r (P(t := EnTicket (pos XOR (enq_n r - 1)))) es"
proof -
  have "\<not> pos \<ge> ring_capacity r"
    using ring_words(4) [OF ring_conc_wf [OF assms(1)]] assms(4) by (simp add: word_le_nat_alt)
  then show call: "enqueue_call pos r = EnTicket (pos XOR (enq_n r - 1))"
    by (simp add: enqueue_call_def)
  show "ring_conc (Suc N) X M r (P(t := EnTicket (pos XOR (enq_n r - 1)))) es"
    using ring_conc_call_enq [OF assms(1), of t pos] assms(2,3) call by (auto intro: ring_conc_later)
qed

text \<open>The updates of a local step, and of the steps inside a ring.\<close>

lemma sys_logs [simp]: "s\<lparr>alloc_log := alloc_log s, free_log := free_log s, value_log := value_log s\<rparr> = s"
  by simp

lemma core_local:
  fixes s :: "'a queue_sys"
  assumes core: "queue_core N ha hf as fs s" and N: "Suc N < 2 ^ 62" and t: "t < threads s"
    and q': "alloc_queue q' = alloc_queue (the_queue s)" "free_queue q' = free_queue (the_queue s)"
      "length (backing q') = length (backing (the_queue s))"
    and pcs: "alloc_pc (queue_pcs s t) = RingIdle" "free_pc (queue_pcs s t) = RingIdle"
    and alloc: "alloc_pc p' = RingIdle \<or> alloc_pc p' = DeThreshold
        \<or> (\<exists>pos. alloc_pc p' = enqueue_call pos (alloc_queue (the_queue s)) \<and> unat pos < bq_cap (the_queue s))"
    and free: "free_pc p' = RingIdle \<or> free_pc p' = DeThreshold
        \<or> (\<exists>pos. free_pc p' = enqueue_call pos (free_queue (the_queue s)) \<and> unat pos < bq_cap (the_queue s))"
    and pc: "pc_in (the_queue s) p'" and held: "held p' = held (queue_pcs s t)"
  shows "queue_core (Suc N) ha hf as fs (goto t p' (set_queue q' (s\<lparr>value_log := vl\<rparr>)))"
proof -
  note c = core [unfolded queue_core_def]
  have half: "ring_half (alloc_queue (the_queue s)) = bq_cap (the_queue s)"
    "ring_half (free_queue (the_queue s)) = bq_cap (the_queue s)"
    using c by (simp_all add: bq_cap_def)
  have A0: "ring_conc N (start_puts ha as) (mset as) (alloc_queue (the_queue s))
      (\<lambda>u. alloc_pc (queue_pcs s u)) (alloc_log s)"
    and F0: "ring_conc N (start_puts hf fs) (mset fs) (free_queue (the_queue s))
      (\<lambda>u. free_pc (queue_pcs s u)) (free_log s)"
    using c by blast+
  have A: "ring_conc (Suc N) (start_puts ha as) (mset as) (alloc_queue q')
      ((\<lambda>u. alloc_pc (queue_pcs s u))(t := alloc_pc p')) (alloc_log s)"
    using alloc
  proof (elim disjE exE conjE)
    fix pos assume call: "alloc_pc p' = enqueue_call pos (alloc_queue (the_queue s))" and "unat pos < bq_cap (the_queue s)"
    then have "unat pos < ring_half (alloc_queue (the_queue s))" by (simp add: half)
    note start = ring_conc_begin_enqueue [OF A0 N _ this, of t, OF pcs(1)]
    show ?thesis unfolding q' call start(1) by (rule start(2))
  qed (use c N pcs q' ring_conc_keep ring_conc_begin_dequeue in auto)
  have F: "ring_conc (Suc N) (start_puts hf fs) (mset fs) (free_queue q')
      ((\<lambda>u. free_pc (queue_pcs s u))(t := free_pc p')) (free_log s)"
    using free
  proof (elim disjE exE conjE)
    fix pos assume call: "free_pc p' = enqueue_call pos (free_queue (the_queue s))" and "unat pos < bq_cap (the_queue s)"
    then have "unat pos < ring_half (free_queue (the_queue s))" by (simp add: half)
    note start = ring_conc_begin_enqueue [OF F0 N _ this, of t, OF pcs(2)]
    show ?thesis unfolding q' call start(1) by (rule start(2))
  qed (use c N pcs q' ring_conc_keep ring_conc_begin_dequeue in auto)
  show ?thesis
    using queue_core_update [OF core t A F _ _ q'(3) pc] held q' by simp
qed

lemma core_free_access:
  fixes s :: "'a queue_sys"
  assumes core: "queue_core N ha hf as fs s" and N: "Suc N < 2 ^ 62" and t: "t < threads s"
    and p: "free_pc (queue_pcs s t) = p" "alloc_pc (queue_pcs s t) = RingIdle"
    and step: "ring_step p (free_queue (the_queue s)) = (p', r)"
    and f: "free_pc (f p') = p' \<or> free_pc (f p') = RingIdle \<and> ring_at_rest p'" "alloc_pc (f p') = RingIdle"
    and pc: "pc_in (the_queue s) (f p')"
    and held: "held (f p') + stored_items (ring_event t p (free_queue (the_queue s)))
       = held (queue_pcs s t) + removed_items (ring_event t p (free_queue (the_queue s)))"
  shows "queue_core (Suc N) ha hf as fs (free_access t p f s)"
proof -
  note c = core [unfolded queue_core_def]
  let ?ev = "ring_event t p (free_queue (the_queue s))"
  have F: "ring_conc (Suc N) (start_puts hf fs) (mset fs) r
      ((\<lambda>u. free_pc (queue_pcs s u))(t := free_pc (f p'))) (free_log s @ ?ev)"
    using c by (intro ring_conc_advance(1) [OF _ N step _ f(1)]) (simp_all add: p)
  have A: "ring_conc (Suc N) (start_puts ha as) (mset as) (alloc_queue (the_queue s))
      ((\<lambda>u. alloc_pc (queue_pcs s u))(t := alloc_pc (f p'))) (alloc_log s)"
    using c N p(2) f(2) by (intro ring_conc_keep) simp_all
  have "mset (ring_indices r) + removed_items ?ev
      = mset (ring_indices (free_queue (the_queue s))) + stored_items ?ev"
    using c F by (intro ring_conc_move) blast+
  then have "mset (ring_indices r) + held (f p')
      = mset (ring_indices (free_queue (the_queue s))) + held (queue_pcs s t)"
    using held by (rule exchange)
  moreover have "same_slots (free_queue (the_queue s)) r"
    using ring_step_shape [OF step] .
  ultimately have "queue_core (Suc N) ha hf as fs (goto t (f p') (set_queue ((the_queue s)\<lparr>free_queue := r\<rparr>)
      (s\<lparr>alloc_log := alloc_log s, free_log := free_log s @ ?ev, value_log := value_log s\<rparr>)))"
    using A F pc by (intro queue_core_update [OF core t]) (simp_all add: ac_simps)
  then show ?thesis
    using step by (simp add: free_access_def Let_def)
qed

lemma core_alloc_access:
  fixes s :: "'a queue_sys"
  assumes core: "queue_core N ha hf as fs s" and N: "Suc N < 2 ^ 62" and t: "t < threads s"
    and p: "alloc_pc (queue_pcs s t) = p" "free_pc (queue_pcs s t) = RingIdle"
    and step: "ring_step p (alloc_queue (the_queue s)) = (p', r)"
    and f: "alloc_pc (f p') = p' \<or> alloc_pc (f p') = RingIdle \<and> ring_at_rest p'" "free_pc (f p') = RingIdle"
    and pc: "pc_in (the_queue s) (f p')"
    and held: "held (f p') + stored_items (ring_event t p (alloc_queue (the_queue s)))
       = held (queue_pcs s t) + removed_items (ring_event t p (alloc_queue (the_queue s)))"
  shows "queue_core (Suc N) ha hf as fs (alloc_access t p v f s)"
proof -
  note c = core [unfolded queue_core_def]
  let ?ev = "ring_event t p (alloc_queue (the_queue s))"
  have A: "ring_conc (Suc N) (start_puts ha as) (mset as) r
      ((\<lambda>u. alloc_pc (queue_pcs s u))(t := alloc_pc (f p'))) (alloc_log s @ ?ev)"
    using c by (intro ring_conc_advance(1) [OF _ N step _ f(1)]) (simp_all add: p)
  have F: "ring_conc (Suc N) (start_puts hf fs) (mset fs) (free_queue (the_queue s))
      ((\<lambda>u. free_pc (queue_pcs s u))(t := free_pc (f p'))) (free_log s)"
    using c N p(2) f(2) by (intro ring_conc_keep) simp_all
  have "mset (ring_indices r) + removed_items ?ev
      = mset (ring_indices (alloc_queue (the_queue s))) + stored_items ?ev"
    using c A by (intro ring_conc_move) blast+
  then have "mset (ring_indices r) + held (f p')
      = mset (ring_indices (alloc_queue (the_queue s))) + held (queue_pcs s t)"
    using held by (rule exchange)
  moreover have "order r = order (alloc_queue (the_queue s))"
    using ring_step_shape [OF step] by (simp add: same_slots_def)
  ultimately have "queue_core (Suc N) ha hf as fs (goto t (f p') (set_queue ((the_queue s)\<lparr>alloc_queue := r\<rparr>)
      (s\<lparr>alloc_log := alloc_log s @ ?ev, free_log := free_log s, value_log := value_log s @ value_events v ?ev\<rparr>)))"
    using A F pc by (intro queue_core_update [OF core t]) (simp_all add: ac_simps)
  then show ?thesis
    using step by (simp add: alloc_access_def Let_def)
qed

end
