(* ===== verification/BoundedConcValues.thy ===== *)
theory BoundedConcValues
  imports BoundedConcInv
begin

text \<open>
  The values of the concurrent bounded queue: the slots of the indices in the allocation ring, and of
  those a dequeuer has just fetched, hold the values that were enqueued under their tickets.
\<close>

section \<open>What the program counters say of the slots\<close>

text \<open>The slot a thread has filled and not stored; the ticket and index it has fetched and not read; its result.\<close>

fun stores :: "'a queue_pc \<Rightarrow> (usize \<times> 'a) option" where
  "stores (QAlloc x sz pos p) = (if storing p = None then None else Some (pos, x))"
| "stores _ = None"

fun fetched :: "'a queue_pc \<Rightarrow> (nat \<times> usize) option" where
  "fetched (QUsed tk pos) = Some (tk, pos)"
| "fetched (QRead tk pos) = Some (tk, pos)"
| "fetched _ = None"

fun given :: "'a queue_pc \<Rightarrow> 'a option" where
  "given (QGive x pos p) = Some x"
| "given (QDeqDone r) = r"
| "given _ = None"

definition fetched_items :: "'a queue_pc \<Rightarrow> usize multiset" where
  "fetched_items p = (case fetched p of None \<Rightarrow> {#} | Some (tk, i) \<Rightarrow> {#i#})"

definition fetched_tickets :: "'a queue_pc \<Rightarrow> nat multiset" where
  "fetched_tickets p = (case fetched p of None \<Rightarrow> {#} | Some (tk, i) \<Rightarrow> {#tk#})"

definition stocked :: "'a queue_sys \<Rightarrow> usize multiset" where
  "stocked s = mset (ring_indices (alloc_queue (the_queue s))) + total filled s"

definition slot_value :: "'a queue_sys \<Rightarrow> usize \<Rightarrow> 'a" where
  "slot_value s i = the (backing (the_queue s) ! unat i)"

text \<open>The values in the queue: those of the stored indices and of the fetched ones.\<close>

definition queue_values :: "'a queue_sys \<Rightarrow> 'a multiset" where
  "queue_values s = image_mset (slot_value s)
     (mset (ring_indices (alloc_queue (the_queue s))) + total fetched_items s)"

section \<open>The invariant of the slots and the values\<close>

definition slots_ok :: "'a queue_sys \<Rightarrow> bool" where
  "slots_ok s \<longleftrightarrow> (\<forall>i. i \<in># stocked s \<longrightarrow> backing (the_queue s) ! unat i \<noteq> None)
     \<and> (\<forall>t i x. stores (queue_pcs s t) = Some (i, x) \<longrightarrow> backing (the_queue s) ! unat i = Some x)"

definition tickets_ok :: "'a queue_sys \<Rightarrow> bool" where
  "tickets_ok s \<longleftrightarrow> stored_tickets (value_log s) = stored_tickets (alloc_log s)
     \<and> (\<forall>p. map fst (stored_by p (value_log s)) = map fst (stored_by p (alloc_log s)))
     \<and> (\<forall>q. map fst (removed_by q (alloc_log s)) = map fst (removed_by q (value_log s))
              @ (case fetched (queue_pcs s q) of None \<Rightarrow> [] | Some (tk, i) \<Rightarrow> [tk]))
     \<and> mset (removed_tickets (alloc_log s)) = mset (removed_tickets (value_log s)) + total fetched_tickets s
     \<and> (\<forall>q tk i. fetched (queue_pcs s q) = Some (tk, i) \<longrightarrow> Removed q tk i \<in> set (alloc_log s))"

definition put_under :: "(nat \<Rightarrow> 'x option) \<Rightarrow> 'x ticket_event list \<Rightarrow> nat \<Rightarrow> 'x \<Rightarrow> bool" where
  "put_under X es tk x \<longleftrightarrow> X tk = Some x \<or> (\<exists>p. Stored p tk x \<in> set es)"

text \<open>An index that was put under a ticket and not read yet has the value put under that ticket in its slot.\<close>

definition slot_history :: "(nat \<Rightarrow> usize option) \<Rightarrow> (nat \<Rightarrow> 'a option) \<Rightarrow> 'a queue_sys \<Rightarrow> bool" where
  "slot_history X Y s \<longleftrightarrow>
     (\<forall>tk i. put_under X (alloc_log s) tk i \<longrightarrow> tk \<notin> set (removed_tickets (value_log s)) \<longrightarrow>
        (\<exists>v. put_under Y (value_log s) tk v \<and> backing (the_queue s) ! unat i = Some v))
     \<and> (\<forall>q tk v. Removed q tk v \<in> set (value_log s) \<longrightarrow> put_under Y (value_log s) tk v)
     \<and> (\<forall>q v. given (queue_pcs s q) = Some v \<longrightarrow> (\<exists>es tk. removed_by q (value_log s) = es @ [(tk, v)]))"

definition values_ok :: "'a multiset \<Rightarrow> 'a queue_sys \<Rightarrow> bool" where
  "values_ok M s \<longleftrightarrow> M + stored_items (value_log s) = removed_items (value_log s) + queue_values s"

text \<open>A step of the thread \<open>t\<close> to \<open>p'\<close>.\<close>

definition moved :: "nat \<Rightarrow> 'a queue_pc \<Rightarrow> 'a queue_sys \<Rightarrow> 'a queue_sys \<Rightarrow> bool" where
  "moved t p' s s' \<longleftrightarrow> t < threads s \<and> threads s' = threads s \<and> queue_pcs s' = (queue_pcs s)(t := p')"

lemma moved_total: "moved t p' s s' \<Longrightarrow> total f s' + f (queue_pcs s t) = total f s + f p'"
  using total_goto [of t s f p'] total_cong [of s' "goto t p' s" f] by (simp add: moved_def goto_def)

lemma moved_same: "moved t p' s s' \<Longrightarrow> f p' = f (queue_pcs s t) \<Longrightarrow> total f s' = total f s"
  using moved_total [of t p' s s' f] by simp

lemma total_member: "i \<in># total f s \<longleftrightarrow> (\<exists>u<threads s. i \<in># f (queue_pcs s u))"
proof -
  have "i \<in># (\<Sum>u<n. g u) \<longleftrightarrow> (\<exists>u<n. i \<in># g u)" for n and g :: "nat \<Rightarrow> 'a multiset"
    by (induction n) (auto simp: less_Suc_eq)
  then show ?thesis by (simp add: total_def)
qed

lemma filled_held: "i \<in># filled p \<Longrightarrow> i \<in># held p"
  by (cases p) simp_all

lemma fetched_filled: "fetched p = Some (tk, i) \<Longrightarrow> i \<in># filled p"
  by (cases p) simp_all

lemma stores_filled: "stores p = Some (i, x) \<Longrightarrow> i \<in># filled p"
  by (cases p) (auto simp: unstored_def split: if_splits)

lemma stocked_member:
  "i \<in># stocked s \<longleftrightarrow> i \<in># mset (ring_indices (alloc_queue (the_queue s))) \<or> (\<exists>u<threads s. i \<in># filled (queue_pcs s u))"
  unfolding stocked_def by (simp add: total_member)

text \<open>An index in the hands of one thread, whose slot is not in use, is nowhere else.\<close>

lemma hand_only:
  assumes "queue_core N ha hf as fs s" "t < threads s" "i \<in># held (queue_pcs s t)" "filled (queue_pcs s t) = {#}"
  shows "i \<notin># stocked s"
proof
  assume "i \<in># stocked s"
  then consider "i \<in># mset (ring_indices (alloc_queue (the_queue s)))"
    | u where "u < threads s" "i \<in># filled (queue_pcs s u)"
    unfolding stocked_member by blast
  then show False
  proof cases
    case 1
    with held_index(2) [OF assms(1-3)] show False by simp
  next
    case 2
    then have "u \<noteq> t" using assms(4) by auto
    with held_index(4) [OF assms(1-3) 2(1)] filled_held [OF 2(2)] show False by simp
  qed
qed

lemma idle_beyond: "queue_core N ha hf as fs s \<Longrightarrow> \<not> t < threads s \<Longrightarrow> queue_pcs s t = QIdle"
  by (simp add: queue_core_def)

lemma stores_stocked:
  assumes "queue_core N ha hf as fs s" "stores (queue_pcs s t) = Some (i, x)"
  shows "i \<in># stocked s"
proof -
  have "t < threads s" using idle_beyond [OF assms(1), of t] assms(2) by (cases "t < threads s") auto
  with stores_filled [OF assms(2)] show ?thesis unfolding stocked_member by blast
qed

text \<open>An index that was put and not read yet is in the ring, or a thread has fetched it.\<close>

lemma put_in_ring:
  assumes core: "queue_core N ha hf as fs s"
    and put: "put_under (start_puts ha as) (alloc_log s) tk i" and out: "tk \<notin> set (removed_tickets (alloc_log s))"
  shows "i \<in># mset (ring_indices (alloc_queue (the_queue s)))"
proof -
  have "ring_conc N (start_puts ha as) (mset as) (alloc_queue (the_queue s)) (\<lambda>t. alloc_pc (queue_pcs s t)) (alloc_log s)"
    using core unfolding queue_core_def by blast
  from ring_conc_put(1) [OF this put [unfolded put_under_def] out] show ?thesis .
qed

lemma put_once:
  assumes core: "queue_core N ha hf as fs s"
    and put: "put_under (start_puts ha as) (alloc_log s) tk i" "Removed q tk j \<in> set (alloc_log s)"
  shows "j = i"
proof -
  have "ring_conc N (start_puts ha as) (mset as) (alloc_queue (the_queue s)) (\<lambda>t. alloc_pc (queue_pcs s t)) (alloc_log s)"
    using core unfolding queue_core_def by blast
  from ring_conc_put(2) [OF this put(1) [unfolded put_under_def] put(2)] show ?thesis .
qed

lemma put_stocked:
  assumes core: "queue_core N ha hf as fs s" and tickets: "tickets_ok s"
    and put: "put_under (start_puts ha as) (alloc_log s) tk i" and unread: "tk \<notin> set (removed_tickets (value_log s))"
  shows "i \<in># stocked s"
proof (cases "tk \<in> set (removed_tickets (alloc_log s))")
  case False
  with put_in_ring [OF core put] show ?thesis by (simp add: stocked_member)
next
  case True
  then obtain q j where rem: "Removed q tk j \<in> set (alloc_log s)"
    unfolding set_removed_tickets by blast
  then have "tk \<in> set (map fst (removed_by q (alloc_log s)))"
    by (force simp flip: set_removed_by)
  moreover have "tk \<notin> set (map fst (removed_by q (value_log s)))"
    using unread by (auto simp: set_removed_tickets set_removed_by)
  moreover have "map fst (removed_by q (alloc_log s)) = map fst (removed_by q (value_log s))
      @ (case fetched (queue_pcs s q) of None \<Rightarrow> [] | Some (tk, i) \<Rightarrow> [tk])"
    using tickets unfolding tickets_ok_def by blast
  ultimately obtain k where k: "fetched (queue_pcs s q) = Some (tk, k)"
    by (cases "fetched (queue_pcs s q)") auto
  then have "Removed q tk k \<in> set (alloc_log s)" using tickets by (simp add: tickets_ok_def)
  then have "k = i" by (rule put_once [OF core put])
  moreover have "q < threads s" using idle_beyond [OF core, of q] k by (cases "q < threads s") auto
  ultimately show ?thesis using fetched_filled [OF k] unfolding stocked_member by blast
qed

section \<open>Steps that leave the values alone\<close>

lemma image_slots:
  assumes "\<And>i. i \<in># A \<Longrightarrow> backing (the_queue s') ! unat i = backing (the_queue s) ! unat i"
  shows "image_mset (slot_value s') A = image_mset (slot_value s) A"
  using assms by (intro image_mset_cong) (simp add: slot_value_def)

text \<open>
  The step of \<open>t\<close> to \<open>p'\<close> does not touch the logs of the values or the allocation ring. It may change
  the slot \<open>pos\<close>, which is not stocked before or not after.
\<close>

definition same_logs :: "'a queue_sys \<Rightarrow> 'a queue_sys \<Rightarrow> bool" where
  "same_logs s s' \<longleftrightarrow> value_log s' = value_log s \<and> alloc_log s' = alloc_log s
     \<and> mset (ring_indices (alloc_queue (the_queue s'))) = mset (ring_indices (alloc_queue (the_queue s)))"

lemma tickets_quiet:
  assumes mv: "moved t p' s s'" and logs: "same_logs s s'" and f: "fetched p' = fetched (queue_pcs s t)"
    and ok: "tickets_ok s"
  shows "tickets_ok s'"
proof -
  have "fetched (queue_pcs s' q) = fetched (queue_pcs s q)" for q
    using mv f by (simp add: moved_def)
  moreover have "total fetched_tickets s' = total fetched_tickets s"
    using f by (intro moved_same [OF mv]) (simp add: fetched_tickets_def)
  ultimately show ?thesis using logs ok by (simp add: tickets_ok_def same_logs_def)
qed

lemma history_quiet:
  assumes mv: "moved t p' s s'" and logs: "same_logs s s'"
    and g: "given p' = None \<or> given p' = given (queue_pcs s t)"
    and slots: "\<And>tk i. put_under X (alloc_log s) tk i \<Longrightarrow> tk \<notin> set (removed_tickets (value_log s)) \<Longrightarrow>
        backing (the_queue s') ! unat i = backing (the_queue s) ! unat i"
    and ok: "slot_history X Y s"
  shows "slot_history X Y s'"
proof -
  have "given (queue_pcs s' q) = Some v \<Longrightarrow> given (queue_pcs s q) = Some v" for q v
    using mv g by (auto simp: moved_def split: if_splits)
  moreover have vl: "value_log s' = value_log s" and al: "alloc_log s' = alloc_log s"
    using logs by (auto simp: same_logs_def)
  moreover have "backing (the_queue s') ! unat i = Some v"
    if "put_under X (alloc_log s) tk i" "tk \<notin> set (removed_tickets (value_log s))"
      "backing (the_queue s) ! unat i = Some v" for tk i v
    using slots [OF that(1,2)] that(3) by simp
  ultimately show ?thesis
    using ok unfolding slot_history_def vl al by blast
qed

lemma values_quiet:
  assumes mv: "moved t p' s s'" and logs: "same_logs s s'" and f: "fetched p' = fetched (queue_pcs s t)"
    and slots: "\<And>i. i \<in># mset (ring_indices (alloc_queue (the_queue s))) + total fetched_items s \<Longrightarrow>
        backing (the_queue s') ! unat i = backing (the_queue s) ! unat i"
    and ok: "values_ok M s"
  shows "values_ok M s'"
proof -
  have total: "total fetched_items s' = total fetched_items s"
    using f by (intro moved_same [OF mv]) (simp add: fetched_items_def)
  have ring: "mset (ring_indices (alloc_queue (the_queue s'))) = mset (ring_indices (alloc_queue (the_queue s)))"
    using logs by (simp add: same_logs_def)
  have "queue_values s' = queue_values s"
    unfolding queue_values_def total ring by (rule image_slots) (rule slots)
  then show ?thesis using logs ok by (simp add: values_ok_def same_logs_def)
qed

text \<open>What is in the ring or fetched is stocked.\<close>

lemma value_stocked:
  "i \<in># mset (ring_indices (alloc_queue (the_queue s))) + total fetched_items s \<Longrightarrow> i \<in># stocked s"
  unfolding stocked_member by (auto simp: total_member fetched_items_def split: option.splits dest: fetched_filled)

text \<open>A step that leaves the slots, the ring and the logs alone.\<close>

definition queue_ok ::
  "nat \<Rightarrow> nat \<Rightarrow> nat \<Rightarrow> usize list \<Rightarrow> usize list \<Rightarrow> 'a list \<Rightarrow> 'a queue_sys \<Rightarrow> bool"
where
  "queue_ok N ha hf as fs vs s \<longleftrightarrow> queue_core N ha hf as fs s \<and> slots_ok s \<and> tickets_ok s
     \<and> slot_history (start_puts ha as) (start_puts ha vs) s \<and> values_ok (mset vs) s"

lemma ok_quiet:
  fixes s :: "'a queue_sys"
  assumes core': "queue_core N' ha hf as fs s'"
    and mv: "moved t p' s s'" and logs: "same_logs s s'" and b: "backing (the_queue s') = backing (the_queue s)"
    and p': "fetched p' = fetched (queue_pcs s t)" "filled p' = filled (queue_pcs s t)"
      "stores p' = None \<or> stores p' = stores (queue_pcs s t)" "given p' = None \<or> given p' = given (queue_pcs s t)"
    and ok: "queue_ok N ha hf as fs vs s"
  shows "queue_ok N' ha hf as fs vs s'"
proof -
  have "stocked s' = stocked s"
    using logs moved_same [OF mv, of filled] p'(2) by (simp add: stocked_def same_logs_def)
  moreover have "stores (queue_pcs s' u) = Some e \<Longrightarrow> stores (queue_pcs s u) = Some e" for u e
    using mv p'(3) by (auto simp: moved_def split: if_splits)
  ultimately have "slots_ok s'"
    using ok by (simp add: queue_ok_def slots_ok_def b) blast
  with core' tickets_quiet [OF mv logs p'(1)] history_quiet [OF mv logs p'(4)] values_quiet [OF mv logs p'(1)] ok b
  show ?thesis by (simp add: queue_ok_def)
qed

lemma slot_other: "i \<noteq> pos \<Longrightarrow> (b[unat pos := y]) ! unat i = b ! unat (i :: usize)"
  by (metis nth_list_update_neq word_unat_eq_iff)

text \<open>An enqueuer fills the slot of the index in its hands.\<close>

lemma ok_write:
  fixes s :: "'a queue_sys"
  assumes core': "queue_core N' ha hf as fs s'"
    and mv: "moved t p' s s'" and logs: "same_logs s s'"
    and b: "backing (the_queue s') = (backing (the_queue s))[unat pos := Some x]"
    and p: "queue_pcs s t = QWrite x sz pos"
    and p': "fetched p' = None" "given p' = None" "filled p' = {#pos#}" "stores p' = Some (pos, x)"
    and ok: "queue_ok N ha hf as fs vs s"
  shows "queue_ok N' ha hf as fs vs s'"
proof -
  have core: "queue_core N ha hf as fs s" and t: "t < threads s"
    using ok mv by (simp_all add: queue_ok_def moved_def)
  have out: "pos \<notin># stocked s"
    using hand_only [OF core t, of pos] by (simp add: p)
  then have same: "i \<in># stocked s \<Longrightarrow> backing (the_queue s') ! unat i = backing (the_queue s) ! unat i" for i
    unfolding b by (intro slot_other) auto
  have "unat pos < bq_cap (the_queue s)" using held_index(1) [OF core t, of pos] by (simp add: p)
  then have "unat pos < length (backing (the_queue s))" using core by (simp add: queue_core_def)
  then have at: "backing (the_queue s') ! unat pos = Some x" by (simp add: b)
  have "total filled s' = add_mset pos (total filled s)"
    using moved_total [OF mv, of filled] by (simp add: p p'(3))
  then have stocked: "stocked s' = add_mset pos (stocked s)"
    using logs by (simp add: stocked_def same_logs_def)
  have "slots_ok s'"
    unfolding slots_ok_def
  proof (intro conjI allI impI)
    fix i assume "i \<in># stocked s'"
    with stocked at same ok show "backing (the_queue s') ! unat i \<noteq> None"
      by (auto simp: queue_ok_def slots_ok_def)
  next
    fix u i y assume st: "stores (queue_pcs s' u) = Some (i, y)"
    show "backing (the_queue s') ! unat i = Some y"
    proof (cases "u = t")
      case True
      with st mv p'(4) at show ?thesis by (simp add: moved_def)
    next
      case False
      then have st: "stores (queue_pcs s u) = Some (i, y)" using st mv by (simp add: moved_def)
      then have "backing (the_queue s) ! unat i = Some y" using ok by (simp add: queue_ok_def slots_ok_def)
      with same [OF stores_stocked [OF core st]] show ?thesis by simp
    qed
  qed
  moreover have "tickets_ok s'"
    using ok p' by (intro tickets_quiet [OF mv logs]) (simp_all add: p queue_ok_def)
  moreover have "slot_history (start_puts ha as) (start_puts ha vs) s'"
    using ok p' put_stocked [OF core] same
    by (intro history_quiet [OF mv logs]) (auto simp: queue_ok_def)
  moreover have "values_ok (mset vs) s'"
    using ok p' value_stocked [of _ s] same
    by (intro values_quiet [OF mv logs]) (simp_all add: p queue_ok_def)
  ultimately show ?thesis using core' by (simp add: queue_ok_def)
qed

section \<open>Reading a slot\<close>

lemma emptied:
  fixes s :: "'a queue_sys"
  assumes core': "queue_core N' ha hf as fs s'"
    and mv: "moved t p' s s'"
    and ring: "mset (ring_indices (alloc_queue (the_queue s'))) = mset (ring_indices (alloc_queue (the_queue s)))"
    and b: "backing (the_queue s') = (backing (the_queue s))[unat pos := None]"
    and p: "filled (queue_pcs s t) = {#pos#}"
    and p': "filled p' = {#}" "stores p' = None" "held p' = {#pos#}"
    and ok: "slots_ok s"
  shows "slots_ok s'"
    and "i \<in># stocked s' \<Longrightarrow> backing (the_queue s') ! unat i = backing (the_queue s) ! unat i"
proof -
  have "t < threads s'" "queue_pcs s' t = p'" using mv by (simp_all add: moved_def)
  then have out: "pos \<notin># stocked s'"
    using hand_only [OF core', of t pos] p' by simp
  then have same: "backing (the_queue s') ! unat i = backing (the_queue s) ! unat i" if "i \<in># stocked s'" for i
    using that unfolding b by (intro slot_other) auto
  then show "i \<in># stocked s' \<Longrightarrow> backing (the_queue s') ! unat i = backing (the_queue s) ! unat i" .
  have stocked: "stocked s = add_mset pos (stocked s')"
    using moved_total [OF mv, of filled] p p'(1) ring by (simp add: stocked_def)
  show "slots_ok s'"
    unfolding slots_ok_def
  proof (intro conjI allI impI)
    fix i assume i: "i \<in># stocked s'"
    with stocked ok show "backing (the_queue s') ! unat i \<noteq> None"
      unfolding same [OF i] slots_ok_def by simp
  next
    fix u i y assume st: "stores (queue_pcs s' u) = Some (i, y)"
    then have "stores (queue_pcs s u) = Some (i, y)" using p'(2) mv by (auto simp: moved_def split: if_splits)
    then show "backing (the_queue s') ! unat i = Some y"
      using same [OF stores_stocked [OF core' st]] ok by (simp add: slots_ok_def)
  qed
qed

lemma ok_unread:
  fixes s :: "'a queue_sys"
  assumes core': "queue_core N' ha hf as fs s'"
    and mv: "moved t p' s s'" and logs: "same_logs s s'"
    and b: "backing (the_queue s') = (backing (the_queue s))[unat pos := None]"
    and p: "queue_pcs s t = QUndoRead pos"
    and p': "fetched p' = None" "given p' = None" "filled p' = {#}" "stores p' = None" "held p' = {#pos#}"
    and ok: "queue_ok N ha hf as fs vs s"
  shows "queue_ok N' ha hf as fs vs s'"
proof -
  have ring: "mset (ring_indices (alloc_queue (the_queue s'))) = mset (ring_indices (alloc_queue (the_queue s)))"
    and vl: "value_log s' = value_log s" and al: "alloc_log s' = alloc_log s"
    using logs by (simp_all add: same_logs_def)
  have sl: "slots_ok s" using ok by (simp add: queue_ok_def)
  note slots = emptied [OF core' mv ring b _ p'(3-5) sl, unfolded p, OF filled.simps(3)]
  have tickets: "tickets_ok s'"
    using ok p' by (intro tickets_quiet [OF mv logs]) (simp_all add: p queue_ok_def)
  have "slot_history (start_puts ha as) (start_puts ha vs) s'"
    using ok p' slots(2) put_stocked [OF core' tickets, unfolded vl al]
    by (intro history_quiet [OF mv logs]) (simp_all add: queue_ok_def)
  moreover have "total fetched_items s' = total fetched_items s"
    using p p' by (intro moved_same [OF mv]) (simp add: fetched_items_def)
  then have "values_ok (mset vs) s'"
    using ok p' slots(2) value_stocked [of _ s', unfolded ring]
    by (intro values_quiet [OF mv logs]) (simp_all add: p queue_ok_def)
  ultimately show ?thesis using core' slots(1) tickets by (simp add: queue_ok_def)
qed

text \<open>A dequeuer reads the slot of the index it fetched: the value enqueued under its ticket.\<close>

lemma fetched_unread:
  fixes s :: "'a queue_sys"
  assumes core: "queue_core N ha hf as fs s" and tickets: "tickets_ok s"
    and t: "t < threads s" and f: "fetched (queue_pcs s t) = Some (tk, i)"
  shows "put_under (start_puts ha as) (alloc_log s) tk i" and "tk \<notin> set (removed_tickets (value_log s))"
proof -
  have conc: "ring_conc N (start_puts ha as) (mset as) (alloc_queue (the_queue s))
      (\<lambda>t. alloc_pc (queue_pcs s t)) (alloc_log s)"
    using core unfolding queue_core_def by blast
  have "(tk, i) \<in> set (removed_by t (alloc_log s))"
    using tickets f by (simp add: tickets_ok_def set_removed_by)
  from ring_conc_order(4) [OF conc this] show "put_under (start_puts ha as) (alloc_log s) tk i"
    by (simp add: put_under_def set_stored_by)
  have "tk \<in># fetched_tickets (queue_pcs s t)" using f by (simp add: fetched_tickets_def)
  then have "tk \<in># total fetched_tickets s" using t unfolding total_member by blast
  then have "1 \<le> count (total fetched_tickets s) tk" by (simp add: Suc_le_eq)
  moreover have "count (mset (removed_tickets (alloc_log s))) tk \<le> 1"
    using ring_conc_order(2) [OF conc] by (simp add: distinct_count_atmost_1)
  moreover have "mset (removed_tickets (alloc_log s)) = mset (removed_tickets (value_log s)) + total fetched_tickets s"
    using tickets by (simp add: tickets_ok_def)
  moreover from this have "count (mset (removed_tickets (alloc_log s))) tk
      = count (mset (removed_tickets (value_log s))) tk + count (total fetched_tickets s) tk"
    by simp
  ultimately have "count (mset (removed_tickets (value_log s))) tk = 0" by linarith
  then show "tk \<notin> set (removed_tickets (value_log s))"
    by (metis count_eq_zero_iff set_mset_mset)
qed

lemma read_tickets:
  assumes mv: "moved t p' s s'" and p: "fetched (queue_pcs s t) = Some (tk, i)" and p': "fetched p' = None"
    and vl: "value_log s' = value_log s @ [Removed t tk v]" and al: "alloc_log s' = alloc_log s"
    and ok: "tickets_ok s"
  shows "tickets_ok s'"
proof -
  have "total fetched_tickets s = add_mset tk (total fetched_tickets s')"
    using moved_total [OF mv, of fetched_tickets] p p' by (simp add: fetched_tickets_def)
  moreover have "fetched (queue_pcs s' q) = (if q = t then None else fetched (queue_pcs s q))" for q
    using mv p' by (simp add: moved_def)
  ultimately show ?thesis
    using ok p unfolding tickets_ok_def vl al by auto
qed

lemma ok_read:
  fixes s :: "'a queue_sys"
  assumes core': "queue_core N' ha hf as fs s'"
    and mv: "moved t p' s s'"
    and ring: "mset (ring_indices (alloc_queue (the_queue s'))) = mset (ring_indices (alloc_queue (the_queue s)))"
    and vl: "value_log s' = value_log s @ [Removed t tk v]" and al: "alloc_log s' = alloc_log s"
    and b: "backing (the_queue s') = (backing (the_queue s))[unat pos := None]"
    and v: "backing (the_queue s) ! unat pos = Some v"
    and p: "queue_pcs s t = QRead tk pos"
    and p': "fetched p' = None" "given p' = Some v" "filled p' = {#}" "stores p' = None" "held p' = {#pos#}"
    and ok: "queue_ok N ha hf as fs vs s"
  shows "queue_ok N' ha hf as fs vs s'"
proof -
  let ?X = "start_puts ha as" and ?Y = "start_puts ha vs"
  have core: "queue_core N ha hf as fs s" and sl: "slots_ok s" and tk: "tickets_ok s"
    and hist: "slot_history ?X ?Y s" and val: "values_ok (mset vs) s" and t: "t < threads s"
    using ok mv by (simp_all add: queue_ok_def moved_def)
  have f: "fetched (queue_pcs s t) = Some (tk, pos)" by (simp add: p)
  note slots = emptied [OF core' mv ring b _ p'(3-5) sl, unfolded p, OF filled.simps(5)]
  have tickets: "tickets_ok s'" by (rule read_tickets [OF mv f p'(1) vl al tk])
  have more: "put_under ?Y (value_log s) u x \<Longrightarrow> put_under ?Y (value_log s') u x" for u x
    by (auto simp: put_under_def vl)
  have put: "put_under ?Y (value_log s) tk v"
    using hist fetched_unread [OF core tk t f] v unfolding slot_history_def by fastforce
  have "slot_history ?X ?Y s'"
    unfolding slot_history_def
  proof (intro conjI allI impI)
    fix u i assume ui: "put_under ?X (alloc_log s') u i" "u \<notin> set (removed_tickets (value_log s'))"
    have "u \<notin> set (removed_tickets (value_log s))" using ui(2) by (simp add: vl)
    then have "\<exists>x. put_under ?Y (value_log s) u x \<and> backing (the_queue s) ! unat i = Some x"
      using hist ui(1) unfolding slot_history_def al by blast
    with slots(2) [OF put_stocked [OF core' tickets ui]] more
    show "\<exists>x. put_under ?Y (value_log s') u x \<and> backing (the_queue s') ! unat i = Some x" by auto
  next
    fix q u x assume "Removed q u x \<in> set (value_log s')"
    then consider "Removed q u x \<in> set (value_log s)" | "u = tk" "x = v" by (auto simp: vl)
    then show "put_under ?Y (value_log s') u x"
      using hist put by cases (auto simp: slot_history_def intro: more)
  next
    fix q x assume "given (queue_pcs s' q) = Some x"
    then consider "q = t" "x = v" | "q \<noteq> t" "given (queue_pcs s q) = Some x"
      using mv p'(2) by (auto simp: moved_def split: if_splits)
    then show "\<exists>es u. removed_by q (value_log s') = es @ [(u, x)]"
      using hist by cases (auto simp: slot_history_def vl)
  qed
  moreover have "values_ok (mset vs) s'"
  proof -
    have "total fetched_items s = add_mset pos (total fetched_items s')"
      using moved_total [OF mv, of fetched_items] p p' by (simp add: fetched_items_def)
    moreover have "image_mset (slot_value s') (mset (ring_indices (alloc_queue (the_queue s'))) + total fetched_items s')
        = image_mset (slot_value s) (mset (ring_indices (alloc_queue (the_queue s'))) + total fetched_items s')"
      by (rule image_slots) (rule slots(2) [OF value_stocked])
    ultimately have "queue_values s = add_mset v (queue_values s')"
      using v unfolding queue_values_def ring by (simp add: slot_value_def)
    then show ?thesis using val by (simp add: values_ok_def vl)
  qed
  ultimately show ?thesis using core' slots(1) tickets by (simp add: queue_ok_def)
qed

section \<open>Storing and fetching an index\<close>

lemma slots_kept:
  assumes mv: "moved t p' s s'" and b: "backing (the_queue s') = backing (the_queue s)"
    and stocked: "stocked s' = stocked s" and p': "stores p' = None" and ok: "slots_ok s"
  shows "slots_ok s'"
proof -
  have "stores (queue_pcs s' u) = Some e \<Longrightarrow> stores (queue_pcs s u) = Some e" for u e
    using mv p' by (auto simp: moved_def split: if_splits)
  then show ?thesis using ok by (simp add: slots_ok_def b stocked) blast
qed

lemma ok_store:
  fixes s :: "'a queue_sys"
  assumes core': "queue_core N' ha hf as fs s'"
    and mv: "moved t p' s s'" and b: "backing (the_queue s') = backing (the_queue s)"
    and ring: "mset (ring_indices (alloc_queue (the_queue s')))
      = add_mset pos (mset (ring_indices (alloc_queue (the_queue s))))"
    and al: "alloc_log s' = alloc_log s @ [Stored t tk pos]" and vl: "value_log s' = value_log s @ [Stored t tk x]"
    and p: "stores (queue_pcs s t) = Some (pos, x)" "filled (queue_pcs s t) = {#pos#}" "fetched (queue_pcs s t) = None"
    and p': "fetched p' = None" "given p' = None" "filled p' = {#}" "stores p' = None"
    and ok: "queue_ok N ha hf as fs vs s"
  shows "queue_ok N' ha hf as fs vs s'"
proof -
  let ?X = "start_puts ha as" and ?Y = "start_puts ha vs"
  have sl: "slots_ok s" and tk: "tickets_ok s" and hist: "slot_history ?X ?Y s" and val: "values_ok (mset vs) s"
    using ok by (simp_all add: queue_ok_def)
  have "stocked s' = stocked s"
    using moved_total [OF mv, of filled] p(2) p'(3) ring by (simp add: stocked_def)
  then have slots: "slots_ok s'" by (rule slots_kept [OF mv b _ p'(4) sl])
  have same: "total fetched_items s' = total fetched_items s" "total fetched_tickets s' = total fetched_tickets s"
    "fetched (queue_pcs s' q) = fetched (queue_pcs s q)" for q
    using moved_same [OF mv, of fetched_items] moved_same [OF mv, of fetched_tickets] p(3) p'(1) mv
    by (simp_all add: fetched_items_def fetched_tickets_def moved_def)
  have "tickets_ok s'" using tk by (simp add: tickets_ok_def same al vl)
  moreover have at: "backing (the_queue s) ! unat pos = Some x"
    using sl p(1) by (simp add: slots_ok_def)
  have "slot_history ?X ?Y s'"
    unfolding slot_history_def
  proof (intro conjI allI impI)
    fix u i assume "put_under ?X (alloc_log s') u i" "u \<notin> set (removed_tickets (value_log s'))"
    then consider "put_under ?X (alloc_log s) u i" "u \<notin> set (removed_tickets (value_log s))" | "u = tk" "i = pos"
      by (auto simp: put_under_def al vl)
    then show "\<exists>y. put_under ?Y (value_log s') u y \<and> backing (the_queue s') ! unat i = Some y"
    proof cases
      case 1
      with hist have "\<exists>y. put_under ?Y (value_log s) u y \<and> backing (the_queue s) ! unat i = Some y"
        unfolding slot_history_def by blast
      then show ?thesis by (auto simp: b vl put_under_def)
    next
      case 2
      with at show ?thesis by (auto simp: b vl put_under_def)
    qed
  next
    fix q u y assume "Removed q u y \<in> set (value_log s')"
    then have "Removed q u y \<in> set (value_log s)" by (simp add: vl)
    with hist have "put_under ?Y (value_log s) u y" unfolding slot_history_def by blast
    then show "put_under ?Y (value_log s') u y" by (auto simp: put_under_def vl)
  next
    fix q y assume "given (queue_pcs s' q) = Some y"
    then have "given (queue_pcs s q) = Some y" using mv p'(2) by (auto simp: moved_def split: if_splits)
    then show "\<exists>es u. removed_by q (value_log s') = es @ [(u, y)]" using hist by (simp add: slot_history_def vl)
  qed
  moreover have "queue_values s' = add_mset x (queue_values s)"
    using at image_slots [of _ s' s, unfolded b, OF refl]
    by (simp add: queue_values_def ring same slot_value_def b)
  then have "values_ok (mset vs) s'" using val by (simp add: values_ok_def vl)
  ultimately show ?thesis using core' slots by (simp add: queue_ok_def)
qed

lemma ok_take:
  fixes s :: "'a queue_sys"
  assumes core': "queue_core N' ha hf as fs s'"
    and mv: "moved t p' s s'" and b: "backing (the_queue s') = backing (the_queue s)"
    and ring: "mset (ring_indices (alloc_queue (the_queue s)))
      = add_mset pos (mset (ring_indices (alloc_queue (the_queue s'))))"
    and al: "alloc_log s' = alloc_log s @ [Removed t tk pos]" and vl: "value_log s' = value_log s"
    and p: "filled (queue_pcs s t) = {#}" "fetched (queue_pcs s t) = None"
    and p': "fetched p' = Some (tk, pos)" "given p' = None" "filled p' = {#pos#}" "stores p' = None"
    and ok: "queue_ok N ha hf as fs vs s"
  shows "queue_ok N' ha hf as fs vs s'"
proof -
  let ?X = "start_puts ha as" and ?Y = "start_puts ha vs"
  have sl: "slots_ok s" and tk: "tickets_ok s" and hist: "slot_history ?X ?Y s" and val: "values_ok (mset vs) s"
    using ok by (simp_all add: queue_ok_def)
  have "stocked s' = stocked s"
    using moved_total [OF mv, of filled] p(1) p'(3) ring by (simp add: stocked_def)
  then have slots: "slots_ok s'" by (rule slots_kept [OF mv b _ p'(4) sl])
  have more: "total fetched_items s' = add_mset pos (total fetched_items s)"
    "total fetched_tickets s' = add_mset tk (total fetched_tickets s)"
    using moved_total [OF mv, of fetched_items] moved_total [OF mv, of fetched_tickets] p(2) p'(1)
    by (simp_all add: fetched_items_def fetched_tickets_def)
  have f: "fetched (queue_pcs s' q) = (if q = t then Some (tk, pos) else fetched (queue_pcs s q))" for q
    using p'(1) mv by (simp add: moved_def)
  have "tickets_ok s'" using tk p(2) by (auto simp: tickets_ok_def more f al vl)
  moreover have "slot_history ?X ?Y s'"
  proof -
    have "put_under ?X (alloc_log s') u i = put_under ?X (alloc_log s) u i" for u i
      by (simp add: put_under_def al)
    moreover have "given (queue_pcs s' q) = Some y \<Longrightarrow> given (queue_pcs s q) = Some y" for q y
      using mv p'(2) by (auto simp: moved_def split: if_splits)
    ultimately show ?thesis using hist by (simp add: slot_history_def vl b)
  qed
  moreover have "queue_values s' = queue_values s"
    using image_slots [of _ s' s, unfolded b, OF refl] by (simp add: queue_values_def ring more slot_value_def b)
  then have "values_ok (mset vs) s'" using val by (simp add: values_ok_def vl)
  ultimately show ?thesis using core' slots by (simp add: queue_ok_def)
qed

end
