(* ===== verification/BoundedConcStep.thy ===== *)
theory BoundedConcStep
  imports BoundedConcValues
begin

text \<open>Every step of the concurrent bounded queue keeps the invariant, and so does every run.\<close>

section \<open>The outcomes of a ring operation\<close>

lemma storing_enq_side: "storing p = Some e \<Longrightarrow> enq_side p"
  by (cases p) simp_all

lemma enq_outcome:
  assumes ok: "storing_ok (enq_n r) may pos p" and may: "length (is_finalized r) = 1 \<longrightarrow> may"
    and step: "ring_step p r = (p', r')" "p' \<noteq> RingPanic"
  obtains
    (goes_on) "storing_ok (enq_n r) may pos p'" "storing p' = storing p" "ring_event t p r = []"
  | (stores) tk where "p' = EnThreshold" "storing p \<noteq> None" "ring_event t p r = [Stored t tk pos]"
  | (ended) "p' = EnDone (Inr ())" "storing p = None" "ring_event t p r = []"
  | (refused) "p' = EnDone (Inl scq_error.QueueFinalized)" "storing p \<noteq> None" "ring_event t p r = []"
      "is_finalized r ! 0" may
proof (cases "storing p")
  case None
  then have "enq_side p" using ok by (simp add: storing_ok_def)
  from ring_step_stored [OF this None step(1)] show ?thesis
  proof
    assume c: "storing p' = None \<and> enq_side p' \<and> ring_event t p r = []"
    then have "storing_ok (enq_n r) may pos p'" by (auto simp: storing_ok_def)
    with c None goes_on show ?thesis by simp
  qed (use None ended in auto)
next
  case (Some e)
  then have e: "e XOR (enq_n r - 1) = pos"
    using ok by (simp add: storing_ok_def xor.assoc)
  from ring_step_storing [OF Some step] consider
      "storing p' = Some e" "ring_event t p r = []"
    | tk where "p' = EnThreshold" "ring_event t p r = [Stored t tk (e XOR (enq_n r - 1))]"
    | tk w where "p' = EnDone (Inl scq_error.QueueFinalized)" "is_finalized r ! 0" "p = EnFinal e tk w"
        "ring_event t p r = []"
    by blast
  then show ?thesis
  proof cases
    case 1
    have "may" if "p' = EnFinal e' tk w" for e' tk w
      using step(1) that may by (cases p) (auto simp: enqueue_load_def enqueue_claim_def enqueue_swap_def Let_def
          dequeue_load_def dequeue_swap_def dequeue_take_def dequeue_tail_def catchup_swap_def catchup_tail_def
          dequeue_count_def split: if_splits prod.splits)
    with 1 ok Some storing_enq_side [OF 1(1)] have "storing_ok (enq_n r) may pos p'" by (auto simp: storing_ok_def)
    with 1 Some goes_on show ?thesis by simp
  next
    case 2
    with Some e stores show ?thesis by simp
  next
    case 3
    then have may using ok by (simp add: storing_ok_def)
    with 3 Some refused show ?thesis by simp
  qed
qed

section \<open>Steps outside the rings\<close>

lemma moved_goto: "t < threads s \<Longrightarrow> moved t p' s (goto t p' (set_queue q' (s\<lparr>value_log := vl\<rparr>)))"
  by (simp add: moved_def goto_def set_queue_def)

lemma goto_fields:
  "the_queue (goto t p' s) = the_queue s" "value_log (goto t p' s) = value_log s"
  "alloc_log (goto t p' s) = alloc_log s" "the_queue (set_queue q' s) = q'"
  "value_log (set_queue q' s) = value_log s" "alloc_log (set_queue q' s) = alloc_log s"
  by (simp_all add: goto_def set_queue_def)

lemma ok_parts:
  assumes "queue_ok N ha hf as fs vs s"
  shows "queue_core N ha hf as fs s" "slots_ok s" "tickets_ok s" "pc_in (the_queue s) (queue_pcs s t)"
    "ring_half (alloc_queue (the_queue s)) = bq_cap (the_queue s)" "\<not> is_final (free_queue (the_queue s))"
    "ring_wf (alloc_queue (the_queue s))" "ring_wf (free_queue (the_queue s))"
    "bq_cap (the_queue s) \<le> length (backing (the_queue s))"
proof -
  show "queue_core N ha hf as fs s" "slots_ok s" "tickets_ok s" using assms by (simp_all add: queue_ok_def)
  then show "pc_in (the_queue s) (queue_pcs s t)" "ring_half (alloc_queue (the_queue s)) = bq_cap (the_queue s)"
    "\<not> is_final (free_queue (the_queue s))" "bq_cap (the_queue s) \<le> length (backing (the_queue s))"
    "ring_wf (alloc_queue (the_queue s))" "ring_wf (free_queue (the_queue s))"
    using ring_conc_wf unfolding queue_core_def by blast+
qed

text \<open>A step that only moves the counter \<open>used\<close>, and may begin an operation of a ring.\<close>

lemma ok_local:
  fixes s :: "'a queue_sys"
  assumes ok: "queue_ok N ha hf as fs vs s" and N: "Suc N < 2 ^ 62" and t: "t < threads s"
    and pcs: "alloc_pc (queue_pcs s t) = RingIdle" "free_pc (queue_pcs s t) = RingIdle"
    and alloc: "alloc_pc p' = RingIdle" and free: "free_pc p' = RingIdle \<or> free_pc p' = DeThreshold"
    and pc: "pc_in (the_queue s) p'" and held: "held p' = held (queue_pcs s t)"
    and p': "fetched p' = fetched (queue_pcs s t)" "filled p' = filled (queue_pcs s t)"
      "stores p' = None" "given p' = None"
  shows "queue_ok (Suc N) ha hf as fs vs (goto t p' (set_queue ((the_queue s)\<lparr>used := u\<rparr>) s))"
proof -
  let ?s = "goto t p' (set_queue ((the_queue s)\<lparr>used := u\<rparr>) (s\<lparr>value_log := value_log s\<rparr>))"
  have "queue_core (Suc N) ha hf as fs ?s"
    using alloc free by (intro core_local [OF ok_parts(1) [OF ok] N t _ _ _ pcs _ _ pc held]) auto
  moreover have "same_logs s ?s" "backing (the_queue ?s) = backing (the_queue s)"
    by (simp_all add: same_logs_def goto_fields)
  ultimately have "queue_ok (Suc N) ha hf as fs vs ?s"
    using p' by (intro ok_quiet [OF _ moved_goto [OF t] _ _ _ _ _ _ ok]) auto
  then show ?thesis by simp
qed

lemma enqueue_call_index: "ring_wf r \<Longrightarrow> unat pos < ring_half r \<Longrightarrow> enqueue_call pos r = EnTicket (pos XOR (enq_n r - 1))"
  using ring_words(4) [of r] by (simp add: enqueue_call_def word_le_nat_alt)

lemma storing_ok_ticket: "storing_ok n may pos (EnTicket (pos XOR (n - 1)))"
  by (simp add: storing_ok_def)

lemma same_order: "ring_half r = ring_half f \<Longrightarrow> enq_n r = enq_n f"
  by (simp add: ring_half_def enq_n_def flip: word_unat_eq_iff)

text \<open>The index in the hands of a thread is in range, so the ring operation begins.\<close>

lemma held_begin:
  assumes ok: "queue_ok N ha hf as fs vs s" and t: "t < threads s" and i: "pos \<in># held (queue_pcs s t)"
  shows "unat pos < bq_cap (the_queue s)" "unat pos < length (backing (the_queue s))"
    "enqueue_call pos (alloc_queue (the_queue s)) = EnTicket (pos XOR (enq_n (free_queue (the_queue s)) - 1))"
    "enqueue_call pos (free_queue (the_queue s)) = EnTicket (pos XOR (enq_n (free_queue (the_queue s)) - 1))"
proof -
  note parts = ok_parts [OF ok]
  show cap: "unat pos < bq_cap (the_queue s)" by (rule held_index(1) [OF parts(1) t i])
  with parts(9) show "unat pos < length (backing (the_queue s))" by simp
  have half: "ring_half (free_queue (the_queue s)) = bq_cap (the_queue s)" by (simp add: bq_cap_def)
  have "enq_n (alloc_queue (the_queue s)) = enq_n (free_queue (the_queue s))"
    using same_order [of "alloc_queue (the_queue s)" "free_queue (the_queue s)"] parts(5,7,8) half by simp
  with cap parts(5,7,8) half
  show "enqueue_call pos (alloc_queue (the_queue s)) = EnTicket (pos XOR (enq_n (free_queue (the_queue s)) - 1))"
    "enqueue_call pos (free_queue (the_queue s)) = EnTicket (pos XOR (enq_n (free_queue (the_queue s)) - 1))"
    using enqueue_call_index [of "alloc_queue (the_queue s)" pos] enqueue_call_index [of "free_queue (the_queue s)" pos]
    by simp_all
qed

section \<open>The reads and writes of the slots\<close>

lemma step_write:
  fixes s :: "'a queue_sys"
  assumes ok: "queue_ok N ha hf as fs vs s" and N: "Suc N < 2 ^ 62" and t: "t < threads s"
    and p: "queue_pcs s t = QWrite x sz pos"
  shows "queue_ok (Suc N) ha hf as fs vs (queue_step t s)"
proof -
  let ?q = "the_queue s"
  let ?q' = "?q\<lparr>backing := (backing ?q)[unat pos := Some x]\<rparr>" and ?e = "pos XOR (enq_n (free_queue ?q) - 1)"
  let ?p' = "QAlloc x sz pos (EnTicket ?e)"
  let ?s = "goto t ?p' (set_queue ?q' (s\<lparr>value_log := value_log s\<rparr>))"
  have pos: "pos \<in># held (queue_pcs s t)" by (simp add: p)
  note start = held_begin [OF ok t pos]
  have eq: "queue_step t s = ?s"
    using start by (simp add: queue_step_def p write_slot_def slot_outcome_def after_alloc_def Let_def)
  have "queue_core (Suc N) ha hf as fs ?s"
    using start ok_parts(1) [OF ok]
    by (intro core_local [OF _ N t])
      (auto simp: p unstored_def pc_in_def storing_ok_ticket intro!: exI [of _ pos])
  moreover have "same_logs s ?s" "backing (the_queue ?s) = (backing (the_queue s))[unat pos := Some x]"
    by (simp_all add: same_logs_def goto_fields)
  ultimately show ?thesis
    unfolding eq by (intro ok_write [OF _ moved_goto [OF t] _ _ p _ _ _ _ ok]) (simp_all add: unstored_def)
qed

text \<open>The thread that reads a slot puts its index back into the free ring.\<close>

lemma core_read:
  fixes s :: "'a queue_sys"
  assumes ok: "queue_ok N ha hf as fs vs s" and N: "Suc N < 2 ^ 62" and t: "t < threads s"
    and p: "held (queue_pcs s t) = {#pos#}" "alloc_pc (queue_pcs s t) = RingIdle" "free_pc (queue_pcs s t) = RingIdle"
    and p': "alloc_pc p' = RingIdle" "free_pc p' = EnTicket (pos XOR (enq_n (free_queue (the_queue s)) - 1))"
      "held p' = {#pos#}" "pc_in (the_queue s) p'"
  shows "queue_core (Suc N) ha hf as fs
    (goto t p' (set_queue ((the_queue s)\<lparr>backing := (backing (the_queue s))[unat pos := None]\<rparr>) (s\<lparr>value_log := vl\<rparr>)))"
proof -
  have pos: "pos \<in># held (queue_pcs s t)" by (simp add: p(1))
  show ?thesis
    using held_begin [OF ok t pos] p p' ok_parts(1) [OF ok]
    by (intro core_local [OF _ N t]) (auto intro!: exI [of _ pos])
qed

lemma step_undo_read:
  fixes s :: "'a queue_sys"
  assumes ok: "queue_ok N ha hf as fs vs s" and N: "Suc N < 2 ^ 62" and t: "t < threads s"
    and p: "queue_pcs s t = QUndoRead pos"
  shows "queue_ok (Suc N) ha hf as fs vs (queue_step t s)"
proof -
  let ?q = "the_queue s"
  let ?q' = "?q\<lparr>backing := (backing ?q)[unat pos := None]\<rparr>" and ?e = "pos XOR (enq_n (free_queue ?q) - 1)"
  have pos: "pos \<in># held (queue_pcs s t)" "pos \<in># filled (queue_pcs s t)" by (simp_all add: p)
  note start = held_begin [OF ok t pos(1)]
  have "pos \<in># stocked s" using pos(2) t unfolding stocked_member by blast
  then obtain x where x: "backing ?q ! unat pos = Some x"
    using ok_parts(2) [OF ok] by (auto simp: slots_ok_def)
  let ?p' = "QUndoFree x pos (EnTicket ?e)"
  let ?s = "goto t ?p' (set_queue ?q' (s\<lparr>value_log := value_log s\<rparr>))"
  have eq: "queue_step t s = ?s"
    using start x by (simp add: queue_step_def p read_slot_def slot_outcome_def Let_def)
  have "queue_core (Suc N) ha hf as fs ?s"
    by (rule core_read [OF ok N t]) (simp_all add: p unstored_def pc_in_def storing_ok_ticket)
  moreover have "same_logs s ?s" "backing (the_queue ?s) = (backing (the_queue s))[unat pos := None]"
    by (simp_all add: same_logs_def goto_fields)
  ultimately show ?thesis
    unfolding eq by (intro ok_unread [OF _ moved_goto [OF t] _ _ p _ _ _ _ _ ok]) (simp_all add: unstored_def)
qed

lemma step_read:
  fixes s :: "'a queue_sys"
  assumes ok: "queue_ok N ha hf as fs vs s" and N: "Suc N < 2 ^ 62" and t: "t < threads s"
    and p: "queue_pcs s t = QRead tk pos"
  shows "queue_ok (Suc N) ha hf as fs vs (queue_step t s)"
proof -
  let ?q = "the_queue s"
  let ?q' = "?q\<lparr>backing := (backing ?q)[unat pos := None]\<rparr>" and ?e = "pos XOR (enq_n (free_queue ?q) - 1)"
  have pos: "pos \<in># held (queue_pcs s t)" "pos \<in># filled (queue_pcs s t)" by (simp_all add: p)
  note start = held_begin [OF ok t pos(1)]
  have "pos \<in># stocked s" using pos(2) t unfolding stocked_member by blast
  then obtain x where x: "backing ?q ! unat pos = Some x"
    using ok_parts(2) [OF ok] by (auto simp: slots_ok_def)
  let ?p' = "QGive x pos (EnTicket ?e)"
  let ?s = "goto t ?p' (set_queue ?q' (s\<lparr>value_log := value_log s @ [Removed t tk x]\<rparr>))"
  have eq: "queue_step t s = ?s"
    using start x by (simp add: queue_step_def p read_slot_def slot_outcome_def Let_def)
  have "queue_core (Suc N) ha hf as fs ?s"
    by (rule core_read [OF ok N t]) (simp_all add: p unstored_def pc_in_def storing_ok_ticket)
  moreover have "mset (ring_indices (alloc_queue (the_queue ?s))) = mset (ring_indices (alloc_queue (the_queue s)))"
    "value_log ?s = value_log s @ [Removed t tk x]" "alloc_log ?s = alloc_log s"
    "backing (the_queue ?s) = (backing (the_queue s))[unat pos := None]"
    by (simp_all add: goto_fields)
  ultimately show ?thesis
    unfolding eq by (intro ok_read [OF _ moved_goto [OF t] _ _ _ _ x p _ _ _ _ _ ok]) (simp_all add: unstored_def)
qed

section \<open>The accesses of the free ring\<close>

lemma free_access_fields:
  assumes "ring_step p (free_queue (the_queue s)) = (p', r)" "t < threads s"
  shows "moved t (f p') s (free_access t p f s)" "same_logs s (free_access t p f s)"
    "backing (the_queue (free_access t p f s)) = backing (the_queue s)"
  using assms by (simp_all add: free_access_def Let_def moved_def same_logs_def goto_def set_queue_def)

lemma free_no_panic:
  fixes s :: "'a queue_sys"
  assumes "queue_ok N ha hf as fs vs s" "Suc N < 2 ^ 62"
    "ring_step (free_pc (queue_pcs s t)) (free_queue (the_queue s)) = (p', r)"
  shows "p' \<noteq> RingPanic"
proof -
  have "ring_conc N (start_puts hf fs) (mset fs) (free_queue (the_queue s)) (\<lambda>u. free_pc (queue_pcs s u)) (free_log s)"
    using ok_parts(1) [OF assms(1)] unfolding queue_core_def by blast
  from ring_conc_advance(2) [OF this assms(2,3) refl, of p'] show ?thesis by simp
qed

lemma ok_free_access:
  fixes s :: "'a queue_sys"
  assumes ok: "queue_ok N ha hf as fs vs s" and N: "Suc N < 2 ^ 62" and t: "t < threads s"
    and p: "free_pc (queue_pcs s t) = p" "alloc_pc (queue_pcs s t) = RingIdle"
    and step: "ring_step p (free_queue (the_queue s)) = (p', r)"
    and f: "free_pc (f p') = p' \<or> free_pc (f p') = RingIdle \<and> ring_at_rest p'" "alloc_pc (f p') = RingIdle"
    and pc: "pc_in (the_queue s) (f p')"
    and held: "held (f p') + stored_items (ring_event t p (free_queue (the_queue s)))
       = held (queue_pcs s t) + removed_items (ring_event t p (free_queue (the_queue s)))"
    and same: "fetched (f p') = fetched (queue_pcs s t)" "filled (f p') = filled (queue_pcs s t)"
      "stores (f p') = None" "given (f p') = None \<or> given (f p') = given (queue_pcs s t)"
  shows "queue_ok (Suc N) ha hf as fs vs (free_access t p f s)"
  using free_access_fields [where f = f, OF step t] same
  by (intro ok_quiet [OF core_free_access [where f = f, OF ok_parts(1) [OF ok] N t p step f pc held] _ _ _ _ _ _ _ ok]) auto

lemma after_free_goes_on: "deq_side p \<Longrightarrow> after_free x sz p = QFree x sz p"
  by (cases p) simp_all

lemma step_free:
  fixes s :: "'a queue_sys"
  assumes ok: "queue_ok N ha hf as fs vs s" and N: "Suc N < 2 ^ 62" and t: "t < threads s"
    and p: "queue_pcs s t = QFree x sz p"
  shows "queue_ok (Suc N) ha hf as fs vs (queue_step t s)"
proof -
  obtain p' r where step: "ring_step p (free_queue (the_queue s)) = (p', r)" by fastforce
  have pan: "p' \<noteq> RingPanic" using free_no_panic [OF ok N, of t p' r] step by (simp add: p)
  have side: "deq_side p" using ok_parts(4) [OF ok, of t] by (simp add: p pc_in_def)
  have eq: "queue_step t s = free_access t p (after_free x sz) s" by (simp add: queue_step_def p Let_def)
  show ?thesis
    unfolding eq using ring_step_dequeue [OF side step pan, of t]
    by (intro ok_free_access [OF ok N t _ _ step]) (auto simp: p pc_in_def after_free_goes_on)
qed

text \<open>Both the rollback of an enqueue and the end of a dequeue put an index back.\<close>

lemma step_put_back:
  fixes s :: "'a queue_sys"
  assumes ok: "queue_ok N ha hf as fs vs s" and N: "Suc N < 2 ^ 62" and t: "t < threads s"
    and p: "queue_pcs s t = goes p"
    and goes: "\<And>p. free_pc (goes p) = p" "\<And>p. alloc_pc (goes p) = RingIdle" "\<And>p. held (goes p) = unstored p pos"
      "\<And>p n may. queue_pc_ok n may (goes p) = storing_ok n may pos p" "\<And>p. fetched (goes p) = None"
      "\<And>p. filled (goes p) = {#}" "\<And>p. stores (goes p) = None" "\<And>p q. given (goes p) = given (goes q)"
    and f: "\<And>p. enq_side p \<Longrightarrow> f p = goes p" "f (EnDone (Inr ())) = ended"
    and ended: "queue_at_rest ended" "free_pc ended = RingIdle" "alloc_pc ended = RingIdle"
      "held ended = {#}" "fetched ended = None" "filled ended = {#}" "stores ended = None"
      "given ended = None \<or> given ended = given (goes p)" "\<And>n may. queue_pc_ok n may ended"
  shows "queue_ok (Suc N) ha hf as fs vs (free_access t p f s)"
proof -
  let ?r = "free_queue (the_queue s)"
  obtain p' r where step: "ring_step p ?r = (p', r)" by fastforce
  have pan: "p' \<noteq> RingPanic" using free_no_panic [OF ok N, of t p' r] step by (simp add: p goes)
  have so: "storing_ok (enq_n ?r) (length (is_finalized ?r) = 1) pos p"
    using ok_parts(4) [OF ok, of t] by (simp add: p pc_in_def goes)
  have g: "given (goes p') = given (goes p)" by (rule goes(8))
  have may: "length (is_finalized ?r) = 1 \<longrightarrow> length (is_finalized ?r) = 1" by simp
  show ?thesis
  proof (cases rule: enq_outcome [OF so may step pan, where t = t, case_names goes_on stores ended refused])
    case goes_on
    then have "enq_side p'" by (simp add: storing_ok_def)
    with goes_on show ?thesis
      by (intro ok_free_access [OF ok N t _ _ step]) (simp_all add: p pc_in_def goes(1-7) f(1) unstored_def g)
  next
    case (stores tk)
    then have "f p' = goes p'" using f(1) [of p'] by simp
    with stores show ?thesis
      by (intro ok_free_access [OF ok N t _ _ step]) (simp_all add: p pc_in_def goes(1-7) unstored_def storing_ok_def goes(8) [of EnThreshold p])
  next
    case ended'': ended
    then have "f p' = ended" using f(2) by simp
    with ended'' ended show ?thesis
      by (intro ok_free_access [OF ok N t _ _ step]) (simp_all add: p pc_in_def goes(1-7) unstored_def)
  next
    case refused
    then show ?thesis using ok_parts(6) [OF ok] by (simp add: is_final_def)
  qed
qed

lemma step_undo_free:
  fixes s :: "'a queue_sys"
  assumes ok: "queue_ok N ha hf as fs vs s" and N: "Suc N < 2 ^ 62" and t: "t < threads s"
    and p: "queue_pcs s t = QUndoFree x pos p"
  shows "queue_ok (Suc N) ha hf as fs vs (queue_step t s)"
proof -
  have "enq_side p \<Longrightarrow> after_undo x pos p = QUndoFree x pos p" for p by (cases p) simp_all
  then have "queue_ok (Suc N) ha hf as fs vs (free_access t p (after_undo x pos) s)"
    by (intro step_put_back [OF ok N t, where goes = "QUndoFree x pos"
          and ended = "QEnqDone (Inl (x, queue_error.QueueFinalized))"]) (simp_all add: p)
  then show ?thesis by (simp add: queue_step_def p Let_def)
qed

lemma step_give:
  fixes s :: "'a queue_sys"
  assumes ok: "queue_ok N ha hf as fs vs s" and N: "Suc N < 2 ^ 62" and t: "t < threads s"
    and p: "queue_pcs s t = QGive x pos p"
  shows "queue_ok (Suc N) ha hf as fs vs (queue_step t s)"
proof -
  have "enq_side p \<Longrightarrow> after_give x pos p = QGive x pos p" for p by (cases p) simp_all
  then have "queue_ok (Suc N) ha hf as fs vs (free_access t p (after_give x pos) s)"
    by (intro step_put_back [OF ok N t, where goes = "QGive x pos" and ended = "QDeqDone (Some x)"]) (simp_all add: p)
  then show ?thesis by (simp add: queue_step_def p Let_def)
qed

section \<open>The accesses of the allocation ring\<close>

lemma alloc_access_fields:
  assumes "ring_step p (alloc_queue (the_queue s)) = (p', r)" "t < threads s"
  shows "moved t (f p') s (alloc_access t p v f s)"
    "backing (the_queue (alloc_access t p v f s)) = backing (the_queue s)"
    "alloc_queue (the_queue (alloc_access t p v f s)) = r"
    "alloc_log (alloc_access t p v f s) = alloc_log s @ ring_event t p (alloc_queue (the_queue s))"
    "value_log (alloc_access t p v f s) = value_log s @ value_events v (ring_event t p (alloc_queue (the_queue s)))"
  using assms by (simp_all add: alloc_access_def Let_def moved_def goto_def set_queue_def)

lemma alloc_conc:
  fixes s :: "'a queue_sys"
  assumes "queue_ok N ha hf as fs vs s" "Suc N < 2 ^ 62"
    "ring_step (alloc_pc (queue_pcs s t)) (alloc_queue (the_queue s)) = (p', r)"
  shows "p' \<noteq> RingPanic"
    and "mset (ring_indices r) + removed_items (ring_event t (alloc_pc (queue_pcs s t)) (alloc_queue (the_queue s)))
      = mset (ring_indices (alloc_queue (the_queue s)))
        + stored_items (ring_event t (alloc_pc (queue_pcs s t)) (alloc_queue (the_queue s)))"
proof -
  have conc: "ring_conc N (start_puts ha as) (mset as) (alloc_queue (the_queue s))
      (\<lambda>u. alloc_pc (queue_pcs s u)) (alloc_log s)"
    using ok_parts(1) [OF assms(1)] unfolding queue_core_def by blast
  from ring_conc_advance(2) [OF this assms(2,3) refl, of p'] show "p' \<noteq> RingPanic" by simp
  from ring_conc_move [OF conc ring_conc_advance(1) [OF conc assms(2,3) refl, of p']]
  show "mset (ring_indices r) + removed_items (ring_event t (alloc_pc (queue_pcs s t)) (alloc_queue (the_queue s)))
      = mset (ring_indices (alloc_queue (the_queue s)))
        + stored_items (ring_event t (alloc_pc (queue_pcs s t)) (alloc_queue (the_queue s)))"
    by simp
qed

lemma ok_alloc_quiet:
  fixes s :: "'a queue_sys"
  assumes ok: "queue_ok N ha hf as fs vs s" and N: "Suc N < 2 ^ 62" and t: "t < threads s"
    and p: "alloc_pc (queue_pcs s t) = p" "free_pc (queue_pcs s t) = RingIdle"
    and step: "ring_step p (alloc_queue (the_queue s)) = (p', r)"
    and quiet: "ring_event t p (alloc_queue (the_queue s)) = []"
    and f: "alloc_pc (f p') = p' \<or> alloc_pc (f p') = RingIdle \<and> ring_at_rest p'" "free_pc (f p') = RingIdle"
    and pc: "pc_in (the_queue s) (f p')" and held: "held (f p') = held (queue_pcs s t)"
    and same: "fetched (f p') = fetched (queue_pcs s t)" "filled (f p') = filled (queue_pcs s t)"
      "stores (f p') = None \<or> stores (f p') = stores (queue_pcs s t)" "given (f p') = None"
  shows "queue_ok (Suc N) ha hf as fs vs (alloc_access t p v f s)"
proof -
  note fields = alloc_access_fields [where f = f and v = v, OF step t]
  have "queue_core (Suc N) ha hf as fs (alloc_access t p v f s)"
    using held quiet by (intro core_alloc_access [where f = f, OF ok_parts(1) [OF ok] N t p step f pc]) simp
  moreover have "same_logs s (alloc_access t p v f s)"
    using alloc_conc(2) [OF ok N, of t p' r] step p(1) quiet fields by (simp add: same_logs_def)
  ultimately show ?thesis
    using same by (intro ok_quiet [OF _ fields(1) _ fields(2) _ _ _ _ ok]) auto
qed

lemma step_take:
  fixes s :: "'a queue_sys"
  assumes ok: "queue_ok N ha hf as fs vs s" and N: "Suc N < 2 ^ 62" and t: "t < threads s"
    and p: "queue_pcs s t = QTake p"
  shows "queue_ok (Suc N) ha hf as fs vs (queue_step t s)"
proof -
  let ?r = "alloc_queue (the_queue s)" and ?f = "after_take p :: ring_pc \<Rightarrow> 'a queue_pc"
  obtain p' r where step: "ring_step p ?r = (p', r)" by fastforce
  have pan: "p' \<noteq> RingPanic" using alloc_conc(1) [OF ok N, of t p' r] step by (simp add: p)
  have side: "deq_side p" using ok_parts(4) [OF ok, of t] by (simp add: p pc_in_def)
  have goes: "deq_side p \<Longrightarrow> ?f p = QTake p" for p
    by (cases p) (simp_all add: after_take_def)
  have eq: "queue_step t s = alloc_access t p None ?f s" by (simp add: queue_step_def p Let_def)
  from ring_step_dequeue [OF side step pan, of t] consider
      "deq_side p'" "ring_event t p ?r = []" | "p' = DeDone None" "ring_event t p ?r = []"
    | x tk where "p' = DeDone (Some x)" "dequeuing p = Some tk" "ring_event t p ?r = [Removed t tk x]"
    by blast
  then show ?thesis
    unfolding eq
  proof cases
    case 1
    then show "queue_ok (Suc N) ha hf as fs vs (alloc_access t p None ?f s)"
      by (intro ok_alloc_quiet [OF ok N t _ _ step]) (simp_all add: p pc_in_def goes)
  next
    case 2
    then show "queue_ok (Suc N) ha hf as fs vs (alloc_access t p None ?f s)"
      by (intro ok_alloc_quiet [OF ok N t _ _ step]) (simp_all add: p pc_in_def after_take_def)
  next
    case 3
    note fields = alloc_access_fields [where f = ?f and v = None, OF step t]
    have f: "?f (DeDone (Some x)) = QUsed tk x" using 3 by (simp add: after_take_def)
    have "queue_core (Suc N) ha hf as fs (alloc_access t p None ?f s)"
      using 3 by (intro core_alloc_access [where f = ?f, OF ok_parts(1) [OF ok] N t _ _ step])
        (simp_all add: p pc_in_def f)
    moreover have "mset (ring_indices ?r) = add_mset x (mset (ring_indices r))"
      using alloc_conc(2) [OF ok N, of t p' r] step 3 by (simp add: p)
    ultimately show "queue_ok (Suc N) ha hf as fs vs (alloc_access t p None ?f s)"
      using fields 3 f
      by (intro ok_take [OF _ fields(1,2) _ _ _ _ _ _ _ _ _ ok, where tk = tk and pos = x])
        (simp_all add: p)
  qed
qed

lemma step_alloc:
  fixes s :: "'a queue_sys"
  assumes ok: "queue_ok N ha hf as fs vs s" and N: "Suc N < 2 ^ 62" and t: "t < threads s"
    and p: "queue_pcs s t = QAlloc x sz pos p"
  shows "queue_ok (Suc N) ha hf as fs vs (queue_step t s)"
proof -
  let ?r = "alloc_queue (the_queue s)"
  let ?f = "after_alloc (sealing s) (ring_capacity (free_queue (the_queue s))) x sz pos"
  obtain p' r where step: "ring_step p ?r = (p', r)" by fastforce
  have pan: "p' \<noteq> RingPanic" using alloc_conc(1) [OF ok N, of t p' r] step by (simp add: p)
  have n: "enq_n ?r = enq_n (free_queue (the_queue s))"
    using ok_parts(5) [OF ok] by (intro same_order) (simp add: bq_cap_def)
  have so: "storing_ok (enq_n ?r) True pos p"
    using ok_parts(4) [OF ok, of t] by (simp add: p pc_in_def n)
  have goes: "enq_side p \<Longrightarrow> ?f p = QAlloc x sz pos p" for p
    by (cases p) (simp_all add: after_alloc_def)
  have may: "length (is_finalized ?r) = 1 \<longrightarrow> True" by simp
  have eq: "queue_step t s = alloc_access t p (Some x) ?f s" by (simp add: queue_step_def p Let_def)
  show ?thesis
    unfolding eq
  proof (cases rule: enq_outcome [OF so may step pan, where t = t, case_names goes_on stores ended refused])
    case goes_on
    then have "enq_side p'" by (simp add: storing_ok_def)
    with goes_on show "queue_ok (Suc N) ha hf as fs vs (alloc_access t p (Some x) ?f s)"
      by (intro ok_alloc_quiet [OF ok N t _ _ step])
        (simp_all add: p pc_in_def goes unstored_def flip: n)
  next
    case (stores tk)
    note fields = alloc_access_fields [where f = ?f and v = "Some x", OF step t]
    have f: "?f EnThreshold = QAlloc x sz pos EnThreshold" by (rule goes) simp
    have "queue_core (Suc N) ha hf as fs (alloc_access t p (Some x) ?f s)"
      using stores by (intro core_alloc_access [where f = ?f, OF ok_parts(1) [OF ok] N t _ _ step])
        (auto simp: p pc_in_def f unstored_def storing_ok_def)
    moreover have "mset (ring_indices r) = add_mset pos (mset (ring_indices ?r))"
      using alloc_conc(2) [OF ok N, of t p' r] step stores by (simp add: p)
    ultimately show "queue_ok (Suc N) ha hf as fs vs (alloc_access t p (Some x) ?f s)"
      using fields stores f
      by (intro ok_store [OF _ fields(1,2) _ _ _ _ _ _ _ _ _ _ ok, where tk = tk and pos = pos and x = x])
        (auto simp: p unstored_def)
  next
    case ended
    then show "queue_ok (Suc N) ha hf as fs vs (alloc_access t p (Some x) ?f s)"
      by (intro ok_alloc_quiet [OF ok N t _ _ step]) (simp_all add: p pc_in_def after_alloc_def unstored_def)
  next
    case refused
    then show "queue_ok (Suc N) ha hf as fs vs (alloc_access t p (Some x) ?f s)"
      by (intro ok_alloc_quiet [OF ok N t _ _ step]) (auto simp: p pc_in_def after_alloc_def unstored_def)
  qed
qed

lemma finalize_fields:
  "ring_indices (finalize r) = ring_indices r" "order (finalize r) = order r"
  by (simp_all add: finalize_def ring_indices_def deq_n_def)

lemma step_seal:
  fixes s :: "'a queue_sys"
  assumes ok: "queue_ok N ha hf as fs vs s" and N: "Suc N < 2 ^ 62" and t: "t < threads s"
    and p: "queue_pcs s t = QSeal x"
  shows "queue_ok (Suc N) ha hf as fs vs (queue_step t s)"
proof -
  let ?q' = "(the_queue s)\<lparr>alloc_queue := finalize (alloc_queue (the_queue s))\<rparr>"
  let ?s = "goto t (QEnqDone (Inr ())) (set_queue ?q' (s\<lparr>alloc_log := alloc_log s, free_log := free_log s,
    value_log := value_log s\<rparr>))"
  note core = ok_parts(1) [OF ok]
  have A: "ring_conc (Suc N) (start_puts ha as) (mset as) (alloc_queue ?q')
      ((\<lambda>u. alloc_pc (queue_pcs s u))(t := RingIdle)) (alloc_log s)"
    using core N unfolding queue_core_def
    by (intro ring_conc_keep) (auto simp: p intro: ring_conc_finalize)
  have F: "ring_conc (Suc N) (start_puts hf fs) (mset fs) (free_queue ?q')
      ((\<lambda>u. free_pc (queue_pcs s u))(t := RingIdle)) (free_log s)"
    using core N unfolding queue_core_def by (intro ring_conc_keep) (auto simp: p)
  have "queue_core (Suc N) ha hf as fs ?s"
    by (rule queue_core_update [OF core t]) (use A F in \<open>simp_all add: p pc_in_def finalize_fields\<close>)
  moreover have "moved t (QEnqDone (Inr ())) s ?s" "same_logs s ?s"
    "backing (the_queue ?s) = backing (the_queue s)"
    using t by (simp_all add: moved_def same_logs_def goto_def set_queue_def finalize_fields)
  ultimately have "queue_ok (Suc N) ha hf as fs vs ?s"
    by (intro ok_quiet [where t = t and p' = "QEnqDone (Inr ())", OF _ _ _ _ _ _ _ _ ok]) (auto simp: p)
  then show ?thesis by (simp add: queue_step_def p Let_def)
qed

section \<open>Every step, every run\<close>

lemma core_later:
  assumes "queue_core N ha hf as fs s" "Suc N < 2 ^ 62"
  shows "queue_core (Suc N) ha hf as fs s"
proof -
  have "ring_conc N X M r P es \<Longrightarrow> ring_conc (Suc N) X M r P es" for X M r P es
    using assms(2) by (auto intro: ring_conc_later)
  then show ?thesis using assms(1) unfolding queue_core_def by blast
qed

lemma ok_later: "queue_ok N ha hf as fs vs s \<Longrightarrow> Suc N < 2 ^ 62 \<Longrightarrow> queue_ok (Suc N) ha hf as fs vs s"
  by (auto simp: queue_ok_def intro: core_later)

lemma step_count:
  fixes s :: "'a queue_sys"
  assumes ok: "queue_ok N ha hf as fs vs s" and N: "Suc N < 2 ^ 62" and t: "t < threads s"
    and p: "queue_pcs s t = QCount x"
  shows "queue_ok (Suc N) ha hf as fs vs (queue_step t s)"
  using ok_local [OF ok N t, of "QFull x" "used (the_queue s) + 1"]
    ok_local [OF ok N t, of "QFree x (used (the_queue s)) DeThreshold" "used (the_queue s) + 1"]
  by (simp add: queue_step_def p Let_def pc_in_def)

lemma queue_step_rest: "queue_at_rest (queue_pcs s t) \<Longrightarrow> queue_step t s = s"
  by (cases "queue_pcs s t") (simp_all add: queue_step_def)

lemma ok_no_panic: "queue_ok N ha hf as fs vs s \<Longrightarrow> queue_pcs s t \<noteq> QPanic \<and> queue_pcs s t \<noteq> QUndefined"
  using ok_parts(4) [of N ha hf as fs vs s t] by (auto simp: pc_in_def)

theorem queue_step_ok:
  fixes s :: "'a queue_sys"
  assumes ok: "queue_ok N ha hf as fs vs s" and N: "Suc N < 2 ^ 62" and t: "t < threads s"
  shows "queue_ok (Suc N) ha hf as fs vs (queue_step t s)"
proof (cases "queue_pcs s t")
  case (QFull x)
  then show ?thesis using ok_local [OF ok N t, of "QEnqDone (Inl (x, QueueFull))"]
    by (simp add: queue_step_def Let_def pc_in_def)
next
  case (QUndoUsed pos)
  then show ?thesis using ok_local [OF ok N t, of "QUndoRead pos"]
    by (simp add: queue_step_def Let_def pc_in_def)
next
  case (QUsed tk pos)
  then show ?thesis using ok_local [OF ok N t, of "QRead tk pos"]
    by (simp add: queue_step_def Let_def pc_in_def)
qed (use step_count [OF ok N t] step_free [OF ok N t] step_write [OF ok N t] step_alloc [OF ok N t]
    step_seal [OF ok N t] step_undo_read [OF ok N t] step_undo_free [OF ok N t] step_take [OF ok N t]
    step_read [OF ok N t] step_give [OF ok N t] ok_later [OF ok N] queue_step_rest [of s t] ok_no_panic [OF ok, of t] in simp_all)

lemma start_total: "(f (QIdle :: 'a queue_pc) :: 'b multiset) = {#} \<Longrightarrow> total f (queue_start fin m (q :: 'a bounded_queue)) = {#}"
  by (simp add: total_def queue_start_def)

theorem queue_start_ok:
  fixes q :: "'a bounded_queue"
  assumes inv: "bq_inv c q as fs vs"
  shows "queue_ok c (unat (head (alloc_queue q))) (unat (head (free_queue q))) as fs vs (queue_start fin m q)"
proof -
  let ?ha = "unat (head (alloc_queue q))" and ?hf = "unat (head (free_queue q))" and ?s = "queue_start fin m q"
  have s: "the_queue ?s = q" "queue_pcs ?s = (\<lambda>_. QIdle)" "alloc_log ?s = []" "free_log ?s = []" "value_log ?s = []"
    by (simp_all add: queue_start_def)
  have A: "ring_conc c (start_puts ?ha as) (mset as) (alloc_queue q) (\<lambda>_. RingIdle) []"
    and F: "ring_conc c (start_puts ?hf fs) (mset fs) (free_queue q) (\<lambda>_. RingIdle) []"
    using inv ring_conc_start by (auto simp: bq_inv_def)
  note indices = ring_conc_indices [OF A, simplified] ring_conc_indices [OF F, simplified]
  have totals: "total held ?s = {#}" "total filled ?s = {#}" "total fetched_items ?s = {#}" "total fetched_tickets ?s = {#}"
    by (simp_all add: start_total fetched_items_def fetched_tickets_def)
  have vals: "map (\<lambda>i. backing q ! unat i) as = map Some vs" using inv by (simp add: bq_inv_def)
  then have len: "length as = length vs" and at: "j < length vs \<Longrightarrow> backing q ! unat (as ! j) = Some (vs ! j)" for j
    by (metis length_map, metis length_map nth_map)
  have "queue_core c ?ha ?hf as fs ?s"
    using A F inv bq_places [OF inv] indices
    by (simp add: queue_core_def s totals places_def pc_in_def bq_inv_def)
  moreover have "slots_ok ?s"
    using at len unfolding slots_ok_def stocked_def s totals indices(1) by (auto simp: in_set_conv_nth)
  moreover have "tickets_ok ?s" by (simp add: tickets_ok_def s totals)
  moreover have "slot_history (start_puts ?ha as) (start_puts ?ha vs) ?s"
    using at len by (auto simp: slot_history_def s put_under_def start_puts_def split: if_splits)
  moreover have "map (slot_value ?s) as = vs"
    using at len by (intro nth_equalityI) (simp_all add: slot_value_def s)
  then have "values_ok (mset vs) ?s"
    using indices(1) by (simp add: values_ok_def s totals queue_values_def flip: mset_map)
  ultimately show ?thesis by (simp add: queue_ok_def)
qed

text \<open>A call begins an operation of a thread at rest.\<close>

lemma ok_call:
  fixes s :: "'a queue_sys"
  assumes ok: "queue_ok N ha hf as fs vs s" and N: "Suc N < 2 ^ 62" and t: "t < threads s"
    and rest: "queue_at_rest (queue_pcs s t)" and p': "p' = QCount x \<or> p' = QTake DeThreshold"
  shows "queue_ok (Suc N) ha hf as fs vs (goto t p' s)"
proof -
  have pcs: "alloc_pc (queue_pcs s t) = RingIdle" "free_pc (queue_pcs s t) = RingIdle" "held (queue_pcs s t) = {#}"
    "fetched (queue_pcs s t) = None" "filled (queue_pcs s t) = {#}"
    using rest by (cases "queue_pcs s t"; simp)+
  let ?s = "goto t p' (set_queue (the_queue s) (s\<lparr>value_log := value_log s\<rparr>))"
  have "queue_core (Suc N) ha hf as fs ?s"
    using p' pcs by (intro core_local [OF ok_parts(1) [OF ok] N t]) (auto simp: pc_in_def)
  moreover have "same_logs s ?s" "backing (the_queue ?s) = backing (the_queue s)"
    by (simp_all add: same_logs_def goto_fields)
  ultimately have "queue_ok (Suc N) ha hf as fs vs ?s"
    using p' pcs by (intro ok_quiet [OF _ moved_goto [OF t] _ _ _ _ _ _ ok]) auto
  then show ?thesis by (simp add: set_queue_def)
qed

theorem queue_run_ok:
  fixes s :: "'a queue_sys"
  assumes "queue_sys_run ls s = Some s'" "queue_ok N ha hf as fs vs s" "N + length ls < 2 ^ 62"
  shows "queue_ok (N + length ls) ha hf as fs vs s'"
  using assms
proof (induction ls arbitrary: s N)
  case (Cons l ls)
  then obtain s1 where s1: "queue_sys_step l s = Some s1" "queue_sys_run ls s1 = Some s'"
    by (auto split: option.splits)
  have N: "Suc N < 2 ^ 62" using Cons.prems(3) by simp
  have "queue_ok (Suc N) ha hf as fs vs s1"
    using s1(1) ok_call [OF Cons.prems(2) N] queue_step_ok [OF Cons.prems(2) N]
    by (cases l) (auto split: if_splits)
  from Cons.IH [OF s1(2) this] Cons.prems(3) show ?case by simp
qed simp

section \<open>The order of the values\<close>

lemma value_order:
  assumes ok: "queue_ok N ha hf as fs vs s"
  shows "distinct (stored_tickets (value_log s))" "distinct (removed_tickets (value_log s))"
    "subseq (filter (\<lambda>e. e \<in> set (stored_by p (value_log s))) (removed_by t (value_log s))) (stored_by p (value_log s))"
proof -
  have conc: "ring_conc N (start_puts ha as) (mset as) (alloc_queue (the_queue s))
      (\<lambda>t. alloc_pc (queue_pcs s t)) (alloc_log s)"
    using ok unfolding queue_ok_def queue_core_def by blast
  have tickets: "tickets_ok s" using ok by (simp add: queue_ok_def)
  show "distinct (stored_tickets (value_log s))"
    using tickets ring_conc_order(1) [OF conc] by (simp add: tickets_ok_def)
  have "mset (removed_tickets (alloc_log s)) = mset (removed_tickets (value_log s)) + total fetched_tickets s"
    using tickets by (simp add: tickets_ok_def)
  then have "count (mset (removed_tickets (value_log s))) tk \<le> count (mset (removed_tickets (alloc_log s))) tk" for tk
    by simp
  moreover have "count (mset (removed_tickets (alloc_log s))) tk \<le> 1" for tk
    using ring_conc_order(2) [OF conc] by (simp add: distinct_count_atmost_1)
  ultimately show "distinct (removed_tickets (value_log s))"
    unfolding distinct_count_atmost_1_le by (meson le_trans)
  have "sorted_wrt (<) (map fst (stored_by p (value_log s)))"
    using tickets ring_conc_sorted(1) [OF conc, of p] by (simp add: tickets_ok_def)
  moreover have "sorted_wrt (<) (map fst (removed_by t (value_log s)))"
  proof -
    have "map fst (removed_by t (alloc_log s)) = map fst (removed_by t (value_log s))
        @ (case fetched (queue_pcs s t) of None \<Rightarrow> [] | Some (tk, i) \<Rightarrow> [tk])"
      using tickets unfolding tickets_ok_def by blast
    with ring_conc_sorted(2) [OF conc, of t] show ?thesis by (simp add: sorted_wrt_append)
  qed
  ultimately show "subseq (filter (\<lambda>e. e \<in> set (stored_by p (value_log s))) (removed_by t (value_log s)))
      (stored_by p (value_log s))"
    by (intro ascending_subseq) (auto simp: sorted_wrt_map sorted_wrt_filter)
qed

end
