(* ===== verification/BoundedConcCount.thy ===== *)
theory BoundedConcCount
  imports BoundedConcStep
begin

text \<open>
  The counter \<open>used\<close> of the concurrent bounded queue. It runs ahead of the allocation ring for an enqueuer
  and behind it for a dequeuer: it is the number of indices in that ring and of the threads that
  have counted a value that is not in it yet, or no longer. So the counter never drifts, and at rest it is
  the number of values.
\<close>

section \<open>The operations the counter counts\<close>

fun in_used :: "'a queue_pc \<Rightarrow> nat" where
  "in_used (QFull x) = 1"
| "in_used (QFree x sz p) = 1"
| "in_used (QWrite x sz pos) = 1"
| "in_used (QAlloc x sz pos p) = (if storing p = None then 0 else 1)"
| "in_used (QUndoUsed pos) = 1"
| "in_used (QUsed tk pos) = 1"
| "in_used _ = 0"

definition counted_ops :: "'a queue_sys \<Rightarrow> nat" where
  "counted_ops s = (\<Sum>t<threads s. in_used (queue_pcs s t))"

definition count_ok :: "'a queue_sys \<Rightarrow> bool" where
  "count_ok s \<longleftrightarrow> used (the_queue s) = of_nat (length (ring_indices (alloc_queue (the_queue s))) + counted_ops s)"

lemma in_used_le_1: "in_used p \<le> 1"
  by (cases p) auto

lemma counted_ops_le: "counted_ops s \<le> threads s"
proof -
  have "counted_ops s \<le> (\<Sum>t<threads s. 1)"
    unfolding counted_ops_def by (intro sum_mono in_used_le_1)
  then show ?thesis by simp
qed

lemma in_used_rest: "queue_at_rest p \<Longrightarrow> in_used p = 0"
  by (cases p) auto

lemma moved_counted: "moved t p' s s' \<Longrightarrow> counted_ops s' + in_used (queue_pcs s t) = counted_ops s + in_used p'"
  using sum_fun_upd [of t "threads s" in_used "queue_pcs s" p'] by (simp add: counted_ops_def moved_def)

section \<open>Every step keeps the count\<close>

text \<open>A step that does not change the allocation ring moves the counter with its thread.\<close>

lemma count_local:
  assumes ok: "count_ok s" and mv: "moved t p' s s'"
    and ring: "ring_indices (alloc_queue (the_queue s')) = ring_indices (alloc_queue (the_queue s))"
    and used: "used (the_queue s') + of_nat (in_used (queue_pcs s t)) = used (the_queue s) + of_nat (in_used p')"
  shows "count_ok s'"
proof -
  have "(of_nat (counted_ops s' + in_used (queue_pcs s t)) :: usize) = of_nat (counted_ops s + in_used p')"
    by (simp only: moved_counted [OF mv])
  then have "used (the_queue s') + of_nat (in_used (queue_pcs s t)) + of_nat (counted_ops s)
      = of_nat (length (ring_indices (alloc_queue (the_queue s'))) + counted_ops s') + of_nat (in_used (queue_pcs s t)) + of_nat (counted_ops s)"
    using ok unfolding count_ok_def used ring by (simp add: ac_simps)
  then show ?thesis unfolding count_ok_def by simp
qed

text \<open>A step inside the allocation ring moves an index between the ring and its thread.\<close>

lemma count_exchange:
  fixes s s' :: "'a queue_sys"
  assumes ok: "count_ok s" and mv: "moved t p' s s'"
    and core: "queue_core N ha hf as fs s" "queue_core N' ha hf as fs s'"
    and same: "free_queue (the_queue s') = free_queue (the_queue s)" "used (the_queue s') = used (the_queue s)"
    and held: "in_used p' = size (held p')" "in_used (queue_pcs s t) = size (held (queue_pcs s t))"
  shows "count_ok s'"
proof -
  have "places s' = places s" using core same(1) by (simp add: queue_core_def bq_cap_def)
  then have "size (places s') = size (places s)" by simp
  moreover have "size (total held s') + size (held (queue_pcs s t)) = size (total held s) + size (held p')"
    using arg_cong [OF moved_total [OF mv, of held], of size] by simp
  ultimately have "length (ring_indices (alloc_queue (the_queue s'))) + counted_ops s'
      = length (ring_indices (alloc_queue (the_queue s))) + counted_ops s"
    using moved_counted [OF mv] held unfolding places_def same(1) by simp
  then show ?thesis using ok same(2) by (simp add: count_ok_def)
qed

lemma in_used_alloc: "in_used (after_alloc fin c x sz pos p) = size (held (after_alloc fin c x sz pos p))"
  by (cases p) (auto simp: after_alloc_def unstored_def split: sum.splits)

lemma in_used_write: "in_used (after_alloc fin c x sz pos (enqueue_call i r)) = 1"
  by (simp add: enqueue_call_def after_alloc_def)

lemma after_take_used: "in_used (after_take p p') = size (held (after_take p p'))"
  by (cases p') (auto simp: after_take_def split: option.splits)

lemma in_used_after_free: "after_free x sz p \<noteq> QPanic \<Longrightarrow> in_used (after_free x sz p) = 1"
  by (cases "(x, sz, p)" rule: after_free.cases) simp_all

lemma in_used_after_undo: "in_used (after_undo x pos p) = 0"
  by (cases "(x, pos, p)" rule: after_undo.cases) simp_all

lemma in_used_after_give: "in_used (after_give x pos p) = 0"
  by (cases "(x, pos, p)" rule: after_give.cases) simp_all


text \<open>The steps that access no ring.\<close>

lemma count_goto:
  assumes "count_ok s" "t < threads s" "ring_indices (alloc_queue q') = ring_indices (alloc_queue (the_queue s))"
    and "used q' + of_nat (in_used (queue_pcs s t)) = used (the_queue s) + of_nat (in_used p')"
  shows "count_ok (goto t p' (set_queue q' (s\<lparr>value_log := vl\<rparr>)))"
  by (rule count_local [OF assms(1) moved_goto [OF assms(2)]]) (simp_all add: goto_fields assms)

lemma count_goto_same:
  assumes "count_ok s" "t < threads s" "ring_indices (alloc_queue q') = ring_indices (alloc_queue (the_queue s))"
    and "used q' + of_nat (in_used (queue_pcs s t)) = used (the_queue s) + of_nat (in_used p')"
  shows "count_ok (goto t p' (set_queue q' s))"
  using count_goto [OF assms, of "value_log s"] by simp

lemma slot_fields:
  "write_slot pos x q = Some (Ret q') \<Longrightarrow> used q' = used q \<and> alloc_queue q' = alloc_queue q"
  "read_slot pos q = Some (Ret (y, q')) \<Longrightarrow> used q' = used q \<and> alloc_queue q' = alloc_queue q"
  by (auto simp: write_slot_def read_slot_def Let_def split: if_splits option.splits)

lemma slot_outcome_count:
  assumes "slot_outcome t m f s = s'" "\<And>b. m = Some (Ret b) \<Longrightarrow> count_ok (f b)"
    and "queue_pcs s' t \<noteq> QPanic" "queue_pcs s' t \<noteq> QUndefined"
  shows "count_ok s'"
  using assms by (auto simp: slot_outcome_def goto_def split: option.splits exec.splits)

lemma free_counts:
  fixes s :: "'a queue_sys"
  assumes ok: "queue_ok N ha hf as fs vs s" and N: "Suc N < 2 ^ 62" and t: "t < threads s" and c: "count_ok s"
    and eq: "queue_step t s = free_access t p f s"
    and f: "\<And>p'. f p' \<noteq> QPanic \<Longrightarrow> in_used (f p') = in_used (queue_pcs s t)"
  shows "count_ok (queue_step t s)"
proof -
  obtain p' r where step: "ring_step p (free_queue (the_queue s)) = (p', r)" by fastforce
  note mv = free_access_fields(1) [where f = f, OF step t]
  have "queue_pcs (queue_step t s) t \<noteq> QPanic"
    using ok_no_panic [OF queue_step_ok [OF ok N t]] by blast
  then have "f p' \<noteq> QPanic" using mv by (simp add: eq moved_def)
  then show ?thesis
    unfolding eq using f step by (intro count_local [OF c mv]) (simp_all add: free_access_def goto_fields Let_def)
qed

lemma alloc_counts:
  fixes s :: "'a queue_sys"
  assumes ok: "queue_ok N ha hf as fs vs s" and N: "Suc N < 2 ^ 62" and t: "t < threads s" and c: "count_ok s"
    and eq: "queue_step t s = alloc_access t p v f s" and p: "in_used (queue_pcs s t) = size (held (queue_pcs s t))"
    and f: "\<And>p'. in_used (f p') = size (held (f p'))"
  shows "count_ok (queue_step t s)"
proof -
  obtain p' r where step: "ring_step p (alloc_queue (the_queue s)) = (p', r)" by fastforce
  note mv = alloc_access_fields(1) [where f = f, OF step t, of v]
  have same: "free_queue (the_queue (queue_step t s)) = free_queue (the_queue s)"
      "used (the_queue (queue_step t s)) = used (the_queue s)"
    using step by (simp_all add: eq alloc_access_def goto_fields Let_def)
  show ?thesis
    by (rule count_exchange [OF c mv [folded eq] ok_parts(1) [OF ok] ok_parts(1) [OF queue_step_ok [OF ok N t]] same f p])
qed

theorem step_counts:
  fixes s :: "'a queue_sys"
  assumes ok: "queue_ok N ha hf as fs vs s" and N: "Suc N < 2 ^ 62" and t: "t < threads s" and c: "count_ok s"
  shows "count_ok (queue_step t s)"
proof -
  note no_panic = ok_no_panic [OF queue_step_ok [OF ok N t], of t]
  note goto = count_goto_same [OF c t] and goto_read = count_goto [OF c t]
  show ?thesis
  proof (cases "queue_pcs s t")
    case (QCount x)
    then show ?thesis using goto by (simp add: queue_step_def Let_def)
  next
    case (QFree x sz p)
    then show ?thesis
      by (intro free_counts [OF ok N t c]) (auto simp: queue_step_def Let_def in_used_after_free)
  next
    case (QUndoFree x pos p)
    then show ?thesis
      by (intro free_counts [OF ok N t c]) (auto simp: queue_step_def Let_def in_used_after_undo)
  next
    case (QGive x pos p)
    then show ?thesis
      by (intro free_counts [OF ok N t c]) (auto simp: queue_step_def Let_def in_used_after_give)
  next
    case (QAlloc x sz pos p)
    then show ?thesis
      by (intro alloc_counts [OF ok N t c]) (auto simp: queue_step_def Let_def in_used_alloc unstored_def)
  next
    case (QTake p)
    then show ?thesis
      by (intro alloc_counts [OF ok N t c]) (auto simp: queue_step_def Let_def after_take_used)
  next
    case (QWrite x sz pos)
    then have eq: "slot_outcome t (write_slot pos x (the_queue s)) (\<lambda>q'. goto t
        (after_alloc (sealing s) (ring_capacity (free_queue q')) x sz pos (enqueue_call pos (alloc_queue q')))
        (set_queue q' s)) s = queue_step t s"
      by (simp add: queue_step_def Let_def)
    show ?thesis
      by (rule slot_outcome_count [OF eq _ conjunct1 [OF no_panic] conjunct2 [OF no_panic]])
        (use QWrite in \<open>auto intro!: goto simp: in_used_write dest!: slot_fields(1)\<close>)
  next
    case (QUndoRead pos)
    then have eq: "slot_outcome t (read_slot pos (the_queue s)) (\<lambda>(x, q'). goto t
        (after_undo x pos (enqueue_call pos (free_queue q'))) (set_queue q' s)) s = queue_step t s"
      by (simp add: queue_step_def Let_def)
    show ?thesis
      by (rule slot_outcome_count [OF eq _ conjunct1 [OF no_panic] conjunct2 [OF no_panic]])
        (use QUndoRead in \<open>auto intro!: goto simp: in_used_after_undo dest!: slot_fields(2)\<close>)
  next
    case (QRead tk pos)
    then have eq: "slot_outcome t (read_slot pos (the_queue s)) (\<lambda>(x, q'). goto t
        (after_give x pos (enqueue_call pos (free_queue q')))
        (set_queue q' (s\<lparr>value_log := value_log s @ [Removed t tk x]\<rparr>))) s = queue_step t s"
      by (simp add: queue_step_def Let_def)
    show ?thesis
      by (rule slot_outcome_count [OF eq _ conjunct1 [OF no_panic] conjunct2 [OF no_panic]])
        (use QRead in \<open>auto intro!: goto_read simp: in_used_after_give dest!: slot_fields(2)\<close>)
  qed (use goto c in \<open>simp_all add: queue_step_def Let_def finalize_fields\<close>)
qed

lemma queue_step_threads: "threads (queue_step t s) = threads s"
  by (cases "queue_pcs s t") (auto simp: queue_step_def Let_def goto_def set_queue_def free_access_def alloc_access_def
      slot_outcome_def split: option.splits exec.splits prod.splits)

section \<open>Every run keeps the count\<close>

lemma call_counts:
  assumes "count_ok s" "t < threads s" "queue_at_rest (queue_pcs s t)" "in_used p' = 0"
  shows "count_ok (goto t p' s)"
  using count_goto_same [OF assms(1,2), of "the_queue s" p'] assms(3,4) by (simp add: in_used_rest set_queue_def)

theorem run_counts:
  fixes s :: "'a queue_sys"
  assumes "queue_sys_run ls s = Some s'" "queue_ok N ha hf as fs vs s" "N + length ls < 2 ^ 62" "count_ok s"
  shows "count_ok s' \<and> threads s' = threads s"
  using assms
proof (induction ls arbitrary: s N)
  case (Cons l ls)
  then obtain s1 where s1: "queue_sys_step l s = Some s1" "queue_sys_run ls s1 = Some s'"
    by (auto split: option.splits)
  have one: "queue_sys_run [l] s = Some s1" using s1(1) by simp
  have N: "Suc N < 2 ^ 62" using Cons.prems(3) by simp
  have ok: "queue_ok (Suc N) ha hf as fs vs s1"
    using queue_run_ok [OF one Cons.prems(2)] N by simp
  have "count_ok s1"
    using s1(1) Cons.prems(4) call_counts [of s] step_counts [OF Cons.prems(2) N]
    by (cases l) (auto split: if_splits)
  moreover have "threads s1 = threads s"
    using s1(1) by (cases l) (auto simp: goto_def queue_step_threads split: if_splits)
  ultimately show ?case using Cons.IH [OF s1(2) ok] Cons.prems(3) by simp
qed simp

end
