(* ===== verification/BoundedConcProperties.thy ===== *)
theory BoundedConcProperties
  imports BoundedConcCount BoundedFifo ScqConcProperties
begin

text \<open>
  The properties of the bounded queue of \<open>src/scq.rs\<close> when any number of threads enqueue and dequeue at
  once. In the schedule of the witnesses a producer stalls between its two ring operations, another one
  overtakes it, and a consumer dequeues before the first one is done.
\<close>

definition stall_queue :: "nat bounded_queue" where
  "stall_queue = (case new_alloc 0 2 [] [] of Ret q \<Rightarrow> q)"

definition stall_schedule :: "nat queue_label list" where
  "stall_schedule = CallEnqueue 0 7 # replicate 5 (QStep 0) @ CallEnqueue 1 8 # replicate 12 (QStep 1)
     @ CallDequeue 2 # replicate 6 (QStep 2) @ replicate 7 (QStep 0) @ replicate 6 (QStep 2)"

text \<open>Both producers have an index of the free ring and are about to write.\<close>

definition both_write :: "nat queue_label list" where
  "both_write = CallEnqueue 0 7 # replicate 5 (QStep 0) @ CallEnqueue 1 8 # replicate 5 (QStep 1)"

lemma stall_run:
  "map_option (\<lambda>s. (queue_pcs s 0, queue_pcs s 2, value_log s, ring_indices (alloc_queue (the_queue s))))
     (queue_sys_run stall_schedule (queue_start False 3 stall_queue))
   = Some (QEnqDone (Inr ()), QDeqDone (Some 8), [Stored 1 0 8, Removed 2 0 8, Stored 0 1 7], [0])"
  by code_simp

lemma both_write_run:
  "map_option (\<lambda>s. (threads s, queue_pcs s 0, queue_pcs s 1)) (queue_sys_run both_write (queue_start False 3 stall_queue))
   = Some (3, QWrite 7 0 0, QWrite 8 1 1)"
  by code_simp

lemma stall_start: "bq_rep 2 stall_queue []"
proof -
  obtain q :: "nat bounded_queue" where "new_alloc 0 (2 ^ 1) [] [] = Ret q" "bq_rep 2 q []"
    using new_alloc_rep [of 1 0 "[]" "[]"] by auto
  then show ?thesis by (simp add: stall_queue_def)
qed

lemma queue_run_state:
  assumes "bq_rep c q vs" "queue_sys_run ls (queue_start fin m q) = Some s" "c + length ls < 2 ^ 62"
  shows "\<exists>hf as fs. queue_ok (c + length ls) (unat (head (alloc_queue q))) hf as fs vs s"
proof -
  obtain as fs where "bq_inv c q as fs vs" using assms(1) by (auto simp: bq_rep_def)
  from queue_run_ok [OF assms(2) queue_start_ok [OF this] assms(3)] show ?thesis by blast
qed

text \<open>
  C6. Whatever the interleaving of any number of threads inside \<open>enqueue_cycle\<close> and \<open>dequeue\<close>, one
  atomic access or one slot access at a time, no thread panics and none reads an uninitialised slot or
  one out of range. The index a thread works with is in range, in neither ring and in the hands of no
  other thread: each slot is accessed by one thread at a time, so the unsynchronised accesses of
  \<open>backing\<close> never race. The slot of every index in the allocation ring is initialised.
\<close>

theorem bounded_concurrent_safe:
  assumes "bq_rep c q vs" "queue_sys_run ls (queue_start fin m q) = Some s" "c + length ls < 2 ^ 62"
  shows "(\<forall>t. queue_pcs s t \<noteq> QPanic \<and> queue_pcs s t \<noteq> QUndefined)
    \<and> (\<forall>t<threads s. \<forall>i\<in>#held (queue_pcs s t). unat i < length (backing (the_queue s))
          \<and> i \<notin> set (ring_indices (alloc_queue (the_queue s))) \<and> i \<notin> set (ring_indices (free_queue (the_queue s)))
          \<and> (\<forall>u<threads s. u \<noteq> t \<longrightarrow> i \<notin># held (queue_pcs s u)))
    \<and> (\<forall>i\<in>set (ring_indices (alloc_queue (the_queue s))). backing (the_queue s) ! unat i \<noteq> None)"
proof -
  obtain hf as fs where ok: "queue_ok (c + length ls) (unat (head (alloc_queue q))) hf as fs vs s"
    using queue_run_state [OF assms] by blast
  note parts = ok_parts [OF ok]
  have "unat i < length (backing (the_queue s)) \<and> i \<notin> set (ring_indices (alloc_queue (the_queue s)))
      \<and> i \<notin> set (ring_indices (free_queue (the_queue s))) \<and> (\<forall>u<threads s. u \<noteq> t \<longrightarrow> i \<notin># held (queue_pcs s u))"
    if "t < threads s" "i \<in># held (queue_pcs s t)" for t i
    using held_index [OF parts(1) that] parts(9) by simp
  moreover have "backing (the_queue s) ! unat i \<noteq> None" if "i \<in> set (ring_indices (alloc_queue (the_queue s)))" for i
    using parts(2) that unfolding slots_ok_def stocked_member by simp
  ultimately show ?thesis using ok_no_panic [OF ok] by blast
qed

theorem bounded_concurrent_safe_witness:
  "\<exists>s. queue_sys_run both_write (queue_start False 3 stall_queue) = Some s
     \<and> queue_pcs s 0 = QWrite 7 0 0 \<and> queue_pcs s 1 = QWrite 8 1 1
     \<and> 0 \<notin># held (queue_pcs s 1) \<and> 0 \<notin> set (ring_indices (free_queue (the_queue s)))"
proof -
  obtain s where s: "queue_sys_run both_write (queue_start False 3 stall_queue) = Some s"
      "threads s = 3" "queue_pcs s 0 = QWrite 7 0 0" "queue_pcs s 1 = QWrite 8 1 1"
    using both_write_run by auto
  have "2 + length both_write < 2 ^ 62" by (simp add: both_write_def)
  from bounded_concurrent_safe [OF stall_start s(1) this]
  have "\<forall>t<threads s. \<forall>i\<in>#held (queue_pcs s t). i \<notin> set (ring_indices (free_queue (the_queue s)))
      \<and> (\<forall>u<threads s. u \<noteq> t \<longrightarrow> i \<notin># held (queue_pcs s u))"
    by blast
  moreover have "0 < threads s" "1 < threads s" "0 \<in># held (queue_pcs s 0)" by (simp_all add: s(2,3))
  ultimately have "0 \<notin># held (queue_pcs s 1)" "0 \<notin> set (ring_indices (free_queue (the_queue s)))"
    by (metis zero_neq_one)+
  with s show ?thesis by blast
qed

text \<open>
  C4. The bounded queue under concurrency is a queue: the values it held and those enqueued are the
  values dequeued and those in it now; no two operations share a ticket; a value is dequeued under the
  ticket it was enqueued under; the values a consumer gets from a producer come in the order in which
  the producer enqueued them; and what a dequeue returns is the last value it logged.
\<close>

theorem bounded_concurrent_fifo:
  assumes "bq_rep c q vs" "queue_sys_run ls (queue_start fin m q) = Some s" "c + length ls < 2 ^ 62"
  shows "mset vs + stored_items (value_log s) = removed_items (value_log s) + queue_values s
    \<and> distinct (stored_tickets (value_log s)) \<and> distinct (removed_tickets (value_log s))
    \<and> (\<forall>t tk v. (tk, v) \<in> set (removed_by t (value_log s)) \<longrightarrow>
         start_puts (unat (head (alloc_queue q))) vs tk = Some v \<or> (\<exists>p. (tk, v) \<in> set (stored_by p (value_log s))))
    \<and> (\<forall>p t. subseq (filter (\<lambda>e. e \<in> set (stored_by p (value_log s))) (removed_by t (value_log s)))
              (stored_by p (value_log s)))
    \<and> (\<forall>t v. queue_pcs s t = QDeqDone (Some v) \<longrightarrow> (\<exists>es tk. removed_by t (value_log s) = es @ [(tk, v)]))"
proof -
  let ?ha = "unat (head (alloc_queue q))"
  obtain hf as fs where ok: "queue_ok (c + length ls) ?ha hf as fs vs s"
    using queue_run_state [OF assms] by blast
  have hist: "slot_history (start_puts ?ha as) (start_puts ?ha vs) s" and val: "values_ok (mset vs) s"
    using ok by (simp_all add: queue_ok_def)
  have "start_puts ?ha vs tk = Some v \<or> (\<exists>p. (tk, v) \<in> set (stored_by p (value_log s)))"
    if "(tk, v) \<in> set (removed_by t (value_log s))" for t tk v
    using hist that unfolding slot_history_def put_under_def set_log by blast
  moreover have "\<exists>es tk. removed_by t (value_log s) = es @ [(tk, v)]" if "queue_pcs s t = QDeqDone (Some v)" for t v
    using hist that unfolding slot_history_def by fastforce
  ultimately show ?thesis
    using val unfolding values_ok_def by (intro conjI allI value_order [OF ok]) simp_all
qed

theorem bounded_concurrent_fifo_witness:
  "\<exists>s. queue_sys_run stall_schedule (queue_start False 3 stall_queue) = Some s
     \<and> queue_pcs s 2 = QDeqDone (Some 8) \<and> removed_by 2 (value_log s) = [(0, 8)]
     \<and> (\<exists>p. (0, 8) \<in> set (stored_by p (value_log s))) \<and> queue_values s = {#7#}"
proof -
  obtain s where s: "queue_sys_run stall_schedule (queue_start False 3 stall_queue) = Some s"
      "queue_pcs s 2 = QDeqDone (Some 8)" "value_log s = [Stored 1 0 8, Removed 2 0 8, Stored 0 1 7]"
    using stall_run by auto
  have "2 + length stall_schedule < 2 ^ 62" by (simp add: stall_schedule_def)
  note fifo = bounded_concurrent_fifo [OF stall_start s(1) this]
  have "mset [] + stored_items (value_log s) = removed_items (value_log s) + queue_values s" using fifo by blast
  then have "queue_values s = {#7#}" using s(3) by simp
  moreover have "(0, 8) \<in> set (removed_by 2 (value_log s))" using s(3) by simp
  then have "start_puts (unat (head (alloc_queue stall_queue))) [] 0 = Some (8 :: nat)
      \<or> (\<exists>p. (0, 8) \<in> set (stored_by p (value_log s)))"
    using fifo by blast
  ultimately show ?thesis using s by simp
qed

section \<open>The counter\<close>

lemma queue_count_state:
  assumes "bq_rep c q vs" "queue_sys_run ls (queue_start fin m q) = Some s" "c + length ls < 2 ^ 62"
  shows "count_ok s \<and> threads s = m"
proof -
  obtain as fs where inv: "bq_inv c q as fs vs" using assms(1) by (auto simp: bq_rep_def)
  have "counted_ops (queue_start fin m q) = 0" by (simp add: counted_ops_def queue_start_def)
  moreover have "ring_conc c (start_puts (unat (head (alloc_queue q))) as) (mset as) (alloc_queue q) (\<lambda>_. RingIdle) []"
    using inv ring_conc_start by (auto simp: bq_inv_def)
  from ring_conc_indices [OF this] have "length (ring_indices (alloc_queue q)) = length as"
    by (simp flip: size_mset)
  moreover have "unat (used q) = length as" using inv unfolding bq_inv_def by blast
  then have "used q = of_nat (length as)" by (metis of_nat_unat ucast_id)
  ultimately have "count_ok (queue_start fin m q)" by (simp add: count_ok_def queue_start_def)
  from run_counts [OF assms(2) queue_start_ok [OF inv] assms(3) this] show ?thesis by (simp add: queue_start_def)
qed

lemma idle_run: "map_option (\<lambda>s. (queue_pcs s 2, ring_indices (alloc_queue (the_queue s))))
    (queue_sys_run both_write (queue_start False 3 stall_queue)) = Some (QIdle, [])"
  by code_simp

text \<open>
  C9. The counter \<open>used\<close> under concurrency. It is the number of indices in the allocation ring and of the
  operations that have counted a value which is not in it yet, or no longer; so it never exceeds the capacity
  by more than the number of threads (and never wraps), at rest it is the number of values, and an
  enqueue that answers \<open>QueueFull\<close> by the counter found at least as many values and operations as the queue
  has places.
\<close>

theorem bounded_concurrent_count:
  assumes "bq_rep c q vs" "queue_sys_run ls (queue_start fin m q) = Some s" "c + length ls < 2 ^ 62" "m < 2 ^ 62"
  shows "unat (used (the_queue s)) = length (ring_indices (alloc_queue (the_queue s))) + counted_ops s
    \<and> unat (used (the_queue s)) \<le> bq_cap (the_queue s) + m
    \<and> ((\<forall>t. queue_at_rest (queue_pcs s t)) \<longrightarrow> unat (used (the_queue s)) = size (queue_values s))
    \<and> (\<forall>t x. queue_pcs s t = QCount x \<longrightarrow> queue_pcs (queue_step t s) t = QFull x \<longrightarrow>
          bq_cap (the_queue s) \<le> length (ring_indices (alloc_queue (the_queue s))) + counted_ops s)"
proof -
  let ?L = "length (ring_indices (alloc_queue (the_queue s)))"
  obtain hf as fs where ok: "queue_ok (c + length ls) (unat (head (alloc_queue q))) hf as fs vs s"
    using queue_run_state [OF assms(1-3)] by blast
  note parts = ok_parts [OF ok]
  have count: "used (the_queue s) = of_nat (?L + counted_ops s)" and m: "threads s = m"
    using queue_count_state [OF assms(1-3)] by (simp_all add: count_ok_def)
  have cap: "bq_cap (the_queue s) \<le> 2 ^ 60" unfolding bq_cap_def by (rule ring_wf_half [OF parts(8)])
  have "size (places s) = bq_cap (the_queue s)" using parts(1) by (simp add: queue_core_def all_indices_def)
  then have "?L \<le> bq_cap (the_queue s)" by (simp add: places_def)
  moreover have C: "counted_ops s \<le> m" using counted_ops_le [of s] m by simp
  ultimately have exact: "unat (used (the_queue s)) = ?L + counted_ops s"
    unfolding count using cap assms(4) by (intro unat_of_nat_small) simp
  moreover have "size (queue_values s) = ?L \<and> counted_ops s = 0" if "\<forall>t. queue_at_rest (queue_pcs s t)"
  proof -
    have "fetched_items (queue_pcs s t) = {#}" for t
      using that [rule_format, of t] by (cases "queue_pcs s t") (simp_all add: fetched_items_def)
    then show ?thesis using that by (simp add: queue_values_def total_def counted_ops_def in_used_rest)
  qed
  moreover have "bq_cap (the_queue s) \<le> unat (used (the_queue s))"
    if "queue_pcs s t = QCount x" "queue_pcs (queue_step t s) t = QFull x" for t x
    using that ring_words(4) [OF parts(8)]
    by (simp add: queue_step_def goto_def Let_def word_le_nat_alt bq_cap_def split: if_splits)
  ultimately show ?thesis using \<open>?L \<le> bq_cap (the_queue s)\<close> C by auto
qed

theorem bounded_concurrent_count_witness:
  "\<exists>s. queue_sys_run both_write (queue_start False 3 stall_queue) = Some s
     \<and> unat (used (the_queue s)) = 2 \<and> ring_indices (alloc_queue (the_queue s)) = []"
proof -
  obtain s where s: "queue_sys_run both_write (queue_start False 3 stall_queue) = Some s"
      "threads s = 3" "queue_pcs s 0 = QWrite 7 0 0" "queue_pcs s 1 = QWrite 8 1 1"
      "queue_pcs s 2 = QIdle" "ring_indices (alloc_queue (the_queue s)) = []"
    using both_write_run idle_run by auto
  have "counted_ops s = 2"
    using s(3-5) by (simp add: counted_ops_def s(2) eval_nat_numeral)
  moreover have "2 + length both_write < 2 ^ 62" by (simp add: both_write_def)
  from bounded_concurrent_count [OF stall_start s(1) this] have "unat (used (the_queue s))
      = length (ring_indices (alloc_queue (the_queue s))) + counted_ops s" by simp
  ultimately show ?thesis using s(1,6) by simp
qed

end
