(* ===== verification/SingleProgress.thy ===== *)
theory SingleProgress
  imports SingleProperties
begin

text \<open>
  Progress of \<open>SingleSize\<close> (\<open>src/single.rs\<close>): neither operation loops or waits. A run that follows one
  operation of a thread counts the steps of that thread, while the others do what they like.
\<close>

section \<open>The steps an operation has left\<close>

text \<open>At most the load, the exchange, the plain access and the final store; a result or no operation: none.\<close>

fun steps_left :: "'a pc \<Rightarrow> nat" where
  "steps_left (EnqLoad v) = 4" | "steps_left (EnqExchange v) = 3"
| "steps_left (EnqWrite v) = 2" | "steps_left (EnqStore v) = 1"
| "steps_left DeqLoad = 4" | "steps_left DeqExchange = 3"
| "steps_left DeqRead = 2" | "steps_left (DeqStore v) = 1"
| "steps_left _ = 0"

inductive op_run :: "memory_order \<Rightarrow> nat \<Rightarrow> nat \<Rightarrow> 'a single_sys \<Rightarrow> 'a single_sys \<Rightarrow> bool"
  for ord t where
  begins: "op_run ord t 0 s s"
| own: "op_run ord t k s s' \<Longrightarrow> 0 < steps_left (pcs s' t) \<Longrightarrow> single_step ord s' s'' \<Longrightarrow> pcs s'' t \<noteq> pcs s' t
    \<Longrightarrow> op_run ord t (Suc k) s s''"
| other: "op_run ord t k s s' \<Longrightarrow> single_step ord s' s'' \<Longrightarrow> pcs s'' t = pcs s' t \<Longrightarrow> op_run ord t k s s''"

lemma steps_left_decrease:
  assumes "single_step ord s s'" "0 < steps_left (pcs s t)" "pcs s' t \<noteq> pcs s t"
  shows "steps_left (pcs s' t) < steps_left (pcs s t)"
  using assms by (induction rule: single_step.induct) (auto simp: single_updates split: if_splits)

section \<open>No operation blocks\<close>

text \<open>There is always a fresh event for the next plain access.\<close>

lemma events_finite: "single_reachable ord s \<Longrightarrow> finite (reads s \<union> writes s)"
proof (induction rule: single_reachable.induct)
  case (step s s')
  then show ?case
    by (induction rule: single_step.induct [OF step.hyps(2)]) (simp_all add: single_updates)
qed (simp add: initial_sys_def)

lemma fresh_event: "single_reachable ord s \<Longrightarrow> \<exists>e. e \<notin> reads s \<union> writes s"
  using events_finite [of ord s] infinite_UNIV_nat by (metis ex_new_if_finite)

lemma operation_can_step:
  assumes reach: "single_reachable ord s" and p: "0 < steps_left (pcs s t)"
  shows "\<exists>s'. single_step ord s s' \<and> pcs s' t \<noteq> pcs s t"
proof -
  note inside = single_inv_at(1) [OF single_reachable_inv [OF reach], of t]
  obtain e where e: "e \<notin> reads s \<union> writes s" using fresh_event [OF reach] by blast
  show ?thesis
  proof (cases "pcs s t")
    case (EnqLoad v)
    then show ?thesis
      using single_step.enq_load_busy [of s t v ord] single_step.enq_load_empty [of s t v ord]
      by (cases "state (shared s) = EMPTY") fastforce+
  next
    case (EnqExchange v)
    then show ?thesis
      using single_step.enq_exchange_fails [of s t v ord] single_step.enq_exchange [of s t v ord]
      by (cases "state (shared s) = EMPTY") fastforce+
  next
    case (EnqWrite v)
    with single_step.enq_write [OF EnqWrite e] show ?thesis by fastforce
  next
    case (EnqStore v)
    with single_step.enq_store [OF EnqStore] show ?thesis by fastforce
  next
    case DeqLoad
    then show ?thesis
      using single_step.deq_load_not_ready [of s t ord] single_step.deq_load_ready [of s t ord]
      by (cases "state (shared s) = READY") fastforce+
  next
    case DeqExchange
    then show ?thesis
      using single_step.deq_exchange_fails [of s t ord] single_step.deq_exchange [of s t ord]
      by (cases "state (shared s) = READY") fastforce+
  next
    case DeqRead
    then obtain v where "payload (shared s) = Some v" using inside by auto
    from single_step.deq_read [OF DeqRead this e] DeqRead show ?thesis by fastforce
  next
    case (DeqStore v)
    with single_step.deq_store [OF DeqStore] show ?thesis by fastforce
  qed (use p in simp_all)
qed

lemma op_run_bound:
  assumes "op_run ord t k s s'"
  shows "k + steps_left (pcs s' t) \<le> steps_left (pcs s t)"
    and "single_reachable ord s \<Longrightarrow> single_reachable ord s'"
  using assms
proof (induction rule: op_run.induct)
  case (own k s s' s'')
  { case 1
    with own show ?case using steps_left_decrease [of ord s' s'' t] by fastforce
  next
    case 2
    with own show ?case by (blast intro: single_reachable.step)
  }
qed (auto intro: single_reachable.step)

text \<open>
  C24. \<open>SingleSize\<close> is wait-free: whatever the other threads do, and whatever they are stalled in, an
  operation of a thread is over after at most four steps of that thread, and while it is not over the
  thread has a next step that it can take at once.
\<close>

theorem single_wait_free:
  assumes "single_reachable ord s" "op_run ord t k s s'"
  shows "steps_left (pcs s t) \<le> 4 \<and> k + steps_left (pcs s' t) \<le> steps_left (pcs s t)
    \<and> (0 < steps_left (pcs s' t) \<longrightarrow>
        (\<exists>s''. single_step ord s' s'' \<and> steps_left (pcs s'' t) < steps_left (pcs s' t)))"
proof -
  have "steps_left (pcs s t) \<le> 4" by (cases "pcs s t") simp_all
  moreover note op_run_bound(1) [OF assms(2)]
  moreover have "\<exists>s''. single_step ord s' s'' \<and> steps_left (pcs s'' t) < steps_left (pcs s' t)"
    if "0 < steps_left (pcs s' t)"
    using operation_can_step [OF op_run_bound(2) [OF assms(2,1)] that] steps_left_decrease [OF _ that] by blast
  ultimately show ?thesis by blast
qed

text \<open>Thread 1 is inside its critical part; thread 3, which called \<open>dequeue\<close>, is done after one step.\<close>

theorem single_wait_free_witness:
  "\<exists>s s' :: usize single_sys. single_reachable Relaxed s \<and> critical (pcs s 1) \<and> pcs s 3 = DeqLoad
     \<and> op_run Relaxed 3 1 s s' \<and> pcs s' 3 = DeqDone None \<and> pcs s' 1 = pcs s 1
     \<and> 1 + steps_left (pcs s' 3) \<le> steps_left (pcs s 3)"
proof -
  let ?w = "sys_writing Relaxed 1 (5 :: usize) initial_sys"
  let ?s = "goto 3 DeqLoad ?w" and ?s' = "goto 3 (DeqDone None) ?w"
  have w: "single_reachable Relaxed ?w"
    by (rule reach_writing [OF single_reachable.initial]) (simp_all add: initial_sys_def single_new_def)
  have s: "single_reachable Relaxed ?s"
    by (rule single_reachable.step [OF w single_step.call_dequeue]) (simp add: sys_defs initial_sys_def)
  have "single_step Relaxed ?s (goto 3 (DeqDone None) ?s)"
    by (rule single_step.deq_load_not_ready) (simp_all add: sys_defs single_states)
  moreover have "goto 3 (DeqDone None) ?s = ?s'" by simp
  ultimately have step: "single_step Relaxed ?s ?s'" by simp
  have run: "op_run Relaxed 3 1 ?s ?s'"
    using op_run.own [OF op_run.begins _ step] by simp
  have "critical (pcs ?s 1)" "pcs ?s 3 = DeqLoad" "pcs ?s' 3 = DeqDone None" "pcs ?s' 1 = pcs ?s 1"
    by (simp_all add: sys_defs)
  with s run single_wait_free [OF s run] show ?thesis by blast
qed

end
