(* ===== verification/UnitTests.thy ===== *)
theory UnitTests
  imports Harness RingProperties
begin

text \<open>
  The other unit tests of \<open>src/scq.rs\<close> and \<open>src/lfstd.rs\<close> as programs over the model, a failed assertion or
  \<open>unwrap\<close> as \<open>Panic\<close>. Each is a list of calls with the results it asserts, or a chain of the loops of
  \<open>Harness\<close>. The ghost lists \<open>w\<close> let the weak exchanges fail in any pattern. \<open>println!\<close> is left out.
\<close>

section \<open>Tests of the bounded queue\<close>

abbreviation enq_ok :: "'a \<Rightarrow> 'a fifo_instr \<times> 'a fifo_out" where
  "enq_ok x \<equiv> (Enq x, EnqOut (Inr ()))"

abbreviation enq_err :: "'a \<Rightarrow> 'a fifo_instr \<times> 'a fifo_out" where
  "enq_err x \<equiv> (Enq x, EnqOut (Inl x))"

abbreviation deq_gives :: "'a option \<Rightarrow> 'a fifo_instr \<times> 'a fifo_out" where
  "deq_gives r \<equiv> (Deq, DeqOut r)"

definition run_bounded :: "'a bounded_queue exec \<Rightarrow> ('a fifo_instr \<times> 'a fifo_out) list \<Rightarrow> 'a bounded_queue run" where
  "run_bounded e cs = bind_run (Some e) (assert_calls bq_enqueue bq_dequeue cs)"

definition test_const_queue :: "bool list \<Rightarrow> bool list \<Rightarrow> usize bounded_queue run" where
  "test_const_queue w1 w2 = run_bounded (new_const 4 w1 w2) [enq_ok 1, enq_ok 2, enq_err 3]"

definition zst_calls :: "nat \<Rightarrow> (unit fifo_instr \<times> unit fifo_out) list" where
  "zst_calls n = map (\<lambda>_. enq_ok ()) [0..<n] @ [enq_err ()] @ map (\<lambda>_. deq_gives (Some ())) [0..<n] @ [deq_gives None]"

definition test_zst_const :: "bool list \<Rightarrow> bool list \<Rightarrow> unit bounded_queue run" where
  "test_zst_const w1 w2 =
     bind_run (Some (const_queue 4 w1 w2)) (\<lambda>q.
       if bq_capacity q = 4
       then assert_calls bq_enqueue bq_dequeue (zst_calls (unat (bq_capacity q)) @ [enq_ok ()]) q
       else Some Panic)"

definition test_zst_alloc :: "bool list \<Rightarrow> bool list \<Rightarrow> unit bounded_queue run" where
  "test_zst_alloc w1 w2 =
     bind_run (Some (new_alloc 0 4 w1 w2)) (\<lambda>q.
       if bq_capacity q = 4 then assert_calls bq_enqueue bq_dequeue (zst_calls (unat (bq_capacity q))) q
       else Some Panic)"

definition check_scq_fill :: "bool list \<Rightarrow> bool list \<Rightarrow> usize bounded_queue run" where
  "check_scq_fill w1 w2 = run_bounded (new_alloc 0 8 w1 w2) (map (\<lambda>i. enq_ok (of_nat i)) [0..<8] @ [enq_err 0])"

definition scqqueue_enq_deq :: "bool list \<Rightarrow> bool list \<Rightarrow> string bounded_queue run" where
  "scqqueue_enq_deq w1 w2 = run_bounded (new_alloc 0 8 w1 w2)
     [enq_ok ''A'', enq_ok ''B'', deq_gives (Some ''A''), deq_gives (Some ''B''), deq_gives None]"

definition test_lfring_ptrs_full :: "bool list \<Rightarrow> bool list \<Rightarrow> string bounded_queue run" where
  "test_lfring_ptrs_full w1 w2 =
     bind_run (Some (new_alloc 0 8 w1 w2)) (\<lambda>holder.
       assert_calls bq_enqueue bq_dequeue
         (map (\<lambda>_. enq_ok ''A'') [0..<unat (ring_capacity (alloc_queue holder))] @ [enq_err ''I'']) holder)"

definition cover_example :: "bool list \<Rightarrow> bool list \<Rightarrow> usize bounded_queue run" where
  "cover_example w1 w2 = run_bounded (new_alloc 0 1 w1 w2) [enq_ok 0, deq_gives (Some 0)]"

lemma bounded_calls_pass:
  assumes "fst (list_fifo (2 ^ k) (map fst cs) []) = map snd cs" "k \<le> 59" "length cs < 2 ^ 59"
  shows "\<exists>q q' :: 'a bounded_queue. new_alloc 0 (2 ^ k) w1 w2 = Ret q \<and> const_queue (2 ^ k) w1 w2 = Ret q
    \<and> new_const (2 ^ Suc k) w1 w2 = Ret q \<and> bq_capacity q = 2 ^ k \<and> ring_capacity (alloc_queue q) = 2 ^ k
    \<and> assert_calls bq_enqueue bq_dequeue cs q = ret q'"
proof -
  have k: "k \<le> 60" and "(2 :: nat) ^ k \<le> 2 ^ 59" using assms(2) by (simp, intro power_increasing) auto
  then have clock: "2 ^ k + length cs < (2 :: nat) ^ 62" using assms(3) by simp
  obtain q :: "'a bounded_queue" where q: "new_alloc 0 (2 ^ k) w1 w2 = Ret q" "const_queue (2 ^ k) w1 w2 = Ret q"
      "new_const (2 ^ Suc k) w1 w2 = Ret q" "bq_open_rep (2 ^ k) q []" "bq_cap q = 2 ^ k" "bq_capacity q = 2 ^ k"
    using fresh_bounded_queue [OF k] by blast
  obtain as fs where "bq_inv (2 ^ k) q as fs []" using q(4) by (auto simp: bq_open_rep_def bq_rep_def)
  then have "ring_half (alloc_queue q) = 2 ^ k" "ring_wf (alloc_queue q)"
    using q(5) by (auto simp: bq_inv_def ring_rep_def)
  then have "unat (ring_capacity (alloc_queue q)) = unat ((2 :: usize) ^ k)"
    using ring_words(4) [of "alloc_queue q"] k by (simp add: unat_two_power)
  then have "ring_capacity (alloc_queue q) = 2 ^ k" by (simp add: word_unat_eq_iff)
  moreover obtain q' where "assert_calls bq_enqueue bq_dequeue cs q = ret q'"
    using bq.assert_calls_ok [OF q(4) clock] assms(1) q(5) by auto
  ultimately show ?thesis using q by blast
qed

lemma bounded_tests_pass:
  "(\<exists>q. test_const_queue w1 w2 = ret q) \<and> (\<exists>q. test_zst_const w1 w2 = ret q) \<and> (\<exists>q. test_zst_alloc w1 w2 = ret q)
    \<and> (\<exists>q. check_scq_fill w1 w2 = ret q) \<and> (\<exists>q. scqqueue_enq_deq w1 w2 = ret q)
    \<and> (\<exists>q. test_lfring_ptrs_full w1 w2 = ret q) \<and> (\<exists>q. cover_example w1 w2 = ret q)"
proof -
  have "\<exists>q. test_const_queue w1 w2 = ret q"
    using bounded_calls_pass [of 1 "[enq_ok 1, enq_ok 2, enq_err (3 :: usize)]" w1 w2]
    by (auto simp: test_const_queue_def run_bounded_def simp del: assert_calls.simps)
  moreover have "\<exists>q. test_zst_const w1 w2 = ret q"
    using bounded_calls_pass [of 2 "zst_calls 4 @ [enq_ok ()]" w1 w2]
    by (auto simp: test_zst_const_def zst_calls_def upt_conv_Cons simp del: assert_calls.simps)
  moreover have "\<exists>q. test_zst_alloc w1 w2 = ret q"
    using bounded_calls_pass [of 2 "zst_calls 4" w1 w2]
    by (auto simp: test_zst_alloc_def zst_calls_def upt_conv_Cons simp del: assert_calls.simps)
  moreover have "\<exists>q. check_scq_fill w1 w2 = ret q"
    using bounded_calls_pass [of 3 "map (\<lambda>i. enq_ok (of_nat i)) [0..<8] @ [enq_err (0 :: usize)]" w1 w2]
    by (auto simp: check_scq_fill_def run_bounded_def upt_conv_Cons simp del: assert_calls.simps)
  moreover have "\<exists>q. scqqueue_enq_deq w1 w2 = ret q"
    using bounded_calls_pass [of 3 "[enq_ok ''A'', enq_ok ''B'', deq_gives (Some ''A''), deq_gives (Some ''B''), deq_gives None]" w1 w2]
    by (auto simp: scqqueue_enq_deq_def run_bounded_def simp del: assert_calls.simps)
  moreover have "\<exists>q. test_lfring_ptrs_full w1 w2 = ret q"
    using bounded_calls_pass [of 3 "map (\<lambda>_. enq_ok ''A'') [0..<8] @ [enq_err ''I'']" w1 w2]
    by (auto simp: test_lfring_ptrs_full_def upt_conv_Cons simp del: assert_calls.simps)
  moreover have "\<exists>q. cover_example w1 w2 = ret q"
    using bounded_calls_pass [of 0 "[enq_ok 0, deq_gives (Some (0 :: usize))]" w1 w2]
    by (auto simp: cover_example_def run_bounded_def simp del: assert_calls.simps)
  ultimately show ?thesis by blast
qed

text \<open>The tests that call \<open>check_queue\<close> for a list of sizes.\<close>

fun check_sizes :: "(usize \<Rightarrow> usize bounded_queue run) \<Rightarrow> usize list \<Rightarrow> unit run" where
  "check_sizes check [] = ret ()"
| "check_sizes check (sz # szs) = bind_run (check sz) (\<lambda>_. check_sizes check szs)"

definition test_init_const_queue :: "bool list \<Rightarrow> bool list \<Rightarrow> unit run" where
  "test_init_const_queue w1 w2 =
     bind_run (Some (const_queue 1 w1 w2)) (\<lambda>(q :: usize bounded_queue).
       if bq_capacity q = 1
       then check_sizes (\<lambda>sz. bind_run (Some (const_queue sz w1 w2)) (check_queue_const (sz * 2)))
              [1, 2, 4, 8, 16, 32, 64, 128]
       else Some Panic)"

definition test_init_alloc_queue :: "bool list \<Rightarrow> bool list \<Rightarrow> unit run" where
  "test_init_alloc_queue w1 w2 = check_sizes (\<lambda>sz. check_queue_alloc sz w1 w2) [1, 2, 4, 8, 16, 32, 64, 128]"

lemma check_sizes_pass: "(\<And>sz. sz \<in> set szs \<Longrightarrow> \<exists>q. check sz = ret q) \<Longrightarrow> check_sizes check szs = ret ()"
proof (induction szs)
  case (Cons sz szs)
  then obtain q where "check sz = ret q" by force
  with Cons show ?case by simp
qed simp

lemma check_queue_ok:
  assumes "k \<le> 59"
  shows "(\<exists>q q'. const_queue (2 ^ k) w1 w2 = Ret q \<and> check_queue_const (2 ^ Suc k) q = ret q')
    \<and> (\<exists>q'. check_queue_alloc (2 ^ k) w1 w2 = ret q')"
proof -
  have k: "k \<le> 60" using assms by simp
  have "(2 :: nat) ^ k \<le> 2 ^ 59" using assms by (intro power_increasing) auto
  then have clock: "2 ^ k + 4 * 2 ^ k < (2 :: nat) ^ 62" by simp
  have words: "drop_bit 1 ((2 :: usize) ^ Suc k) = 2 ^ k" "unat ((2 :: usize) ^ k) = 2 ^ k"
    using k drop_bit_two_power [of k] unat_two_power [of k] by auto
  obtain q :: "usize bounded_queue" where q: "new_alloc 0 (2 ^ k) w1 w2 = Ret q" "const_queue (2 ^ k) w1 w2 = Ret q"
      "bq_open_rep (2 ^ k) q []" "bq_cap q = 2 ^ k" "bq_capacity q = 2 ^ k"
    using fresh_bounded_queue [OF k] by blast
  obtain q' where "assert_calls bq_enqueue bq_dequeue (check_calls (2 ^ k)) q = ret q'"
    using bq.assert_calls_ok [OF q(3), of "check_calls (2 ^ k)"] clock q(4) by (auto simp: list_fifo_check_calls)
  then show ?thesis
    using q(1,2,5) words by (auto simp: check_queue_const_def check_queue_alloc_def simp del: power_Suc)
qed

lemma size_tests_pass: "test_init_const_queue w1 w2 = ret () \<and> test_init_alloc_queue w1 w2 = ret ()"
proof -
  have power: "\<exists>k\<le>59. sz = 2 ^ k" if "sz \<in> set [1, 2, 4, 8, 16, 32, 64, 128]" for sz :: usize
  proof -
    have "sz \<in> set (map ((^) 2) [0..<8])"
      using that by (simp add: upt_rec)
    then obtain k :: nat where "k < 8" "sz = 2 ^ k" by (auto simp only: set_map set_upt image_iff atLeastLessThan_iff)
    then show ?thesis by (intro exI [of _ k]) simp
  qed
  have c: "\<exists>q'. bind_run (Some (const_queue sz w1 w2)) (check_queue_const (sz * 2)) = ret q'"
    and a: "\<exists>q'. check_queue_alloc sz w1 w2 = ret q'"
    if mem: "sz \<in> set [1, 2, 4, 8, 16, 32, 64, 128]" for sz
  proof -
    obtain k where k: "k \<le> 59" "sz = 2 ^ k" using power [OF mem] by blast
    then have "sz * 2 = 2 ^ Suc k" by simp
    with check_queue_ok [OF k(1), of w1 w2] k(2)
    show "\<exists>q'. bind_run (Some (const_queue sz w1 w2)) (check_queue_const (sz * 2)) = ret q'"
      "\<exists>q'. check_queue_alloc sz w1 w2 = ret q'"
      by (auto simp del: power_Suc)
  qed
  obtain q :: "usize bounded_queue" where "const_queue 1 w1 w2 = Ret q" "bq_capacity q = 1"
    using fresh_bounded_queue [of 0 w1 w2] by auto
  moreover have "check_sizes (\<lambda>sz. bind_run (Some (const_queue sz w1 w2)) (check_queue_const (sz * 2)))
      [1, 2, 4, 8, 16, 32, 64, 128] = ret ()"
    by (rule check_sizes_pass, rule c)
  moreover have "check_sizes (\<lambda>sz. check_queue_alloc sz w1 w2) [1, 2, 4, 8, 16, 32, 64, 128] = ret ()"
    by (rule check_sizes_pass, rule a)
  ultimately show ?thesis
    by (simp add: test_init_const_queue_def test_init_alloc_queue_def del: check_sizes.simps)
qed

section \<open>Tests of the unbounded queues and the example of the README\<close>

definition test_zst_unbounded :: "(nat \<Rightarrow> bool list \<times> bool list) \<Rightarrow> unit unbounded_queue run" where
  "test_zst_unbounded w =
     bind_run (Some (unbounded_new w)) (\<lambda>q.
       bind_run (unbounded_enqueue q ()) (\<lambda>q1.
         bind_run (unbounded_dequeue q1) (\<lambda>(r1, q2).
           if r1 = Some ()
           then bind_run (unbounded_dequeue q2) (\<lambda>(r2, q3). if r2 = None then ret q3 else Some Panic)
           else Some Panic)))"

definition expect_len :: "usize \<Rightarrow> usize counted_queue \<Rightarrow> usize counted_queue run" where
  "expect_len n q = (if counted_len q = n then ret q else Some Panic)"

definition test_unbounded_queue_length :: "(nat \<Rightarrow> bool list \<times> bool list) \<Rightarrow> usize counted_queue run" where
  "test_unbounded_queue_length w =
     bind_run (Some (counted_new w)) (\<lambda>q.
       if counted_is_empty q
       then
         bind_run (counted_enqueue q 3) (\<lambda>q.
         bind_run (expect_len 1 q) (\<lambda>q.
         bind_run (counted_enqueue q 2) (\<lambda>q.
         bind_run (expect_len 2 q) (\<lambda>q.
         bind_run (counted_dequeue q) (\<lambda>(_, q).
         bind_run (expect_len 1 q) (\<lambda>q.
         bind_run (counted_dequeue q) (\<lambda>(_, q).
         expect_len 0 q)))))))
       else Some Panic)"

definition alloc_cover_example ::
  "bool list \<Rightarrow> bool list \<Rightarrow> (nat \<Rightarrow> bool list \<times> bool list) \<Rightarrow> usize single_size run"
where
  "alloc_cover_example w1 w2 w =
     bind_run (run_bounded (new_alloc 0 8 w1 w2) [enq_ok 0, deq_gives (Some (0 :: usize))]) (\<lambda>_.
     bind_run (Some (with_segment_size 8 w)) (\<lambda>queue.
     bind_run (unbounded_enqueue queue (0 :: usize)) (\<lambda>queue.
     bind_run (unbounded_dequeue queue) (\<lambda>(r, queue).
       if r = Some 0
       then bind_run (run_bounded (const_queue 8 w1 w2) [enq_ok 8, deq_gives (Some (8 :: usize))]) (\<lambda>_.
            assert_calls single_enqueue single_dequeue [enq_ok 8, deq_gives (Some 8)] single_new)
       else Some Panic))))"

lemma unbounded_put_take:
  fixes x :: 'a
  assumes "k \<le> 50"
  shows "\<exists>q q1 q2 q3. with_segment_size (2 ^ k) w = Ret q \<and> unbounded_enqueue q x = ret q1
    \<and> unbounded_dequeue q1 = ret (Some x, q2) \<and> unbounded_dequeue q2 = ret (None, q3)"
proof -
  obtain q :: "'a unbounded_queue" where q: "with_segment_size (2 ^ k) w = Ret q" "ub_rep (2 ^ k) q []"
      "base_segment_capacity q = 2 ^ k"
    using with_segment_size_rep [of k w] assms by auto
  have cost: "ub_cost q = 2 * 2 ^ k + 2"
    using q(3) assms by (simp add: ub_cost_def base_segment_capacity_def unat_two_power)
  have "(2 :: nat) ^ k \<le> 2 ^ 50" using assms by (intro power_increasing) auto
  then have c: "2 ^ k + ub_cost q < 2 ^ 62" "2 ^ k + ub_cost q + ub_cost q < 2 ^ 62"
      "2 ^ k + ub_cost q + ub_cost q + ub_cost q < 2 ^ 62"
    unfolding cost by simp_all
  obtain q1 where q1: "unbounded_enqueue q x = ret q1" "ub_rep (2 ^ k + ub_cost q) q1 [x]" "ub_cost q1 = ub_cost q"
    using ub.enq_ok [OF q(2) c(1), of x] by auto
  obtain q2 where q2: "unbounded_dequeue q1 = ret (Some x, q2)" "ub_rep (2 ^ k + ub_cost q + ub_cost q) q2 []"
      "ub_cost q2 = ub_cost q"
    using ub.deq_ok [OF q1(2)] c(2) q1(3) by auto
  obtain q3 where "unbounded_dequeue q2 = ret (None, q3)"
    using ub.deq_ok [OF q2(2)] c(3) q2(3) by auto
  with q q1 q2 show ?thesis by blast
qed

lemma counted_put_take:
  "\<exists>q q1 q2 q3 q4 r3 r4. counted_new w = Ret q \<and> counted_is_empty q
    \<and> counted_enqueue q (x :: usize) = ret q1 \<and> counted_len q1 = 1
    \<and> counted_enqueue q1 y = ret q2 \<and> counted_len q2 = 2
    \<and> counted_dequeue q2 = ret (r3, q3) \<and> counted_len q3 = 1
    \<and> counted_dequeue q3 = ret (r4, q4) \<and> counted_len q4 = 0"
proof -
  have len: "counted_len p = of_nat (length xs)" if "counted_rep c p xs" for c and p :: "usize counted_queue" and xs
    using that 
    by (auto simp: counted_rep_def counted_len_def dest: arg_cong [where f = "of_nat :: nat \<Rightarrow> usize"])
  obtain q :: "usize counted_queue" where q: "counted_new w = Ret q" "counted_rep 32 q []" "counted_cost q = 66"
    using counted_with_segment_size_rep [of 5 w] by (auto simp: counted_new_def)
  obtain q1 where q1: "counted_enqueue q x = ret q1" "counted_rep 98 q1 [x]" "counted_cost q1 = 66"
    using counted.enq_ok [OF q(2), of x] q(3) by auto
  obtain q2 where q2: "counted_enqueue q1 y = ret q2" "counted_rep 164 q2 [x, y]" "counted_cost q2 = 66"
    using counted.enq_ok [OF q1(2), of y] q1(3) by auto
  obtain q3 where q3: "counted_dequeue q2 = ret (Some x, q3)" "counted_rep 230 q3 [y]" "counted_cost q3 = 66"
    using counted.deq_ok [OF q2(2)] q2(3) by auto
  obtain q4 where q4: "counted_dequeue q3 = ret (Some y, q4)" "counted_rep 296 q4 []"
    using counted.deq_ok [OF q3(2)] q3(3) by auto
  have "counted_is_empty q" using len [OF q(2)] by (simp add: counted_is_empty_def)
  with q(1) q1(1) q2(1) q3(1) q4(1) len [OF q1(2)] len [OF q2(2)] len [OF q3(2)] len [OF q4(2)]
  show ?thesis by fastforce
qed

lemma unbounded_tests_pass:
  "(\<exists>q. test_zst_unbounded w = ret q) \<and> (\<exists>q. test_unbounded_queue_length w = ret q)
    \<and> (\<exists>q. alloc_cover_example w1 w2 w = ret q)"
proof (intro conjI)
  show "\<exists>q. test_zst_unbounded w = ret q"
    using unbounded_put_take [of 5 w "()"] by (auto simp: test_zst_unbounded_def unbounded_new_def)
  show "\<exists>q. test_unbounded_queue_length w = ret q"
    using counted_put_take [of w 3 2] by (auto simp: test_unbounded_queue_length_def expect_len_def)
  have "\<exists>q. assert_calls single_enqueue single_dequeue [enq_ok 8, deq_gives (Some (8 :: usize))] single_new = ret q"
    using single.assert_calls_ok [OF single_rep_new, of 0 "[enq_ok 8, deq_gives (Some (8 :: usize))]"]
    by (simp del: assert_calls.simps) blast
  then show "\<exists>q. alloc_cover_example w1 w2 w = ret q"
    using unbounded_put_take [of 3 w "0 :: usize"] bounded_calls_pass [of 3 "[enq_ok 0, deq_gives (Some (0 :: usize))]" w1 w2]
      bounded_calls_pass [of 3 "[enq_ok 8, deq_gives (Some (8 :: usize))]" w1 w2]
    by (auto simp: alloc_cover_example_def run_bounded_def simp del: assert_calls.simps)
qed

section \<open>Tests of the ring and of the integer helpers\<close>

definition fullinit :: "bool list \<Rightarrow> scq_ring run" where
  "fullinit w = bind_run (Some (new_alloc_ring_full 0 3 w)) (expect_range ring_dequeue (map of_nat [0..<8]))"

definition capacity_range :: "scq_ring \<Rightarrow> usize list" where
  "capacity_range r = map of_nat [0..<unat (ring_capacity r)]"

definition test_lfring_basic :: "bool list \<Rightarrow> scq_ring run" where
  "test_lfring_basic w =
     (let ring = new_alloc_ring_empty 0 3 w
      in bind_run (enqueue_all ring (capacity_range ring)) (\<lambda>ring'. expect_range ring_dequeue (capacity_range ring') ring'))"

definition test_length_function :: "bool list \<Rightarrow> scq_ring run" where
  "test_length_function w =
     (let ring = new_alloc_ring_empty 0 3 w
      in if ring_capacity ring = 8 then enqueue_all ring [3, 2] else Some Panic)"

text \<open>The loop that dequeues an index, checks it and puts it back.\<close>

fun recycle_range :: "usize list \<Rightarrow> scq_ring \<Rightarrow> scq_ring run" where
  "recycle_range [] r = ret r"
| "recycle_range (i # is) r =
     bind_run (ring_dequeue r) (\<lambda>(value, r').
       case value of
         None \<Rightarrow> Some Panic
       | Some v \<Rightarrow>
           (if v = i
            then bind_run (ring_enqueue r' v) (\<lambda>(res, r'').
                   case res of Inl _ \<Rightarrow> Some Panic | Inr _ \<Rightarrow> recycle_range is r'')
            else Some Panic))"

definition initialize_full_correctly :: "bool list \<Rightarrow> bool list \<Rightarrow> scq_ring run" where
  "initialize_full_correctly w1 w2 =
     (let ring = new_alloc_ring_empty 0 3 w1
      in bind_run (enqueue_all ring (capacity_range ring)) (\<lambda>ring'.
           bind_run (Some (new_alloc_ring_full 0 3 w2)) (\<lambda>auto.
             if ring_eq ring' auto
             then bind_run (recycle_range (capacity_range auto) auto) (\<lambda>auto'.
                    expect_range ring_dequeue (capacity_range auto') auto')
             else Some Panic)))"

definition test_pow2 :: bool where
  "test_pow2 \<longleftrightarrow> (let half = (4 :: 32 word) in half * 2 = push_bit 1 half)"

definition test_special_comparision_function :: bool where
  "test_special_comparision_function \<longleftrightarrow> is_lt (lfring_signed_cmp 1 2) \<and> is_lt (lfring_signed_cmp 1 2)
     \<and> is_le (lfring_signed_cmp 2 2) \<and> lfring_signed_cmp 2 1 = ordering.Greater"

definition test_determine_order :: bool where
  "test_determine_order \<longleftrightarrow> determine_order 1 = Ret 0 \<and> determine_order 2 = Ret 1 \<and> determine_order 4 = Ret 2
     \<and> determine_order 512 = Ret 9"

lemma expect_ring:
  assumes "ring_rep c r (xs @ ys)"
  shows "\<exists>r'. expect_range ring_dequeue xs r = ret r' \<and> ring_rep c r' ys \<and> same_shape r r'"
  using assms
proof (induction xs arbitrary: r)
  case (Cons x xs)
  obtain r1 where r1: "ring_dequeue r = ret (Some x, r1)" "ring_rep c r1 (xs @ ys)" "same_shape r r1"
    using scq.deq_some [of c r x "xs @ ys"] Cons.prems by auto
  obtain r2 where r2: "expect_range ring_dequeue xs r1 = ret r2" "ring_rep c r2 ys" "same_shape r1 r2"
    using Cons.IH [OF r1(2)] by blast
  with r1(1) scq.shape_trans [OF r1(3) r2(3)] show ?case by simp
qed (simp add: scq.shape_refl)

lemma recycle_ring:
  assumes "ring_rep c r (xs @ ys)" "\<not> is_final r" "length xs + length ys \<le> 2 * ring_half r" "c + length xs < 2 ^ 62"
  shows "\<exists>r'. recycle_range xs r = ret r' \<and> ring_rep (c + length xs) r' (ys @ xs) \<and> same_shape r r'"
  using assms
proof (induction xs arbitrary: c r ys)
  case (Cons x xs)
  obtain r1 where r1: "ring_dequeue r = ret (Some x, r1)" "ring_rep c r1 (xs @ ys)" "same_shape r r1"
    using scq.deq_some [of c r x "xs @ ys"] Cons.prems by auto
  have x: "unat x < ring_half r1" using scq.rep_bound [OF Cons.prems(1)] scq.shape_half [OF r1(3)] by simp
  obtain r2 where r2: "ring_enqueue r1 x = ret (Inr (), r2)" "ring_rep (Suc c) r2 ((xs @ ys) @ [x])" "same_shape r1 r2"
    using scq.enq_ok [OF r1(2) _ _ x] Cons.prems(2-4) scq.shape_final [OF r1(3)] scq.shape_half [OF r1(3)] by auto
  have "\<exists>r'. recycle_range xs r2 = ret r' \<and> ring_rep (Suc c + length xs) r' ((ys @ [x]) @ xs) \<and> same_shape r2 r'"
    (is "\<exists>r'. ?P r'")
    using Cons.prems(2-4) r2(2) scq.shape_final [OF r1(3)] scq.shape_final [OF r2(3)]
      scq.shape_half [OF r1(3)] scq.shape_half [OF r2(3)]
    by (intro Cons.IH) simp_all
  then obtain r3 where r3: "?P r3" by blast
  with r1(1) r2(1) scq.shape_trans [OF scq.shape_trans [OF r1(3) r2(3)], of r3] show ?case by simp
qed (simp add: scq.shape_refl)

lemma capacity_range_eight: "ring_capacity r = 8 \<Longrightarrow> capacity_range r = map of_nat [0..<2 ^ 3]"
  by (simp add: capacity_range_def)

lemma shape_capacity: "same_shape r r' \<Longrightarrow> ring_capacity r' = ring_capacity r"
  by (simp add: same_shape_def ring_capacity_def)

lemma ring_order_three: "order r = 3 \<Longrightarrow> ring_capacity r = 8 \<and> ring_half r = 8"
  by (simp add: ring_capacity_def ring_half_def)

lemma ring_tests_pass:
  "(\<exists>r. fullinit w1 = ret r) \<and> (\<exists>r. test_lfring_basic w1 = ret r) \<and> (\<exists>r. test_length_function w1 = ret r)
    \<and> (\<exists>r. initialize_full_correctly w1 w2 = ret r)"
proof -
  let ?e = "new_alloc_ring_empty 0 3 w1"
  define xs :: "usize list" where "xs = map of_nat [0..<8]"
  have "unat (of_nat i :: usize) < 8" if "i < 8" for i
    using unat_of_nat_small [of i] that by simp
  then have bound: "\<forall>x\<in>set xs. unat x < 8" and len: "length xs = 8"
    by (auto simp: xs_def)
  obtain r f where rf: "enqueue_all ?e xs = ret r" "new_alloc_ring_full 0 3 w2 = Ret f" "ring_eq r f"
      "ring_rep (8) r xs" "ring_rep (8) f xs" "\<not> is_final f" "order f = 3"
    using filled_ring [of 3 0 w1 w2] by (auto simp flip: xs_def)
  have e: "ring_rep 0 ?e []" "order ?e = 3" "\<not> is_final ?e"
    using ring_rep_alloc_empty [of 3 0 w1] empty_ring_open [of 0 3 w1]
    by (simp_all add: new_alloc_ring_empty_def new_from_sqalloc_def)
  have r_shape: "same_shape ?e r"
    using enqueue_all_rep [OF e(1,3), of xs] rf(1) ring_order_three [OF e(2)]
    by (auto simp: slot_bits_def e(2) bound len)
  have caps: "ring_capacity ?e = 8" "ring_capacity r = 8" "ring_capacity f = 8"
    using ring_order_three [OF e(2)] ring_order_three [OF rf(7)] shape_capacity [OF r_shape] by simp_all
  obtain f' where f': "recycle_range xs f = ret f'" "ring_rep (8 + 8) f' xs" "same_shape f f'"
    using recycle_ring [of "8" f xs "[]"] rf(5,6) ring_order_three [OF rf(7)] by (auto simp: len)
  obtain g where g: "new_alloc_ring_full 0 3 w1 = Ret g" "ring_rep (8) g xs"
    using ring_rep_alloc_full [of 3 0 w1] by (auto simp flip: xs_def)
  have range: "ring_capacity p = 8 \<Longrightarrow> capacity_range p = xs" for p
    using capacity_range_eight [of p] by (simp add: xs_def)
  have ex: "\<exists>r'. expect_range ring_dequeue xs p = ret r'" if "ring_rep c p xs" for c p
    using expect_ring [of c p xs "[]"] that by auto
  have "\<exists>r. fullinit w1 = ret r"
    using ex [OF g(2)] g(1) by (simp add: fullinit_def flip: xs_def)
  moreover have "\<exists>r. test_lfring_basic w1 = ret r"
    using ex [OF rf(4)] rf(1) range [OF caps(1)] range [OF caps(2)]
    by (simp add: test_lfring_basic_def Let_def)
  moreover have "\<exists>r. test_length_function w1 = ret r"
    using enqueue_all_rep [OF e(1,3), of "[3, 2]"] caps(1) ring_order_three [OF e(2)] e(2)
    by (auto simp: test_length_function_def Let_def slot_bits_def simp del: enqueue_all.simps)
  moreover have "\<exists>r. initialize_full_correctly w1 w2 = ret r"
    using ex [of _ f', OF f'(2)] rf(1-3) f'(1) range [OF caps(1)] range [OF caps(3)]
      range [of f'] shape_capacity [OF f'(3)] caps(3)
    by (simp add: initialize_full_correctly_def Let_def)
  ultimately show ?thesis by blast
qed

lemma helper_tests_pass: "test_pow2 \<and> test_special_comparision_function \<and> test_determine_order"
proof -
  have "test_pow2" by (simp add: test_pow2_def)
  moreover have "test_special_comparision_function"
    by (simp add: test_special_comparision_function_def lfring_signed_cmp_def isize_cmp_def)
  moreover have "test_determine_order"
    using determine_order_two_power [of 0] determine_order_two_power [of 1] determine_order_two_power [of 2]
      determine_order_two_power [of 9] by (simp add: test_determine_order_def)
  ultimately show ?thesis by blast
qed

end
