(* ===== verification/FloatF64.thy ===== *)
theory FloatF64
  imports Prelude "HOL-Library.Log_Nat"
begin

text \<open>
  The arithmetic of \<open>f64\<close> that the fuzz targets use to scale a random word: conversion of a \<open>usize\<close>,
  product, quotient, and the cast back, on finite numbers that are not negative and not subnormal, as
  exact rationals rounded to 53 binary digits, to even on a tie (IEEE 754, binary64).
\<close>

type_synonym f64 = rat

section \<open>Rounding\<close>

text \<open>The exponent \<open>e\<close> with \<open>2 ^ e \<le> x < 2 ^ (e + 1)\<close>, from the lengths of numerator and denominator.\<close>

definition exponent_of :: "rat \<Rightarrow> int" where
  "exponent_of x =
     (let (p, q) = quotient_of x; d = int (floorlog 2 (nat p)) - int (floorlog 2 (nat q))
      in if 2 powi d \<le> x then d else d - 1)"

definition round_half_even :: "rat \<Rightarrow> int" where
  "round_half_even x =
     (let f = \<lfloor>x\<rfloor>; d = x - of_int f in if d < 1 / 2 \<or> d = 1 / 2 \<and> even f then f else f + 1)"

definition f64_round :: "rat \<Rightarrow> f64" where
  "f64_round x =
     (if x = 0 then 0
      else let ulp = 2 powi (exponent_of x - 52) in of_int (round_half_even (x / ulp)) * ulp)"

definition f64_of_usize :: "usize \<Rightarrow> f64" where
  "f64_of_usize w = f64_round (of_nat (unat w))"

definition f64_mul :: "f64 \<Rightarrow> f64 \<Rightarrow> f64" where
  "f64_mul x y = f64_round (x * y)"

definition f64_div :: "f64 \<Rightarrow> f64 \<Rightarrow> f64" where
  "f64_div x y = f64_round (x / y)"

text \<open>The cast \<open>as usize\<close> truncates, and saturates.\<close>

definition f64_to_usize :: "f64 \<Rightarrow> usize" where
  "f64_to_usize x = (if x < 2 ^ 64 then of_nat (nat \<lfloor>x\<rfloor>) else - 1)"

section \<open>What rounding does\<close>

lemma exponent_of_bounds:
  assumes "0 < x"
  shows "2 powi exponent_of x \<le> x" "x < 2 powi (exponent_of x + 1)"
proof -
  obtain p q where pq: "quotient_of x = (p, q)" by fastforce
  have q: "0 < q" by (rule quotient_of_denom_pos [OF pq])
  have x: "x = of_int p / of_int q" by (rule quotient_of_div [OF pq])
  then have p: "0 < p" using assms q by (simp add: zero_less_divide_iff)
  let ?a = "floorlog 2 (nat p)" and ?b = "floorlog 2 (nat q)"
  have digits: "2 powi (int (floorlog 2 (nat n)) - 1) \<le> (of_int n :: rat)" "(of_int n :: rat) < 2 powi int (floorlog 2 (nat n))"
    if "0 < n" for n
  proof -
    have b: "2 ^ (floorlog 2 (nat n) - 1) \<le> nat n" "nat n < 2 ^ floorlog 2 (nat n)"
      using floorlog_bounds [of "nat n" 2] that by simp_all
    have pos: "0 < floorlog 2 (nat n)" using that floorlog_eq_zero_iff [of 2 "nat n"] by simp
    have "(2 :: int) ^ (floorlog 2 (nat n) - 1) \<le> n" "n < 2 ^ floorlog 2 (nat n)"
      using b that by (simp_all add: le_nat_iff nat_less_iff)
    then have "(of_int (2 ^ (floorlog 2 (nat n) - 1)) :: rat) \<le> of_int n" "(of_int n :: rat) < of_int (2 ^ floorlog 2 (nat n))"
      by (simp_all only: of_int_le_iff of_int_less_iff)
    then show "2 powi (int (floorlog 2 (nat n)) - 1) \<le> (of_int n :: rat)" "(of_int n :: rat) < 2 powi int (floorlog 2 (nat n))"
      using pos by (simp_all add: power_int_def nat_diff_distrib of_nat_diff)
  qed
  have "x < 2 powi int ?a / 2 powi (int ?b - 1)"
    unfolding x using digits [OF p] digits [OF q] q p by (intro frac_less) auto
  then have upper: "x < 2 powi (int ?a - int ?b + 1)"
    by (simp add: power_int_diff power_int_add)
  have "2 powi (int ?a - 1) / 2 powi int ?b \<le> x"
    unfolding x using digits [OF p] digits [OF q] q p by (intro frac_le) auto
  then have lower: "2 powi (int ?a - int ?b - 1) \<le> x"
    by (simp add: power_int_diff power_int_add field_simps)
  show "2 powi exponent_of x \<le> x" "x < 2 powi (exponent_of x + 1)"
    using upper lower by (simp_all add: exponent_of_def pq Let_def)
qed

lemma exponent_of_le:
  assumes "0 < x" "x < 2 powi (b + 1)"
  shows "exponent_of x \<le> b"
proof -
  have "(2 :: rat) powi exponent_of x < 2 powi (b + 1)"
    using exponent_of_bounds(1) [OF assms(1)] assms(2) by simp
  moreover have "(2 :: rat) powi (b + 1) \<le> 2 powi exponent_of x" if "b < exponent_of x"
    using that by (intro power_int_increasing) simp_all
  ultimately show ?thesis by (meson leD not_le)
qed

lemma exponent_of_eq:
  assumes "2 powi b \<le> x" "x < 2 powi (b + 1)"
  shows "exponent_of x = b"
proof -
  have x: "0 < x" using assms(1) by (rule less_le_trans [rotated]) simp
  have "(2 :: rat) powi b < 2 powi (exponent_of x + 1)"
    using exponent_of_bounds(2) [OF x] assms(1) by simp
  moreover have "(2 :: rat) powi (exponent_of x + 1) \<le> 2 powi b" if "exponent_of x < b"
    using that by (intro power_int_increasing) simp_all
  ultimately show ?thesis
    using exponent_of_le [OF x assms(2)] by (meson leD le_neq_trans not_le order_le_less)
qed

lemma round_half_even_le:
  assumes "x \<le> of_int n"
  shows "round_half_even x \<le> n"
proof (cases "\<lfloor>x\<rfloor> < n")
  case False
  then have "x = of_int n" using assms by (simp add: le_floor_iff not_less)
  then show ?thesis by (simp add: round_half_even_def)
qed (simp add: round_half_even_def Let_def)

lemma round_half_even_ge:
  assumes "of_int n \<le> x"
  shows "n \<le> round_half_even x"
proof -
  have "n \<le> \<lfloor>x\<rfloor>" using assms by (simp add: le_floor_iff)
  then show ?thesis by (simp add: round_half_even_def Let_def)
qed

text \<open>A number below \<open>n * 2 ^ j\<close>, of an exponent for which that is a multiple of the last digit, stays below.\<close>

lemma f64_round_le:
  assumes x: "0 \<le> x" "x \<le> of_int n * 2 powi j" and j: "x < 2 powi (j + 53)"
  shows "f64_round x \<le> of_int n * 2 powi j"
proof (cases "x = 0")
  case False
  with x(1) have pos: "0 < x" by simp
  let ?u = "2 powi (exponent_of x - 52) :: rat"
  have e: "exponent_of x \<le> j + 52"
    using exponent_of_le [OF pos, of "j + 52"] j by (simp add: add.assoc)
  have "(2 :: rat) powi j = of_int (2 ^ nat (j + 52 - exponent_of x)) * ?u"
    using e by (simp flip: power_int_of_nat power_int_add)
  then have unit: "of_int n * 2 powi j = of_int (n * 2 ^ nat (j + 52 - exponent_of x)) * ?u"
    by simp
  then have "x / ?u \<le> of_int (n * 2 ^ nat (j + 52 - exponent_of x))"
    using x(2) by (simp add: divide_le_eq del: of_int_mult of_int_power)
  from round_half_even_le [OF this] have
    "of_int (round_half_even (x / ?u)) * ?u \<le> of_int (n * 2 ^ nat (j + 52 - exponent_of x)) * ?u"
    by (intro mult_right_mono) (simp_all del: of_int_mult of_int_power)
  then show ?thesis
    using False unfolding unit by (simp add: f64_round_def Let_def)
qed (use x in \<open>simp add: f64_round_def\<close>)

lemma f64_round_nonneg: "0 \<le> x \<Longrightarrow> 0 \<le> f64_round x"
  using round_half_even_ge [of 0 "x / 2 powi (exponent_of x - 52)"]
  by (simp add: f64_round_def Let_def)

text \<open>So does one less than half a last digit above it.\<close>

lemma round_half_even_less:
  assumes "x < of_int n + 1 / 2"
  shows "round_half_even x \<le> n"
proof (cases "x \<le> of_int n")
  case False
  then have "\<lfloor>x\<rfloor> = n" using assms by (intro floor_unique) simp_all
  with assms show ?thesis by (simp add: round_half_even_def Let_def)
qed (rule round_half_even_le)

lemma f64_round_less:
  assumes x: "0 < x" "x < (of_int n + 1 / 2) * 2 powi j" and j: "x < 2 powi (j + 53)"
    and n: "2 powi (j + 52) \<le> of_int n * (2 powi j :: rat)"
  shows "f64_round x \<le> of_int n * 2 powi j"
proof -
  have e: "exponent_of x \<le> j + 52"
    using exponent_of_le [OF x(1), of "j + 52"] j by (simp add: add.assoc)
  show ?thesis
  proof (cases "exponent_of x = j + 52")
    case True
    have "x / 2 powi j < of_int n + 1 / 2" using x(2) by (simp add: divide_less_eq)
    from round_half_even_less [OF this] have
      "of_int (round_half_even (x / 2 powi j)) * 2 powi j \<le> of_int n * (2 powi j :: rat)"
      by (intro mult_right_mono) simp_all
    with True x(1) show ?thesis by (simp add: f64_round_def Let_def)
  next
    case False
    then have "(2 :: rat) powi (exponent_of x + 1) \<le> 2 powi (j + 52)"
      using e by (intro power_int_increasing) simp_all
    then have "x \<le> of_int n * 2 powi j"
      using exponent_of_bounds(2) [OF x(1)] n by simp
    then show ?thesis using x(1) j by (intro f64_round_le) simp_all
  qed
qed

text \<open>An integer of at most 53 digits is exact.\<close>

lemma round_half_even_of_int [simp]: "round_half_even (of_int n) = n"
  by (simp add: round_half_even_def)

lemma f64_round_exact:
  assumes "0 \<le> n" "n < 2 ^ 53"
  shows "f64_round (of_int n) = of_int n"
proof (cases "n = 0")
  case False
  let ?e = "exponent_of (of_int n)"
  have "(of_int n :: rat) < 2 powi (52 + 1)"
    using of_int_less_iff [where 'a = rat, THEN iffD2, OF assms(2)] by simp
  then have e: "?e \<le> 52"
    using False assms(1) by (intro exponent_of_le) simp_all
  have u: "(2 :: rat) powi (?e - 52) * of_int (2 ^ nat (52 - ?e)) = 1"
    using e by (simp flip: power_int_of_nat power_int_add)
  then have "(of_int n :: rat) / 2 powi (?e - 52) = of_int (n * 2 ^ nat (52 - ?e))"
    by (simp add: divide_eq_eq mult.assoc mult.commute)
  then have "f64_round (of_int n) = of_int (n * 2 ^ nat (52 - ?e)) * 2 powi (?e - 52)"
    using False unfolding f64_round_def Let_def by (simp only: round_half_even_of_int of_int_eq_0_iff if_False)
  also have "\<dots> = of_int n"
    using u by (simp add: mult.assoc mult.commute)
  finally show ?thesis .
qed (simp add: f64_round_def)

lemma unat_f64_to_usize:
  assumes "0 \<le> x" "x < 2 ^ 64"
  shows "unat (f64_to_usize x) = nat \<lfloor>x\<rfloor>"
proof -
  have "\<lfloor>x\<rfloor> < 2 ^ 64" using assms(2) by (simp add: floor_less_iff)
  then have "nat \<lfloor>x\<rfloor> < 2 ^ 64" using assms(1) by (simp add: nat_less_iff)
  then show ?thesis using assms(2) by (simp add: f64_to_usize_def unat_of_nat del: of_nat_nat)
qed

end
