(* ===== verification/ThreadPrograms.thy ===== *)
theory ThreadPrograms
  imports Harness BoundedConcProperties
begin

text \<open>
  The programs of the repository that run several threads on one bounded queue: the fuzz target
  \<open>scq_grind_rt\<close>, where every thread runs the same instructions, and the unit test \<open>lcsq_circus\<close>. A
  schedule lists which thread takes the next step; a thread at rest begins its next call, or does
  nothing more when its program is over. The results of the calls are ignored, as in the code; the
  targets pass if no thread panics (\<open>join().unwrap()\<close>).
\<close>

section \<open>Threads that run programs\<close>

type_synonym 'a rt_state = "'a queue_sys \<times> (nat \<Rightarrow> 'a fifo_instr list)"

fun rt_step :: "nat \<Rightarrow> 'a rt_state \<Rightarrow> 'a rt_state" where
  "rt_step t (s, prog) =
     (if queue_at_rest (queue_pcs s t)
      then (case prog t of
              [] \<Rightarrow> (s, prog)
            | Enq x # is \<Rightarrow> (goto t (QCount x) s, prog(t := is))
            | Deq # is \<Rightarrow> (goto t (QTake DeThreshold) s, prog(t := is)))
      else (queue_step t s, prog))"

fun rt_run :: "nat list \<Rightarrow> 'a rt_state \<Rightarrow> 'a rt_state" where
  "rt_run [] x = x"
| "rt_run (t # ts) x = rt_run ts (rt_step t x)"

fun rt_instr :: "grind_instr \<Rightarrow> usize fifo_instr" where
  "rt_instr (Enqueue item) = Enq item"
| "rt_instr Dequeue = Deq"

text \<open>\<open>m\<close> is the number of threads the fuzzer's bytes ask for.\<close>

definition scq_grind_rt ::
  "grind_configuration \<Rightarrow> nat \<Rightarrow> nat list \<Rightarrow> bool list \<Rightarrow> bool list \<Rightarrow> usize rt_state exec"
where
  "scq_grind_rt grind m turns w1 w2 =
     bind_exec (new_alloc 0 (grind_order grind) w1 w2) (\<lambda>queue.
       Ret (rt_run turns (queue_start False m queue, \<lambda>_. map rt_instr (instructions grind))))"

definition lcsq_circus :: "nat list \<Rightarrow> bool list \<Rightarrow> bool list \<Rightarrow> 32 word rt_state exec" where
  "lcsq_circus turns w1 w2 =
     bind_exec (new_alloc 0 8 w1 w2) (\<lambda>context.
       Ret (rt_run turns (queue_start False 50 context,
         \<lambda>_. map (\<lambda>i. Enq (of_nat i)) [0..<100] @ replicate 100 Deq)))"

section \<open>A program run is a run of the queue\<close>

lemma rt_step_label:
  assumes "t < threads s"
  shows "\<exists>l. queue_sys_step l s = Some (fst (rt_step t (s, prog)))"
proof (cases "queue_at_rest (queue_pcs s t)")
  case True
  show ?thesis
  proof (cases "prog t")
    case Nil
    with True assms queue_step_rest [OF True] have "queue_sys_step (QStep t) s = Some (fst (rt_step t (s, prog)))"
      by simp
    then show ?thesis ..
  next
    case (Cons i "is")
    show ?thesis
    proof (cases i)
      case (Enq x)
      with Cons True assms have "queue_sys_step (CallEnqueue t x) s = Some (fst (rt_step t (s, prog)))" by simp
      then show ?thesis ..
    next
      case Deq
      with Cons True assms have "queue_sys_step (CallDequeue t) s = Some (fst (rt_step t (s, prog)))" by simp
      then show ?thesis ..
    qed
  qed
next
  case False
  with assms have "queue_sys_step (QStep t) s = Some (fst (rt_step t (s, prog)))" by simp
  then show ?thesis ..
qed

lemma step_threads: "queue_sys_step l s = Some s' \<Longrightarrow> threads s' = threads s"
proof (cases l)
  case (QStep t)
  moreover have "threads (queue_step t s) = threads s"
    by (cases "queue_pcs s t")
      (auto simp: queue_step_def goto_def set_queue_def free_access_def alloc_access_def slot_outcome_def
        write_slot_def read_slot_def Let_def split: prod.splits option.splits)
  moreover assume "queue_sys_step l s = Some s'"
  ultimately show ?thesis by (auto split: if_splits)
qed (auto simp: goto_def split: if_splits)

lemma rt_run_labels:
  assumes "\<forall>t\<in>set turns. t < threads s"
  shows "\<exists>ls. length ls = length turns \<and> queue_sys_run ls s = Some (fst (rt_run turns (s, prog)))"
  using assms
proof (induction turns arbitrary: s prog)
  case (Cons t ts)
  obtain l where l: "queue_sys_step l s = Some (fst (rt_step t (s, prog)))"
    using rt_step_label [of t s prog] Cons.prems by auto
  obtain s1 prog1 where s1: "rt_step t (s, prog) = (s1, prog1)" by fastforce
  then have "threads s1 = threads s" using step_threads [OF l] by simp
  then obtain ls where "length ls = length ts" "queue_sys_run ls s1 = Some (fst (rt_run ts (s1, prog1)))"
    using Cons.IH [of s1 prog1] Cons.prems by auto
  then have "length (l # ls) = length (t # ts) \<and> queue_sys_run (l # ls) s = Some (fst (rt_run (t # ts) (s, prog)))"
    using l s1 by simp
  then show ?case by blast
qed simp

lemma program_run:
  assumes "k \<le> 60" "\<forall>t\<in>set turns. t < m" "2 ^ k + length turns < 2 ^ 62"
  shows "\<exists>(q :: 'a bounded_queue) ls s prog'. new_alloc 0 (2 ^ k) w1 w2 = Ret q \<and> bq_rep (2 ^ k) q []
    \<and> rt_run turns (queue_start False m q, prog) = (s, prog')
    \<and> queue_sys_run ls (queue_start False m q) = Some s \<and> 2 ^ k + length ls < 2 ^ 62"
proof -
  obtain q :: "'a bounded_queue" where q: "new_alloc 0 (2 ^ k) w1 w2 = Ret q" "bq_rep (2 ^ k) q []"
    using new_alloc_rep [OF assms(1), of 0 w1 w2] by auto
  have "\<forall>t\<in>set turns. t < threads (queue_start False m q)"
    using assms(2) by (simp add: queue_start_def)
  then obtain ls where ls: "length ls = length turns"
      "queue_sys_run ls (queue_start False m q) = Some (fst (rt_run turns (queue_start False m q, prog)))"
    using rt_run_labels by blast
  obtain s prog' where "rt_run turns (queue_start False m q, prog) = (s, prog')" by fastforce
  with q ls assms(3) show ?thesis by fastforce
qed

section \<open>The targets pass\<close>

definition all_returned :: "nat \<Rightarrow> 'a rt_state \<Rightarrow> bool" where
  "all_returned m x \<longleftrightarrow> (\<forall>t<m. snd x t = [] \<and> queue_at_rest (queue_pcs (fst x) t))"

lemma nothing_fetched:
  assumes "all_returned m (s, prog)" "threads s = m"
  shows "queue_values s = image_mset (slot_value s) (mset (ring_indices (alloc_queue (the_queue s))))"
proof -
  have "fetched_items (queue_pcs s t) = {#}" if "t < threads s" for t
    using assms that by (cases "queue_pcs s t") (auto simp: all_returned_def fetched_items_def)
  then have "total fetched_items s = {#}" unfolding total_def by (intro sum.neutral) simp
  then show ?thesis by (simp add: queue_values_def)
qed

lemma run_threads: "queue_sys_run ls s = Some s' \<Longrightarrow> threads s' = threads s"
  by (induction ls arbitrary: s) (auto dest: step_threads split: option.splits)

lemma program_passes:
  fixes prog :: "nat \<Rightarrow> 'a fifo_instr list"
  assumes "k \<le> 60" "\<forall>t\<in>set turns. t < m" "2 ^ k + length turns < 2 ^ 62"
  shows "\<exists>(q :: 'a bounded_queue) s prog'. new_alloc 0 (2 ^ k) w1 w2 = Ret q
    \<and> rt_run turns (queue_start False m q, prog) = (s, prog')
    \<and> (\<forall>t. queue_pcs s t \<noteq> QPanic \<and> queue_pcs s t \<noteq> QUndefined)
    \<and> stored_items (value_log s) = removed_items (value_log s) + queue_values s
    \<and> (all_returned m (s, prog') \<longrightarrow> queue_values s
          = image_mset (slot_value s) (mset (ring_indices (alloc_queue (the_queue s)))))"
proof -
  obtain q :: "'a bounded_queue" and ls s prog' where q: "new_alloc 0 (2 ^ k) w1 w2 = Ret q" "bq_rep (2 ^ k) q []"
      "rt_run turns (queue_start False m q, prog) = (s, prog')"
      "queue_sys_run ls (queue_start False m q) = Some s" "2 ^ k + length ls < 2 ^ 62"
    using program_run [OF assms, where 'a = 'a] by blast
  obtain hf as fs where ok: "queue_ok (2 ^ k + length ls) (unat (head (alloc_queue q))) hf as fs [] s"
    using queue_run_state [OF q(2,4,5)] by blast
  have "threads s = m" using run_threads [OF q(4)] by (simp add: queue_start_def)
  with q(1,3) ok_no_panic [OF ok] ok nothing_fetched [of m s prog'] show ?thesis
    by (auto simp: queue_ok_def values_ok_def)
qed

text \<open>
  The fuzz target \<open>scq_grind_rt\<close>: for every configuration, every number of threads and every
  schedule, no thread panics or has undefined behaviour, and at every moment the values enqueued are
  those dequeued and those in the queue; when all threads have returned, the latter are exactly the
  values of the indices in the allocation ring.
\<close>

lemma scq_grind_rt_passes:
  assumes "grind_order grind = 2 ^ k" "k \<le> 60" "\<forall>t\<in>set turns. t < m" "2 ^ k + length turns < 2 ^ 62"
  shows "\<exists>s prog. scq_grind_rt grind m turns w1 w2 = Ret (s, prog)
    \<and> (\<forall>t. queue_pcs s t \<noteq> QPanic \<and> queue_pcs s t \<noteq> QUndefined)
    \<and> stored_items (value_log s) = removed_items (value_log s) + queue_values s
    \<and> (all_returned m (s, prog) \<longrightarrow> queue_values s
          = image_mset (slot_value s) (mset (ring_indices (alloc_queue (the_queue s)))))"
  using program_passes [OF assms(2-4), of w1 w2 "\<lambda>_. map rt_instr (instructions grind)"] assms(1)
  by (fastforce simp: scq_grind_rt_def)

text \<open>Two threads that take turns, and both return.\<close>

definition both_grind :: grind_configuration where
  "both_grind = \<lparr>grind_order = 2, instructions = [Enqueue 4, Dequeue]\<rparr>"

definition both_turns :: "nat list" where
  "both_turns = concat (replicate 30 [0, 1])"

lemma both_run:
  "(case scq_grind_rt both_grind 2 both_turns [] [] of
      Ret (s, prog) \<Rightarrow> Some (queue_pcs s 0, queue_pcs s 1, prog 0, prog 1, value_log s, ring_indices (alloc_queue (the_queue s)))
    | _ \<Rightarrow> None)
   = Some (QDeqDone (Some 4), QDeqDone (Some 4), [], [],
       [Stored 0 0 4, Stored 1 1 4, Removed 0 0 4, Removed 1 1 4], [])"
  by code_simp

lemma both_grind_passes:
  "\<exists>s prog. scq_grind_rt both_grind 2 both_turns [] [] = Ret (s, prog) \<and> all_returned 2 (s, prog)
     \<and> removed_items (value_log s) = {#4, 4#} \<and> queue_values s = {#}"
proof -
  have k: "grind_order both_grind = 2 ^ 1" "(1 :: nat) \<le> 60" "\<forall>t\<in>set both_turns. t < 2"
      "2 ^ 1 + length both_turns < 2 ^ 62"
    by (simp_all add: both_grind_def both_turns_def length_concat sum_list_replicate)
  obtain s prog where s: "scq_grind_rt both_grind 2 both_turns [] [] = Ret (s, prog)"
      and left: "all_returned 2 (s, prog) \<longrightarrow> queue_values s
          = image_mset (slot_value s) (mset (ring_indices (alloc_queue (the_queue s))))"
    using scq_grind_rt_passes [OF k, of "[]" "[]"] by blast
  have "queue_pcs s 0 = QDeqDone (Some 4)" "queue_pcs s 1 = QDeqDone (Some 4)" "prog 0 = []" "prog 1 = []"
      "value_log s = [Stored 0 0 4, Stored 1 1 4, Removed 0 0 4, Removed 1 1 4]"
      "ring_indices (alloc_queue (the_queue s)) = []"
    using both_run by (simp_all add: s)
  with s left show ?thesis by (simp add: all_returned_def less_2_cases_iff)
qed

lemma lcsq_circus_passes:
  assumes "\<forall>t\<in>set turns. t < 50" "8 + length turns < 2 ^ 62"
  shows "\<exists>s prog. lcsq_circus turns w1 w2 = Ret (s, prog) \<and> (\<forall>t. queue_pcs s t \<noteq> QPanic \<and> queue_pcs s t \<noteq> QUndefined)"
  using program_passes [of 3 turns 50 w1 w2 "\<lambda>_. map (\<lambda>i. Enq (of_nat i :: 32 word)) [0..<100] @ replicate 100 Deq"] assms
  by (fastforce simp: lcsq_circus_def simp del: replicate.simps upt_conv_Cons)

end
