(* ===== verification/LscqPrograms.thy ===== *)
theory LscqPrograms
  imports LscqProperties Harness
begin

text \<open>
  The fuzz target \<open>lscq_grind_rt\<close>: threads that run the same instructions on one unbounded queue. A
  schedule of labels is a run of the target if every call in it is the next instruction of its thread.
\<close>

type_synonym lscq_rt = "usize lscq_sys \<times> (nat \<Rightarrow> grind_instr list)"

fun next_instr :: "usize lscq_label \<Rightarrow> (nat \<times> grind_instr) option" where
  "next_instr (CallEnqueue t x) = Some (t, Enqueue x)"
| "next_instr (CallDequeue t) = Some (t, Dequeue)"
| "next_instr _ = None"

fun lscq_rt_step :: "usize lscq_label \<Rightarrow> lscq_rt \<Rightarrow> lscq_rt option" where
  "lscq_rt_step l (s, prog) =
     (case next_instr l of
        None \<Rightarrow> map_option (\<lambda>s'. (s', prog)) (lscq_step l s)
      | Some (t, i) \<Rightarrow>
          (case prog t of
             [] \<Rightarrow> None
           | j # is \<Rightarrow> (if j = i then map_option (\<lambda>s'. (s', prog(t := is))) (lscq_step l s) else None)))"

fun lscq_rt_run :: "usize lscq_label list \<Rightarrow> lscq_rt \<Rightarrow> lscq_rt option" where
  "lscq_rt_run [] x = Some x"
| "lscq_rt_run (l # ls) x = (case lscq_rt_step l x of None \<Rightarrow> None | Some x' \<Rightarrow> lscq_rt_run ls x')"

definition lscq_grind_rt ::
  "grind_configuration \<Rightarrow> nat \<Rightarrow> usize lscq_label list \<Rightarrow> (nat \<Rightarrow> bool list \<times> bool list) \<Rightarrow> lscq_rt option exec"
where
  "lscq_grind_rt grind m ls w =
     bind_exec (with_segment_size (grind_order grind) w) (\<lambda>queue.
       Ret (lscq_rt_run ls (lscq_start m (internal queue), \<lambda>_. instructions grind)))"

lemma lscq_rt_run_is_run: "lscq_rt_run ls (s, prog) = Some (s', prog') \<Longrightarrow> lscq_run ls s = Some s'"
proof (induction ls arbitrary: s prog)
  case (Cons l ls)
  then obtain s1 prog1 where s1: "lscq_rt_step l (s, prog) = Some (s1, prog1)"
      and run: "lscq_rt_run ls (s1, prog1) = Some (s', prog')"
    by (auto split: option.splits)
  have "lscq_step l s = Some s1"
    using s1 by (auto split: option.splits list.splits if_splits prod.splits)
  with Cons.IH [OF run] show ?case by simp
qed simp

text \<open>Whatever the schedule, no thread of the target touches memory that is not allocated.\<close>

lemma lscq_grind_rt_memory_safe:
  assumes "lscq_grind_rt grind m ls w = Ret (Some (s, prog))"
  shows "\<not> bad_access s"
proof -
  obtain q :: "usize lscq" where q: "lscq_new (grind_order grind) w = Ret q"
      and run: "lscq_rt_run ls (lscq_start m q, \<lambda>_. instructions grind) = Some (s, prog)"
    using assms by (cases "lscq_new (grind_order grind) w :: usize lscq exec") (auto simp: lscq_grind_rt_def with_segment_size_def)
  have "lscq_reachable m q s"
    using lscq_run_reachable [OF lscq_reachable.start lscq_rt_run_is_run [OF run]] .
  then obtain as where "lscq_safe as s" using lscq_reachable_safe [OF q] by blast
  then show ?thesis using safe_parts(10) by blast
qed

text \<open>And none panics (\<open>join().unwrap()\<close> never fails), for every segment size that is a power of two.\<close>

lemma lscq_grind_rt_no_panic:
  assumes "lscq_grind_rt grind m ls w = Ret (Some (s, prog))" "grind_order grind = 2 ^ k" "k \<le> 60"
    and "2 ^ k + length ls * lscq_cost k < 2 ^ 62"
  shows "sys_pc s t \<noteq> Crashed"
proof -
  obtain q :: "usize lscq" where q: "lscq_new (2 ^ k) w = Ret q"
      and run: "lscq_rt_run ls (lscq_start m q, \<lambda>_. instructions grind) = Some (s, prog)"
    using assms(1,2) by (cases "lscq_new (2 ^ k) w :: usize lscq exec") (auto simp: lscq_grind_rt_def with_segment_size_def)
  show ?thesis
    using values_run [OF lscq_rt_run_is_run [OF run] values_start [OF q assms(3)] safe_start [OF q] assms(4)] values_parts(5)
    by blast
qed

end
