(* ===== verification/Fuzz.thy ===== *)
theory Fuzz
  imports FloatF64 ThreadPrograms LscqPrograms
begin

text \<open>
  The fuzz targets from the bytes on: \<open>configure_grind\<close> of \<open>src/lib.rs\<close>, \<open>random_range\<close>, and the five
  targets of \<open>fuzz/fuzz_targets\<close> around the loops of \<open>Harness\<close>, \<open>ThreadPrograms\<close> and \<open>LscqPrograms\<close>. The
  crate \<open>arbitrary\<close>, which takes values from the fuzzer's bytes, is a parameter: \<open>'u\<close> is its
  \<open>Unstructured\<close>, \<open>'e\<close> its error.
\<close>

section \<open>From bytes to a configuration\<close>

record ('u, 'e) arbitrary_values =
  usize_arbitrary :: "'u \<Rightarrow> ('e + usize) \<times> 'u"
  u64_arbitrary :: "'u \<Rightarrow> ('e + usize) \<times> 'u"
  instrs_arbitrary :: "'u \<Rightarrow> ('e + grind_instr list) \<times> 'u"

fun unwrap_with :: "('e + 'a) \<times> 'u \<Rightarrow> ('a \<times> 'u) exec" where
  "unwrap_with (Inl e, u) = Panic"
| "unwrap_with (Inr a, u) = Ret (a, u)"

text \<open>A word as a fraction of the greatest.\<close>

definition fraction_of :: "usize \<Rightarrow> f64" where
  "fraction_of v = f64_div (f64_of_usize v) (f64_of_usize (- 1))"

definition configure_grind ::
  "('u, 'e) arbitrary_values \<Rightarrow> 'u \<Rightarrow> (grind_configuration \<times> 'u) exec"
where
  "configure_grind d u =
     bind_exec (unwrap_with (usize_arbitrary d u)) (\<lambda>(val, u1).
       let delta = fraction_of val;
           ord = push_bit (unat (f64_to_usize (f64_mul 14 delta) + 1) mod 64) 1
       in bind_exec (unwrap_with (instrs_arbitrary d u1)) (\<lambda>(instrs, u2).
            Ret (\<lparr>grind_order = ord, instructions = instrs\<rparr>, u2)))"

definition random_range ::
  "('u, 'e) arbitrary_values \<Rightarrow> 'u \<Rightarrow> usize \<Rightarrow> usize \<Rightarrow> (usize \<times> 'u) exec"
where
  "random_range d u mn mx =
     bind_exec (unwrap_with (u64_arbitrary d u)) (\<lambda>(v, u').
       Ret (f64_to_usize (f64_mul (f64_of_usize (mx - mn)) (fraction_of v)) + mn, u'))"

section \<open>The targets\<close>

definition const_grind_target ::
  "('u, 'e) arbitrary_values \<Rightarrow> 'u \<Rightarrow> bool list \<Rightarrow> bool list \<Rightarrow> (usize mock_queue \<times> usize bounded_queue) run"
where
  "const_grind_target d u w1 w2 =
     bind_run (Some (random_range d u 1 6)) (\<lambda>(switch, u1).
       bind_run (Some (configure_grind d u1)) (\<lambda>(grind, u2). const_grind (unat switch) grind w1 w2))"

definition scq_grind_target ::
  "('u, 'e) arbitrary_values \<Rightarrow> 'u \<Rightarrow> bool list \<Rightarrow> bool list \<Rightarrow> (usize mock_queue \<times> usize bounded_queue) run"
where
  "scq_grind_target d u w1 w2 =
     bind_run (Some (configure_grind d u)) (\<lambda>(grind, u1). scq_grind grind w1 w2)"

definition lscq_grind_target ::
  "('u, 'e) arbitrary_values \<Rightarrow> 'u \<Rightarrow> (nat \<Rightarrow> bool list \<times> bool list)
     \<Rightarrow> (usize mock_queue \<times> usize unbounded_queue) run"
where
  "lscq_grind_target d u w =
     bind_run (Some (configure_grind d u)) (\<lambda>(grind, u1). lscq_grind grind w)"

definition scq_grind_rt_target ::
  "('u, 'e) arbitrary_values \<Rightarrow> 'u \<Rightarrow> nat list \<Rightarrow> bool list \<Rightarrow> bool list \<Rightarrow> usize rt_state exec"
where
  "scq_grind_rt_target d u turns w1 w2 =
     bind_exec (configure_grind d u) (\<lambda>(grind, u1).
       bind_exec (random_range d u1 1 150) (\<lambda>(m, u2). scq_grind_rt grind (unat m) turns w1 w2))"

definition lscq_grind_rt_target ::
  "('u, 'e) arbitrary_values \<Rightarrow> 'u \<Rightarrow> usize lscq_label list \<Rightarrow> (nat \<Rightarrow> bool list \<times> bool list)
     \<Rightarrow> lscq_rt option exec"
where
  "lscq_grind_rt_target d u ls w =
     bind_exec (configure_grind d u) (\<lambda>(grind, u1).
       bind_exec (random_range d u1 1 150) (\<lambda>(m, u2). lscq_grind_rt grind (unat m) ls w))"

section \<open>What the decoding gives\<close>

lemma f64_of_max: "f64_of_usize (- 1) = 2 ^ 64"
proof -
  have x: "(of_nat (unat (- 1 :: usize)) :: rat) = 18446744073709551615"
    by (simp add: unsigned_minus_1_eq_mask mask_eq_exp_minus_1)
  have "exponent_of 18446744073709551615 = 63" by (intro exponent_of_eq) simp_all
  moreover have "round_half_even (18446744073709551615 / 2048) = 2 ^ 53"
    using floor_divide_of_int_eq [of 18446744073709551615 2048, where ?'a = rat] by (simp add: round_half_even_def)
  ultimately show ?thesis unfolding f64_of_usize_def x f64_round_def Let_def by simp
qed

lemma f64_of_usize_bounds: "0 \<le> f64_of_usize v" "f64_of_usize v \<le> 2 ^ 64"
proof -
  have v: "(of_nat (unat v) :: rat) < 2 ^ 64"
    using of_nat_less_iff [where 'a = rat, THEN iffD2, OF unsigned_less [of v]] by simp
  show "0 \<le> f64_of_usize v" unfolding f64_of_usize_def by (rule f64_round_nonneg) (rule of_nat_0_le_iff)
  show "f64_of_usize v \<le> 2 ^ 64"
    using f64_round_le [OF of_nat_0_le_iff, of "unat v" 1 64] v by (simp add: f64_of_usize_def)
qed

lemma fraction_of_bounds: "0 \<le> fraction_of v" "fraction_of v \<le> 1"
  using f64_round_nonneg [of "f64_of_usize v / 2 ^ 64"] f64_round_le [of "f64_of_usize v / 2 ^ 64" 1 0]
    f64_of_usize_bounds [of v]
  by (simp_all add: fraction_of_def f64_div_def f64_of_max)

lemma scaled_bounds:
  assumes "0 \<le> n" "n < 2 ^ 53"
  shows "unat (f64_to_usize (f64_mul (of_int n) (fraction_of v))) \<le> nat n"
proof -
  let ?x = "of_int n * fraction_of v" and ?y = "f64_mul (of_int n) (fraction_of v)"
  have n: "(of_int n :: rat) < 2 ^ 53"
    using of_int_less_iff [where 'a = rat, THEN iffD2, OF assms(2)] by simp
  have x: "0 \<le> ?x" "?x \<le> of_int n"
    using assms(1) fraction_of_bounds [of v] by (simp_all add: mult_left_le)
  have y: "0 \<le> ?y" "?y \<le> of_int n"
    using f64_round_nonneg [OF x(1)] f64_round_le [OF x(1), of n 0] x(2) n by (simp_all add: f64_mul_def)
  have "\<lfloor>?y\<rfloor> \<le> n" using y(2) by (simp add: floor_le_iff)
  moreover have "?y < 2 ^ 64" using y(2) n by simp
  ultimately show ?thesis
    using unat_f64_to_usize [OF y(1)] by (simp add: nat_mono)
qed

text \<open>The number of slots is a power of two from 2 to 32768.\<close>

lemma configure_grind_order:
  assumes "configure_grind d u = Ret (grind, u')"
  shows "\<exists>k. 1 \<le> k \<and> k \<le> 15 \<and> grind_order grind = 2 ^ k
     \<and> (\<exists>u1. instrs_arbitrary d u1 = (Inr (instructions grind), u'))"
proof -
  obtain v u1 iss where v: "usize_arbitrary d u = (Inr v, u1)" "instrs_arbitrary d u1 = (Inr iss, u')"
      "grind = \<lparr>grind_order = push_bit (unat (f64_to_usize (f64_mul 14 (fraction_of v)) + 1) mod 64) 1, instructions = iss\<rparr>"
    using assms by (cases "(usize_arbitrary d u)" rule: unwrap_with.cases;
        cases "instrs_arbitrary d (snd (usize_arbitrary d u))" rule: unwrap_with.cases)
      (auto simp: configure_grind_def Let_def)
  let ?e = "f64_to_usize (f64_mul 14 (fraction_of v))"
  have "unat ?e \<le> 14" using scaled_bounds [of 14 v] by simp
  then have "unat (?e + 1) = Suc (unat ?e)" by (intro unat_plus_one) simp
  with \<open>unat ?e \<le> 14\<close> v show ?thesis
    by (intro exI [of _ "Suc (unat ?e)"]) (auto simp: push_bit_eq_mult)
qed

lemma random_range_bounds:
  assumes "random_range d u mn mx = Ret (r, u')" "unat mn \<le> unat mx" "unat mx < 2 ^ 53"
  shows "unat mn \<le> unat r \<and> unat r \<le> unat mx"
proof -
  obtain v where r: "r = f64_to_usize (f64_mul (f64_of_usize (mx - mn)) (fraction_of v)) + mn"
    using assms(1) by (cases "u64_arbitrary d u" rule: unwrap_with.cases) (auto simp: random_range_def)
  have diff: "unat (mx - mn) = unat mx - unat mn"
    using assms(2) by (simp add: unat_sub word_le_nat_alt)
  then have "f64_of_usize (mx - mn) = of_int (int (unat mx - unat mn))"
    using f64_round_exact [of "int (unat mx - unat mn)"] assms(3) by (simp add: f64_of_usize_def)
  then have s: "unat (r - mn) \<le> unat mx - unat mn"
    using scaled_bounds [of "int (unat mx - unat mn)" v] assms(3) r by simp
  have "unat (r - mn + mn) = unat (r - mn) + unat mn"
    using s assms(2) unsigned_less [of mx, where ?'a = nat] by (intro unat_add_lem [THEN iffD1]) simp
  with s assms(2) show ?thesis by simp
qed

text \<open>
  A range of five steps reaches its end only for the greatest 1024 of all words, the ones that \<open>f64\<close>
  rounds to \<open>2 ^ 64\<close>; so \<open>const_grind\<close> practically never takes its arm \<open>6\<close>.
\<close>

lemma almost_one:
  assumes "unat v < 2 ^ 64 - 2 ^ 10"
  shows "fraction_of v \<le> 1 - 1 / 2 ^ 53"
proof -
  have v: "(of_nat (unat v) :: rat) < 2 ^ 64 - 2 ^ 10"
    using of_nat_less_iff [where 'a = rat, THEN iffD2, OF assms] by simp
  have "f64_of_usize v \<le> of_int (2 ^ 53 - 1) * 2 powi 11"
  proof (cases "unat v = 0")
    case False
    then have "(0 :: rat) < of_nat (unat v)" by (simp del: of_nat_unat)
    then show ?thesis
      unfolding f64_of_usize_def using v by (intro f64_round_less) simp_all
  qed (simp add: f64_of_usize_def f64_round_def)
  then have "f64_round (f64_of_usize v / 2 ^ 64) \<le> of_int (2 ^ 53 - 1) * 2 powi (- 53)"
    using f64_of_usize_bounds(1) [of v] by (intro f64_round_le) simp_all
  then show ?thesis by (simp add: fraction_of_def f64_div_def f64_of_max)
qed

lemma switch_six_is_rare:
  assumes "u64_arbitrary d u = (Inr v, u')" "unat v < 2 ^ 64 - 2 ^ 10"
  shows "\<exists>s. random_range d u 1 6 = Ret (s, u') \<and> unat s \<le> 5"
proof -
  let ?x = "5 * fraction_of v"
  have five: "f64_of_usize 5 = 5" using f64_round_exact [of 5] by (simp add: f64_of_usize_def)
  have x: "0 \<le> ?x" "?x \<le> 5 - 5 / 2 ^ 53"
    using fraction_of_bounds(1) [of v] almost_one [OF assms(2)] by simp_all
  have "f64_round ?x \<le> of_int (5 * 2 ^ 50 - 1) * 2 powi (- 50)"
  proof (cases "?x = 0")
    case False
    with x(1) have "0 < ?x" by simp
    then show ?thesis using x(2) by (rule_tac f64_round_less) simp_all
  qed (simp add: f64_round_def)
  then have y: "0 \<le> f64_mul 5 (fraction_of v)" "f64_mul 5 (fraction_of v) < 5"
    using f64_round_nonneg [OF x(1)] by (simp_all add: f64_mul_def)
  then have "\<lfloor>f64_mul 5 (fraction_of v)\<rfloor> \<le> 4" using floor_less_iff [of "f64_mul 5 (fraction_of v)" 5] by simp
  then have "unat (f64_to_usize (f64_mul 5 (fraction_of v))) \<le> 4"
    using y unat_f64_to_usize [of "f64_mul 5 (fraction_of v)"] by (simp add: nat_le_iff)
  then show ?thesis
    using assms(1) five by (simp add: random_range_def unat_plus_one)
qed

section \<open>The sequential targets on a configuration\<close>

text \<open>
  The fuzz target \<open>const_grind\<close>: no assertion fails, whatever the instructions, and the queue holds what the
  mock queue holds.
\<close>

lemma const_grind_passes:
  assumes "switch \<in> {1, 2, 3, 4, 5, 6}" "64 + length (instructions grind) < 2 ^ 62"
  shows "\<exists>m q. const_grind switch grind w1 w2 = ret (m, q)
           \<and> bq_rep (2 ^ switch + length (instructions grind)) q (mq_queue m)"
proof -
  have s: "switch \<le> 60" "2 ^ switch \<le> (64 :: nat)" and sw: "(push_bit switch 1 :: usize) = 2 ^ switch"
    using assms(1) by auto
  obtain q :: "usize bounded_queue" where q: "const_queue (2 ^ switch) w1 w2 = Ret q" "bq_open_rep (2 ^ switch) q []"
      "bq_cap q = 2 ^ switch"
    using fresh_bounded_queue [OF s(1)] by blast
  have size: "unat (drop_bit 1 ((2 :: usize) ^ switch * 2)) = 2 ^ switch"
    using drop_bit_two_power [of switch] unat_two_power [of switch] s(1)
    by (simp add: mult.commute del: power_Suc flip: power_Suc)
  have "\<exists>m q'. grind_loop bq_enqueue bq_dequeue (instructions grind) (mock_new (drop_bit 1 (2 ^ switch * 2))) q
      = ret (m, q') \<and> bq_open_rep (2 ^ switch + length (instructions grind)) q' (mq_queue m)"
    using bqg.grind_agrees [of "2 ^ switch" q "mock_new (drop_bit 1 (2 ^ switch * 2))" "instructions grind"]
      q(2,3) size s(2) assms(2) by (auto simp: mock_new_def)
  then show ?thesis
    using assms(1) q(1) unfolding const_grind_def sw by (auto simp: fuzz_queue_def bq_open_rep_def)
qed

text \<open>The fuzz target \<open>scq_grind\<close>.\<close>

lemma scq_grind_passes:
  assumes "grind_order grind = 2 ^ k" "k \<le> 60" "2 ^ k + length (instructions grind) < 2 ^ 62"
  shows "\<exists>m q. scq_grind grind w1 w2 = ret (m, q)
           \<and> bq_rep (2 ^ k + length (instructions grind)) q (mq_queue m)"
proof -
  obtain q :: "usize bounded_queue" where q: "new_alloc 0 (2 ^ k) w1 w2 = Ret q" "bq_open_rep (2 ^ k) q []"
      "bq_cap q = 2 ^ k"
    using fresh_bounded_queue [OF assms(2)] by blast
  have "\<exists>m q'. grind_loop bq_enqueue bq_dequeue (instructions grind) (mock_new (2 ^ k)) q = ret (m, q')
      \<and> bq_open_rep (2 ^ k + length (instructions grind)) q' (mq_queue m)"
    using assms(2,3) q(2,3) by (intro bqg.grind_agrees) (auto simp: mock_new_def unat_two_power)
  then show ?thesis
    using q(1) assms(1) by (auto simp: scq_grind_def bq_open_rep_def)
qed

text \<open>The fuzz target \<open>lscq_grind\<close>.\<close>

lemma lscq_grind_passes:
  assumes "grind_order grind = 2 ^ k" "k \<le> 60"
    and "2 ^ k + length (instructions grind) * (2 * 2 ^ k + 2) < 2 ^ 62"
  shows "\<exists>m q. lscq_grind grind w = ret (m, q)
           \<and> ub_rep (2 ^ k + length (instructions grind) * (2 * 2 ^ k + 2)) q (mq_queue m)"
proof -
  obtain q :: "usize unbounded_queue" where q: "with_segment_size (2 ^ k) w = Ret q" "ub_rep (2 ^ k) q []"
      "base_segment_capacity q = 2 ^ k"
    using with_segment_size_rep [OF assms(2)] by blast
  have cost: "ub_cost q = 2 * 2 ^ k + 2"
    using q(3) assms(2) by (simp add: ub_cost_def base_segment_capacity_def unat_two_power)
  have "\<exists>m q'. stream_grind_loop unbounded_enqueue unbounded_dequeue (instructions grind) (mock_new (2 ^ k)) q
        = ret (m, q')
      \<and> ub_rep (2 ^ k + length (instructions grind) * ub_cost q) q' (mq_queue m)"
    using assms(3) q(2) cost by (intro ubg.grind_agrees) (auto simp: mock_new_def)
  then show ?thesis
    using q(1) assms(1) cost by (auto simp: lscq_grind_def)
qed

section \<open>The targets pass\<close>

text \<open>
  What the targets rely on: decoding a value never fails (\<open>arbitrary\<close> pads with zeros when the bytes run
  out), and there are not more instructions than bytes in an input.
\<close>

definition decoder_ok :: "('u, 'e) arbitrary_values \<Rightarrow> bool" where
  "decoder_ok d \<longleftrightarrow> (\<forall>u. (\<exists>v u'. usize_arbitrary d u = (Inr v, u')) \<and> (\<exists>v u'. u64_arbitrary d u = (Inr v, u'))
     \<and> (\<exists>instrs u'. instrs_arbitrary d u = (Inr instrs, u') \<and> length instrs < 2 ^ 44))"

lemma decoder_okD:
  assumes "decoder_ok d"
  shows "\<exists>v u'. usize_arbitrary d u = (Inr v, u')" "\<exists>v u'. u64_arbitrary d u = (Inr v, u')"
    "\<exists>instrs u'. instrs_arbitrary d u = (Inr instrs, u') \<and> length instrs < 2 ^ 44"
  using assms by (simp_all only: decoder_ok_def)

lemma decoded_grind:
  assumes "decoder_ok d"
  obtains grind u' k where "configure_grind d u = Ret (grind, u')" "grind_order grind = 2 ^ k" "1 \<le> k" "k \<le> 15"
    "length (instructions grind) < 2 ^ 44"
proof -
  obtain v u1 where v: "usize_arbitrary d u = (Inr v, u1)"
    using decoder_okD(1) [OF assms] by blast
  obtain instrs u2 where i: "instrs_arbitrary d u1 = (Inr instrs, u2)" "length instrs < 2 ^ 44"
    using decoder_okD(3) [OF assms] by blast
  obtain grind where g: "configure_grind d u = Ret (grind, u2)" "instructions grind = instrs"
    using v i by (simp add: configure_grind_def Let_def)
  from configure_grind_order [OF g(1)] g i that show ?thesis by blast
qed

lemma decoded_range:
  assumes "decoder_ok d" "unat mn \<le> unat mx" "unat mx < 2 ^ 53"
  obtains r u' where "random_range d u mn mx = Ret (r, u')" "unat mn \<le> unat r" "unat r \<le> unat mx"
proof -
  obtain v u1 where "u64_arbitrary d u = (Inr v, u1)"
    using decoder_okD(2) [OF assms(1)] by blast
  then obtain r where r: "random_range d u mn mx = Ret (r, u1)"
    by (simp add: random_range_def)
  with random_range_bounds [OF r assms(2,3)] that show ?thesis by blast
qed

text \<open>
  C33. The fuzz targets \<open>const_grind\<close>, \<open>scq_grind\<close> and \<open>lscq_grind\<close> pass on every input: \<open>configure_grind\<close>
  and \<open>random_range\<close>, with their floating-point arithmetic, always give a size the constructors accept
  and an arm of \<open>generate_switch!\<close>, no assertion fails, and what is left in the queue is what is left in
  the mock queue.
\<close>

theorem fuzz_targets_pass:
  assumes "decoder_ok d"
  shows "(\<exists>m q c. const_grind_target d u w1 w2 = ret (m, q) \<and> bq_rep c q (mq_queue m))
    \<and> (\<exists>m q c. scq_grind_target d u w1 w2 = ret (m, q) \<and> bq_rep c q (mq_queue m))
    \<and> (\<exists>m q c. lscq_grind_target d u w = ret (m, q) \<and> ub_rep c q (mq_queue m))"
proof (intro conjI)
  obtain switch u1 where switch: "random_range d u 1 6 = Ret (switch, u1)" "1 \<le> unat switch" "unat switch \<le> 6"
    using decoded_range [OF assms, of 1 6 u] by auto
  obtain g u2 k where g: "configure_grind d u1 = Ret (g, u2)" "grind_order g = 2 ^ k"
      "1 \<le> k" "k \<le> 15" "length (instructions g) < 2 ^ 44"
    by (rule decoded_grind [OF assms])
  have "unat switch \<in> {1, 2, 3, 4, 5, 6}" using switch(2,3) by auto
  with g(5) have "\<exists>m q. const_grind (unat switch) g w1 w2 = ret (m, q)
      \<and> bq_rep (2 ^ unat switch + length (instructions g)) q (mq_queue m)"
    by (intro const_grind_passes) simp_all
  with switch(1) g(1) show "\<exists>m q c. const_grind_target d u w1 w2 = ret (m, q) \<and> bq_rep c q (mq_queue m)"
    by (auto simp: const_grind_target_def)
next
  obtain g u1 k where g: "configure_grind d u = Ret (g, u1)" "grind_order g = 2 ^ k"
      "1 \<le> k" "k \<le> 15" "length (instructions g) < 2 ^ 44"
    by (rule decoded_grind [OF assms])
  have k: "(2 :: nat) ^ k \<le> 2 ^ 15" using g(4) by (intro power_increasing) simp_all
  with scq_grind_passes [OF g(2), of w1 w2] g
  show "\<exists>m q c. scq_grind_target d u w1 w2 = ret (m, q) \<and> bq_rep c q (mq_queue m)"
    by (auto simp: scq_grind_target_def)
  have "length (instructions g) * (2 * 2 ^ k + 2) \<le> 2 ^ 44 * (2 * 2 ^ 15 + 2)"
    using g(5) k by (intro mult_le_mono) simp_all
  with k have "2 ^ k + length (instructions g) * (2 * 2 ^ k + 2) < 2 ^ 62" by simp
  with lscq_grind_passes [OF g(2), of w] g
  show "\<exists>m q c. lscq_grind_target d u w = ret (m, q) \<and> ub_rep c q (mq_queue m)"
    by (auto simp: lscq_grind_target_def)
qed

text \<open>A decoder that reads words, and two instructions at a time.\<close>

definition word_values :: "(usize list, unit) arbitrary_values" where
  "word_values = \<lparr>
     usize_arbitrary = (\<lambda>ws. (Inr (if ws = [] then 0 else hd ws), drop 1 ws)),
     u64_arbitrary = (\<lambda>ws. (Inr (if ws = [] then 0 else hd ws), drop 1 ws)),
     instrs_arbitrary = (\<lambda>ws. (Inr (map Enqueue (take 2 ws) @ [Dequeue]), drop 2 ws))\<rparr>"

lemma word_values_ok: "decoder_ok word_values"
proof -
  have "length (map Enqueue (take 2 ws) @ [Dequeue]) < 2 ^ 44" for ws
    using le_less_trans [of "Suc (min (length ws) 2)" 3 "2 ^ 44"] by simp
  then show ?thesis by (simp add: decoder_ok_def word_values_def)
qed

theorem fuzz_targets_pass_witness:
  "decoder_ok word_values \<and> (\<exists>m q c. const_grind_target word_values [2 ^ 63, 2 ^ 63, 7, 8] [] [True] = ret (m, q) \<and> bq_rep c q (mq_queue m))
     \<and> (\<exists>m q c. lscq_grind_target word_values [2 ^ 63, 7, 8] (\<lambda>_. ([], [True])) = ret (m, q) \<and> ub_rep c q (mq_queue m))"
  using fuzz_targets_pass [OF word_values_ok, of "[2 ^ 63, 2 ^ 63, 7, 8]" "[]" "[True]"]
    fuzz_targets_pass [OF word_values_ok, of "[2 ^ 63, 7, 8]" "[]" "[]" "\<lambda>_. ([], [True])"] word_values_ok by blast

text \<open>
  C36. The fuzz targets with threads, \<open>scq_grind_rt\<close> and \<open>lscq_grind_rt\<close>: on every input they start 1 to 150
  threads. Under every schedule of the single accesses of \<open>scq_grind_rt\<close> none panics or has undefined
  behaviour, and the values enqueued are, at every moment, those dequeued and those in the queue. Under every
  schedule of \<open>lscq_grind_rt\<close> in which a ring operation is one step none panics or touches memory that is
  not allocated.
\<close>

theorem fuzz_rt_targets_pass:
  assumes "decoder_ok d"
  shows "\<exists>grind u1 m u2. configure_grind d u = Ret (grind, u1) \<and> random_range d u1 1 150 = Ret (m, u2)
    \<and> 1 \<le> unat m \<and> unat m \<le> 150
    \<and> (\<forall>turns w1 w2. (\<forall>t\<in>set turns. t < unat m) \<and> length turns < 2 ^ 61 \<longrightarrow>
        (\<exists>s prog. scq_grind_rt_target d u turns w1 w2 = Ret (s, prog)
          \<and> (\<forall>t. queue_pcs s t \<noteq> QPanic \<and> queue_pcs s t \<noteq> QUndefined)
          \<and> stored_items (value_log s) = removed_items (value_log s) + queue_values s))
    \<and> (\<forall>ls w s prog. lscq_grind_rt_target d u ls w = Ret (Some (s, prog)) \<and> length ls < 2 ^ 44 \<longrightarrow>
        \<not> bad_access s \<and> (\<forall>t. sys_pc s t \<noteq> Crashed))"
proof -
  obtain g u1 k where g: "configure_grind d u = Ret (g, u1)" "grind_order g = 2 ^ k" "1 \<le> k" "k \<le> 15"
    by (rule decoded_grind [OF assms])
  obtain m u2 where m: "random_range d u1 1 150 = Ret (m, u2)" "1 \<le> unat m" "unat m \<le> 150"
    using decoded_range [OF assms, of 1 150 u1] by auto
  have k: "k \<le> 60" "(2 :: nat) ^ k \<le> 2 ^ 15" using g(4) power_increasing [of k 15 "2 :: nat"] by simp_all
  have "\<exists>s prog. scq_grind_rt_target d u turns w1 w2 = Ret (s, prog)
      \<and> (\<forall>t. queue_pcs s t \<noteq> QPanic \<and> queue_pcs s t \<noteq> QUndefined)
      \<and> stored_items (value_log s) = removed_items (value_log s) + queue_values s"
    if "\<forall>t\<in>set turns. t < unat m" "length turns < 2 ^ 61" for turns w1 w2
  proof -
    have "2 ^ k + length turns < 2 ^ 62" using k(2) that(2) by simp
    from scq_grind_rt_passes [OF g(2) k(1) that(1) this, of w1 w2] g(1) m(1) show ?thesis
      by (auto simp: scq_grind_rt_target_def)
  qed
  moreover have "\<not> bad_access s \<and> (\<forall>t. sys_pc s t \<noteq> Crashed)"
    if "lscq_grind_rt_target d u ls w = Ret (Some (s, prog))" "length ls < 2 ^ 44" for ls w s prog
  proof -
    have run: "lscq_grind_rt g (unat m) ls w = Ret (Some (s, prog))"
      using that(1) g(1) m(1) by (simp add: lscq_grind_rt_target_def)
    have "length ls * lscq_cost k \<le> 2 ^ 44 * (2 * 2 ^ 15 + 2)"
      unfolding lscq_cost_def using that(2) k(2) by (intro mult_le_mono) simp_all
    with k(2) have "2 ^ k + length ls * lscq_cost k < 2 ^ 62" by simp
    then show ?thesis
      using lscq_grind_rt_memory_safe [OF run] lscq_grind_rt_no_panic [OF run g(2) k(1)] by blast
  qed
  ultimately show ?thesis using g(1) m by blast
qed

text \<open>
  The greatest word asks for 150 threads, the word 0 for a queue of two slots. Threads 0 and 1 run the
  instructions to their end, on the bounded queue in turns, an access each, on the unbounded queue
  interleaved as well.
\<close>

lemma f64_zero: "f64_of_usize 0 = 0" "fraction_of 0 = 0" "f64_mul x 0 = 0"
  by (simp_all add: f64_of_usize_def fraction_of_def f64_div_def f64_mul_def f64_round_def)

lemma f64_max: "fraction_of (- 1) = 1" "f64_of_usize 149 = 149" "f64_mul 149 1 = 149"
proof -
  show "fraction_of (- 1) = 1"
    using f64_round_exact [of 1] unfolding fraction_of_def f64_div_def f64_of_max by simp
qed (use f64_round_exact [of 149] in \<open>simp_all add: f64_of_usize_def f64_mul_def\<close>)

definition two_and_one :: grind_configuration where
  "two_and_one = \<lparr>grind_order = 2, instructions = [Enqueue 4, Enqueue 5, Dequeue]\<rparr>"

lemma decoded_two_and_one:
  "configure_grind word_values [0, 4, 5, - 1] = Ret (two_and_one, [- 1])"
  "random_range word_values [- 1] 1 150 = Ret (150, [])"
  by (simp_all add: configure_grind_def random_range_def word_values_def two_and_one_def f64_zero f64_max
      f64_to_usize_def Let_def)

definition rt_turns :: "nat list" where
  "rt_turns = concat (replicate 60 [0, 1])"

lemma rt_run_two_and_one:
  "(case scq_grind_rt two_and_one 150 rt_turns [] [] of
      Ret (s, prog) \<Rightarrow> Some (queue_pcs s 0, queue_pcs s 1, prog 0, prog 1, value_log s)
    | _ \<Rightarrow> None)
   = Some (QDeqDone (Some 4), QDeqDone (Some 4), [], [], [Stored 0 0 4, Stored 1 1 4, Removed 0 0 4, Removed 1 1 4])"
  by code_simp

definition lscq_rt_schedule :: "usize lscq_label list" where
  "lscq_rt_schedule = [CallEnqueue 0 4, CallEnqueue 1 4] @ concat (replicate 7 [RunStep 0 0, RunStep 1 0])"

lemma lscq_rt_run_two_and_one:
  "(case lscq_grind_rt two_and_one 150 lscq_rt_schedule (\<lambda>_. ([], [])) of
      Ret (Some (s, prog)) \<Rightarrow> Some (history s, prog 0, prog 1) | _ \<Rightarrow> None)
   = Some ([EnqReturned 0 4, EnqReturned 1 4], [Enqueue 5, Dequeue], [Enqueue 5, Dequeue])"
  by code_simp

theorem fuzz_rt_targets_pass_witness:
  "(\<exists>s prog. scq_grind_rt_target word_values [0, 4, 5, - 1] rt_turns [] [] = Ret (s, prog)
      \<and> value_log s = [Stored 0 0 4, Stored 1 1 4, Removed 0 0 4, Removed 1 1 4] \<and> prog 0 = [] \<and> prog 1 = []
      \<and> (\<forall>t. queue_pcs s t \<noteq> QPanic \<and> queue_pcs s t \<noteq> QUndefined)
      \<and> stored_items (value_log s) = removed_items (value_log s) + queue_values s)
   \<and> (\<exists>s prog. lscq_grind_rt_target word_values [0, 4, 5, - 1] lscq_rt_schedule (\<lambda>_. ([], [])) = Ret (Some (s, prog))
      \<and> history s = [EnqReturned 0 4, EnqReturned 1 4] \<and> prog 0 = [Enqueue 5, Dequeue]
      \<and> \<not> bad_access s \<and> (\<forall>t. sys_pc s t \<noteq> Crashed))"
proof -
  have scq: "scq_grind_rt_target word_values [0, 4, 5, - 1] turns w1 w2 = scq_grind_rt two_and_one 150 turns w1 w2" for turns w1 w2
    by (simp add: scq_grind_rt_target_def decoded_two_and_one)
  have lscq: "lscq_grind_rt_target word_values [0, 4, 5, - 1] ls w = lscq_grind_rt two_and_one 150 ls w" for ls w
    by (simp add: lscq_grind_rt_target_def decoded_two_and_one)
  have turns: "\<forall>t\<in>set rt_turns. t < 150" "length rt_turns < 2 ^ 61" "length lscq_rt_schedule < 2 ^ 44"
    by (simp_all add: rt_turns_def lscq_rt_schedule_def length_concat sum_list_replicate)
  obtain g u1 n u2 where d: "configure_grind word_values [0, 4, 5, - 1] = Ret (g, u1)"
      "random_range word_values u1 1 150 = Ret (n, u2)"
    and on_scq: "\<forall>turns w1 w2. (\<forall>t\<in>set turns. t < unat n) \<and> length turns < 2 ^ 61 \<longrightarrow>
        (\<exists>s prog. scq_grind_rt_target word_values [0, 4, 5, - 1] turns w1 w2 = Ret (s, prog)
          \<and> (\<forall>t. queue_pcs s t \<noteq> QPanic \<and> queue_pcs s t \<noteq> QUndefined)
          \<and> stored_items (value_log s) = removed_items (value_log s) + queue_values s)"
    and on_lscq: "\<forall>ls w s prog. lscq_grind_rt_target word_values [0, 4, 5, - 1] ls w = Ret (Some (s, prog))
        \<and> length ls < 2 ^ 44 \<longrightarrow> \<not> bad_access s \<and> (\<forall>t. sys_pc s t \<noteq> Crashed)"
    using fuzz_rt_targets_pass [OF word_values_ok, of "[0, 4, 5, - 1]"] by blast
  have "unat n = 150" using d unfolding decoded_two_and_one by (auto simp: decoded_two_and_one)
  then have pass: "\<exists>s prog. scq_grind_rt_target word_values [0, 4, 5, - 1] rt_turns [] [] = Ret (s, prog)
      \<and> (\<forall>t. queue_pcs s t \<noteq> QPanic \<and> queue_pcs s t \<noteq> QUndefined)
      \<and> stored_items (value_log s) = removed_items (value_log s) + queue_values s"
    using on_scq turns(1,2) by metis
  obtain s prog where s: "scq_grind_rt_target word_values [0, 4, 5, - 1] rt_turns [] [] = Ret (s, prog)"
      "\<forall>t. queue_pcs s t \<noteq> QPanic \<and> queue_pcs s t \<noteq> QUndefined"
      "stored_items (value_log s) = removed_items (value_log s) + queue_values s"
    using pass by blast
  obtain s' prog' where s': "lscq_grind_rt_target word_values [0, 4, 5, - 1] lscq_rt_schedule (\<lambda>_. ([], [])) = Ret (Some (s', prog'))"
      "history s' = [EnqReturned 0 4, EnqReturned 1 4]" "prog' 0 = [Enqueue 5, Dequeue]"
    using lscq_rt_run_two_and_one unfolding lscq by (auto split: exec.splits option.splits prod.splits)
  have "\<not> bad_access s'" "\<forall>t. sys_pc s' t \<noteq> Crashed"
    using on_lscq s'(1) turns(3) by blast+
  moreover have "value_log s = [Stored 0 0 4, Stored 1 1 4, Removed 0 0 4, Removed 1 1 4]" "prog 0 = []" "prog 1 = []"
    using rt_run_two_and_one s(1) unfolding scq by simp_all
  ultimately show ?thesis using s s' by blast
qed

end
