(* ===== verification/CountedConc.thy ===== *)
theory CountedConc
  imports LscqValues
begin

text \<open>
  The counted queue of \<open>src/lfstd.rs\<close> under concurrency: the counter is increased before the list is entered
  and decreased after it is left. A step is an access of the counter or a step of the list in \<open>LscqConc\<close>.
\<close>

section \<open>The model\<close>

text \<open>A thread has counted a value and calls \<open>enqueue\<close>; is inside the list; has a value to take off the count.\<close>

datatype 'a counted_pc = CIdle | CCall 'a | CInside | CSub 'a

record 'a counted_sys =
  inner_list :: "'a lscq_sys"
  len_counter :: usize
  counted_pcs :: "nat \<Rightarrow> 'a counted_pc"

definition counted_start :: "nat \<Rightarrow> 'a lscq \<Rightarrow> 'a counted_sys" where
  "counted_start m q = \<lparr>inner_list = lscq_start m q, len_counter = 0, counted_pcs = (\<lambda>_. CIdle)\<rparr>"

text \<open>Where a thread is when the list has logged the events \<open>es\<close>: still inside, or what the call returned.\<close>

fun counted_after :: "'a lscq_event list \<Rightarrow> 'a counted_pc" where
  "counted_after [] = CInside"
| "counted_after (EnqReturned t x # es) = CIdle"
| "counted_after (DeqReturned t None # es) = CIdle"
| "counted_after (DeqReturned t (Some x) # es) = CSub x"

datatype 'a counted_label = BeginEnqueue nat 'a | BeginDequeue nat | Move nat nat | InDomain "'a lscq_label"

definition enter_list ::
  "nat \<Rightarrow> 'a counted_pc \<Rightarrow> 'a lscq_label \<Rightarrow> 'a counted_sys \<Rightarrow> 'a counted_sys option"
where
  "enter_list t p l s = map_option (\<lambda>x. s\<lparr>inner_list := x, counted_pcs := (counted_pcs s)(t := p)\<rparr>)
     (lscq_step l (inner_list s))"

definition counted_move :: "nat \<Rightarrow> nat \<Rightarrow> 'a counted_sys \<Rightarrow> 'a counted_sys option" where
  "counted_move t b s =
     (case counted_pcs s t of
        CIdle \<Rightarrow> None
      | CCall x \<Rightarrow> enter_list t CInside (CallEnqueue t x) s
      | CInside \<Rightarrow>
          (case lscq_step (RunStep t b) (inner_list s) of
             None \<Rightarrow> None
           | Some x \<Rightarrow> Some (s\<lparr>inner_list := x, counted_pcs := (counted_pcs s)
               (t := counted_after (drop (length (history (inner_list s))) (history x)))\<rparr>))
      | CSub x \<Rightarrow> Some (s\<lparr>len_counter := len_counter s - 1, counted_pcs := (counted_pcs s)(t := CIdle)\<rparr>))"

fun counted_step :: "'a counted_label \<Rightarrow> 'a counted_sys \<Rightarrow> 'a counted_sys option" where
  "counted_step (BeginEnqueue t x) s =
     (if t < participants (inner_list s) \<and> counted_pcs s t = CIdle
      then Some (s\<lparr>len_counter := len_counter s + 1, counted_pcs := (counted_pcs s)(t := CCall x)\<rparr>)
      else None)"
| "counted_step (BeginDequeue t) s =
     (if t < participants (inner_list s) \<and> counted_pcs s t = CIdle
      then enter_list t CInside (CallDequeue t) s else None)"
| "counted_step (Move t b) s = (if t < participants (inner_list s) then counted_move t b s else None)"
| "counted_step (InDomain (Release t)) s = map_option (\<lambda>x. s\<lparr>inner_list := x\<rparr>) (lscq_step (Release t) (inner_list s))"
| "counted_step (InDomain (Reclaim a)) s = map_option (\<lambda>x. s\<lparr>inner_list := x\<rparr>) (lscq_step (Reclaim a) (inner_list s))"
| "counted_step (InDomain l) s = None"

fun counted_run :: "'a counted_label list \<Rightarrow> 'a counted_sys \<Rightarrow> 'a counted_sys option" where
  "counted_run [] s = Some s"
| "counted_run (l # ls) s = (case counted_step l s of None \<Rightarrow> None | Some s' \<Rightarrow> counted_run ls s')"

section \<open>What the list logs\<close>

text \<open>A step of a thread logs an event exactly when its operation ends.\<close>

lemma thread_step_history:
  assumes "thread_step t b s = Some s'"
  shows "(history s' = history s \<and> sys_pc s' = (sys_pc s)(t := sys_pc s' t))
    \<or> (\<exists>e. history s' = history s @ [e] \<and> sys_pc s' = (sys_pc s)(t := LIdle))"
  using assms
  by (cases "sys_pc s t") (auto simp: thread_step_defs at_pc_def log_event_def on_q_def split: step_splits)

section \<open>The invariant of the counter\<close>

fun uncounted :: "'a counted_pc \<Rightarrow> nat" where
  "uncounted (CCall x) = 1" | "uncounted (CSub x) = 1" | "uncounted _ = 0"

definition pending :: "'a counted_sys \<Rightarrow> nat" where
  "pending s = (\<Sum>t<participants (inner_list s). uncounted (counted_pcs s t))"

lemma pending_moved:
  assumes "counted_pcs s' = (counted_pcs s)(t := p)" "participants (inner_list s') = participants (inner_list s)"
    and "t < participants (inner_list s)"
  shows "pending s' + uncounted (counted_pcs s t) = pending s + uncounted p"
  using sum_fun_upd [OF assms(3), of uncounted "counted_pcs s" p] by (simp add: pending_def assms(1,2))

abbreviation taken :: "'a counted_sys \<Rightarrow> nat" where
  "taken s \<equiv> size (dequeued (history (inner_list s)))"

text \<open>\<open>N\<close> is the number the counter stands for, after \<open>j\<close> steps.\<close>

definition count_inv :: "nat \<Rightarrow> nat \<Rightarrow> nat \<Rightarrow> 'a multiset \<Rightarrow> nat list \<Rightarrow> nat \<Rightarrow> 'a counted_sys \<Rightarrow> bool" where
  "count_inv c k j V as N s \<longleftrightarrow> lscq_values c k V (inner_list s) \<and> lscq_safe as (inner_list s)
     \<and> len_counter s = of_nat N \<and> N + taken s = size V + pending s \<and> N \<le> j
     \<and> (\<forall>t. counted_pcs s t \<noteq> CInside \<longrightarrow> sys_pc (inner_list s) t = LIdle)"

definition counted_ok :: "nat \<Rightarrow> nat \<Rightarrow> nat \<Rightarrow> 'a counted_sys \<Rightarrow> bool" where
  "counted_ok c k j s \<longleftrightarrow> (\<exists>V as N. count_inv c k j V as N s)"

lemma count_parts:
  assumes "count_inv c k j V as N s"
  shows "lscq_values c k V (inner_list s)" "lscq_safe as (inner_list s)" "len_counter s = of_nat N"
    "N + taken s = size V + pending s" "N \<le> j" "counted_pcs s t \<noteq> CInside \<Longrightarrow> sys_pc (inner_list s) t = LIdle"
  using assms unfolding count_inv_def by blast+

text \<open>Values are not taken that were not handed in, so the number is at least that of the pending updates.\<close>

lemma count_pending: "count_inv c k j V as N s \<Longrightarrow> taken s \<le> size V \<and> pending s \<le> N"
proof -
  assume inv: "count_inv c k j V as N s"
  have "size V = taken s + (length (reclaimed_values (inner_list s)) + size (among carried (inner_list s))
      + size (stored_values (inner_list s)))"
    using arg_cong [OF values_parts(7) [OF count_parts(1) [OF inv]], of size] by simp
  then show ?thesis using count_parts(4) [OF inv] by simp
qed

text \<open>A thread moves; the list has or has not taken a step.\<close>

lemma count_moved:
  assumes inv: "count_inv c k j V as N s"
    and inner: "lscq_values c' k V' (inner_list s')" "lscq_safe as' (inner_list s')"
    and t: "t < participants (inner_list s)" "participants (inner_list s') = participants (inner_list s)"
      "counted_pcs s' = (counted_pcs s)(t := p)"
    and N: "len_counter s' = of_nat N'" "N' \<le> j'"
      "N' + taken s' + size V + uncounted (counted_pcs s t) = N + taken s + size V' + uncounted p"
    and rest: "p \<noteq> CInside \<Longrightarrow> sys_pc (inner_list s') t = LIdle"
      "\<And>u. u \<noteq> t \<Longrightarrow> sys_pc (inner_list s') u = sys_pc (inner_list s) u"
  shows "counted_ok c' k j' s'"
proof -
  have "N' + taken s' = size V' + pending s'"
    using count_parts(4) [OF inv] N(3) pending_moved [OF t(3,2,1)] by linarith
  moreover have "sys_pc (inner_list s') u = LIdle" if "counted_pcs s' u \<noteq> CInside" for u
    using that rest count_parts(6) [OF inv, of u] t(3) by (cases "u = t") auto
  ultimately show ?thesis
    using inner N(1,2) unfolding counted_ok_def count_inv_def by blast
qed

section \<open>Every step\<close>

lemma enter_counts:
  assumes inv: "count_inv c k j V as N s" and c: "c + lscq_cost k < 2 ^ 62" and t: "t < participants (inner_list s)"
    and enter: "enter_list t CInside l s = Some s'" and l: "l = CallDequeue t \<and> counted_pcs s t = CIdle
      \<or> l = CallEnqueue t x \<and> counted_pcs s t = CCall x"
  shows "counted_ok (c + lscq_cost k) k (Suc j) s'"
proof -
  note parts = count_parts [OF inv]
  obtain y where y: "lscq_step l (inner_list s) = Some y"
      "s' = s\<lparr>inner_list := y, counted_pcs := (counted_pcs s)(t := CInside)\<rparr>"
    using enter by (auto simp: enter_list_def)
  obtain as' where safe: "lscq_safe as' y" using safe_step [OF parts(2) y(1)] by blast
  have "history y = history (inner_list s)" "\<And>u. u \<noteq> t \<Longrightarrow> sys_pc y u = sys_pc (inner_list s) u"
    using y(1) l by (auto simp: at_pc_def split: if_splits)
  note same = this
  show ?thesis
    by (rule count_moved [OF inv _ _ t, where s' = s' and V' = "V + called [l]" and N' = N and p = CInside and as' = as'])
      (use values_label [OF parts(1) c parts(2) y(1)] safe l same lscq_step_participants [OF y(1)] parts(3,5)
        in \<open>auto simp: y(2)\<close>)
qed

lemma inside_counts:
  assumes inv: "count_inv c k j V as N s" and c: "c + lscq_cost k < 2 ^ 62" and t: "t < participants (inner_list s)"
    and p: "counted_pcs s t = CInside" and move: "counted_move t b s = Some s'"
  shows "counted_ok (c + lscq_cost k) k (Suc j) s'"
proof -
  note parts = count_parts [OF inv]
  obtain y where y: "lscq_step (RunStep t b) (inner_list s) = Some y"
      "s' = s\<lparr>inner_list := y, counted_pcs := (counted_pcs s)
        (t := counted_after (drop (length (history (inner_list s))) (history y)))\<rparr>"
    using move p by (auto simp: counted_move_def split: option.splits)
  obtain as' where safe: "lscq_safe as' y" using safe_step [OF parts(2) y(1)] by blast
  have run: "thread_step t b (inner_list s) = Some y" using y(1) by (simp split: if_splits)
  note facts = values_label [OF parts(1) c parts(2) y(1)] safe lscq_step_participants [OF y(1)] parts(3,5) p
  from thread_step_history [OF run] show ?thesis
  proof (elim disjE exE conjE)
    assume h: "history y = history (inner_list s)" "sys_pc y = (sys_pc (inner_list s))(t := sys_pc y t)"
    have "sys_pc y u = sys_pc (inner_list s) u" if "u \<noteq> t" for u using that h(2) by (metis fun_upd_other)
    then show ?thesis
      by (intro count_moved [OF inv _ _ t, where s' = s' and V' = V and N' = N and p = CInside and as' = as'])
        (use facts h(1) in \<open>auto simp: y(2)\<close>)
  next
    fix e assume h: "history y = history (inner_list s) @ [e]" "sys_pc y = (sys_pc (inner_list s))(t := LIdle)"
    have "uncounted (counted_after [e]) = size (dequeued [e])" by (cases "[e]" rule: counted_after.cases) auto
    then show ?thesis
      by (intro count_moved [OF inv _ _ t, where s' = s' and V' = V and N' = N and p = "counted_after [e]" and as' = as'])
        (use facts h in \<open>auto simp: y(2)\<close>)
  qed
qed

lemma local_counts:
  assumes inv: "count_inv c k j V as N s" and c: "c + lscq_cost k < 2 ^ 62" and t: "t < participants (inner_list s)"
  shows "counted_pcs s t = CIdle \<Longrightarrow> counted_ok (c + lscq_cost k) k (Suc j)
      (s\<lparr>len_counter := len_counter s + 1, counted_pcs := (counted_pcs s)(t := CCall x)\<rparr>)"
    and "counted_pcs s t = CSub x \<Longrightarrow> counted_ok (c + lscq_cost k) k (Suc j)
      (s\<lparr>len_counter := len_counter s - 1, counted_pcs := (counted_pcs s)(t := CIdle)\<rparr>)"
proof -
  note parts = count_parts [OF inv]
  have later: "lscq_values (c + lscq_cost k) k V (inner_list s)"
    by (rule values_view [OF parts(1) le_add1 c]) simp_all
  show "counted_ok (c + lscq_cost k) k (Suc j)
      (s\<lparr>len_counter := len_counter s + 1, counted_pcs := (counted_pcs s)(t := CCall x)\<rparr>)" if "counted_pcs s t = CIdle"
    by (rule count_moved [OF inv, where t = t and p = "CCall x" and N' = "Suc N" and V' = V])
      (use later parts t that in auto)
  show "counted_ok (c + lscq_cost k) k (Suc j)
      (s\<lparr>len_counter := len_counter s - 1, counted_pcs := (counted_pcs s)(t := CIdle)\<rparr>)" if "counted_pcs s t = CSub x"
  proof -
    have "pending s = 1 + (\<Sum>u\<in>{..<participants (inner_list s)} - {t}. uncounted (counted_pcs s u))"
      unfolding pending_def using t that sum.remove [of "{..<participants (inner_list s)}" t "\<lambda>u. uncounted (counted_pcs s u)"]
      by simp
    then obtain N' where N': "N = Suc N'" using count_pending [OF inv] by (cases N) auto
    show ?thesis
      by (rule count_moved [OF inv, where t = t and p = CIdle and N' = N' and V' = V])
        (use later parts t that N' in auto)
  qed
qed

lemma domain_counts:
  assumes inv: "count_inv c k j V as N s" and c: "c + lscq_cost k < 2 ^ 62"
    and l: "l = Release t \<or> l = Reclaim a" and step: "lscq_step l (inner_list s) = Some y"
  shows "counted_ok (c + lscq_cost k) k (Suc j) (s\<lparr>inner_list := y\<rparr>)"
proof -
  note parts = count_parts [OF inv]
  obtain as' where safe: "lscq_safe as' y" using safe_step [OF parts(2) step] by blast
  have same: "sys_pc y = sys_pc (inner_list s)" "history y = history (inner_list s)"
    using l step by (auto simp: reclaim_def with_node_def on_q_def split: step_splits)
  have "lscq_values (c + lscq_cost k) k V y"
    using values_label [OF parts(1) c parts(2) step] l by auto
  then have "count_inv (c + lscq_cost k) k (Suc j) V as' N (s\<lparr>inner_list := y\<rparr>)"
    using safe parts lscq_step_participants [OF step] by (simp add: count_inv_def pending_def same)
  then show ?thesis by (auto simp: counted_ok_def)
qed

theorem counted_step_ok:
  assumes ok: "counted_ok c k j s" and c: "c + lscq_cost k < 2 ^ 62" and step: "counted_step l s = Some s'"
  shows "counted_ok (c + lscq_cost k) k (Suc j) s'"
proof -
  obtain V as N where inv: "count_inv c k j V as N s" using ok by (auto simp: counted_ok_def)
  show ?thesis
  proof (cases l)
    case (BeginEnqueue t x)
    then show ?thesis using step local_counts(1) [OF inv c] by (auto split: if_splits)
  next
    case (BeginDequeue t)
    then show ?thesis using step enter_counts [OF inv c, of t] by (auto split: if_splits)
  next
    case (Move t b)
    then have t: "t < participants (inner_list s)" and move: "counted_move t b s = Some s'"
      using step by (simp_all split: if_splits)
    then show ?thesis
      using enter_counts [OF inv c t] local_counts(2) [OF inv c t] inside_counts [OF inv c t _ move]
      by (cases "counted_pcs s t") (simp_all add: counted_move_def)
  next
    case (InDomain m)
    then obtain y where "lscq_step m (inner_list s) = Some y" "s' = s\<lparr>inner_list := y\<rparr>"
        "(\<exists>t. m = Release t) \<or> (\<exists>a. m = Reclaim a)"
      using step by (cases m) (auto simp del: lscq_step.simps)
    then show ?thesis using domain_counts [OF inv c] by blast
  qed
qed

theorem counted_run_ok:
  assumes "counted_run ls s = Some s'" "counted_ok c k j s" "c + length ls * lscq_cost k < 2 ^ 62"
  shows "counted_ok (c + length ls * lscq_cost k) k (j + length ls) s'"
  using assms
proof (induction ls arbitrary: s c j)
  case (Cons l ls)
  then obtain s1 where s1: "counted_step l s = Some s1" "counted_run ls s1 = Some s'"
    by (auto split: option.splits)
  have "c + lscq_cost k < 2 ^ 62" using Cons.prems(3) by simp
  from Cons.IH [OF s1(2) counted_step_ok [OF Cons.prems(2) this s1(1)]] Cons.prems(3)
  show ?case by (simp add: add.assoc)
qed simp

lemma counted_start_ok:
  assumes q: "lscq_new (2 ^ k) w = Ret q" and k: "k \<le> 60"
  shows "counted_ok (2 ^ k) k 0 (counted_start m q)"
proof -
  have "pending (counted_start m q) = 0" "taken (counted_start m q) = 0"
    by (simp_all add: pending_def counted_start_def lscq_start_def)
  then have "count_inv (2 ^ k) k 0 {#} [0] 0 (counted_start m q)"
    using values_start [OF q k, of m] safe_start [OF q, of m]
    by (simp add: count_inv_def counted_start_def) (simp add: lscq_start_def)
  then show ?thesis by (auto simp: counted_ok_def)
qed

section \<open>What the counter says\<close>

lemma counted_exact:
  assumes "counted_ok c k j s" "j < 2 ^ 64"
  shows "unat (len_counter s) = size (stored_values (inner_list s)) + size (among carried (inner_list s))
      + length (reclaimed_values (inner_list s)) + pending s"
proof -
  obtain V as N where inv: "count_inv c k j V as N s" using assms(1) by (auto simp: counted_ok_def)
  note parts = count_parts [OF inv]
  have "unat (len_counter s) = N" using parts(3,5) assms(2) by (simp add: unat_of_nat_small)
  moreover have "size V = taken s + length (reclaimed_values (inner_list s)) + size (among carried (inner_list s))
      + size (stored_values (inner_list s))"
    using arg_cong [OF values_parts(7) [OF parts(1)], of size] by simp
  ultimately show ?thesis using parts(4) by simp
qed

lemma counted_rest:
  assumes "counted_ok c k j s" "\<forall>t. counted_pcs s t = CIdle"
  shows "pending s = 0" "among carried (inner_list s) = {#}"
proof -
  have "sys_pc (inner_list s) t = LIdle" for t
    using assms count_parts(6) by (fastforce simp: counted_ok_def)
  then show "pending s = 0" "among carried (inner_list s) = {#}"
    using assms(2) by (simp_all add: pending_def among_def)
qed

text \<open>A thread enqueues 7, another one has counted 8 and not called \<open>enqueue\<close> yet.\<close>

definition count_schedule :: "usize counted_label list" where
  "count_schedule = BeginEnqueue 0 7 # replicate 8 (Move 0 1) @ [BeginEnqueue 1 8]"

lemma count_schedule_run:
  "case lscq_new 2 (\<lambda>_. ([], [])) of
     Ret q \<Rightarrow> (case counted_run count_schedule (counted_start 2 q) of
        Some s \<Rightarrow> len_counter s = 2 \<and> counted_pcs s 0 = CIdle \<and> counted_pcs s 1 = CCall 8 \<and> reclaimed_values (inner_list s) = []
      | None \<Rightarrow> False)
   | _ \<Rightarrow> False"
  by code_simp

text \<open>
  C18. The counter of the counted queue under concurrency: whatever the interleaving of its accesses and of those
  of the list, a ring operation being one step, \<open>len\<close> is the number of
  values in the slots of the list and in the hands of its threads, of the calls that have counted and
  not yet entered the list, or left it and not yet uncounted, and of the values the list has lost with
  reclaimed nodes. So it never underflows, and when all threads are at rest it is the number of
  values stored, and of those lost: a lost value is counted for ever.
\<close>

theorem counted_concurrent_length:
  assumes "lscq_new (2 ^ k) w = Ret q" "k \<le> 60" "counted_run ls (counted_start m q) = Some s"
    and "2 ^ k + length ls * lscq_cost k < 2 ^ 62"
  shows "unat (len_counter s) = size (stored_values (inner_list s)) + size (among carried (inner_list s))
      + length (reclaimed_values (inner_list s)) + pending s
    \<and> ((\<forall>t. counted_pcs s t = CIdle) \<longrightarrow>
        unat (len_counter s) = size (stored_values (inner_list s)) + length (reclaimed_values (inner_list s)))"
proof -
  have ok: "counted_ok (2 ^ k + length ls * lscq_cost k) k (length ls) s"
    using counted_run_ok [OF assms(3) counted_start_ok [OF assms(1,2)] assms(4)] by simp
  have "length ls \<le> length ls * lscq_cost k" by (simp add: lscq_cost_def)
  also have "\<dots> < 2 ^ 62" by (rule le_less_trans [OF _ assms(4)]) simp
  finally have "length ls < 2 ^ 64" by simp
  then show ?thesis
    using counted_exact [OF ok] counted_rest [OF ok] by simp
qed

theorem counted_concurrent_length_witness:
  "\<exists>q s. lscq_new (2 ^ 1) (\<lambda>_. ([], [])) = Ret q \<and> counted_run count_schedule (counted_start 2 q) = Some s
     \<and> len_counter s = 2
     \<and> size (stored_values (inner_list s)) + size (among carried (inner_list s)) + pending s = 2"
proof -
  obtain q s where s: "lscq_new (2 ^ 1) (\<lambda>_. ([], [])) = Ret q" "counted_run count_schedule (counted_start 2 q) = Some s"
      "len_counter s = 2" "reclaimed_values (inner_list s) = []"
    using count_schedule_run by (auto split: exec.splits option.splits)
  have "2 ^ 1 + length count_schedule * lscq_cost 1 < 2 ^ 62" by (simp add: count_schedule_def lscq_cost_def)
  from counted_concurrent_length [OF s(1) _ s(2) this] s show ?thesis by auto
qed

end
