(* ===== verification/Errors.thy ===== *)
theory Errors
  imports BoundedQueue
begin

text \<open>
  The texts of the two error types of \<open>src/scq.rs\<close>: their \<open>Display\<close> and the methods of
  \<open>core::error::Error\<close>. No error has a cause or a source.
\<close>

fun scq_error_display :: "scq_error \<Rightarrow> string" where
  "scq_error_display IndexLargerThanOrder = ''IndexLargerThanOrder''"
| "scq_error_display scq_error.QueueFinalized = ''QueueFinalized''"

fun scq_error_description :: "scq_error \<Rightarrow> string" where
  "scq_error_description IndexLargerThanOrder = ''The entry provided was greater or equal than 2 ^ order.''"
| "scq_error_description scq_error.QueueFinalized = ''Attempted to insert an entry but the queue was finalized.''"

fun queue_error_display :: "queue_error \<Rightarrow> string" where
  "queue_error_display QueueFull = ''QueueFull''"
| "queue_error_display queue_error.QueueFinalized = ''QueueFinalized''"

fun queue_error_description :: "queue_error \<Rightarrow> string" where
  "queue_error_description QueueFull = ''The queue is full of elements.''"
| "queue_error_description queue_error.QueueFinalized
     = ''The queue was finalized and no more elements may be inserted.''"

text \<open>\<open>cause\<close> and \<open>source\<close>, with \<open>unit\<close> for the error object.\<close>

definition scq_error_source :: "scq_error \<Rightarrow> unit option" where
  "scq_error_source e = None"

definition queue_error_source :: "queue_error \<Rightarrow> unit option" where
  "queue_error_source e = None"

text \<open>A reader can tell the errors apart by either text.\<close>

lemma inj_scq_error: "f IndexLargerThanOrder \<noteq> f scq_error.QueueFinalized \<Longrightarrow> inj f"
  by (rule injI) (metis scq_error.exhaust)

lemma inj_queue_error: "f QueueFull \<noteq> f queue_error.QueueFinalized \<Longrightarrow> inj f"
  by (rule injI) (metis queue_error.exhaust)

lemma error_texts_distinct:
  "inj scq_error_display" "inj scq_error_description" "inj queue_error_display" "inj queue_error_description"
  by (simp_all add: inj_scq_error inj_queue_error)

end
