(* ===== verification/LscqContents.thy ===== *)
theory LscqContents
  imports LscqValues
begin

text \<open>
  The values that wait in a node of the list of queues, oldest first, and what every access of
  \<open>enqueue_cycle\<close> and \<open>dequeue\<close> does to them: a store to the allocation ring adds the value at the end,
  a removal from it takes the first, everything else leaves them alone.
\<close>

section \<open>The values of a node\<close>

text \<open>The indices a ring gives when it is emptied.\<close>

fun drain :: "nat \<Rightarrow> scq_ring \<Rightarrow> usize list" where
  "drain 0 r = []"
| "drain (Suc m) r = (case ring_dequeue r of Some (Ret (Some i, r')) \<Rightarrow> i # drain m r' | _ \<Rightarrow> [])"

definition node_contents :: "'a bounded_queue \<Rightarrow> 'a list" where
  "node_contents v = map (\<lambda>i. the (backing v ! unat i)) (drain (ring_half (alloc_queue v)) (alloc_queue v))"

lemma drain_rep:
  assumes "ring_rep c r as" "Suc c < 2 ^ 62" "length as \<le> m"
  shows "drain m r = as"
  using assms
proof (induction m arbitrary: r as)
  case (Suc m)
  show ?case
  proof (cases as)
    case Nil
    then show ?thesis using scq.deq_none [of c r] Suc.prems by auto
  next
    case (Cons i as')
    then obtain r' where "ring_dequeue r = ret (Some i, r')" "ring_rep c r' as'"
      using scq.deq_some [of c r i as'] Suc.prems(1) by auto
    with Cons Suc.IH [of r' as'] Suc.prems show ?thesis by simp
  qed
qed simp

lemma contents_rep:
  assumes "ring_rep c (alloc_queue v) as" "Suc c < 2 ^ 62" "length as \<le> ring_half (alloc_queue v)"
  shows "node_contents v = map (\<lambda>i. the (backing v ! unat i)) as"
  using drain_rep [OF assms] by (simp add: node_contents_def)

lemma seg_contents:
  assumes "seg_inv c k v as fs E F u" "Suc c < 2 ^ 62"
  shows "node_contents v = map (\<lambda>i. the (backing v ! unat i)) as" "length as \<le> 2 ^ k"
proof -
  note s = seg_parts [OF assms(1)]
  show "length as \<le> 2 ^ k" using indices_length [OF s(7)] by simp
  then show "node_contents v = map (\<lambda>i. the (backing v ! unat i)) as"
    using s(1,4) assms(2) by (intro contents_rep) simp_all
qed

lemma contents_node:
  assumes "node_rep c k v vs" "Suc c < 2 ^ 62"
  shows "node_contents v = vs"
proof -
  obtain as fs where inv: "bq_inv c v as fs vs" using assms(1) by (auto simp: node_rep_def bq_rep_def)
  then have "node_contents v = map (\<lambda>i. the (backing v ! unat i)) as"
    using assms(2) by (intro contents_rep) (simp_all add: bq_inv_def)
  also have "\<dots> = map the (map (\<lambda>i. backing v ! unat i) as)" by simp
  also have "\<dots> = vs" using inv by (simp only: bq_inv_def) (simp add: comp_def)
  finally show ?thesis .
qed

section \<open>What an access does to them\<close>

lemma node_contents_cong: "alloc_queue v' = alloc_queue v \<Longrightarrow> backing v' = backing v \<Longrightarrow> node_contents v' = node_contents v"
  by (simp add: node_contents_def)

text \<open>A slot whose index is in the hands of a thread.\<close>

lemma contents_slot:
  assumes seg: "segment c k v E F u" and c: "Suc c < 2 ^ 62" and i: "i \<in># E + F"
  shows "node_contents (v\<lparr>backing := (backing v)[unat i := z]\<rparr>) = node_contents v"
proof -
  obtain as fs where inv: "seg_inv c k v as fs E F u" using seg by (auto simp: segment_def)
  note s = seg_parts [OF inv]
  have "add_mset i (E + F - {#i#}) = E + F" using i by (simp add: insert_DiffM)
  then have "add_mset i (mset as + mset fs + (E + F - {#i#})) = all_indices (2 ^ k)"
    using s(7) by (simp add: union_mset_add_mset_right [symmetric] add.assoc del: union_mset_add_mset_right)
  from index_place(3) [OF this segment_k [OF seg]] have out: "unat i \<noteq> unat j" if "j \<in> set as" for j
    using that by auto
  have "node_contents (v\<lparr>backing := (backing v)[unat i := z]\<rparr>)
      = map (\<lambda>j. the ((backing v)[unat i := z] ! unat j)) as"
    using contents_rep [of c "v\<lparr>backing := (backing v)[unat i := z]\<rparr>" as] s(1,4) seg_contents(2) [OF inv c] c by simp
  also have "\<dots> = map (\<lambda>j. the (backing v ! unat j)) as"
    using out by (intro map_cong) simp_all
  finally show ?thesis using seg_contents(1) [OF inv c] by simp
qed

lemma contents_store:
  assumes seg: "segment c k v E (add_mset i F) (Suc u)" and c: "Suc (c + 2 * 2 ^ k) < 2 ^ 62"
    and step: "ring_enqueue (alloc_queue v) i = ret (res, aq)"
  shows "node_contents (v\<lparr>alloc_queue := aq\<rparr>)
    = node_contents v @ (case res of Inl _ \<Rightarrow> [] | Inr _ \<Rightarrow> [the (backing v ! unat i)])"
proof -
  obtain as fs where inv: "seg_inv c k v as fs E (add_mset i F) (Suc u)" using seg by (auto simp: segment_def)
  note s = seg_parts [OF inv]
  have c1: "Suc c < 2 ^ 62" using c by simp
  have "add_mset i (mset as + mset fs + E + F) = all_indices (2 ^ k)" using s(7) by simp
  note place = index_place [OF this segment_k [OF seg]]
  have bounds: "length as < 2 * ring_half (alloc_queue v)" "unat i < ring_half (alloc_queue v)" "Suc (length as) \<le> 2 ^ k"
    using indices_length [OF s(7)] s(4) place(1) by simp_all
  note old = seg_contents(1) [OF inv c1]
  show ?thesis
  proof (cases "is_final (alloc_queue v)")
    case True
    then obtain aq' where "ring_enqueue (alloc_queue v) i = ret (Inl scq_error.QueueFinalized, aq')"
        "ring_rep (c + 2 * 2 ^ k) aq' as" "same_shape (alloc_queue v) aq'"
      using scq.enq_final [OF s(1) _ bounds(1,2)] s(4) c by auto
    then show ?thesis
      using contents_rep [of "c + 2 * 2 ^ k" "v\<lparr>alloc_queue := aq\<rparr>" as] step old c bounds(3) s(4)
        same_shape_facts [of "alloc_queue v" aq'] by auto
  next
    case False
    then obtain aq' where "ring_enqueue (alloc_queue v) i = ret (Inr (), aq')" "ring_rep (Suc c) aq' (as @ [i])"
        "same_shape (alloc_queue v) aq'"
      using scq.enq_ok [OF s(1) _ bounds(1,2) c1] by blast
    moreover have "Suc (Suc c) < 2 ^ 62" using c one_le_power [of "2 :: nat" k] by linarith
    ultimately show ?thesis
      using contents_rep [of "Suc c" "v\<lparr>alloc_queue := aq\<rparr>" "as @ [i]"] step old bounds(3) s(4)
        same_shape_facts [of "alloc_queue v" aq'] by auto
  qed
qed

lemma contents_take:
  assumes seg: "segment c k v E F u" and c: "Suc (Suc c) < 2 ^ 62"
    and step: "ring_dequeue (alloc_queue v) = ret (popt, aq)"
  shows "node_contents v
    = (case popt of None \<Rightarrow> [] | Some i \<Rightarrow> [the (backing v ! unat i)]) @ node_contents (v\<lparr>alloc_queue := aq\<rparr>)"
proof -
  obtain as fs where inv: "seg_inv c k v as fs E F u" using seg by (auto simp: segment_def)
  note s = seg_parts [OF inv]
  have c1: "Suc c < 2 ^ 62" using c by simp
  obtain aq' where aq: "ring_dequeue (alloc_queue v) = ret (case as of [] \<Rightarrow> None | i # _ \<Rightarrow> Some i, aq')"
      "ring_rep (Suc c) aq' (List.tl as)" "same_shape (alloc_queue v) aq'"
    using scq.deq_returns [OF s(1) c1] by blast
  have "node_contents (v\<lparr>alloc_queue := aq\<rparr>) = map (\<lambda>i. the (backing v ! unat i)) (List.tl as)"
    using contents_rep [of "Suc c" "v\<lparr>alloc_queue := aq\<rparr>" "List.tl as"] aq step c s(4) seg_contents(2) [OF inv c1]
      same_shape_facts [OF aq(3)] by simp
  then show ?thesis
    using seg_contents(1) [OF inv c1] aq(1) step by (cases as) auto
qed

lemma contents_seal:
  assumes seg: "segment c k v E F u" and c: "Suc c < 2 ^ 62"
  shows "node_contents (v\<lparr>alloc_queue := finalize (alloc_queue v)\<rparr>) = node_contents v"
    and "node_contents (store_threshold (retry_threshold v) v) = node_contents v"
proof -
  obtain as fs where inv: "seg_inv c k v as fs E F u" using seg by (auto simp: segment_def)
  note s = seg_parts [OF inv] and old = seg_contents [OF inv c]
  have half: "ring_half (finalize r) = ring_half r" "ring_half (r\<lparr>threshold := th\<rparr>) = ring_half r" for r th
    by (simp_all add: ring_half_def finalize_def)
  show "node_contents (v\<lparr>alloc_queue := finalize (alloc_queue v)\<rparr>) = node_contents v"
    using contents_rep [of c "v\<lparr>alloc_queue := finalize (alloc_queue v)\<rparr>" as] ring_rep_finalize [OF s(1)] old c s(4) half by simp
  have "0 \<le> sint (retry_threshold v)" by (rule retry_threshold_nonneg [OF ring_rep_wf [OF s(2)]])
  then show "node_contents (store_threshold (retry_threshold v) v) = node_contents v"
    using contents_rep [of c "store_threshold (retry_threshold v) v" as] ring_rep_threshold [OF s(1)] old c s(4) half
    by (simp add: store_threshold_def)
qed

text \<open>The indices in the hands of the threads are distinct.\<close>

lemma segment_hands:
  assumes seg: "segment c k v E F u" and hands: "E + F = add_mset i (add_mset j M)"
  shows "unat i \<noteq> unat j"
proof -
  obtain as fs where inv: "seg_inv c k v as fs E F u" using seg by (auto simp: segment_def)
  have "mset as + mset fs + (E + F) = all_indices (2 ^ k)"
    using seg_parts(7) [OF inv] by (simp add: add.assoc)
  then have "add_mset i (add_mset j (mset as + mset fs + M)) = all_indices (2 ^ k)"
    by (simp add: hands add.commute)
  from index_place(3) [OF this segment_k [OF seg]] show ?thesis by auto
qed

lemma hands_segment:
  assumes inv: "lscq_values c k V s" and node: "nodes (sys_q s) a = Some n" and t: "t < participants s"
    and p: "sys_pc s t = p" "node_at p = Some a"
  shows "segment c k (node_value n) (empties p + others (at_node a empties) t s)
    (fulls p + others (at_node a fulls) t s) (ahead p + others (at_node a ahead) t s)"
  using values_parts(6) [OF inv node] p by (simp add: node_ok_def among_split [OF t] at_node_simps(1))

text \<open>Another thread does not hold the index a thread has in its hands.\<close>

lemma hands_apart:
  assumes inv: "lscq_values c k V s" and node: "nodes (sys_q s) a = Some n" and t: "t < participants s"
    and p: "sys_pc s t = p" "node_at p = Some a" "i \<in># empties p + fulls p"
    and u: "u \<noteq> t" "u < participants s" "node_at (sys_pc s u) = Some a" "j \<in># fulls (sys_pc s u)"
  shows "unat i \<noteq> unat j"
proof -
  have "others (at_node a fulls) t s
      = fulls (sys_pc s u) + (\<Sum>w\<in>{..<participants s} - {t} - {u}. at_node a fulls (sys_pc s w))"
    unfolding others_def using u(1-3) by (subst sum.remove [of _ u]) (auto simp: at_node_def)
  then have "j \<in># others (at_node a fulls) t s" using u(4) by simp
  then obtain F where F: "others (at_node a fulls) t s = add_mset j F" by (metis insert_DiffM)
  obtain M where M: "empties p + fulls p = add_mset i M" using p(3) by (metis insert_DiffM)
  have "(empties p + others (at_node a empties) t s) + (fulls p + others (at_node a fulls) t s)
      = add_mset i M + (others (at_node a empties) t s + add_mset j F)"
    unfolding M [symmetric] F by (simp only: ac_simps)
  also have "\<dots> = add_mset i (add_mset j (M + others (at_node a empties) t s + F))" by simp
  finally show ?thesis by (rule segment_hands [OF hands_segment [OF inv node t p(1,2)]])
qed

end
