(* ===== verification/SegmentLog.thy ===== *)
theory SegmentLog
  imports Prelude "HOL-Library.Sublist"
begin

text \<open>
  The abstract specification of the list of queues: a sequence of segments, each a queue of its own. A
  producer puts into a segment, a consumer takes the oldest value of one, and both only ever go on to
  later segments. So a consumer gets the values of each producer in the order they were put
  (\<open>producer_order\<close>), whichever segments they went through.
\<close>

section \<open>Logs\<close>

text \<open>Thread, number of the segment, value.\<close>

datatype 'a segment_event = Put nat nat 'a | Got nat nat 'a

fun puts :: "'a segment_event list \<Rightarrow> 'a list" where
  "puts [] = []"
| "puts (Put t r x # es) = x # puts es"
| "puts (Got t r x # es) = puts es"

fun puts_in :: "nat \<Rightarrow> 'a segment_event list \<Rightarrow> 'a list" where
  "puts_in m [] = []"
| "puts_in m (Put t r x # es) = (if r = m then x # puts_in m es else puts_in m es)"
| "puts_in m (Got t r x # es) = puts_in m es"

fun gets_in :: "nat \<Rightarrow> 'a segment_event list \<Rightarrow> 'a list" where
  "gets_in m [] = []"
| "gets_in m (Put t r x # es) = gets_in m es"
| "gets_in m (Got t r x # es) = (if r = m then x # gets_in m es else gets_in m es)"

fun puts_by :: "nat \<Rightarrow> 'a segment_event list \<Rightarrow> (nat \<times> 'a) list" where
  "puts_by p [] = []"
| "puts_by p (Put t r x # es) = (if t = p then (r, x) # puts_by p es else puts_by p es)"
| "puts_by p (Got t r x # es) = puts_by p es"

fun gets_by :: "nat \<Rightarrow> 'a segment_event list \<Rightarrow> (nat \<times> 'a) list" where
  "gets_by p [] = []"
| "gets_by p (Put t r x # es) = gets_by p es"
| "gets_by p (Got t r x # es) = (if t = p then (r, x) # gets_by p es else gets_by p es)"

lemma puts_append [simp]: "puts (es @ fs) = puts es @ puts fs"
  by (induction es rule: puts.induct) simp_all

lemma puts_in_append [simp]: "puts_in m (es @ fs) = puts_in m es @ puts_in m fs"
  by (induction m es rule: puts_in.induct) simp_all

lemma gets_in_append [simp]: "gets_in m (es @ fs) = gets_in m es @ gets_in m fs"
  by (induction m es rule: gets_in.induct) simp_all

lemma puts_by_append [simp]: "puts_by p (es @ fs) = puts_by p es @ puts_by p fs"
  by (induction p es rule: puts_by.induct) simp_all

lemma gets_by_append [simp]: "gets_by p (es @ fs) = gets_by p es @ gets_by p fs"
  by (induction p es rule: gets_by.induct) simp_all

lemma set_puts: "x \<in> set (puts es) \<longleftrightarrow> (\<exists>t r. Put t r x \<in> set es)"
  by (induction es rule: puts.induct) auto

lemma set_puts_in: "x \<in> set (puts_in m es) \<longleftrightarrow> (\<exists>t. Put t m x \<in> set es)"
  by (induction m es rule: puts_in.induct) auto

lemma set_gets_in: "x \<in> set (gets_in m es) \<longleftrightarrow> (\<exists>t. Got t m x \<in> set es)"
  by (induction m es rule: gets_in.induct) auto

lemma set_puts_by: "(r, x) \<in> set (puts_by p es) \<longleftrightarrow> Put p r x \<in> set es"
  by (induction p es rule: puts_by.induct) auto

lemma set_gets_by: "(r, x) \<in> set (gets_by p es) \<longleftrightarrow> Got p r x \<in> set es"
  by (induction p es rule: gets_by.induct) auto

lemmas set_events = set_puts set_puts_in set_gets_in set_puts_by set_gets_by

section \<open>The specification\<close>

inductive segment_log :: "'a segment_event list \<Rightarrow> bool" where
  fresh: "segment_log []"
| put: "segment_log es \<Longrightarrow> \<forall>(m, y)\<in>set (puts_by t es). m \<le> r \<Longrightarrow> segment_log (es @ [Put t r x])"
| got: "segment_log es \<Longrightarrow> \<forall>(m, y)\<in>set (gets_by t es). m \<le> r \<Longrightarrow> puts_in r es = gets_in r es @ x # ys
    \<Longrightarrow> segment_log (es @ [Got t r x])"

lemma segment_fifo: "segment_log es \<Longrightarrow> prefix (gets_in r es) (puts_in r es)"
  by (induction rule: segment_log.induct) (auto simp: prefix_def)

lemma puts_sorted: "segment_log es \<Longrightarrow> sorted (map fst (puts_by t es))"
  by (induction rule: segment_log.induct) (auto simp: sorted_append)

lemma got_was_put: "segment_log es \<Longrightarrow> Got t r x \<in> set es \<Longrightarrow> \<exists>u. Put u r x \<in> set es"
  using segment_fifo [of es r] set_mono_prefix [of "gets_in r es" "puts_in r es"] set_gets_in [of x r es]
  by (auto simp: set_puts_in)

section \<open>The order of a producer\<close>

lemma puts_in_by: "subseq (map snd (filter (\<lambda>p. fst p = r) (puts_by t es))) (puts_in r es)"
  by (induction t es rule: puts_by.induct) auto

lemma puts_by_puts: "subseq (map snd (puts_by t es)) (puts es)"
  by (induction t es rule: puts_by.induct) auto

lemma puts_in_puts: "subseq (puts_in r es) (puts es)"
  by (induction r es rule: puts_in.induct) auto

lemma subseq_distinct: "subseq xs ys \<Longrightarrow> distinct ys \<Longrightarrow> distinct xs"
  by (auto simp: subseq_conv_nths)

lemma segment_put_once:
  assumes "distinct (puts es)" "Put t r x \<in> set es" "Put u m x \<in> set es"
  shows "t = u \<and> r = m"
  using assms by (induction es rule: puts.induct) (auto simp: set_puts)

lemma subseq_two: "subseq [x, y] (xs @ x # ys) \<Longrightarrow> x \<notin> set xs \<Longrightarrow> y \<in> set ys"
  by (induction xs) (auto simp: subseq_singleton_left split: if_splits)

lemma subseq_end:
  assumes "subseq xs (ys @ x # zs)" "distinct (ys @ x # zs)" "\<forall>y\<in>set xs. y \<in> set ys"
  shows "subseq (xs @ [x]) (ys @ x # zs)"
proof -
  have "subseq (filter (\<lambda>y. y \<in> set ys) xs) (filter (\<lambda>y. y \<in> set ys) (ys @ x # zs))"
    using assms(1) by (rule subseq_filter)
  moreover have "filter (\<lambda>y. y \<in> set ys) xs = xs" using assms(3) by (simp add: filter_id_conv)
  moreover have "filter (\<lambda>y. y \<in> set ys) zs = []" using assms(2) by (auto simp: filter_empty_conv)
  then have "filter (\<lambda>y. y \<in> set ys) (ys @ x # zs) = ys" using assms(2) by (simp add: filter_id_conv)
  ultimately have "subseq (xs @ [x]) (ys @ [x])" by (simp add: list_emb_append_mono)
  moreover have "prefix (ys @ [x]) (ys @ x # zs)" by (simp add: prefix_def)
  ultimately show ?thesis using prefix_imp_subseq subseq_order.order_trans by blast
qed

text \<open>What a consumer got before comes earlier in the producer's order than what it gets now.\<close>

lemma got_earlier:
  assumes log: "segment_log es" "distinct (puts es)" and sorted: "\<forall>(m, z)\<in>set (gets_by c es). m \<le> r"
    and got: "puts_in r es = gets_in r es @ x # ys"
    and P: "map snd (puts_by t es) = P @ x # Q" and y: "(m, y) \<in> set (gets_by c es)" "y \<in> set Q"
  shows False
proof -
  obtain u where "Put u m y \<in> set es" using got_was_put [OF log(1), of c m y] y(1) by (auto simp: set_events)
  have "y \<in> snd ` set (puts_by t es)" using P y(2) by (metis image_set in_set_conv_decomp list.set_intros(2) Un_iff set_append)
  then obtain m' where "Put t m' y \<in> set es" by (auto simp: set_events)
  with \<open>Put u m y \<in> set es\<close> have yput: "(m, y) \<in> set (puts_by t es)"
    using segment_put_once [OF log(2)] by (fastforce simp: set_events)
  obtain es1 p es2 where split: "puts_by t es = es1 @ p # es2" "map snd es1 = P" "snd p = x" "map snd es2 = Q"
    using P by (auto simp: map_eq_append_conv map_eq_Cons_conv)
  have dist: "distinct (P @ x # Q)"
    using subseq_distinct [OF puts_by_puts [of t es] log(2)] P by simp
  have "Put t (fst p) x \<in> set es" using split by (metis in_set_conv_decomp prod.collapse set_puts_by)
  moreover obtain w where "Put w r x \<in> set es"
    using got by (metis in_set_conv_decomp set_puts_in)
  ultimately have p: "p = (r, x)" using segment_put_once [OF log(2)] split(3) by (metis prod.collapse)
  have "(m, y) \<in> set es2"
  proof -
    have "snd q \<noteq> y" if "q \<in> set (es1 @ [p])" for q
    proof -
      have "snd q \<in> set (P @ [x])" using that split(2,3) by auto
      then show ?thesis using dist y(2) by auto
    qed
    then show ?thesis using yput split(1) by force
  qed
  then have "r \<le> m" using puts_sorted [OF log(1), of t] split(1) p by (auto simp: sorted_append)
  moreover have "m \<le> r" using sorted y(1) by auto
  ultimately have m: "m = r" by simp
  have "subseq [x, y] (map snd (filter (\<lambda>p. fst p = r) (puts_by t es)))"
    using split(1) p \<open>(m, y) \<in> set es2\<close> m by (auto simp: subseq_singleton_left image_iff intro!: list_emb_append2)
  then have "subseq [x, y] (gets_in r es @ x # ys)"
    using subseq_order.order_trans [OF _ puts_in_by] got by metis
  moreover have dist: "distinct (gets_in r es @ x # ys)"
    using subseq_distinct [OF puts_in_puts log(2)] got by metis
  ultimately have "y \<in> set ys" using subseq_two by fastforce
  moreover have "y \<in> set (gets_in r es)" using y(1) m by (auto simp: set_events)
  ultimately show False using dist by auto
qed

theorem producer_order:
  assumes "segment_log es" "distinct (puts es)"
  shows "subseq (filter (\<lambda>x. x \<in> snd ` set (puts_by t es)) (map snd (gets_by c es))) (map snd (puts_by t es))"
  using assms
proof (induction rule: segment_log.induct)
  case (put es u r x)
  have new: "x \<notin> set (map snd (gets_by c es))"
    using put.prems got_was_put [OF put.hyps(1)] by (fastforce simp: set_events)
  have "filter (\<lambda>y. y = x \<or> y \<in> snd ` set (puts_by t es)) (map snd (gets_by c es))
      = filter (\<lambda>y. y \<in> snd ` set (puts_by t es)) (map snd (gets_by c es))"
    using new by (intro filter_cong) auto
  with put show ?case by (auto intro: list_emb_prefix)
next
  case (got es u r x ys)
  let ?P = "map snd (puts_by t es)" and ?F = "filter (\<lambda>x. x \<in> snd ` set (puts_by t es)) (map snd (gets_by c es))"
  have dist: "distinct (puts es)" using got.prems by simp
  have IH: "subseq ?F ?P" using got.IH dist .
  show ?case
  proof (cases "u = c \<and> x \<in> set ?P")
    case True
    then obtain P Q where P: "?P = P @ x # Q" by (metis split_list)
    have d: "distinct (P @ x # Q)" using subseq_distinct [OF puts_by_puts dist, of t] P by simp
    have "y \<in> set P" if y: "y \<in> set ?F" for y
    proof -
      obtain m where m: "(m, y) \<in> set (gets_by c es)" "y \<in> set ?P" using y by auto
      have "y \<noteq> x"
      proof
        assume "y = x"
        then have "Got c m x \<in> set es" using m(1) by (simp add: set_events)
        moreover obtain v w where "Put v r x \<in> set es" "Put w m x \<in> set es"
          using got.hyps(3) got_was_put [OF got.hyps(1)] \<open>Got c m x \<in> set es\<close> by (metis in_set_conv_decomp set_puts_in)
        ultimately have "x \<in> set (gets_in r es)" using segment_put_once [OF dist] by (metis set_gets_in)
        moreover have "distinct (gets_in r es @ x # ys)"
          using subseq_distinct [OF puts_in_puts dist] got.hyps(3) by metis
        ultimately show False by simp
      qed
      moreover have "y \<notin> set Q"
        using got_earlier [OF got.hyps(1) dist _ got.hyps(3) P m(1)] got.hyps(2) True by blast
      ultimately show ?thesis using m(2) P by auto
    qed
    then have "subseq (?F @ [x]) ?P" using subseq_end [of ?F P x Q] IH d unfolding P by blast
    then show ?thesis using True by auto
  next
    case False
    then show ?thesis using IH by auto
  qed
qed simp

end
