(* ===== verification/LscqOrder.thy ===== *)
theory LscqOrder
  imports LscqContents SegmentLog
begin

text \<open>
  The list of queues under every interleaving, an operation of an index ring being one step, follows the
  specification of \<open>SegmentLog\<close>: the nodes are its segments, numbered in the order they were linked;
  the store of an index into an allocation ring, and the link of a new node, put a value, the removal of
  an index gets one. The invariant \<open>lscq_order\<close> relates a state to the log of its execution.
\<close>

section \<open>Values on their way\<close>

definition slot_at :: "'a lscq_sys \<Rightarrow> nat \<Rightarrow> usize \<Rightarrow> 'a option" where
  "slot_at s a pos = (case nodes (sys_q s) a of None \<Rightarrow> None | Some n \<Rightarrow> backing (node_value n) ! unat pos)"

definition contents_at :: "'a lscq_sys \<Rightarrow> nat \<Rightarrow> 'a list option" where
  "contents_at s a = map_option (\<lambda>n. node_contents (node_value n)) (nodes (sys_q s) a)"

text \<open>
  The value a thread has been given and not yet put; the one it has got and not yet returned. Some
  program counters only have its index; \<open>sl\<close> reads the slots.
\<close>

fun entering :: "(nat \<Rightarrow> usize \<Rightarrow> 'a option) \<Rightarrow> 'a lscq_pc \<Rightarrow> 'a list" where
  "entering sl (EqLoad x) = [x]"
| "entering sl (EqNext x a) = [x]"
| "entering sl (EqSwing x a nx) = [x]"
| "entering sl (EqUsed x a) = [x]"
| "entering sl (EqFull x a) = [x]"
| "entering sl (EqFree x a sz) = [x]"
| "entering sl (EqWrite x a sz pos) = [x]"
| "entering sl (EqAlloc x a sz pos) = [x]"
| "entering sl (EqUndoUsed a pos) = [the (sl a pos)]"
| "entering sl (EqUndoRead a pos) = [the (sl a pos)]"
| "entering sl (EqUndoFree x a pos) = [x]"
| "entering sl (EqGrow x a) = [x]"
| "entering sl _ = []"

fun leaving :: "(nat \<Rightarrow> usize \<Rightarrow> 'a option) \<Rightarrow> 'a lscq_pc \<Rightarrow> 'a list" where
  "leaving sl (DqUsed a pos) = [the (sl a pos)]"
| "leaving sl (DqRead a pos) = [the (sl a pos)]"
| "leaving sl (DqFree x a pos) = [x]"
| "leaving sl _ = []"

fun written :: "(nat \<Rightarrow> usize \<Rightarrow> 'a option) \<Rightarrow> 'a lscq_pc \<Rightarrow> bool" where
  "written sl (EqAlloc x a sz pos) = (sl a pos = Some x)"
| "written sl _ = True"

text \<open>The slot a thread relies on.\<close>

fun slot_of :: "'a lscq_pc \<Rightarrow> (nat \<times> usize) option" where
  "slot_of (EqAlloc x a sz pos) = Some (a, pos)"
| "slot_of (EqUndoUsed a pos) = Some (a, pos)"
| "slot_of (EqUndoRead a pos) = Some (a, pos)"
| "slot_of (DqUsed a pos) = Some (a, pos)"
| "slot_of (DqRead a pos) = Some (a, pos)"
| "slot_of _ = None"

lemma slot_values_same:
  assumes "\<forall>a pos. slot_of p = Some (a, pos) \<longrightarrow> sl' a pos = sl a pos"
  shows "entering sl' p = entering sl p" "leaving sl' p = leaving sl p" "written sl' p = written sl p"
  using assms by (cases p; simp)+

fun returned :: "nat \<Rightarrow> 'a lscq_event list \<Rightarrow> 'a list" where
  "returned t [] = []"
| "returned t (DeqReturned u (Some x) # es) = (if u = t then x # returned t es else returned t es)"
| "returned t (_ # es) = returned t es"

lemma returned_append [simp]: "returned t (es @ fs) = returned t es @ returned t fs"
  by (induction t es rule: returned.induct) simp_all

section \<open>The invariant\<close>

text \<open>The number of each allocated node, how many there have been, and the log.\<close>

record 'a order_ghost =
  rank :: "nat \<Rightarrow> nat"
  born :: nat
  elog :: "'a segment_event list"

definition tail_rank :: "'a order_ghost \<Rightarrow> 'a lscq_sys \<Rightarrow> nat" where
  "tail_rank g s = rank g (the (lq_tail (sys_q s)))"

definition head_rank :: "'a order_ghost \<Rightarrow> 'a lscq_sys \<Rightarrow> nat" where
  "head_rank g s = rank g (the (lq_head (sys_q s)))"

definition put_upto :: "'a order_ghost \<Rightarrow> nat \<Rightarrow> nat \<Rightarrow> bool" where
  "put_upto g t r \<longleftrightarrow> (\<forall>(m, y)\<in>set (puts_by t (elog g)). m \<le> r)"

definition got_upto :: "'a order_ghost \<Rightarrow> nat \<Rightarrow> nat \<Rightarrow> bool" where
  "got_upto g t r \<longleftrightarrow> (\<forall>(m, y)\<in>set (gets_by t (elog g)). m \<le> r)"

lemma upto_mono: "put_upto g t r \<Longrightarrow> r \<le> r' \<Longrightarrow> put_upto g t r'" "got_upto g t r \<Longrightarrow> r \<le> r' \<Longrightarrow> got_upto g t r'"
  by (fastforce simp: put_upto_def got_upto_def)+

fun enqueuing_at :: "'a lscq_pc \<Rightarrow> nat option" where
  "enqueuing_at (EqSwing x a nx) = Some a"
| "enqueuing_at p = enq_at p"

fun dequeuing_at :: "'a lscq_pc \<Rightarrow> nat option" where
  "dequeuing_at (DqTry a) = Some a"
| "dequeuing_at (DqNext a) = Some a"
| "dequeuing_at (DqThreshold a nx) = Some a"
| "dequeuing_at (DqRetry a nx) = Some a"
| "dequeuing_at (DqAdvance a nx) = Some a"
| "dequeuing_at (DqRetire a) = Some a"
| "dequeuing_at (DqUsed a pos) = Some a"
| "dequeuing_at (DqRead a pos) = Some a"
| "dequeuing_at (DqFree x a pos) = Some a"
| "dequeuing_at _ = None"

fun linking :: "'a lscq_pc \<Rightarrow> (nat \<times> nat) option" where
  "linking (EqTail x a b) = Some (a, b)"
| "linking _ = None"

text \<open>
  What a producer has put is in nodes up to the one it works on, that one is not behind the tail; after it
  linked a node it is in that one as long as the tail has not moved. Likewise for a consumer and the head.
\<close>

definition producer_ok :: "'a order_ghost \<Rightarrow> 'a lscq_sys \<Rightarrow> nat \<Rightarrow> 'a lscq_pc \<Rightarrow> bool" where
  "producer_ok g s t p \<longleftrightarrow>
     (case linking p of
        Some (a, b) \<Rightarrow> lq_tail (sys_q s) = Some a \<and> put_upto g t (rank g b) \<or> put_upto g t (tail_rank g s)
      | None \<Rightarrow> (case enqueuing_at p of
          None \<Rightarrow> put_upto g t (tail_rank g s)
        | Some a \<Rightarrow> rank g a \<le> tail_rank g s \<and> put_upto g t (rank g a)))"

definition consumer_ok :: "'a order_ghost \<Rightarrow> 'a lscq_sys \<Rightarrow> nat \<Rightarrow> 'a lscq_pc \<Rightarrow> bool" where
  "consumer_ok g s t p \<longleftrightarrow>
     (case dequeuing_at p of
        None \<Rightarrow> got_upto g t (head_rank g s)
      | Some a \<Rightarrow> rank g a \<le> head_rank g s \<and> got_upto g t (rank g a))"

definition ranks_ok :: "nat list \<Rightarrow> 'a order_ghost \<Rightarrow> 'a lscq_sys \<Rightarrow> bool" where
  "ranks_ok as g s \<longleftrightarrow> sorted_wrt (<) (map (rank g) as) \<and> inj_on (rank g) (dom (nodes (sys_q s)))
     \<and> (\<forall>a\<in>dom (nodes (sys_q s)) - set as. \<forall>b\<in>set as. rank g a < rank g b)
     \<and> (\<forall>a\<in>dom (nodes (sys_q s)). rank g a < born g) \<and> (\<forall>t r x. Put t r x \<in> set (elog g) \<longrightarrow> r < born g)"

definition contents_ok :: "'a order_ghost \<Rightarrow> 'a lscq_sys \<Rightarrow> bool" where
  "contents_ok g s \<longleftrightarrow>
     (\<forall>a xs. contents_at s a = Some xs \<longrightarrow> puts_in (rank g a) (elog g) = gets_in (rank g a) (elog g) @ xs)"

definition thread_in_order :: "'a order_ghost \<Rightarrow> (nat \<Rightarrow> 'a list) \<Rightarrow> 'a lscq_sys \<Rightarrow> nat \<Rightarrow> bool" where
  "thread_in_order g sent s t \<longleftrightarrow>
     sent t = map snd (puts_by t (elog g)) @ entering (slot_at s) (sys_pc s t)
     \<and> map snd (gets_by t (elog g)) = returned t (history s) @ leaving (slot_at s) (sys_pc s t)
     \<and> written (slot_at s) (sys_pc s t) \<and> producer_ok g s t (sys_pc s t) \<and> consumer_ok g s t (sys_pc s t)"

definition lscq_order :: "nat list \<Rightarrow> 'a order_ghost \<Rightarrow> (nat \<Rightarrow> 'a list) \<Rightarrow> 'a lscq_sys \<Rightarrow> bool" where
  "lscq_order as g sent s \<longleftrightarrow>
     segment_log (elog g) \<and> ranks_ok as g s \<and> contents_ok g s \<and> (\<forall>t. thread_in_order g sent s t)"

lemma ok_cong:
  assumes "tail_rank g s' = tail_rank g s" "head_rank g s' = head_rank g s" "lq_tail (sys_q s') = lq_tail (sys_q s)"
  shows "producer_ok g s' t p = producer_ok g s t p" "consumer_ok g s' t p = consumer_ok g s t p"
  unfolding producer_ok_def consumer_ok_def assms by (rule refl)+

lemma order_parts:
  assumes "lscq_order as g sent s"
  shows "segment_log (elog g)" "ranks_ok as g s" "contents_ok g s" "thread_in_order g sent s t"
  using assms by (simp_all add: lscq_order_def)

lemma order_thread:
  assumes "lscq_order as g sent s"
  shows "sent t = map snd (puts_by t (elog g)) @ entering (slot_at s) (sys_pc s t)"
    "map snd (gets_by t (elog g)) = returned t (history s) @ leaving (slot_at s) (sys_pc s t)"
    "written (slot_at s) (sys_pc s t)" "producer_ok g s t (sys_pc s t)" "consumer_ok g s t (sys_pc s t)"
  using order_parts(4) [OF assms, of t] by (simp_all add: thread_in_order_def)

section \<open>Steps that put and get nothing\<close>

lemma contents_dom: "contents_at s' = contents_at s \<Longrightarrow> dom (nodes (sys_q s')) = dom (nodes (sys_q s))"
  unfolding contents_at_def fun_eq_iff dom_def by (metis option.map_disc_iff)

text \<open>A thread moves to \<open>p'\<close>; the ends of the list and the contents stay.\<close>

lemma order_quiet:
  assumes ord: "lscq_order as g sent s" and pc: "sys_pc s' = (sys_pc s)(t := p')"
    and view: "contents_at s' = contents_at s" "lq_head (sys_q s') = lq_head (sys_q s)"
      "lq_tail (sys_q s') = lq_tail (sys_q s)" "\<forall>u. u \<noteq> t \<longrightarrow> returned u (history s') = returned u (history s)"
    and slots: "\<forall>u a pos. u \<noteq> t \<longrightarrow> slot_of (sys_pc s u) = Some (a, pos) \<longrightarrow> slot_at s' a pos = slot_at s a pos"
    and mine: "entering (slot_at s') p' = entering (slot_at s) (sys_pc s t)"
      "returned t (history s') @ leaving (slot_at s') p' = returned t (history s) @ leaving (slot_at s) (sys_pc s t)"
      "written (slot_at s') p'" "producer_ok g s t p'" "consumer_ok g s t p'"
  shows "lscq_order as g sent s'"
proof -
  have ranks: "tail_rank g s' = tail_rank g s" "head_rank g s' = head_rank g s"
    by (simp_all add: tail_rank_def head_rank_def view)
  note ok = ok_cong [OF ranks view(3)]
  have "ranks_ok as g s'" "contents_ok g s'"
    using order_parts(2,3) [OF ord] contents_dom [OF view(1)] by (simp_all add: ranks_ok_def contents_ok_def view(1))
  moreover have "thread_in_order g sent s' u" for u
  proof (cases "u = t")
    case True
    then show ?thesis
      using order_thread(1,2) [OF ord, of t] mine
      by (simp add: thread_in_order_def pc ok)
  next
    case False
    then have "\<forall>a pos. slot_of (sys_pc s u) = Some (a, pos) \<longrightarrow> slot_at s' a pos = slot_at s a pos"
      using slots by blast
    note same = slot_values_same [OF this]
    show ?thesis
      using order_thread [OF ord, of u] False
      by (simp add: thread_in_order_def pc ok view(4) same)
  qed
  ultimately show ?thesis using order_parts(1) [OF ord] by (simp add: lscq_order_def)
qed

text \<open>Where a thread may go.\<close>

lemma producer_goes:
  assumes "producer_ok g s t p" "linking p = None" "linking p' = None"
    and "enqueuing_at p' = enqueuing_at p \<or> enqueuing_at p' = None
      \<or> enqueuing_at p = None \<and> enqueuing_at p' = lq_tail (sys_q s)"
  shows "producer_ok g s t p'"
  using assms upto_mono(1) by (fastforce simp: producer_ok_def tail_rank_def split: option.splits)

lemma consumer_goes:
  assumes "consumer_ok g s t p"
    and "dequeuing_at p' = dequeuing_at p \<or> dequeuing_at p' = None
      \<or> dequeuing_at p = None \<and> dequeuing_at p' = lq_head (sys_q s)"
  shows "consumer_ok g s t p'"
  using assms upto_mono(2) by (fastforce simp: consumer_ok_def head_rank_def split: option.splits)

definition goes_from :: "'a lscq_sys \<Rightarrow> 'a lscq_pc \<Rightarrow> 'a lscq_pc \<Rightarrow> bool" where
  "goes_from s p p' \<longleftrightarrow> linking p = None \<and> linking p' = None
     \<and> (enqueuing_at p' = enqueuing_at p \<or> enqueuing_at p' = None
        \<or> enqueuing_at p = None \<and> enqueuing_at p' = lq_tail (sys_q s))
     \<and> (dequeuing_at p' = dequeuing_at p \<or> dequeuing_at p' = None
        \<or> dequeuing_at p = None \<and> dequeuing_at p' = lq_head (sys_q s))"

text \<open>A step that leaves the list alone.\<close>

lemma order_local:
  assumes ord: "lscq_order as g sent s" and p: "sys_pc s t = p" "goes_from s p p'"
    and s': "sys_pc s' = (sys_pc s)(t := p')" "sys_q s' = sys_q s" "history s' = history s @ es"
    and es: "\<forall>u. returned u es = []"
    and mine: "entering (slot_at s) p' = entering (slot_at s) p" "leaving (slot_at s) p' = leaving (slot_at s) p"
      "written (slot_at s) p'"
  shows "lscq_order as g sent s'"
proof -
  have slots: "slot_at s' = slot_at s" "contents_at s' = contents_at s"
    by (simp_all add: slot_at_def contents_at_def fun_eq_iff s'(2))
  show ?thesis
    by (rule order_quiet [OF ord s'(1)])
      (use order_thread(4,5) [OF ord, of t] p es mine producer_goes [of g s t p p'] consumer_goes [of g s t p p'] in
        \<open>simp_all add: s' slots goes_from_def\<close>)
qed

text \<open>A step that changes the queue of the node the thread is at.\<close>

lemma after_step_view:
  assumes "nodes (sys_q s) a = Some n"
  shows "sys_pc (after_step t a p' v' es s) = (sys_pc s)(t := p')"
    "history (after_step t a p' v' es s) = history s @ es"
    "lq_head (sys_q (after_step t a p' v' es s)) = lq_head (sys_q s)"
    "lq_tail (sys_q (after_step t a p' v' es s)) = lq_tail (sys_q s)"
    "dom (nodes (sys_q (after_step t a p' v' es s))) = dom (nodes (sys_q s))"
    "slot_at (after_step t a p' v' es s) b pos = (if b = a then backing v' ! unat pos else slot_at s b pos)"
    "contents_at (after_step t a p' v' es s) b = (if b = a then Some (node_contents v') else contents_at s b)"
  using assms
  by (auto simp: after_step_def fold_log at_pc_def on_q_def slot_at_def contents_at_def put_value_def split: if_splits)

lemma order_node:
  assumes ord: "lscq_order as g sent s" and p: "sys_pc s t = p" "goes_from s p p'"
    and node: "nodes (sys_q s) a = Some n" and S: "S = after_step t a p' v' es s"
    and v': "node_contents v' = node_contents (node_value n)"
    and slots: "\<forall>u pos. u \<noteq> t \<longrightarrow> slot_of (sys_pc s u) = Some (a, pos) \<longrightarrow>
      backing v' ! unat pos = backing (node_value n) ! unat pos"
    and es: "\<forall>u. u \<noteq> t \<longrightarrow> returned u es = []"
    and mine: "entering (slot_at S) p' = entering (slot_at s) p"
      "returned t es @ leaving (slot_at S) p' = leaving (slot_at s) p" "written (slot_at S) p'"
  shows "lscq_order as g sent S"
proof -
  note view = after_step_view [OF node, of t p' v' es, folded S]
  have "contents_at S = contents_at s"
    using v' node by (simp add: fun_eq_iff view(7)) (simp add: contents_at_def)
  moreover have "\<forall>u b pos. u \<noteq> t \<longrightarrow> slot_of (sys_pc s u) = Some (b, pos) \<longrightarrow> slot_at S b pos = slot_at s b pos"
    using slots node by (simp add: view(6)) (simp add: slot_at_def)
  ultimately show ?thesis
    by (intro order_quiet [OF ord view(1)])
      (use order_thread(4,5) [OF ord, of t] p es mine producer_goes [of g s t p p'] consumer_goes [of g s t p p'] in
        \<open>simp_all add: view(2-4) goes_from_def\<close>)
qed

lemma order_same_slots:
  assumes ord: "lscq_order as g sent s" and p: "sys_pc s t = p" "goes_from s p p'" and node: "nodes (sys_q s) a = Some n"
    and v': "node_contents v' = node_contents (node_value n)" "backing v' = backing (node_value n)"
    and es: "\<forall>u. u \<noteq> t \<longrightarrow> returned u es = []"
    and mine: "entering (slot_at s) p' = entering (slot_at s) p"
      "returned t es @ leaving (slot_at s) p' = leaving (slot_at s) p" "written (slot_at s) p'"
  shows "lscq_order as g sent (after_step t a p' v' es s)"
proof -
  have same: "slot_at (after_step t a p' v' es s) = slot_at s"
    using v'(2) node by (intro ext) (simp add: after_step_view(6) [OF node], simp add: slot_at_def)
  show ?thesis
    by (rule order_node [OF ord p node refl v'(1) _ es]) (use v'(2) mine same in simp_all)
qed

text \<open>The steps that touch neither the allocation ring nor the slots.\<close>

lemmas order_counter = order_same_slots [OF _ _ _ _ node_contents_cong]

lemma order_counters:
  assumes ord: "lscq_order as g sent s" and node: "nodes (sys_q s) a = Some n"
  shows "sys_pc s t = EqUsed x a \<Longrightarrow> enq_used t x a s = Some s' \<Longrightarrow> lscq_order as g sent s'"
    and "sys_pc s t = EqFull x a \<Longrightarrow> enq_full t x a s = Some s' \<Longrightarrow> lscq_order as g sent s'"
    and "sys_pc s t = EqUndoUsed a pos \<Longrightarrow> enq_undo_used t a pos s = Some s' \<Longrightarrow> lscq_order as g sent s'"
    and "sys_pc s t = DqUsed a pos \<Longrightarrow> deq_used t a pos s = Some s' \<Longrightarrow> lscq_order as g sent s'"
proof -
  let ?v = "node_value n"
  let ?more = "?v\<lparr>used := used ?v + 1\<rparr>" and ?less = "?v\<lparr>used := used ?v - 1\<rparr>"
  show "lscq_order as g sent s'" if p: "sys_pc s t = EqUsed x a" and step: "enq_used t x a s = Some s'"
  proof -
    have s': "s' = after_step t a (if used ?v \<ge> ring_capacity (free_queue ?v) then EqFull x a else EqFree x a (used ?v)) ?more [] s"
      using step by (simp add: enq_used_def with_node_def node after_step_def Let_def)
    show ?thesis
      unfolding s' by (rule order_counter [OF ord p _ node]) (simp_all add: goes_from_def)
  qed
  show "lscq_order as g sent s'" if p: "sys_pc s t = EqFull x a" and step: "enq_full t x a s = Some s'"
  proof -
    have s': "s' = after_step t a (EqGrow x a) ?less [] s"
      using step by (simp add: enq_full_def with_node_def node after_step_def Let_def)
    show ?thesis
      unfolding s' by (rule order_counter [OF ord p _ node]) (simp_all add: goes_from_def)
  qed
  show "lscq_order as g sent s'" if p: "sys_pc s t = EqUndoUsed a pos" and step: "enq_undo_used t a pos s = Some s'"
  proof -
    have s': "s' = after_step t a (EqUndoRead a pos) ?less [] s"
      using step by (simp add: enq_undo_used_def with_node_def node after_step_def Let_def)
    show ?thesis
      unfolding s' by (rule order_counter [OF ord p _ node]) (simp_all add: goes_from_def)
  qed
  show "lscq_order as g sent s'" if p: "sys_pc s t = DqUsed a pos" and step: "deq_used t a pos s = Some s'"
  proof -
    have s': "s' = after_step t a (DqRead a pos) ?less [] s"
      using step by (simp add: deq_used_def with_node_def node after_step_def Let_def)
    show ?thesis
      unfolding s' by (rule order_counter [OF ord p _ node]) (simp_all add: goes_from_def)
  qed
qed

lemma order_threshold_seal:
  assumes ord: "lscq_order as g sent s" and node: "nodes (sys_q s) a = Some n" and inv: "lscq_values c k V s"
    and c: "Suc c < 2 ^ 62"
  shows "sys_pc s t = DqThreshold a nx \<Longrightarrow> deq_threshold t a nx s = Some s' \<Longrightarrow> lscq_order as g sent s'"
    and "sys_pc s t = EqSeal x a sz \<Longrightarrow> enq_seal t x a sz s = Some s' \<Longrightarrow> lscq_order as g sent s'"
proof -
  let ?v = "node_value n"
  note seal = contents_seal [OF values_parts(6) [OF inv node, unfolded node_ok_def] c]
  show "lscq_order as g sent s'" if p: "sys_pc s t = DqThreshold a nx" and step: "deq_threshold t a nx s = Some s'"
  proof -
    have s': "s' = after_step t a (DqRetry a nx) (store_threshold (retry_threshold ?v) ?v) [] s"
      using step by (simp add: deq_threshold_def with_node_def node after_step_def Let_def)
    show ?thesis
      unfolding s' by (rule order_same_slots [OF ord p _ node seal(2)]) (simp_all add: goes_from_def store_threshold_def)
  qed
  show "lscq_order as g sent s'" if p: "sys_pc s t = EqSeal x a sz" and step: "enq_seal t x a sz s = Some s'"
  proof -
    let ?f = "?v\<lparr>alloc_queue := finalize (alloc_queue ?v)\<rparr>"
    have "s' = after_step t a LIdle (if sz + 1 \<ge> ring_capacity (free_queue ?v) then ?f else ?v) [EnqReturned t x] s"
      using step put_same [OF node] by (auto simp: enq_seal_def with_node_def node after_step_def Let_def split: if_splits)
    then show ?thesis
      by (simp only:) (rule order_same_slots [OF ord p _ node]; simp add: goes_from_def seal(1))
  qed
qed

lemma order_give:
  assumes ord: "lscq_order as g sent s" and node: "nodes (sys_q s) a = Some n" and crash: "sys_pc s' t \<noteq> Crashed"
  shows "sys_pc s t = EqFree x a sz \<Longrightarrow> enq_free t x a sz s = Some s' \<Longrightarrow> lscq_order as g sent s'"
    and "sys_pc s t = EqUndoFree x a pos \<Longrightarrow> enq_undo_free t x a pos s = Some s' \<Longrightarrow> lscq_order as g sent s'"
    and "sys_pc s t = DqFree x a pos \<Longrightarrow> deq_free t x a pos s = Some s' \<Longrightarrow> lscq_order as g sent s'"
proof -
  let ?v = "node_value n"
  show "lscq_order as g sent s'" if p: "sys_pc s t = EqFree x a sz" and step: "enq_free t x a sz s = Some s'"
  proof -
    obtain popt fq where s': "s' = after_step t a (case popt of None \<Rightarrow> EqFull x a | Some pos \<Rightarrow> EqWrite x a sz pos)
        (?v\<lparr>free_queue := fq\<rparr>) [] s"
      using step crash by (auto simp: enq_free_def with_node_def node after_step_def Let_def elim!: proceed_cases)
    show ?thesis
      unfolding s' by (rule order_counter [OF ord p _ node]) (simp_all add: goes_from_def split: option.split)
  qed
  show "lscq_order as g sent s'" if p: "sys_pc s t = EqUndoFree x a pos" and step: "enq_undo_free t x a pos s = Some s'"
  proof -
    obtain fq where s': "s' = after_step t a (EqGrow x a) (?v\<lparr>free_queue := fq\<rparr>) [] s"
      using step crash
      by (auto simp: enq_undo_free_def with_node_def node after_step_def Let_def elim!: proceed_cases split: sum.splits)
    show ?thesis
      unfolding s' by (rule order_counter [OF ord p _ node]) (simp_all add: goes_from_def)
  qed
  show "lscq_order as g sent s'" if p: "sys_pc s t = DqFree x a pos" and step: "deq_free t x a pos s = Some s'"
  proof -
    obtain fq where s': "s' = after_step t a LIdle (?v\<lparr>free_queue := fq\<rparr>) [DeqReturned t (Some x)] s"
      using step crash
      by (auto simp: deq_free_def with_node_def node after_step_def Let_def elim!: proceed_cases split: sum.splits)
    show ?thesis
      unfolding s' by (rule order_counter [OF ord p _ node]) (simp_all add: goes_from_def)
  qed
qed

section \<open>Steps that move a value to a slot or from it\<close>

lemma slot_of_node: "slot_of p = Some (a, pos) \<Longrightarrow> node_at p = Some a \<and> pos \<in># fulls p"
  by (cases p) auto

lemma safe_participant: "lscq_safe as s \<Longrightarrow> node_at (sys_pc s u) = Some a \<Longrightarrow> u < participants s"
  using safe_parts(8) [of as s u] by (simp add: thread_ok_def)

lemma order_slot:
  assumes ord: "lscq_order as g sent s" and p: "sys_pc s t = p" "goes_from s p p'" and node: "nodes (sys_q s) a = Some n"
    and inv: "lscq_values c k V s" "Suc c < 2 ^ 62" and safe: "lscq_safe cs s"
    and at: "node_at p = Some a" "pos \<in># empties p + fulls p"
    and S: "S = after_step t a p' (node_value n\<lparr>backing := (backing (node_value n))[unat pos := z]\<rparr>) [] s"
    and mine: "entering (slot_at S) p' = entering (slot_at s) p" "leaving (slot_at S) p' = leaving (slot_at s) p"
      "written (slot_at S) p'"
  shows "lscq_order as g sent S"
proof -
  let ?v = "node_value n"
  have t: "t < participants s" using safe_participant [OF safe, of t a] p(1) at(1) by simp
  have pos: "pos \<in># (empties p + others (at_node a empties) t s) + (fulls p + others (at_node a fulls) t s)"
    using at(2) by auto
  have "(backing ?v)[unat pos := z] ! unat j = backing ?v ! unat j"
    if "u \<noteq> t" "slot_of (sys_pc s u) = Some (a, j)" for u j
    using hands_apart [OF inv(1) node t p(1) at that(1)] slot_of_node [OF that(2)] safe_participant [OF safe, of u a]
    by simp
  then show ?thesis
    by (intro order_node [OF ord p node S contents_slot [OF hands_segment [OF inv(1) node t p(1) at(1)] inv(2) pos]])
      (use mine in simp_all)
qed

lemma order_write_read:
  assumes ord: "lscq_order as g sent s" and node: "nodes (sys_q s) a = Some n" and crash: "sys_pc s' t \<noteq> Crashed"
    and inv: "lscq_values c k V s" "Suc c < 2 ^ 62" and safe: "lscq_safe cs s"
  shows "sys_pc s t = EqWrite x a sz pos \<Longrightarrow> enq_write t x a sz pos s = Some s' \<Longrightarrow> lscq_order as g sent s'"
    and "sys_pc s t = EqUndoRead a pos \<Longrightarrow> enq_undo_read t a pos s = Some s' \<Longrightarrow> lscq_order as g sent s'"
    and "sys_pc s t = DqRead a pos \<Longrightarrow> deq_read t a pos s = Some s' \<Longrightarrow> lscq_order as g sent s'"
proof -
  let ?v = "node_value n"
  note slot = order_slot [OF ord _ _ node inv safe]
  show "lscq_order as g sent s'" if p: "sys_pc s t = EqWrite x a sz pos" and step: "enq_write t x a sz pos s = Some s'"
  proof -
    have s': "s' = after_step t a (EqAlloc x a sz pos) (?v\<lparr>backing := (backing ?v)[unat pos := Some x]\<rparr>) [] s"
        and len: "unat pos < length (backing ?v)"
      using step crash
      by (auto simp: enq_write_def with_node_def node after_step_def write_slot_def elim!: proceed_cases split: if_splits)
    show ?thesis
      by (rule slot [OF p _ _ _ s']) (use len in \<open>simp_all add: goes_from_def s' after_step_view [OF node]\<close>)
  qed
  show "lscq_order as g sent s'" if p: "sys_pc s t = EqUndoRead a pos" and step: "enq_undo_read t a pos s = Some s'"
  proof -
    obtain x where s': "s' = after_step t a (EqUndoFree x a pos) (?v\<lparr>backing := (backing ?v)[unat pos := None]\<rparr>) [] s"
        and x: "backing ?v ! unat pos = Some x"
      using step crash
      by (auto simp: enq_undo_read_def with_node_def node after_step_def read_slot_def elim!: proceed_cases split: step_splits)
    show ?thesis
      by (rule slot [OF p _ _ _ s']) (use x node in \<open>simp_all add: goes_from_def slot_at_def\<close>)
  qed
  show "lscq_order as g sent s'" if p: "sys_pc s t = DqRead a pos" and step: "deq_read t a pos s = Some s'"
  proof -
    obtain x where s': "s' = after_step t a (DqFree x a pos) (?v\<lparr>backing := (backing ?v)[unat pos := None]\<rparr>) [] s"
        and x: "backing ?v ! unat pos = Some x"
      using step crash
      by (auto simp: deq_read_def with_node_def node after_step_def read_slot_def elim!: proceed_cases split: step_splits)
    show ?thesis
      by (rule slot [OF p _ _ _ s']) (use x node in \<open>simp_all add: goes_from_def slot_at_def\<close>)
  qed
qed

section \<open>Steps that put or get a value\<close>

fun actor :: "'a segment_event \<Rightarrow> nat" where
  "actor (Put t r x) = t"
| "actor (Got t r x) = t"

fun segment_of :: "'a segment_event \<Rightarrow> nat" where
  "segment_of (Put t r x) = r"
| "segment_of (Got t r x) = r"

definition logged :: "'a segment_event \<Rightarrow> 'a order_ghost \<Rightarrow> 'a order_ghost" where
  "logged e g = g\<lparr>elog := elog g @ [e]\<rparr>"

lemma logged_fields [simp]: "rank (logged e g) = rank g" "born (logged e g) = born g" "elog (logged e g) = elog g @ [e]"
  by (simp_all add: logged_def)

lemma event_by:
  "u \<noteq> actor e \<Longrightarrow> puts_by u [e] = [] \<and> gets_by u [e] = []"
  "m \<noteq> segment_of e \<Longrightarrow> puts_in m [e] = [] \<and> gets_in m [e] = []"
  by (cases e; simp)+

lemma logged_upto: "u \<noteq> actor e \<Longrightarrow> put_upto (logged e g) u r = put_upto g u r \<and> got_upto (logged e g) u r = got_upto g u r"
  by (simp add: put_upto_def got_upto_def event_by(1))

lemma logged_ok:
  assumes "u \<noteq> actor e" "lq_tail (sys_q s') = lq_tail (sys_q s)" "lq_head (sys_q s') = lq_head (sys_q s)"
  shows "producer_ok (logged e g) s' u p = producer_ok g s u p" "consumer_ok (logged e g) s' u p = consumer_ok g s u p"
proof -
  have ranks: "tail_rank (logged e g) s' = tail_rank g s" "head_rank (logged e g) s' = head_rank g s"
    by (simp_all add: tail_rank_def head_rank_def assms(2,3))
  note upto = logged_upto [OF assms(1), THEN conjunct1] logged_upto [OF assms(1), THEN conjunct2]
  show "producer_ok (logged e g) s' u p = producer_ok g s u p" "consumer_ok (logged e g) s' u p = consumer_ok g s u p"
    unfolding producer_ok_def consumer_ok_def upto logged_fields ranks assms(2) by (rule refl)+
qed

lemma order_event:
  assumes ord: "lscq_order as g sent s" and pc: "sys_pc s' = (sys_pc s)(t := p')"
    and view: "lq_head (sys_q s') = lq_head (sys_q s)" "lq_tail (sys_q s') = lq_tail (sys_q s)"
      "history s' = history s" "slot_at s' = slot_at s" "dom (nodes (sys_q s')) = dom (nodes (sys_q s))"
    and e: "actor e = t" "segment_of e = rank g a" "a \<in> dom (nodes (sys_q s))" "segment_log (elog g @ [e])"
    and contents: "\<forall>b. b \<noteq> a \<longrightarrow> contents_at s' b = contents_at s b"
      "\<forall>xs. contents_at s' a = Some xs \<longrightarrow>
         puts_in (rank g a) (elog g @ [e]) = gets_in (rank g a) (elog g @ [e]) @ xs"
    and mine: "thread_in_order (logged e g) sent s' t"
  shows "lscq_order as (logged e g) sent s'"
proof -
  note parts = order_parts [OF ord]
  have inj: "inj_on (rank g) (dom (nodes (sys_q s)))" and below: "\<forall>b\<in>dom (nodes (sys_q s)). rank g b < born g"
    using parts(2) by (simp_all add: ranks_ok_def)
  have "ranks_ok as (logged e g) s'"
    using parts(2) e(2,3) below view(5) by (cases e) (auto simp: ranks_ok_def)
  moreover have "contents_ok (logged e g) s'"
    unfolding contents_ok_def
  proof (intro allI impI)
    fix b xs assume b: "contents_at s' b = Some xs"
    show "puts_in (rank (logged e g) b) (elog (logged e g)) = gets_in (rank (logged e g) b) (elog (logged e g)) @ xs"
    proof (cases "b = a")
      case True
      then show ?thesis using contents(2) b by simp
    next
      case False
      then have old: "contents_at s b = Some xs" using b contents(1) by simp
      then have "b \<in> dom (nodes (sys_q s))" by (auto simp: contents_at_def)
      then have "rank g b \<noteq> segment_of e" using inj_onD [OF inj, of b a] False e(2,3) by auto
      then show ?thesis using parts(3) old event_by(2) [of "rank g b" e] by (simp add: contents_ok_def)
    qed
  qed
  moreover have "thread_in_order (logged e g) sent s' u" for u
  proof (cases "u = t")
    case False
    then have u: "u \<noteq> actor e" using e(1) by simp
    show ?thesis
      using parts(4) [of u] False event_by(1) [OF u]
      by (simp add: thread_in_order_def pc view(3,4) logged_ok [OF u view(2,1)])
  qed (use mine in simp)
  ultimately show ?thesis using e(4) by (simp add: lscq_order_def)
qed

lemma order_alloc:
  assumes ord: "lscq_order as g sent s" and node: "nodes (sys_q s) a = Some n" and crash: "sys_pc s' t \<noteq> Crashed"
    and inv: "lscq_values c k V s" "Suc (c + 2 * 2 ^ k) < 2 ^ 62" and safe: "lscq_safe cs s"
    and p: "sys_pc s t = EqAlloc x a sz pos" and step: "enq_alloc t x a sz pos s = Some s'"
  shows "\<exists>g'. lscq_order as g' sent s'"
proof -
  let ?v = "node_value n"
  obtain res aq where res: "ring_enqueue (alloc_queue ?v) pos = ret (res, aq)"
      and s': "s' = after_step t a (case res of Inl _ \<Rightarrow> EqUndoUsed a pos | Inr _ \<Rightarrow> EqSeal x a sz) (?v\<lparr>alloc_queue := aq\<rparr>) [] s"
    using step crash by (auto simp: enq_alloc_def with_node_def node after_step_def Let_def elim!: proceed_cases)
  have t: "t < participants s" using safe_participant [OF safe, of t a] p by simp
  have seg: "segment c k ?v (others (at_node a empties) t s) (add_mset pos (others (at_node a fulls) t s))
      (Suc (others (at_node a ahead) t s))"
    using hands_segment [OF inv(1) node t p] by simp
  have x: "backing ?v ! unat pos = Some x"
    using order_thread(3) [OF ord, of t] p node by (simp add: slot_at_def)
  note contents = contents_store [OF seg inv(2) res]
  show ?thesis
  proof (cases res)
    case (Inl err)
    then have "lscq_order as g sent s'"
      unfolding s' using contents x node
      by (intro order_same_slots [OF ord p _ node]) (simp_all add: goes_from_def slot_at_def)
    then show ?thesis ..
  next
    case (Inr u)
    define e where "e = Put t (rank g a) x"
    have s': "s' = after_step t a (EqSeal x a sz) (?v\<lparr>alloc_queue := aq\<rparr>) [] s" using s' Inr by simp
    note view = after_step_view [OF node, of t "EqSeal x a sz" "?v\<lparr>alloc_queue := aq\<rparr>" "[]", folded s']
    have slots: "slot_at s' = slot_at s" using node by (intro ext) (simp add: view(6), simp add: slot_at_def)
    have prod: "rank g a \<le> tail_rank g s" "put_upto g t (rank g a)"
      using order_thread(4) [OF ord, of t] p by (simp_all add: producer_ok_def)
    have "tail_rank (logged e g) s' = tail_rank g s" by (simp add: tail_rank_def view(4))
    then have "thread_in_order (logged e g) sent s' t"
      using order_thread [OF ord, of t] p prod
      by (simp add: thread_in_order_def view(1-4) slots e_def producer_ok_def consumer_ok_def put_upto_def got_upto_def head_rank_def)
    moreover have "segment_log (elog g @ [e])"
      unfolding e_def using segment_log.put [OF order_parts(1) [OF ord]] prod(2) by (simp add: put_upto_def)
    moreover have "puts_in (rank g a) (elog g) = gets_in (rank g a) (elog g) @ node_contents ?v"
      using order_parts(3) [OF ord] node by (simp add: contents_ok_def contents_at_def)
    ultimately have "lscq_order as (logged e g) sent s'"
      using contents Inr x node
      by (intro order_event [OF ord view(1,3,4) _ slots view(5), where a = a]) (auto simp: e_def view(2,7))
    then show ?thesis ..
  qed
qed

lemma order_try:
  assumes ord: "lscq_order as g sent s" and node: "nodes (sys_q s) a = Some n" and crash: "sys_pc s' t \<noteq> Crashed"
    and inv: "lscq_values c k V s" "Suc (Suc c) < 2 ^ 62"
    and p: "sys_pc s t = p" "(p, p0) = (DqTry a, DqNext a) \<or> (\<exists>nx. (p, p0) = (DqRetry a nx, DqAdvance a nx))"
    and step: "deq_try t a p0 s = Some s'"
  shows "\<exists>g'. lscq_order as g' sent s'"
proof -
  let ?v = "node_value n"
  obtain popt aq where res: "ring_dequeue (alloc_queue ?v) = ret (popt, aq)"
      and s': "s' = after_step t a (case popt of None \<Rightarrow> p0 | Some pos \<Rightarrow> DqUsed a pos) (?v\<lparr>alloc_queue := aq\<rparr>) [] s"
    using step crash by (auto simp: deq_try_def with_node_def node after_step_def Let_def elim!: proceed_cases)
  note contents = contents_take [OF values_parts(6) [OF inv(1) node, unfolded node_ok_def] inv(2) res]
  show ?thesis
  proof (cases popt)
    case None
    then have "lscq_order as g sent s'"
      unfolding s' using contents p(2)
      by (intro order_same_slots [OF ord p(1) _ node]) (auto simp: goes_from_def)
    then show ?thesis ..
  next
    case (Some pos)
    define x where "x = the (backing ?v ! unat pos)"
    define e where "e = Got t (rank g a) x"
    have s': "s' = after_step t a (DqUsed a pos) (?v\<lparr>alloc_queue := aq\<rparr>) [] s" using s' Some by simp
    note view = after_step_view [OF node, of t "DqUsed a pos" "?v\<lparr>alloc_queue := aq\<rparr>" "[]", folded s']
    have slots: "slot_at s' = slot_at s" using node by (intro ext) (simp add: view(6), simp add: slot_at_def)
    have x: "the (slot_at s a pos) = x" using node by (simp add: slot_at_def x_def)
    have cons: "rank g a \<le> head_rank g s" "got_upto g t (rank g a)"
      using order_thread(5) [OF ord, of t] p by (auto simp: consumer_ok_def)
    have ranks: "tail_rank (logged e g) s' = tail_rank g s" "head_rank (logged e g) s' = head_rank g s"
      by (simp_all add: tail_rank_def head_rank_def view(3,4))
    have "thread_in_order (logged e g) sent s' t"
      using order_thread [OF ord, of t] p cons
      by (auto simp: thread_in_order_def view(1-4) slots e_def producer_ok_def consumer_ok_def put_upto_def got_upto_def
          ranks [unfolded e_def] x)
    moreover have old: "puts_in (rank g a) (elog g)
        = gets_in (rank g a) (elog g) @ x # node_contents (?v\<lparr>alloc_queue := aq\<rparr>)"
      using order_parts(3) [OF ord] node contents Some by (simp add: contents_ok_def contents_at_def x_def)
    moreover have "segment_log (elog g @ [e])"
      unfolding e_def using segment_log.got [OF order_parts(1) [OF ord] _ old] cons(2) by (simp add: got_upto_def)
    ultimately have "lscq_order as (logged e g) sent s'"
      using node
      by (intro order_event [OF ord view(1,3,4) _ slots view(5), where a = a]) (auto simp: e_def view(2,7))
    then show ?thesis ..
  qed
qed

end
