(* ===== verification/LscqOrderRun.thy ===== *)
theory LscqOrderRun
  imports LscqOrder
begin

text \<open>
  The steps that change the list itself (the link of a new node, the exchange of the tail, the advance of
  the head, the reclamation of a node), those that only read it, and with them every step of every execution:
  the invariant \<open>lscq_order\<close> holds throughout.
\<close>

section \<open>Steps that change the list\<close>

lemma enqueuing_node: "enqueuing_at p = Some a \<Longrightarrow> node_at p = Some a"
  and dequeuing_node: "dequeuing_at p = Some a \<Longrightarrow> node_at p = Some a"
  by (cases p; simp)+

text \<open>A new node is linked: its number is the next, and its value is put.\<close>

lemma order_link:
  assumes ord: "lscq_order as g sent s" and node: "nodes (sys_q s) a = Some n"
    and safe: "lscq_safe as s" and p: "sys_pc s t = EqGrow x a" and b: "nodes (sys_q s) b = None"
    and a: "next_of s a = Some None" and m: "node_contents (node_value m) = [x]"
    and s': "s' = at_pc t (EqTail x a b) (on_q (\<lambda>q. put_next a (Some b) (q\<lparr>nodes := (nodes q)(b \<mapsto> m)\<rparr>)) s)"
  shows "\<exists>g'. lscq_order (as @ [b]) g' sent s'"
proof -
  note parts = order_parts [OF ord]
  define g' where "g' = \<lparr>rank = (rank g)(b := born g), born = Suc (born g), elog = elog g @ [Put t (born g) x]\<rparr>"
  have g': "rank g' = (rank g)(b := born g)" "born g' = Suc (born g)" "elog g' = elog g @ [Put t (born g) x]"
    by (simp_all add: g'_def)
  have ab: "a \<noteq> b" using node b by auto
  have view: "sys_pc s' = (sys_pc s)(t := EqTail x a b)" "history s' = history s"
      "lq_head (sys_q s') = lq_head (sys_q s)" "lq_tail (sys_q s') = lq_tail (sys_q s)"
      "nodes (sys_q s') = (nodes (sys_q s))(b \<mapsto> m, a \<mapsto> n\<lparr>next_ptr := Some b\<rparr>)"
    using node ab by (auto simp: s' state_updates fun_upd_twist)
  have dom': "dom (nodes (sys_q s')) = insert b (dom (nodes (sys_q s)))" using node by (auto simp: view(5))
  have old: "contents_at s' d = contents_at s d" "slot_at s' d = slot_at s d" if "d \<noteq> b" for d
    using node that by (auto simp: contents_at_def slot_at_def view(5) fun_eq_iff)
  have rank: "rank g' d = rank g d" if "nodes (sys_q s) d \<noteq> None" for d using that b by (auto simp: g')
  have tail: "lq_tail (sys_q s) = Some a"
    using safe_parts(8) [OF safe, of t] p a by (simp add: thread_ok_def)
  obtain h where h: "lq_head (sys_q s) = Some h" "nodes (sys_q s) h \<noteq> None"
    using safe_head_allocated [OF safe] by (auto simp: next_of_def)
  have ends: "tail_rank g' s' = tail_rank g s" "head_rank g' s' = head_rank g s"
    using rank [of a] rank [OF h(2)] node h(1) tail by (simp_all add: tail_rank_def head_rank_def view(3,4))
  have below: "\<forall>d\<in>dom (nodes (sys_q s)). rank g d < born g" "\<forall>t r y. Put t r y \<in> set (elog g) \<longrightarrow> r < born g"
    using parts(2) by (simp_all add: ranks_ok_def)
  have new: "puts_in (born g) (elog g) = []" "gets_in (born g) (elog g) = []"
  proof -
    have "y \<notin> set (puts_in (born g) (elog g))" for y using below(2) by (auto simp: set_puts_in)
    then have "set (puts_in (born g) (elog g)) = {}" by (intro equals0I) (rule notE)
    then show "puts_in (born g) (elog g) = []" by simp
    then show "gets_in (born g) (elog g) = []" using segment_fifo [OF parts(1), of "born g"] by simp
  qed
  have all: "put_upto g t (born g)" using below(2) by (force simp: put_upto_def set_puts_by)
  have "segment_log (elog g')"
    unfolding g' using segment_log.put [OF parts(1)] all by (simp add: put_upto_def)
  moreover have "ranks_ok (as @ [b]) g' s'"
  proof -
    have chain: "d \<in> dom (nodes (sys_q s))" if "d \<in> set as" for d
      using links_allocated [OF safe_parts(3) [OF safe] that] by (auto simp: next_of_def)
    then have "map (rank g') as = map (rank g) as" using b by (intro map_cong) (auto simp: g')
    then have eq: "map (rank g') (as @ [b]) = map (rank g) as @ [born g]"
      by (simp only: map_append list.map) (simp add: g')
    have "sorted_wrt (<) (map (rank g') (as @ [b]))"
      unfolding eq using parts(2) below(1) chain by (auto simp: ranks_ok_def sorted_wrt_append)
    moreover have "inj_on (rank g') (insert b (dom (nodes (sys_q s))))"
    proof -
      have "inj_on (rank g') (dom (nodes (sys_q s)))"
        using parts(2) b by (subst inj_on_cong [of _ _ "rank g"]) (auto simp: ranks_ok_def g')
      moreover have "rank g' b \<notin> rank g' ` dom (nodes (sys_q s))" using below(1) b by (auto simp: g')
      ultimately show ?thesis by (auto simp: inj_on_insert)
    qed
    moreover have "\<forall>d\<in>dom (nodes (sys_q s)) - set as. \<forall>e\<in>set as. rank g d < rank g e"
      using parts(2) by (simp add: ranks_ok_def)
    ultimately show ?thesis
      using below by (auto simp: ranks_ok_def dom' g' less_Suc_eq)
  qed
  moreover have "contents_ok g' s'"
    unfolding contents_ok_def
  proof (intro allI impI)
    fix d xs assume d: "contents_at s' d = Some xs"
    show "puts_in (rank g' d) (elog g') = gets_in (rank g' d) (elog g') @ xs"
    proof (cases "d = b")
      case True
      then have "xs = [x]" using d m ab by (simp add: contents_at_def view(5))
      with True show ?thesis using new by (simp add: g')
    next
      case False
      then have xs: "contents_at s d = Some xs" using d old(1) by simp
      then have "rank g d < born g" using below(1) by (auto simp: contents_at_def)
      then show ?thesis using parts(3) xs False by (simp add: contents_ok_def g')
    qed
  qed
  moreover have "thread_in_order g' sent s' u" for u
  proof (cases "u = t")
    case True
    show ?thesis
      using order_thread [OF ord, of t] p all tail unfolding True
      by (simp add: thread_in_order_def view(1,2) producer_ok_def consumer_ok_def put_upto_def got_upto_def ends view(4) g')
  next
    case False
    have allocated: "d \<noteq> b" if "node_at (sys_pc s u) = Some d" for d
      using safe_node [OF safe that] b by auto
    have slots: "\<forall>d pos. slot_of (sys_pc s u) = Some (d, pos) \<longrightarrow> slot_at s' d pos = slot_at s d pos"
      using old(2) allocated slot_of_node by metis
    have upto: "put_upto g' u r = put_upto g u r" "got_upto g' u r = got_upto g u r" for r
      using False by (simp_all add: put_upto_def got_upto_def g')
    have "producer_ok g' s' u (sys_pc s u)"
    proof (cases "linking (sys_pc s u)")
      case None
      then show ?thesis
        using order_thread(4) [OF ord, of u] allocated enqueuing_node [of "sys_pc s u"]
        by (auto simp: producer_ok_def upto ends g' split: option.splits)
    next
      case (Some l)
      then obtain y a' b' where l: "sys_pc s u = EqTail y a' b'" by (cases "sys_pc s u") auto
      have "next_of s a' = Some (Some b')" using safe_parts(8) [OF safe, of u] l by (simp add: thread_ok_def)
      then have "a' \<noteq> a" using a by auto
      then show ?thesis
        using order_thread(4) [OF ord, of u] l tail by (simp add: producer_ok_def upto ends view(4))
    qed
    moreover have "consumer_ok g' s' u (sys_pc s u)"
      using order_thread(5) [OF ord, of u] allocated dequeuing_node [of "sys_pc s u"]
      by (auto simp: consumer_ok_def upto ends g' split: option.splits)
    ultimately show ?thesis
      using order_thread(1-3) [OF ord, of u] False slot_values_same [OF slots]
      by (simp add: thread_in_order_def view(1,2) g')
  qed
  ultimately show ?thesis by (auto simp: lscq_order_def)
qed

text \<open>The tail or the head advances, or a node on which nobody works is gone.\<close>

lemma order_ends:
  assumes ord: "lscq_order as g sent s" and pc: "sys_pc s' = (sys_pc s)(t := p')"
    and nodes: "\<forall>d. nodes (sys_q s') d = nodes (sys_q s) d \<or> nodes (sys_q s') d = None"
    and hist: "\<forall>u. u \<noteq> t \<longrightarrow> returned u (history s') = returned u (history s) \<and> sent' u = sent u"
    and slots: "\<forall>u a. node_at (sys_pc s u) = Some a \<longrightarrow> nodes (sys_q s') a = nodes (sys_q s) a"
    and chain: "sorted_wrt (<) (map (rank g) as')"
      "\<forall>a\<in>dom (nodes (sys_q s)) - set as'. \<forall>b\<in>set as'. rank g a < rank g b"
    and grow: "tail_rank g s \<le> tail_rank g s'" "head_rank g s \<le> head_rank g s'"
    and linkers: "\<forall>u x a b. u \<noteq> t \<longrightarrow> sys_pc s u = EqTail x a b \<longrightarrow> lq_tail (sys_q s) = Some a \<longrightarrow>
      lq_tail (sys_q s') = Some a \<or> rank g b \<le> tail_rank g s'"
    and mine: "sent' t = map snd (puts_by t (elog g)) @ entering (slot_at s') p'"
      "map snd (gets_by t (elog g)) = returned t (history s') @ leaving (slot_at s') p'"
      "written (slot_at s') p'" "producer_ok g s' t p'" "consumer_ok g s' t p'"
  shows "lscq_order as' g sent' s'"
proof -
  note parts = order_parts [OF ord]
  have dom: "dom (nodes (sys_q s')) \<subseteq> dom (nodes (sys_q s))" using nodes by (metis domIff subsetI)
  have "ranks_ok as' g s'"
    using parts(2) chain dom unfolding ranks_ok_def by (intro conjI) (blast intro: inj_on_subset)+
  moreover have "contents_ok g s'"
    using parts(3) nodes unfolding contents_ok_def contents_at_def
    by (metis option.distinct(1) option.map(1))
  moreover have "thread_in_order g sent' s' u" for u
  proof (cases "u = t")
    case False
    have "\<forall>a pos. slot_of (sys_pc s u) = Some (a, pos) \<longrightarrow> slot_at s' a pos = slot_at s a pos"
      using slots slot_of_node [of "sys_pc s u"] unfolding slot_at_def by metis
    note same = slot_values_same [OF this]
    have "producer_ok g s' u (sys_pc s u)"
    proof (cases "linking (sys_pc s u)")
      case None
      then show ?thesis
        using order_thread(4) [OF ord, of u] grow(1) upto_mono(1) [of g u "tail_rank g s" "tail_rank g s'"]
        by (auto simp: producer_ok_def split: option.splits)
    next
      case (Some l)
      then obtain x a b where l: "sys_pc s u = EqTail x a b" by (cases "sys_pc s u") auto
      then have "lq_tail (sys_q s) = Some a \<and> put_upto g u (rank g b) \<or> put_upto g u (tail_rank g s')"
        using order_thread(4) [OF ord, of u] upto_mono(1) [OF _ grow(1)] by (auto simp: producer_ok_def)
      then have "lq_tail (sys_q s') = Some a \<and> put_upto g u (rank g b) \<or> put_upto g u (tail_rank g s')"
        using linkers False l upto_mono(1) [of g u "rank g b"] by blast
      then show ?thesis by (simp add: producer_ok_def l)
    qed
    moreover have "consumer_ok g s' u (sys_pc s u)"
      using order_thread(5) [OF ord, of u] grow(2) upto_mono(2) [of g u "head_rank g s" "head_rank g s'"]
      by (auto simp: consumer_ok_def split: option.splits)
    ultimately show ?thesis
      using order_thread(1-3) [OF ord, of u] False hist by (simp add: thread_in_order_def pc same)
  qed (use mine in \<open>simp add: thread_in_order_def pc\<close>)
  ultimately show ?thesis using parts(1) by (simp add: lscq_order_def)
qed

lemma sorted_last: "sorted_wrt (<) (map f xs) \<Longrightarrow> x \<in> set xs \<Longrightarrow> x \<noteq> last xs \<Longrightarrow> f x < (f (last xs) :: nat)"
  by (induction xs) (auto split: if_splits)

lemma rank_link:
  assumes ord: "lscq_order as g sent s" and safe: "lscq_safe as s" and tail: "lq_tail (sys_q s) = Some a"
    and link: "next_of s a = Some (Some b)"
  shows "rank g a < rank g b"
proof -
  note ranks = order_parts(2) [OF ord]
  have b: "b = last as" using safe_tail_link [OF safe tail link] .
  have ne: "as \<noteq> []" "a \<noteq> last as" using safe_parts(1) [OF safe] links_last [OF safe_parts(1,3) [OF safe]] link by auto
  have a: "a \<in> dom (nodes (sys_q s))" using link by (auto simp: next_of_def)
  show ?thesis
  proof (cases "a \<in> set as")
    case True
    then show ?thesis using sorted_last [of "rank g" as a] ranks ne b by (simp add: ranks_ok_def)
  next
    case False
    then show ?thesis using ranks ne(1) a b by (simp add: ranks_ok_def)
  qed
qed

text \<open>The exchange of the tail, by a thread that links a node or by one that helps it.\<close>

lemma order_cas_tail:
  assumes ord: "lscq_order as g sent s" and safe: "lscq_safe as s" and p: "link_at (sys_pc s t) = Some (a, b)"
      "sys_pc s t = EqTail x a b \<or> sys_pc s t = EqSwing x a b"
    and s': "sys_pc s' = (sys_pc s)(t := p')" "sys_q s' = cas_lq_tail (Some a) (Some b) (sys_q s)"
      "history s' = history s @ es" "\<forall>u. returned u es = []"
    and p': "entering (slot_at s) p' = entering (slot_at s) (sys_pc s t)" "leaving (slot_at s) p' = []"
      "written (slot_at s) p'" "linking p' = None" "enqueuing_at p' = None" "dequeuing_at p' = None"
  shows "lscq_order as g sent s'"
proof -
  have link: "next_of s a = Some (Some b)" using safe_parts(8) [OF safe, of t] p(1) by (simp add: thread_ok_def)
  have rank: "rank g a < rank g b" if "lq_tail (sys_q s) = Some a" using rank_link [OF ord safe that link] .
  have q: "nodes (sys_q s') = nodes (sys_q s)" "lq_head (sys_q s') = lq_head (sys_q s)"
      "lq_tail (sys_q s') = (if lq_tail (sys_q s) = Some a then Some b else lq_tail (sys_q s))"
    by (simp_all add: s'(2) cas_lq_tail_def)
  have slots: "slot_at s' = slot_at s" by (simp add: slot_at_def fun_eq_iff q(1))
  have grow: "tail_rank g s \<le> tail_rank g s'" "head_rank g s' = head_rank g s"
    using rank by (auto simp: tail_rank_def head_rank_def q)
  have moved: "tail_rank g s' = rank g b" if "lq_tail (sys_q s) = Some a" using that by (simp add: tail_rank_def q(3))
  have linkers: "rank g d \<le> tail_rank g s'"
    if "sys_pc s u = EqTail y c d" "lq_tail (sys_q s) = Some c" "lq_tail (sys_q s') \<noteq> Some c" for u y c d
  proof -
    have "c = a" using that q(3) by (auto split: if_splits)
    moreover have "next_of s c = Some (Some d)" using safe_parts(8) [OF safe, of u] that(1) by (simp add: thread_ok_def)
    ultimately show ?thesis using link moved that(2) by simp
  qed
  have "put_upto g t (tail_rank g s')"
    using p(2)
  proof
    assume l: "sys_pc s t = EqTail x a b"
    then show ?thesis
      using order_thread(4) [OF ord, of t] moved grow(1) upto_mono(1) [of g t "tail_rank g s"]
      by (auto simp: producer_ok_def)
  next
    assume l: "sys_pc s t = EqSwing x a b"
    then show ?thesis
      using order_thread(4) [OF ord, of t] grow(1) upto_mono(1) [of g t "rank g a" "tail_rank g s'"]
      by (auto simp: producer_ok_def)
  qed
  moreover have "got_upto g t (head_rank g s')"
    using order_thread(5) [OF ord, of t] p(2) grow(2) by (auto simp: consumer_ok_def)
  ultimately show ?thesis
    using order_thread(1,2) [OF ord, of t] order_parts(2) [OF ord] p(2) linkers grow
    by (intro order_ends [OF ord s'(1)])
      (auto simp: q(1) s'(3,4) slots p' producer_ok_def consumer_ok_def ranks_ok_def)
qed

lemma links_unique: "links N as None \<Longrightarrow> links N bs None \<Longrightarrow> first_ptr as None = first_ptr bs None \<Longrightarrow> as = bs"
proof (induction as arbitrary: bs)
  case Nil
  then show ?case by (cases bs) auto
next
  case (Cons a as)
  then show ?case by (cases bs) auto
qed

lemma chain_unique:
  assumes "lscq_safe as s" "links (next_of s) bs None" "first_ptr bs None = lq_head (sys_q s)"
  shows "as = bs"
  using links_unique [OF safe_parts(3) [OF assms(1)] assms(2)] safe_parts(1,4) [OF assms(1)] assms(3)
  by (cases as) auto

lemma order_advance:
  assumes ord: "lscq_order as g sent s" and safe: "lscq_safe as s" and p: "sys_pc s t = DqAdvance a nx"
    and step: "deq_advance t a nx s = Some s'"
  shows "\<exists>as'. lscq_order as' g sent s' \<and> lscq_safe as' s'"
proof (cases "lq_head (sys_q s) = Some a")
  case False
  then have s': "s' = at_pc t DqLoad s" using step by (simp add: deq_advance_def)
  have "lscq_order as g sent s'"
    unfolding s' by (rule order_local [OF ord p, where p' = DqLoad and es = "[]"]) (simp_all add: goes_from_def at_pc_def)
  moreover have "lscq_safe as s'"
    unfolding s' using p by (intro safe_updates(1) [OF safe] thread_ok_idle) simp_all
  ultimately show ?thesis by blast
next
  case True
  then have s': "s' = at_pc t (DqRetire a) (on_q (\<lambda>q. q\<lparr>lq_head := Some nx\<rparr>) s)"
    using step by (simp add: deq_advance_def)
  obtain as' where safe': "lscq_safe as' s'" using safe_deq_advance [OF safe p step] by blast
  have link: "next_of s a = Some (Some nx)" using safe_parts(8) [OF safe, of t] p by (simp add: thread_ok_def)
  obtain rest where as: "as = a # nx # rest"
    using safe_parts(1,3,4) [OF safe] True link by (cases as; cases "tl as") auto
  have N: "next_of s' = next_of s" and h: "lq_head (sys_q s') = Some nx" by (simp_all add: s')
  have as': "as' = nx # rest"
    using chain_unique [OF safe', of "nx # rest"] safe_parts(3) [OF safe] by (simp add: N h as)
  have ranks: "sorted_wrt (<) (map (rank g) as)" "\<forall>d\<in>dom (nodes (sys_q s)) - set as. \<forall>b\<in>set as. rank g d < rank g b"
    using order_parts(2) [OF ord] by (simp_all add: ranks_ok_def)
  have slots: "slot_at s' = slot_at s" by (simp add: slot_at_def fun_eq_iff s')
  have view: "sys_pc s' = (sys_pc s)(t := DqRetire a)" "history s' = history s" "nodes (sys_q s') = nodes (sys_q s)"
      "lq_tail (sys_q s') = lq_tail (sys_q s)"
    by (simp_all add: s' state_updates)
  have rank: "rank g a < rank g nx" using ranks(1) by (simp add: as)
  have ends: "tail_rank g s' = tail_rank g s" "head_rank g s = rank g a" "head_rank g s' = rank g nx"
    by (simp_all add: tail_rank_def head_rank_def h True view(4))
  have "lscq_order as' g sent s'"
    using order_thread [OF ord, of t] p ranks rank
    by (intro order_ends [OF ord view(1)])
      (auto simp: view slots ends producer_ok_def consumer_ok_def as as')
  with safe' show ?thesis by blast
qed

lemma order_reclaim:
  assumes ord: "lscq_order as g sent s" and safe: "lscq_safe as s" and step: "reclaim a s = Some s'"
  shows "lscq_order as g sent s'"
proof -
  have a: "a \<in> set (retired_at s)" "unprotected a s"
    using step by (auto simp: reclaim_def split: if_splits)
  have held: "d \<noteq> a" if "node_at (sys_pc s u) = Some d" for u d
    using safe_parts(8) [OF safe, of u] that a(2) by (auto simp: thread_ok_def unprotected_def list_all_iff)
  have "next_of s a \<noteq> None" using safe_parts(6) [OF safe] a(1) by blast
  then obtain n where n: "nodes (sys_q s) a = Some n" by (auto simp: next_of_def)
  obtain d where d: "s' = on_q (\<lambda>q. q\<lparr>nodes := (nodes q)(a := None)\<rparr>)
      (s\<lparr>retired_at := removeAll a (retired_at s), reclaimed_values := d\<rparr>)"
    using step a n by (auto simp: reclaim_def with_node_def split: option.splits exec.splits)
  have view: "sys_pc s' = (sys_pc s)(0 := sys_pc s 0)" "history s' = history s" "nodes (sys_q s') = (nodes (sys_q s))(a := None)"
      "lq_tail (sys_q s') = lq_tail (sys_q s)" "lq_head (sys_q s') = lq_head (sys_q s)"
    by (simp_all add: d on_q_def)
  have ranks: "tail_rank g s' = tail_rank g s" "head_rank g s' = head_rank g s"
    by (simp_all add: tail_rank_def head_rank_def view)
  have "\<forall>b pos. slot_of (sys_pc s 0) = Some (b, pos) \<longrightarrow> slot_at s' b pos = slot_at s b pos"
    using held [of 0] slot_of_node [of "sys_pc s 0"] by (auto simp: slot_at_def view(3))
  note slots = slot_values_same [OF this]
  show ?thesis
    using order_thread [OF ord, of 0] order_parts(2) [OF ord] held
    by (intro order_ends [OF ord view(1)])
      (auto simp: view ranks slots ranks_ok_def ok_cong [OF ranks view(4)])
qed

section \<open>Steps that read the list\<close>

lemma order_loads:
  assumes ord: "lscq_order as g sent s" and safe: "lscq_safe as s"
  shows "sys_pc s t = EqLoad x \<Longrightarrow> enq_load t x s = Some s' \<Longrightarrow> lscq_order as g sent s'"
    and "sys_pc s t = DqLoad \<Longrightarrow> deq_load t s = Some s' \<Longrightarrow> lscq_order as g sent s'"
    and "sys_pc s t = DqRetire a \<Longrightarrow> deq_retire t a s = Some s' \<Longrightarrow> lscq_order as g sent s'"
proof -
  obtain c where c: "lq_tail (sys_q s) = Some c" using safe_tail_allocated [OF safe] by blast
  show "lscq_order as g sent s'" if "sys_pc s t = EqLoad x" "enq_load t x s = Some s'"
    using that(2) c
    by (intro order_local [OF ord that(1), where p' = "EqNext x c" and es = "[]"])
      (auto simp: enq_load_def state_updates goes_from_def)
  show "lscq_order as g sent s'" if "sys_pc s t = DqLoad" "deq_load t s = Some s'"
    using that(2) safe_head_allocated(1) [OF safe]
    by (intro order_local [OF ord that(1), where p' = "DqTry (hd as)" and es = "[]"])
      (auto simp: deq_load_def state_updates goes_from_def)
  show "lscq_order as g sent s'" if "sys_pc s t = DqRetire a" "deq_retire t a s = Some s'"
    using that(2)
    by (intro order_local [OF ord that(1), where p' = DqLoad and es = "[]"])
      (auto simp: deq_retire_def state_updates goes_from_def)
qed

lemma order_nexts:
  assumes ord: "lscq_order as g sent s" and node: "nodes (sys_q s) a = Some n"
  shows "sys_pc s t = EqNext x a \<Longrightarrow> enq_next t x a s = Some s' \<Longrightarrow> lscq_order as g sent s'"
    and "sys_pc s t = DqNext a \<Longrightarrow> deq_next t a s = Some s' \<Longrightarrow> lscq_order as g sent s'"
proof -
  show "lscq_order as g sent s'" if "sys_pc s t = EqNext x a" "enq_next t x a s = Some s'"
    using that(2) node
    by (intro order_local [OF ord that(1), where p' = "case next_ptr n of None \<Rightarrow> EqUsed x a | Some nx \<Rightarrow> EqSwing x a nx"
        and es = "[]"])
      (auto simp: enq_next_def with_node_def state_updates goes_from_def split: option.splits)
  show "lscq_order as g sent s'" if p: "sys_pc s t = DqNext a" and step: "deq_next t a s = Some s'"
  proof (cases "next_ptr n")
    case None
    then show ?thesis
      using step node
      by (intro order_local [OF ord p, where p' = LIdle and es = "[DeqReturned t None]"])
        (auto simp: deq_next_def with_node_def state_updates goes_from_def)
  next
    case (Some nx)
    then show ?thesis
      using step node
      by (intro order_local [OF ord p, where p' = "DqThreshold a nx" and es = "[]"])
        (auto simp: deq_next_def with_node_def state_updates goes_from_def)
  qed
qed

lemma order_swing:
  assumes ord: "lscq_order as g sent s" and safe: "lscq_safe as s"
  shows "sys_pc s t = EqSwing x a nx \<Longrightarrow> s' = at_pc t (EqLoad x) (on_q (cas_lq_tail (Some a) (Some nx)) s)
      \<Longrightarrow> lscq_order as g sent s'"
    and "sys_pc s t = EqTail x a nx \<Longrightarrow> enq_tail t x a nx s = Some s' \<Longrightarrow> lscq_order as g sent s'"
proof -
  show "lscq_order as g sent s'"
    if "sys_pc s t = EqSwing x a nx" "s' = at_pc t (EqLoad x) (on_q (cas_lq_tail (Some a) (Some nx)) s)"
    using that
    by (intro order_cas_tail [OF ord safe, of t a nx x s' "EqLoad x" "[]"]) (simp_all add: state_updates)
  show "lscq_order as g sent s'" if "sys_pc s t = EqTail x a nx" "enq_tail t x a nx s = Some s'"
    using that
    by (intro order_cas_tail [OF ord safe, of t a nx x s' LIdle "[EnqReturned t x]"]) (auto simp: enq_tail_def state_updates)
qed

lemma order_grow:
  assumes ord: "lscq_order as g sent s" and safe: "lscq_safe as s" and p: "sys_pc s t = EqGrow x a"
    and inv: "lscq_values c k V s" and c: "c + lscq_cost k < 2 ^ 62" and b: "nodes (sys_q s) b = None"
    and node: "nodes (sys_q s) a = Some n" and step: "enq_grow t b x a s = Some s'"
  shows "\<exists>as' g'. lscq_order as' g' sent s' \<and> lscq_safe as' s'"
proof -
  note parts = values_parts [OF inv]
  obtain m where m: "grown_node (2 ^ k) (sched (sys_q s) b) x = ret m" "node_rep (Suc (2 ^ k)) k (node_value m) [x]"
      "next_ptr m = None" "take_back m = ret x"
    using grown_node_ok [OF parts(1), of "sched (sys_q s) b" x] by blast
  show ?thesis
  proof (cases "next_ptr n")
    case None
    then have s': "s' = at_pc t (EqTail x a b) (on_q (\<lambda>q. put_next a (Some b) (q\<lparr>nodes := (nodes q)(b \<mapsto> m)\<rparr>)) s)"
      using step node parts(3) m(1) by (simp add: enq_grow_def with_node_def proceed_def Let_def)
    have a: "next_of s a = Some None" using node None by (simp add: next_of_def)
    have "Suc (Suc (2 ^ k)) < (2 :: nat) ^ 62" using power_increasing [OF parts(1), of "2 :: nat"] by simp
    then have "node_contents (node_value m) = [x]" by (rule contents_node [OF m(2)])
    then show ?thesis
      using order_link [OF ord node safe p b a _ s'] safe_link_node [OF safe p a b m(3)] s' by blast
  next
    case (Some nx)
    then have s': "s' = at_pc t (EqLoad x) s"
      using step node parts(3) m(1,4) by (simp add: enq_grow_def with_node_def proceed_def Let_def)
    have "lscq_order as g sent s'"
      unfolding s' by (rule order_local [OF ord p, where p' = "EqLoad x" and es = "[]"]) (simp_all add: goes_from_def at_pc_def)
    moreover have "lscq_safe as s'"
      unfolding s' using p by (intro safe_updates(1) [OF safe] thread_ok_idle) simp_all
    ultimately show ?thesis by blast
  qed
qed

section \<open>Every step\<close>

lemma order_stays:
  assumes ord: "lscq_order as g sent s" and safe: "lscq_safe as s" and inv: "lscq_values c k V s"
    and c: "c + lscq_cost k < 2 ^ 62" and step: "thread_step t b s = Some s'" and crash: "sys_pc s' t \<noteq> Crashed"
    and p: "\<And>x a. sys_pc s t \<noteq> EqGrow x a" "\<And>a nx. sys_pc s t \<noteq> DqAdvance a nx"
  shows "\<exists>g'. lscq_order as g' sent s'"
proof (cases "node_at (sys_pc s t)")
  case None
  then show ?thesis
    using step order_loads [OF ord safe, of t] by (cases "sys_pc s t") (auto simp: thread_step_def)
next
  case (Some a)
  then obtain n where n: "nodes (sys_q s) a = Some n" using safe_node [OF safe] by blast
  have bounds: "Suc c < 2 ^ 62" "Suc (Suc c) < 2 ^ 62" "Suc (c + 2 * 2 ^ k) < 2 ^ 62"
    using c by (simp_all add: lscq_cost_def)
  note quiet = order_counters [OF ord n] order_threshold_seal [OF ord n inv bounds(1)] order_give [OF ord n crash]
    order_write_read [OF ord n crash inv bounds(1) safe] order_nexts [OF ord n]
  show ?thesis
  proof (cases "sys_pc s t")
    case (EqAlloc x a' sz pos)
    then show ?thesis
      using order_alloc [OF ord n crash inv bounds(3) safe, of x sz pos] step Some by (simp add: thread_step_def)
  next
    case (DqTry a')
    then show ?thesis
      using order_try [OF ord n crash inv bounds(2) DqTry, of "DqNext a"] step Some by (simp add: thread_step_def)
  next
    case (DqRetry a' nx)
    then show ?thesis
      using order_try [OF ord n crash inv bounds(2) DqRetry, of "DqAdvance a nx"] step Some by (simp add: thread_step_def)
  qed (use Some step p quiet order_swing [OF ord safe] order_loads(3) [OF ord safe] in
      \<open>auto simp: thread_step_def intro!: exI [of _ g]\<close>)
qed

lemma order_step:
  assumes ord: "lscq_order as g sent s" and safe: "lscq_safe as s" and inv: "lscq_values c k V s"
    and c: "c + lscq_cost k < 2 ^ 62" and t: "t < participants s" and step: "thread_step t b s = Some s'"
    and crash: "sys_pc s' t \<noteq> Crashed"
  shows "\<exists>as' g'. lscq_order as' g' sent s' \<and> lscq_safe as' s'"
proof (cases "\<exists>x a. sys_pc s t = EqGrow x a")
  case True
  then obtain x a where p: "sys_pc s t = EqGrow x a" by blast
  then obtain n where n: "nodes (sys_q s) a = Some n" using safe_node [OF safe, of t a] by auto
  have "nodes (sys_q s) b = None" "enq_grow t b x a s = Some s'"
    using step p by (simp_all add: thread_step_def split: if_splits)
  then show ?thesis using order_grow [OF ord safe p inv c _ n] by blast
next
  case False
  show ?thesis
  proof (cases "\<exists>a nx. sys_pc s t = DqAdvance a nx")
    case True
    then obtain a nx where p: "sys_pc s t = DqAdvance a nx" by blast
    then have "deq_advance t a nx s = Some s'" using step by (simp add: thread_step_def)
    then show ?thesis using order_advance [OF ord safe p] by blast
  next
    case False
    with \<open>\<nexists>x a. sys_pc s t = EqGrow x a\<close> show ?thesis
      using safe_keeps [OF safe t step] order_stays [OF ord safe inv c step crash] by blast
  qed
qed

section \<open>Every execution\<close>

text \<open>The calls of \<open>enqueue\<close> in a schedule; those of one thread.\<close>

fun sends :: "'a lscq_label list \<Rightarrow> (nat \<times> 'a) list" where
  "sends [] = []"
| "sends (CallEnqueue t x # ls) = (t, x) # sends ls"
| "sends (_ # ls) = sends ls"

definition sent_by :: "nat \<Rightarrow> 'a lscq_label list \<Rightarrow> 'a list" where
  "sent_by t ls = map snd (filter (\<lambda>p. fst p = t) (sends ls))"

lemma sends_append [simp]: "sends (ls @ ms) = sends ls @ sends ms"
  by (induction ls rule: sends.induct) simp_all

lemma sent_by_simps [simp]:
  "sent_by t [] = []" "sent_by t (ls @ ms) = sent_by t ls @ sent_by t ms"
  "sent_by t [CallEnqueue u x] = (if u = t then [x] else [])" "sent_by t [CallDequeue u] = []"
  "sent_by t [RunStep u b] = []" "sent_by t [Release u] = []" "sent_by t [Reclaim a] = []"
  by (simp_all add: sent_by_def)

lemma order_call:
  assumes ord: "lscq_order as g sent s" and idle: "is_idle t s" and p: "p = DqLoad \<and> xs = [] \<or> (\<exists>x. p = EqLoad x \<and> xs = [x])"
  shows "lscq_order as g (sent(t := sent t @ xs)) (at_pc t p s)"
proof -
  have t: "sys_pc s t = LIdle" using idle by (auto simp: is_idle_def split: lscq_pc.splits)
  define s' where "s' = at_pc t p s"
  have view: "sys_pc s' = (sys_pc s)(t := p)" "sys_q s' = sys_q s" "history s' = history s"
    by (simp_all add: s'_def at_pc_def)
  have ends: "tail_rank g s' = tail_rank g s" "head_rank g s' = head_rank g s"
    by (simp_all add: tail_rank_def head_rank_def view)
  have "lscq_order as g (sent(t := sent t @ xs)) s'"
    using order_thread [OF ord, of t] order_parts(2) [OF ord] t p
    by (intro order_ends [OF ord view(1)])
      (auto simp: view ends producer_ok_def consumer_ok_def ranks_ok_def)
  then show ?thesis by (simp only: s'_def)
qed

lemma order_release:
  assumes ord: "lscq_order as g sent s" and s': "sys_q s' = sys_q s" "sys_pc s' = sys_pc s" "history s' = history s"
  shows "lscq_order as g sent s'"
proof -
  have same: "tail_rank g s' = tail_rank g s" "head_rank g s' = head_rank g s" "slot_at s' = slot_at s"
      "contents_at s' = contents_at s"
    by (simp_all add: tail_rank_def head_rank_def slot_at_def contents_at_def fun_eq_iff s')
  note ok = ok_cong [OF same(1,2)]
  show ?thesis
    using ord by (simp add: lscq_order_def ranks_ok_def contents_ok_def thread_in_order_def ok same s')
qed

lemma order_label:
  fixes s :: "'a lscq_sys"
  assumes ord: "lscq_order as g sent s" and safe: "lscq_safe as s" and inv: "lscq_values c k V s"
    and c: "c + lscq_cost k < 2 ^ 62" and step: "lscq_step l s = Some s'"
  shows "\<exists>as' g'. lscq_order as' g' (\<lambda>t. sent t @ sent_by t [l]) s' \<and> lscq_safe as' s'"
proof (cases l)
  case (CallEnqueue t x)
  then have idle: "is_idle t s" and s': "s' = at_pc t (EqLoad x) s" using step by (simp_all split: if_splits)
  have "(\<lambda>u. sent u @ sent_by u [l]) = sent(t := sent t @ [x])" using CallEnqueue by (simp add: fun_eq_iff)
  then show ?thesis
    using order_call [OF ord idle, of "EqLoad x" "[x]"] safe_call [OF safe idle, of "EqLoad x"] s' by auto
next
  case (CallDequeue t)
  then have idle: "is_idle t s" and s': "s' = at_pc t DqLoad s" using step by (simp_all split: if_splits)
  have "(\<lambda>u. sent u @ sent_by u [l]) = sent(t := sent t @ [])" using CallDequeue by (simp add: fun_eq_iff)
  then show ?thesis
    using order_call [OF ord idle, of DqLoad "[]"] safe_call [OF safe idle, of DqLoad] s' by auto
next
  case (RunStep t b)
  then have t: "t < participants s" and run: "thread_step t b s = Some s'" using step by (simp_all split: if_splits)
  have "sys_pc s' t \<noteq> Crashed"
    using values_parts(5) [OF values_label [OF inv c safe step], of t] .
  then show ?thesis using order_step [OF ord safe inv c t run] RunStep by simp
next
  case (Release t)
  then have idle: "is_idle t s" and s': "s' = s\<lparr>hp1 := (hp1 s)(t := None), hp2 := (hp2 s)(t := None)\<rparr>"
    using step by (simp_all split: if_splits)
  have "lscq_order as g sent s'" by (rule order_release [OF ord]) (simp_all add: s')
  then show ?thesis using safe_release [OF safe idle] s' Release by auto
next
  case (Reclaim a)
  then have "reclaim a s = Some s'" using step by simp
  then have "lscq_order as g sent s'" "lscq_safe as s'"
    using order_reclaim [OF ord safe] safe_reclaim [OF safe] by blast+
  then show ?thesis using Reclaim by auto
qed

lemma order_run:
  fixes s :: "'a lscq_sys"
  assumes "lscq_run ls s = Some s'" "lscq_values c k V s" "lscq_safe as s" "lscq_order as g sent s"
    and "c + length ls * lscq_cost k < 2 ^ 62"
  shows "\<exists>as' g'. lscq_order as' g' (\<lambda>t. sent t @ sent_by t ls) s'"
  using assms
proof (induction ls arbitrary: s c V as g sent)
  case Nil
  then show ?case by auto
next
  case (Cons l ls)
  then obtain s1 where s1: "lscq_step l s = Some s1" "lscq_run ls s1 = Some s'"
    by (auto split: option.splits)
  have c: "c + lscq_cost k < 2 ^ 62" using Cons.prems(5) by simp
  note one = values_label [OF Cons.prems(2) c Cons.prems(3) s1(1)]
  obtain as1 g1 where next_one: "lscq_order as1 g1 (\<lambda>t. sent t @ sent_by t [l]) s1" "lscq_safe as1 s1"
    using order_label [OF Cons.prems(4,3,2) c s1(1)] by blast
  have "(sent t @ sent_by t [l]) @ sent_by t ls = sent t @ sent_by t (l # ls)" for t
    using sent_by_simps(2) [of t "[l]" ls] by simp
  then show ?case
    using Cons.IH [OF s1(2) one next_one(2,1)] Cons.prems(5) by (simp add: add.assoc)
qed

lemma order_start:
  fixes q :: "'a lscq"
  assumes q: "lscq_new (2 ^ k) w = Ret q" and k: "k \<le> 60"
  shows "lscq_order [0] \<lparr>rank = (\<lambda>_. 0), born = 1, elog = []\<rparr> (\<lambda>_. []) (lscq_start m q)"
proof -
  obtain n :: "'a lscq_node" where n: "node_new (2 ^ k) (w 0) = Ret n" "node_rep (2 ^ k) k (node_value n) []"
    using node_new_rep [OF k] by blast
  have "Suc (2 ^ k) < (2 :: nat) ^ 62" using power_increasing [OF k, of "2 :: nat"] by simp
  then have "node_contents (node_value n) = []" by (rule contents_node [OF n(2)])
  moreover have "nodes q = [0 \<mapsto> n]" using q n(1) by (auto simp: lscq_new_def)
  ultimately have contents: "contents_at (lscq_start m q) a = (if a = 0 then Some [] else None)" for a
    by (simp add: contents_at_def lscq_start_def)
  have start: "dom (nodes (sys_q (lscq_start m q))) = {0}" "sys_pc (lscq_start m q) t = LIdle" "history (lscq_start m q) = []" for t
    by (simp_all add: \<open>nodes q = [0 \<mapsto> n]\<close> lscq_start_def)
  define g :: "'a order_ghost" where "g = \<lparr>rank = (\<lambda>_. 0), born = 1, elog = []\<rparr>"
  have g: "rank g = (\<lambda>_. 0)" "born g = 1" "elog g = []" by (simp_all add: g_def)
  have "ranks_ok [0] g (lscq_start m q)" by (simp add: ranks_ok_def start g)
  moreover have "contents_ok g (lscq_start m q)" by (simp add: contents_ok_def contents g)
  moreover have "thread_in_order g (\<lambda>_. []) (lscq_start m q) t" for t
    by (simp add: thread_in_order_def start g producer_ok_def consumer_ok_def put_upto_def got_upto_def)
  ultimately have "lscq_order [0] g (\<lambda>_. []) (lscq_start m q)"
    by (simp add: lscq_order_def g segment_log.fresh)
  then show ?thesis by (simp only: g_def)
qed

section \<open>What an execution has sent and received\<close>

lemma execution_log:
  assumes "lscq_new (2 ^ k) w = Ret q" "k \<le> 60" "lscq_run ls (lscq_start m q) = Some s"
    and "2 ^ k + length ls * lscq_cost k < 2 ^ 62"
  shows "\<exists>log. segment_log log
    \<and> (\<forall>t. sent_by t ls = map snd (puts_by t log) @ entering (slot_at s) (sys_pc s t)
         \<and> map snd (gets_by t log) = returned t (history s) @ leaving (slot_at s) (sys_pc s t))"
proof -
  obtain as g where "lscq_order as g (\<lambda>t. [] @ sent_by t ls) s"
    using order_run [OF assms(3) values_start [OF assms(1,2)] safe_start [OF assms(1)] order_start [OF assms(1,2)] assms(4)]
    by blast
  then show ?thesis using order_parts(1) order_thread(1,2) by (metis append_Nil)
qed

lemma sent_once:
  assumes "distinct (map snd (sends ls))"
  shows "distinct (sent_by t ls)" "x \<in> set (sent_by t ls) \<Longrightarrow> x \<in> set (sent_by u ls) \<Longrightarrow> t = u"
proof -
  show "distinct (sent_by t ls)" using assms by (auto simp: sent_by_def distinct_map intro: inj_on_subset)
  show "t = u" if "x \<in> set (sent_by t ls)" "x \<in> set (sent_by u ls)"
    using that assms by (fastforce simp: sent_by_def distinct_map dest: inj_onD)
qed

lemma puts_once:
  assumes "\<And>t. distinct (map snd (puts_by t es))"
    and "\<And>t u r m x. (r, x) \<in> set (puts_by t es) \<Longrightarrow> (m, x) \<in> set (puts_by u es) \<Longrightarrow> t = u"
  shows "distinct (puts es)"
  using assms
proof (induction es rule: puts.induct)
  case (2 t r x es)
  have "distinct (puts es)"
  proof (rule "2.IH")
    show "distinct (map snd (puts_by u es))" for u using "2.prems"(1) [of u] by (auto split: if_splits)
    show "u = v" if "(m, y) \<in> set (puts_by u es)" "(m', y) \<in> set (puts_by v es)" for u v m m' y
      using "2.prems"(2) [of m y u m' v] that by simp
  qed
  moreover have "x \<notin> set (puts es)"
  proof
    assume "x \<in> set (puts es)"
    then obtain u m where u: "(m, x) \<in> set (puts_by u es)" by (auto simp: set_events)
    then have "t = u" using "2.prems"(2) [of r x t m u] by simp
    then show False using "2.prems"(1) [of t] u by force
  qed
  ultimately show ?case by simp
qed simp_all

lemma received_was_sent:
  assumes log: "segment_log es"
    and threads: "\<forall>t. sent_by t ls = map snd (puts_by t es) @ en t \<and> map snd (gets_by t es) = rt t @ lv t"
    and x: "x \<in> set (rt c)"
  shows "\<exists>p. x \<in> set (sent_by p ls)"
proof -
  have "x \<in> set (map snd (gets_by c es))" using threads x by (metis UnI1 set_append)
  then obtain r where r: "Got c r x \<in> set es" by (auto simp: set_events)
  obtain u where "Put u r x \<in> set es" using got_was_put [OF log r] by (elim exE)
  then have "(r, x) \<in> set (puts_by u es)" by (simp add: set_events)
  then have "x \<in> set (map snd (puts_by u es))" by force
  then show ?thesis using threads by (metis UnI1 set_append)
qed

lemma received_in_order:
  assumes log: "segment_log es"
    and threads: "\<forall>t. sent_by t ls = map snd (puts_by t es) @ en t \<and> map snd (gets_by t es) = rt t @ lv t"
    and dist: "distinct (map snd (sends ls))"
  shows "subseq (filter (\<lambda>x. x \<in> set (sent_by p ls)) (rt c)) (sent_by p ls)"
proof -
  note once = sent_once [OF dist]
  have put: "x \<in> set (sent_by t ls)" if "(r, x) \<in> set (puts_by t es)" for t r x
    using threads that by (metis UnI1 image_eqI list.set_map set_append snd_conv)
  have distinct: "distinct (puts es)"
  proof (rule puts_once)
    show "distinct (map snd (puts_by t es))" for t using once(1) [of t] threads by (metis distinct_append)
    show "t = u" if "(r, x) \<in> set (puts_by t es)" "(m, x) \<in> set (puts_by u es)" for t u r m x
      using once(2) put that by blast
  qed
  have same: "x \<in> snd ` set (puts_by p es) \<longleftrightarrow> x \<in> set (sent_by p ls)" if got: "x \<in> set (map snd (gets_by c es))" for x
  proof -
    obtain r where r: "Got c r x \<in> set es" using got by (auto simp: set_events)
    obtain u where "Put u r x \<in> set es" using got_was_put [OF log r] by (elim exE)
    then have "(r, x) \<in> set (puts_by u es)" by (simp add: set_events)
    then show ?thesis using put once(2) by (metis imageE image_eqI prod.collapse snd_conv)
  qed
  have "subseq (filter (\<lambda>x. x \<in> set (sent_by p ls)) (rt c)) (filter (\<lambda>x. x \<in> set (sent_by p ls)) (map snd (gets_by c es)))"
    using threads by (metis filter_append list_emb_prefix subseq_order.order_refl)
  also have "filter (\<lambda>x. x \<in> set (sent_by p ls)) (map snd (gets_by c es))
      = filter (\<lambda>x. x \<in> snd ` set (puts_by p es)) (map snd (gets_by c es))"
    using same by (intro filter_cong) auto
  also have "subseq \<dots> (map snd (puts_by p es))" by (rule producer_order [OF log distinct])
  also have "subseq \<dots> (sent_by p ls)" using threads by (metis list_emb_prefix subseq_order.order_refl)
  finally show ?thesis .
qed

end
