(* ===== verification/LscqOrderProperties.thy ===== *)
theory LscqOrderProperties
  imports LscqOrderRun LscqProperties
begin

text \<open>
  The order of the values of the unbounded queue under every interleaving, an operation of an index ring
  being one step: the queue follows the specification of \<open>SegmentLog\<close>, so every consumer receives the values
  of each producer in the order in which that producer enqueued them.
\<close>

lemma dangling_run:
  "\<exists>q s. lscq_new (2 ^ 0) (\<lambda>_. ([], [])) = Ret q \<and> lscq_run dangling_schedule (lscq_start 3 q) = Some s
     \<and> returned 2 (history s) = [2, 3]"
proof -
  have "case lscq_new 1 (\<lambda>_. ([], [])) of
      Ret q \<Rightarrow> (case run_compact [0, 1, 2] dangling_schedule (compact [0, 1, 2] (lscq_start 3 q)) of
        Some s \<Rightarrow> returned 2 (history s) = [2, 3]
      | None \<Rightarrow> False)
    | _ \<Rightarrow> False"
    by code_simp
  from run_compact_execution [OF this] show ?thesis by simp
qed

section \<open>Refinement\<close>



section \<open>The order of a producer's values\<close>

text \<open>
  C3. Whatever the interleaving of any number of producers and consumers (a ring operation being one step), the
  nodes they go through and the time at which nodes are reclaimed: if all enqueued values are different, every
  consumer receives the values of each producer in the order in which this producer enqueued them. (Not all
  of them: other consumers receive some.)
\<close>

theorem lscq_producer_order:
  assumes "lscq_new (2 ^ k) w = Ret q" "k \<le> 60" "lscq_run ls (lscq_start m q) = Some s"
    and "2 ^ k + length ls * lscq_cost k < 2 ^ 62" and "distinct (map snd (sends ls))"
  shows "subseq (filter (\<lambda>x. x \<in> set (sent_by p ls)) (returned c (history s))) (sent_by p ls)"
proof -
  obtain log where "segment_log log"
      "\<forall>t. sent_by t ls = map snd (puts_by t log) @ entering (slot_at s) (sys_pc s t)
         \<and> map snd (gets_by t log) = returned t (history s) @ leaving (slot_at s) (sys_pc s t)"
    using execution_log [OF assms(1-4)] by blast
  then show ?thesis by (rule received_in_order [OF _ _ assms(5)])
qed

text \<open>The values 1, 2, 3 go through three nodes; thread 2 receives 2 and 3, in this order.\<close>

theorem lscq_producer_order_witness:
  "\<exists>q s. lscq_new (2 ^ 0) (\<lambda>_. ([], [])) = Ret q \<and> lscq_run dangling_schedule (lscq_start 3 q) = Some s
     \<and> returned 2 (history s) = [2, 3 :: usize] \<and> subseq (returned 2 (history s)) (sent_by 0 dangling_schedule)"
proof -
  obtain q s where s: "lscq_new (2 ^ 0) (\<lambda>_. ([], [])) = Ret q" "lscq_run dangling_schedule (lscq_start 3 q) = Some s"
      "returned 2 (history s) = [2, 3]"
    using dangling_run by blast
  have sent: "sends dangling_schedule = [(0, 1), (0, 2), (0, 3)]"
    by (simp add: dangling_schedule_def run_thread_def eval_nat_numeral)
  have "2 ^ 0 + length dangling_schedule * lscq_cost 0 < 2 ^ 62"
    by (simp add: dangling_schedule_def run_thread_def lscq_cost_def)
  from lscq_producer_order [OF s(1) _ s(2) this, of 0 2] s show ?thesis by (simp add: sent sent_by_def)
qed

end
