(* ===== verification/Trading.thy ===== *)
theory Trading
  imports LscqOrderProperties
begin

text \<open>
  The example \<open>examples/trading.rs\<close>: a tracker thread creates an order every 100 ms and enqueues it, the main
  thread polls an unbounded queue and prints what it gets. Both loop for ever, so an execution is any
  schedule of their steps. The crate \<open>rand\<close> is a parameter (\<open>draw i\<close> is the i-th price), so is the clock
  (\<open>clock i\<close> is the time, in ns, at which the i-th order is created).
\<close>

section \<open>The program\<close>

record trading_order =
  value_usd :: usize
  created :: int

type_synonym market = "(nat \<Rightarrow> usize) \<times> (nat \<Rightarrow> int)"

fun new_order :: "market \<Rightarrow> nat \<Rightarrow> trading_order" where
  "new_order (draw, clock) i = \<lparr>value_usd = draw i, created = clock i\<rparr>"

text \<open>The state of the queue and the number of orders created. Thread 0 is the poller, thread 1 the tracker.\<close>

type_synonym trading = "trading_order lscq_sys \<times> nat"

fun order_tracker :: "market \<Rightarrow> trading_order lscq_label \<Rightarrow> trading \<Rightarrow> trading option" where
  "order_tracker mk (CallEnqueue t x) (s, i) =
     (if t = 1 \<and> x = new_order mk i then map_option (\<lambda>s'. (s', Suc i)) (lscq_step (CallEnqueue t x) s) else None)"
| "order_tracker mk l x = None"

fun network_poller :: "trading_order lscq_label \<Rightarrow> trading \<Rightarrow> trading option" where
  "network_poller (CallDequeue t) (s, i) =
     (if t = 0 then map_option (\<lambda>s'. (s', i)) (lscq_step (CallDequeue t) s) else None)"
| "network_poller l x = None"

fun trading_step :: "market \<Rightarrow> trading_order lscq_label \<Rightarrow> trading \<Rightarrow> trading option" where
  "trading_step mk (CallEnqueue t x) st = order_tracker mk (CallEnqueue t x) st"
| "trading_step mk (CallDequeue t) st = network_poller (CallDequeue t) st"
| "trading_step mk l (s, i) = map_option (\<lambda>s'. (s', i)) (lscq_step l s)"

fun trading_run :: "market \<Rightarrow> trading_order lscq_label list \<Rightarrow> trading \<Rightarrow> trading option" where
  "trading_run mk [] st = Some st"
| "trading_run mk (l # ls) st = (case trading_step mk l st of None \<Rightarrow> None | Some st' \<Rightarrow> trading_run mk ls st')"

definition trading_main ::
  "market \<Rightarrow> trading_order lscq_label list \<Rightarrow> (nat \<Rightarrow> bool list \<times> bool list) \<Rightarrow> trading option exec"
where
  "trading_main mk ls w =
     bind_exec (unbounded_new w) (\<lambda>unbounded. Ret (trading_run mk ls (lscq_start 2 (internal unbounded), 0)))"

text \<open>The line the poller prints for an order, at the time \<open>now\<close>.\<close>

fun decimal :: "nat \<Rightarrow> string" where
  "decimal n = (if n < 10 then [char_of (48 + n)] else decimal (n div 10) @ [char_of (48 + n mod 10)])"

declare decimal.simps [simp del]

lemma decimal_simps:
  "n < 10 \<Longrightarrow> decimal n = [char_of (48 + n)]"
  "10 \<le> n \<Longrightarrow> decimal n = decimal (n div 10) @ [char_of (48 + n mod 10)]"
  by (simp_all add: decimal.simps [of n])

definition processed_line :: "int \<Rightarrow> trading_order \<Rightarrow> string" where
  "processed_line now value =
     ''Processed: USD$'' @ decimal (unat (value_usd value)) @ '' in ''
       @ decimal (nat ((now - created value) div 1000000)) @ ''microsecs''"

text \<open>The unit of the text is not that of the number: after two milliseconds the line says two microseconds.\<close>

lemma latency_is_milliseconds:
  "processed_line 2000000 \<lparr>value_usd = 10000, created = 0\<rparr> = ''Processed: USD$10000 in 2microsecs''"
  by (simp add: processed_line_def decimal_simps char_of_def bit_Suc_0_iff)

section \<open>Its executions\<close>

lemma trading_step_list:
  assumes "trading_step mk l (s, i) = Some (s', j)"
  shows "lscq_step l s = Some s'" "i \<le> j" "sends [l] = map (\<lambda>i. (1, new_order mk i)) [i..<j]"
    "\<And>t. l = CallDequeue t \<Longrightarrow> t = 0"
  using assms by (cases l; auto split: if_splits)+

lemma trading_run_list:
  assumes "trading_run mk ls (s, i) = Some (s', j)"
  shows "lscq_run ls s = Some s' \<and> i \<le> j \<and> sends ls = map (\<lambda>i. (1, new_order mk i)) [i..<j]"
  using assms
proof (induction ls arbitrary: s i)
  case (Cons l ls)
  then obtain s1 i1 where step: "trading_step mk l (s, i) = Some (s1, i1)"
      and run: "trading_run mk ls (s1, i1) = Some (s', j)"
    by (auto split: option.splits)
  note one = trading_step_list [OF step] and more = Cons.IH [OF run]
  have "[i..<j] = [i..<i1] @ [i1..<j]" using one(2) more upt_add_eq_append [of i i1 "j - i1"] by simp
  moreover have "sends (l # ls) = sends [l] @ sends ls" using sends_append [of "[l]" ls] by simp
  ultimately show ?case using one(1-3) more by simp
qed simp

lemma list_run_trading:
  assumes "lscq_run ls s = Some s'" "sends ls = map (\<lambda>i. (1, new_order mk i)) [i..<j]" "i \<le> j"
    and "\<forall>t. CallDequeue t \<in> set ls \<longrightarrow> t = 0"
  shows "trading_run mk ls (s, i) = Some (s', j)"
  using assms
proof (induction ls arbitrary: s i)
  case (Cons l ls)
  then obtain s1 where s1: "lscq_step l s = Some s1" "lscq_run ls s1 = Some s'"
    by (auto split: option.splits)
  show ?case
  proof (cases "\<exists>t x. l = CallEnqueue t x")
    case True
    then obtain t x where l: "l = CallEnqueue t x" by blast
    then have i: "i < j" using Cons.prems(2,3) by (cases "i = j") auto
    then have "t = 1" "x = new_order mk i" "sends ls = map (\<lambda>i. (1, new_order mk i)) [Suc i..<j]"
      using Cons.prems(2) l by (simp_all add: upt_conv_Cons)
    then show ?thesis
      using Cons.IH [OF s1(2), of "Suc i"] Cons.prems(4) i s1(1) l by simp
  next
    case False
    then have "sends ls = map (\<lambda>i. (1, new_order mk i)) [i..<j]" using Cons.prems(2) by (cases l) auto
    moreover have "trading_step mk l (s, i) = Some (s1, i)"
      using False s1(1) Cons.prems(4) by (cases l) auto
    ultimately show ?thesis using Cons.IH [OF s1(2), of i] Cons.prems(3,4) by simp
  qed
qed auto

text \<open>A thread sleeps for 100 ms between two orders, so they differ.\<close>

definition sleeps :: "(nat \<Rightarrow> int) \<Rightarrow> bool" where
  "sleeps clock \<longleftrightarrow> (\<forall>i. clock i + 100000000 \<le> clock (Suc i))"

lemma sleeps_apart: "sleeps clock \<Longrightarrow> i < j \<Longrightarrow> clock i + 100000000 \<le> clock j"
proof (induction j)
  case (Suc j)
  have "clock j + 100000000 \<le> clock (Suc j)" using Suc.prems(1) by (simp add: sleeps_def)
  then show ?case using Suc by (cases "i = j") auto
qed simp

section \<open>Orders are processed in the order of their creation\<close>

lemma orders_apart:
  assumes "sleeps clock"
  shows "sorted_wrt (\<lambda>x y. created x + 100000000 \<le> created y) (map (new_order (draw, clock)) [0..<n])"
  using sleeps_apart [OF assms] by (simp add: sorted_wrt_map sorted_wrt_iff_nth_less)

lemma subseq_sorted_wrt: "subseq xs ys \<Longrightarrow> sorted_wrt P ys \<Longrightarrow> sorted_wrt P xs"
proof (induction rule: list_emb.induct)
  case (list_emb_Cons2 x y xs ys)
  have "z \<in> set ys" if "z \<in> set xs" for z using list_emb_set [OF list_emb_Cons2.hyps(2) that] by auto
  then show ?case using list_emb_Cons2 by auto
qed auto

text \<open>
  C30. In every execution of the example in which a ring operation is one step, whatever its schedule and
  whatever the prices: the orders the
  poller processes are orders the tracker created, each at most once, in the order of their creation, so
  with strictly increasing times; and no thread panics.
\<close>

theorem trading_in_order:
  assumes "trading_main (draw, clock) ls w = Ret (Some (s, n))" "sleeps clock"
    and "2 ^ 5 + length ls * lscq_cost 5 < 2 ^ 62"
  shows "subseq (returned 0 (history s)) (map (new_order (draw, clock)) [0..<n])
    \<and> sorted_wrt (\<lambda>x y. created x < created y) (returned 0 (history s)) \<and> sys_pc s t \<noteq> Crashed"
proof -
  obtain q :: "trading_order lscq" where q: "lscq_new (2 ^ 5) w = Ret q"
      and run: "trading_run (draw, clock) ls (lscq_start 2 q, 0) = Some (s, n)"
    using assms(1) by (cases "lscq_new 32 w :: trading_order lscq exec")
      (auto simp: trading_main_def unbounded_new_def with_segment_size_def)
  let ?orders = "map (new_order (draw, clock)) [0..<n]"
  have ls: "lscq_run ls (lscq_start 2 q) = Some s" "sends ls = map (\<lambda>i. (1, new_order (draw, clock) i)) [0..<n]"
    using trading_run_list [OF run] by simp_all
  have sent: "sent_by p ls = (if p = 1 then ?orders else [])" for p by (simp add: sent_by_def ls(2) comp_def del: new_order.simps)
  have apart: "sorted_wrt (\<lambda>x y. created x < created y) ?orders"
    using orders_apart [OF assms(2), of draw n] by (rule sorted_wrt_mono_rel [rotated]) simp
  then have "distinct ?orders" by (auto simp: distinct_conv_nth sorted_wrt_iff_nth_less linorder_neq_iff)
  then have dist: "distinct (map snd (sends ls))" by (simp add: ls(2) comp_def del: new_order.simps)
  obtain log where log: "segment_log log"
      "\<forall>t. sent_by t ls = map snd (puts_by t log) @ entering (slot_at s) (sys_pc s t)
         \<and> map snd (gets_by t log) = returned t (history s) @ leaving (slot_at s) (sys_pc s t)"
    using execution_log [OF q _ ls(1) assms(3)] by auto
  have "filter (\<lambda>x. x \<in> set (sent_by 1 ls)) (returned 0 (history s)) = returned 0 (history s)"
    using received_was_sent [OF log] sent by (fastforce simp: filter_id_conv split: if_splits)
  then have order: "subseq (returned 0 (history s)) ?orders"
    using received_in_order [OF log dist, of 1 0] sent by simp
  have "sys_pc s t \<noteq> Crashed"
    using values_run [OF ls(1) values_start [OF q] safe_start [OF q] assms(3)] by (auto dest: values_parts(5))
  with order subseq_sorted_wrt [OF order apart] show ?thesis by blast
qed

text \<open>A schedule in which two orders are created and processed.\<close>

definition demo_market :: market where
  "demo_market = ((\<lambda>i. 10000 + of_nat i), (\<lambda>i. 100000000 * int i))"

definition demo_schedule :: "trading_order lscq_label list" where
  "demo_schedule = [CallEnqueue 1 (new_order demo_market 0)] @ replicate 7 (RunStep 1 0)
     @ [CallDequeue 0] @ replicate 5 (RunStep 0 0)
     @ [CallEnqueue 1 (new_order demo_market 1)] @ replicate 7 (RunStep 1 0)
     @ [CallDequeue 0] @ replicate 5 (RunStep 0 0)"

lemma demo_run:
  "\<exists>q s. lscq_new 32 (\<lambda>_. ([], [])) = Ret q \<and> lscq_run demo_schedule (lscq_start 2 q) = Some s
     \<and> returned 0 (history s) = map (new_order demo_market) [0, 1]"
proof -
  have "case lscq_new 32 (\<lambda>_. ([], [])) of
      Ret q \<Rightarrow> (case run_compact [0, 1] demo_schedule (compact [0, 1] (lscq_start 2 q)) of
        Some s \<Rightarrow> returned 0 (history s) = map (new_order demo_market) [0, 1]
      | None \<Rightarrow> False)
    | _ \<Rightarrow> False"
    by code_simp
  from run_compact_execution [OF this] show ?thesis by simp
qed

theorem trading_in_order_witness:
  "\<exists>s. trading_main demo_market demo_schedule (\<lambda>_. ([], [])) = Ret (Some (s, 2))
     \<and> returned 0 (history s) = map (new_order demo_market) [0, 1]
     \<and> sorted_wrt (\<lambda>x y. created x < created y) (returned 0 (history s))"
proof -
  obtain q s where s: "lscq_new 32 (\<lambda>_. ([], [])) = Ret q" "lscq_run demo_schedule (lscq_start 2 q) = Some s"
      "returned 0 (history s) = map (new_order demo_market) [0, 1]"
    using demo_run by blast
  have "sends demo_schedule = map (\<lambda>i. (1, new_order demo_market i)) [0..<2]"
    by (simp add: demo_schedule_def eval_nat_numeral)
  moreover have "\<forall>t. CallDequeue t \<in> set demo_schedule \<longrightarrow> t = 0" by (simp add: demo_schedule_def)
  ultimately have "trading_run demo_market demo_schedule (lscq_start 2 q, 0) = Some (s, 2)"
    by (intro list_run_trading [OF s(2)]) simp_all
  then have run: "trading_main demo_market demo_schedule (\<lambda>_. ([], [])) = Ret (Some (s, 2))"
    using s(1) by (simp add: trading_main_def unbounded_new_def with_segment_size_def)
  have "sleeps (\<lambda>i. 100000000 * int i)" by (simp add: sleeps_def)
  moreover have "2 ^ 5 + length demo_schedule * lscq_cost 5 < 2 ^ 62"
    by (simp add: demo_schedule_def lscq_cost_def)
  ultimately show ?thesis
    using trading_in_order [OF run [unfolded demo_market_def] _] run s(3) by blast
qed

end
