(* ===== verification/BoundedWedge.thy ===== *)
theory BoundedWedge
  imports BoundedConcProperties
begin

text \<open>
  How a bounded queue can stop working. Its emptiness test counts failed dequeues in \<open>threshold\<close>, which
  \<open>enqueue\<close> resets to \<open>3 n - 1\<close>; the SCQ algorithm assumes that at most \<open>n\<close> threads use a ring for \<open>n\<close>
  indices, so that those that are about to count a failure cannot use up the threshold. Nothing in the
  code ensures it. Here three threads find a queue of capacity 1 empty and stop before \<open>threshold.fetch_sub\<close>;
  the fourth enqueues a value and returns; the three go on. From then on every \<open>dequeue\<close> finds a negative
  threshold and returns \<open>None\<close>, and every \<open>enqueue\<close> finds the queue full.
\<close>

definition wedge_schedule :: "usize queue_label list" where
  "wedge_schedule =
     [CallEnqueue 3 5] @ replicate 20 (QStep 3) @ [CallDequeue 3] @ replicate 20 (QStep 3)
     @ concat (map (\<lambda>t. CallDequeue t # replicate 16 (QStep t)) [0, 1, 2])
     @ [CallEnqueue 3 7] @ replicate 20 (QStep 3) @ [QStep 0, QStep 1, QStep 2]"

lemma wedge_run:
  "case new_alloc 0 1 [] [] of
     Ret q \<Rightarrow> (case queue_sys_run wedge_schedule (queue_start False 4 q) of
       Some s \<Rightarrow> map (queue_pcs s) [0, 1, 2, 3] = [QDeqDone None, QDeqDone None, QDeqDone None, QEnqDone (Inr ())]
         \<and> value_log s = [Stored 3 0 5, Removed 3 0 5, Stored 3 4 7] \<and> threads s = 4
         \<and> threshold (alloc_queue (the_queue s)) = -1 \<and> used (the_queue s) = 1
         \<and> ring_capacity (free_queue (the_queue s)) = 1
     | None \<Rightarrow> False)
   | _ \<Rightarrow> False"
  by code_simp

section \<open>The queue stays as it is\<close>

fun full_pc :: "'a queue_pc \<Rightarrow> usize" where
  "full_pc (QFull x) = 1"
| "full_pc _ = 0"

fun wedged_pc :: "'a queue_pc \<Rightarrow> bool" where
  "wedged_pc (QCount x) = True"
| "wedged_pc (QFull x) = True"
| "wedged_pc (QTake p) = (p = DeThreshold)"
| "wedged_pc p = queue_at_rest p"

definition wedged :: "'a queue_sys \<Rightarrow> bool" where
  "wedged s \<longleftrightarrow> threads s = 4 \<and> sint (threshold (alloc_queue (the_queue s))) < 0
     \<and> ring_capacity (free_queue (the_queue s)) = 1
     \<and> used (the_queue s) = 1 + (\<Sum>t<4. full_pc (queue_pcs s t)) \<and> (\<forall>t<4. wedged_pc (queue_pcs s t))"

lemma full_pc_rest: "queue_at_rest p \<Longrightarrow> full_pc p = 0 \<and> wedged_pc p"
  by (cases p) auto

lemma fulls_moved:
  assumes "t < (4 :: nat)"
  shows "(\<Sum>u<4. full_pc ((P(t := p)) u)) = (\<Sum>u<4. full_pc (P u)) - full_pc (P t) + full_pc p"
  using assms by (simp add: sum.remove [of "{..<4}" t])

lemma full_count:
  fixes P :: "nat \<Rightarrow> 'a queue_pc"
  shows "(\<Sum>t<4. full_pc (P t)) \<in> {0, 1, 2, 3, 4}"
proof -
  have one: "full_pc p = 0 \<or> full_pc p = 1" for p :: "'a queue_pc" by (cases p) auto
  have "(\<Sum>t<4. full_pc (P t)) = full_pc (P 0) + full_pc (P 1) + full_pc (P 2) + full_pc (P 3)"
    by (simp add: eval_nat_numeral lessThan_Suc)
  then show ?thesis using one [of "P 0"] one [of "P 1"] one [of "P 2"] one [of "P 3"] by (elim disjE) simp_all
qed

lemma wedged_full: "wedged s \<Longrightarrow> used (the_queue s) \<ge> ring_capacity (free_queue (the_queue s))"
  using full_count [of "queue_pcs s"] by (auto simp: wedged_def)

lemma wedged_goto:
  assumes "wedged s" "t < 4" "wedged_pc p" "used q = used (the_queue s) - full_pc (queue_pcs s t) + full_pc p"
    and "alloc_queue q = alloc_queue (the_queue s)" "free_queue q = free_queue (the_queue s)"
  shows "wedged (goto t p (set_queue q s))"
  using assms fulls_moved [OF assms(2), of "queue_pcs s" p] by (simp add: wedged_def goto_def set_queue_def)

lemma wedged_step:
  assumes s: "wedged s" and step: "queue_sys_step l s = Some s'"
  shows "wedged s' \<and> value_log s' = value_log s"
proof -
  have same: "set_queue (the_queue s) s = s" by (simp add: set_queue_def)
  have call: "wedged (goto t p s)" if "t < 4" "queue_at_rest (queue_pcs s t)" "wedged_pc p" "full_pc p = 0" for t p
    using wedged_goto [OF s that(1,3), of "the_queue s"] full_pc_rest [OF that(2)] that(4) by (simp add: same)
  have th: "threads s = 4" using s by (simp add: wedged_def)
  show ?thesis
  proof (cases l)
    case (QStep t)
    then have t: "t < 4" and s': "s' = queue_step t s" using step th by (simp_all split: if_splits)
    have "wedged_pc (queue_pcs s t)" using s t by (simp add: wedged_def)
    then consider x where "queue_pcs s t = QCount x" | x where "queue_pcs s t = QFull x"
      | "queue_pcs s t = QTake DeThreshold" | "queue_at_rest (queue_pcs s t)"
      by (cases "queue_pcs s t") auto
    then show ?thesis
    proof cases
      case (1 x)
      let ?q = "(the_queue s)\<lparr>used := used (the_queue s) + 1\<rparr>"
      have "s' = goto t (QFull x) (set_queue ?q s)"
        using 1 wedged_full [OF s] by (simp add: s' queue_step_def Let_def)
      moreover have "wedged (goto t (QFull x) (set_queue ?q s))"
        using 1 by (intro wedged_goto [OF s t]) simp_all
      ultimately show ?thesis by (simp add: goto_def set_queue_def)
    next
      case (2 x)
      let ?q = "(the_queue s)\<lparr>used := used (the_queue s) - 1\<rparr>"
      have "s' = goto t (QEnqDone (Inl (x, QueueFull))) (set_queue ?q s)"
        using 2 by (simp add: s' queue_step_def Let_def)
      moreover have "wedged (goto t (QEnqDone (Inl (x, QueueFull))) (set_queue ?q s))"
        using 2 by (intro wedged_goto [OF s t]) simp_all
      ultimately show ?thesis by (simp add: goto_def set_queue_def)
    next
      case 3
      have "sint (threshold (alloc_queue (the_queue s))) < 0" using s by (simp add: wedged_def)
      then have "s' = goto t (QDeqDone None) s"
        using 3 by (simp add: s' queue_step_def alloc_access_def after_take_def set_queue_def)
      moreover have "wedged (goto t (QDeqDone None) (set_queue (the_queue s) s))"
        using 3 by (intro wedged_goto [OF s t]) simp_all
      ultimately show ?thesis by (simp add: same goto_def)
    next
      case 4
      then have "s' = s" by (cases "queue_pcs s t") (simp_all add: s' queue_step_def)
      then show ?thesis using s by simp
    qed
  qed (use step th call in \<open>auto simp: goto_def split: if_splits\<close>)
qed

lemma wedged_run: "queue_sys_run ls s = Some s' \<Longrightarrow> wedged s \<Longrightarrow> wedged s' \<and> value_log s' = value_log s"
  by (induction ls arbitrary: s) (auto split: option.splits dest: wedged_step)

text \<open>What a call returns.\<close>

lemma wedged_calls:
  assumes s: "wedged s" and t: "t < 4" "queue_at_rest (queue_pcs s t)"
  shows "\<exists>s'. queue_sys_run [CallDequeue t, QStep t] s = Some s' \<and> queue_pcs s' t = QDeqDone None"
    and "\<exists>s'. queue_sys_run [CallEnqueue t x, QStep t, QStep t] s = Some s' \<and> queue_pcs s' t = QEnqDone (Inl (x, QueueFull))"
  using t s wedged_full [OF s]
  by (simp_all add: wedged_def goto_def set_queue_def queue_step_def alloc_access_def after_take_def Let_def)

text \<open>
  C15. A bounded queue can lose its value and refuse all others for ever: an execution of four threads on
  \<open>AllocBoundedQueue::new(1)\<close> in which \<open>enqueue\<close> of 7 returns, and after which, whatever the four threads do, no value
  is ever stored or returned again: every call of \<open>dequeue\<close> returns \<open>None\<close> and every call of \<open>enqueue\<close>
  returns \<open>QueueFull\<close>.
\<close>

theorem bounded_queue_wedges:
  "\<exists>q s. new_alloc 0 1 [] [] = Ret q \<and> queue_sys_run wedge_schedule (queue_start False 4 q) = Some s
     \<and> value_log s = [Stored 3 0 5, Removed 3 0 5, Stored 3 4 7]
     \<and> map (queue_pcs s) [0, 1, 2, 3] = [QDeqDone None, QDeqDone None, QDeqDone None, QEnqDone (Inr ())]
     \<and> (\<forall>ls s' t x. queue_sys_run ls s = Some s' \<and> t < 4 \<and> queue_at_rest (queue_pcs s' t) \<longrightarrow>
          value_log s' = value_log s
          \<and> (\<exists>s1. queue_sys_run [CallDequeue t, QStep t] s' = Some s1 \<and> queue_pcs s1 t = QDeqDone None)
          \<and> (\<exists>s2. queue_sys_run [CallEnqueue t x, QStep t, QStep t] s' = Some s2
               \<and> queue_pcs s2 t = QEnqDone (Inl (x, QueueFull))))"
proof -
  obtain q s where q: "new_alloc 0 1 [] [] = Ret q" "queue_sys_run wedge_schedule (queue_start False 4 q) = Some s"
      and pcs: "map (queue_pcs s) [0, 1, 2, 3] = [QDeqDone None, QDeqDone None, QDeqDone None, QEnqDone (Inr ())]"
      and log: "value_log s = [Stored 3 0 5, Removed 3 0 5, Stored 3 4 7]"
      and rest: "threads s = 4" "threshold (alloc_queue (the_queue s)) = -1" "used (the_queue s) = 1"
        "ring_capacity (free_queue (the_queue s)) = 1"
    using wedge_run by (auto split: exec.splits option.splits)
  have below: "t \<in> {0, 1, 2, 3}" if "t < 4" for t :: nat using that by auto
  have sum: "(\<Sum>t<4. full_pc (queue_pcs s t)) = 0" using pcs by (simp add: eval_nat_numeral lessThan_Suc)
  have "wedged s" using below pcs rest by (fastforce simp: wedged_def sum)
  have later: "value_log s' = value_log s"
      "\<exists>s1. queue_sys_run [CallDequeue t, QStep t] s' = Some s1 \<and> queue_pcs s1 t = QDeqDone None"
      "\<exists>s2. queue_sys_run [CallEnqueue t x, QStep t, QStep t] s' = Some s2
         \<and> queue_pcs s2 t = QEnqDone (Inl (x, QueueFull))"
    if "queue_sys_run ls s = Some s' \<and> t < 4 \<and> queue_at_rest (queue_pcs s' t)" for ls s' t x
    using wedged_run [of ls s s'] wedged_calls(1) [of s' t] wedged_calls(2) [of s' t x] that
      \<open>wedged s\<close> by blast+
  show ?thesis
    by (rule exI [of _ q], rule exI [of _ s], intro conjI allI impI) (rule q log pcs | erule later)+
qed

theorem bounded_queue_wedges_witness:
  "\<exists>q s s1 s2. new_alloc 0 1 [] [] = Ret q \<and> queue_sys_run wedge_schedule (queue_start False 4 q) = Some s
     \<and> queue_sys_run [CallDequeue 0, QStep 0] s = Some s1 \<and> queue_pcs s1 0 = QDeqDone None
     \<and> queue_sys_run [CallEnqueue 0 9, QStep 0, QStep 0] s = Some s2 \<and> queue_pcs s2 0 = QEnqDone (Inl (9, QueueFull))"
proof -
  from bounded_queue_wedges obtain q s where
      q: "new_alloc 0 1 [] [] = Ret q" "queue_sys_run wedge_schedule (queue_start False 4 q) = Some s"
      and pcs: "map (queue_pcs s) [0, 1, 2, 3] = [QDeqDone None, QDeqDone None, QDeqDone None, QEnqDone (Inr ())]"
      and later: "\<forall>ls s' t x. queue_sys_run ls s = Some s' \<and> t < 4 \<and> queue_at_rest (queue_pcs s' t) \<longrightarrow>
          value_log s' = value_log s
          \<and> (\<exists>s1. queue_sys_run [CallDequeue t, QStep t] s' = Some s1 \<and> queue_pcs s1 t = QDeqDone None)
          \<and> (\<exists>s2. queue_sys_run [CallEnqueue t x, QStep t, QStep t] s' = Some s2
               \<and> queue_pcs s2 t = QEnqDone (Inl (x, QueueFull)))"
    by (elim exE conjE) (rule that)
  have "queue_sys_run [] s = Some s \<and> 0 < (4 :: nat) \<and> queue_at_rest (queue_pcs s 0)" using pcs by simp
  then show ?thesis using later q by blast
qed

end
