(* ===== verification/TicketGap.thy ===== *)
theory TicketGap
  imports TicketLog
begin

text \<open>
  How far ahead of the head an entry can be. With at most \<open>n\<close> indices in circulation on a ring of \<open>2 n\<close>
  slots, no stored entry is \<open>2 n\<close> tickets or more ahead of the next dequeuer. A ticket not behind the head
  was given up only because of an entry of an earlier ticket in its slot. Of the tickets below \<open>H\<close>, those
  that can still do this were stored or reserved when the tail passed \<open>H\<close>, so there are at most \<open>n\<close> of them; the
  ghost \<open>C H\<close> is this set.
\<close>

section \<open>Indices in circulation\<close>

definition reserved :: "'x ticket_ring \<Rightarrow> nat set" where
  "reserved S = {t. \<exists>i. enq_ticket (claims S i) = Some t}"

fun wants :: "'x claim \<Rightarrow> bool" where
  "wants (Want x) = True"
| "wants (Drawn x t) = True"
| "wants (Seen x t c) = True"
| "wants (Poised x t c) = True"
| "wants _ = False"

text \<open>At most \<open>n\<close> indices are stored or in the hands of an enqueuer.\<close>

definition circulating :: "nat \<Rightarrow> 'x ticket_ring \<Rightarrow> bool" where
  "circulating n S \<longleftrightarrow> finite {i. wants (claims S i)} \<and> card (live S) + card {i. wants (claims S i)} \<le> n"

lemma enq_ticket_wants: "enq_ticket c = Some t \<Longrightarrow> wants c"
  by (cases c) auto

lemma reserved_claim: "enq_ticket (claims S i) = Some t \<Longrightarrow> t \<in> reserved S"
  by (auto simp: reserved_def)

lemma reserved_less: "ticket_inv S \<Longrightarrow> t \<in> reserved S \<Longrightarrow> base S \<le> t \<and> t < next_enq S \<and> put_at S t = None"
proof -
  assume inv: "ticket_inv S" and "t \<in> reserved S"
  then obtain i where i: "enq_ticket (claims S i) = Some t" by (auto simp: reserved_def)
  have "claim_ok S (claims S i)" using inv by (simp add: ticket_inv_def claims_ok_def)
  then show "base S \<le> t \<and> t < next_enq S \<and> put_at S t = None" using i by (cases "claims S i") auto
qed

lemma live_less: "ticket_inv S \<Longrightarrow> t \<in> live S \<Longrightarrow> base S \<le> t \<and> t < next_enq S"
  by (auto simp: live_def ticket_inv_def history_ok_def)

lemma active_bound:
  assumes inv: "ticket_inv S" and n: "circulating n S"
  shows "finite (live S \<union> reserved S)" "card (live S \<union> reserved S) \<le> n"
proof -
  let ?W = "{i. wants (claims S i)}"
  have sub: "reserved S \<subseteq> (\<lambda>i. the (enq_ticket (claims S i))) ` ?W"
  proof
    fix t assume "t \<in> reserved S"
    then obtain i where "enq_ticket (claims S i) = Some t" by (auto simp: reserved_def)
    then show "t \<in> (\<lambda>i. the (enq_ticket (claims S i))) ` ?W"
      using enq_ticket_wants by (intro image_eqI [of _ _ i]) auto
  qed
  have fin: "finite ?W" using n by (simp add: circulating_def)
  then have "finite (reserved S)" "card (reserved S) \<le> card ?W"
    using sub finite_subset surj_card_le by blast+
  then show "finite (live S \<union> reserved S)" "card (live S \<union> reserved S) \<le> n"
    using finite_live [OF inv] n card_Un_le [of "live S" "reserved S"] by (auto simp: circulating_def)
qed

section \<open>The invariant\<close>

definition cuts_ok :: "nat \<Rightarrow> (nat \<Rightarrow> nat set) \<Rightarrow> 'x ticket_ring \<Rightarrow> bool" where
  "cuts_ok n C S \<longleftrightarrow> (\<forall>H\<le>next_enq S. finite (C H) \<and> card (C H) \<le> n \<and> {v \<in> live S \<union> reserved S. v < H} \<subseteq> C H)"

definition blocked_by :: "(nat \<Rightarrow> nat set) \<Rightarrow> nat \<Rightarrow> nat \<Rightarrow> nat \<Rightarrow> bool" where
  "blocked_by C N v u \<longleftrightarrow> v < u \<and> v mod N = u mod N \<and> (\<forall>H. v < H \<longrightarrow> H \<le> u \<longrightarrow> v \<in> C H)"

definition gap_inv :: "nat \<Rightarrow> (nat \<Rightarrow> nat set) \<Rightarrow> 'x ticket_ring \<Rightarrow> bool" where
  "gap_inv n C S \<longleftrightarrow> cuts_ok n C S
     \<and> (\<forall>u. next_deq S \<le> u \<longrightarrow> u < next_enq S \<longrightarrow> u \<notin> live S \<union> reserved S \<longrightarrow>
          (\<exists>v. blocked_by C (length (cells S)) v u))"

lemma gap_inv_cuts: "gap_inv n C S \<Longrightarrow> H \<le> next_enq S \<Longrightarrow> finite (C H) \<and> card (C H) \<le> n"
  "gap_inv n C S \<Longrightarrow> H \<le> next_enq S \<Longrightarrow> v \<in> live S \<union> reserved S \<Longrightarrow> v < H \<Longrightarrow> v \<in> C H"
  by (auto simp: gap_inv_def cuts_ok_def)

text \<open>No entry is a full ring ahead of the head.\<close>

theorem gap_bound:
  assumes inv: "ticket_inv S" and gap: "gap_inv n C S" and n: "circulating n S" "2 * n \<le> length (cells S)" "0 < n"
    and t: "t \<in> live S"
  shows "t < next_deq S + 2 * n"
proof (rule ccontr)
  let ?H = "next_deq S" and ?N = "length (cells S)" and ?A = "live S \<union> reserved S"
  let ?W = "{?H..<?H + 2 * n}"
  assume "\<not> t < ?H + 2 * n"
  then have t': "?H + 2 * n \<le> t" by simp
  have below: "u < next_enq S" if "u \<in> ?W" for u using that t' live_less [OF inv t] by auto
  have "\<forall>u\<in>?W - ?A. \<exists>v. blocked_by C ?N v u" using gap below by (auto simp: gap_inv_def)
  then obtain f where f: "\<And>u. u \<in> ?W - ?A \<Longrightarrow> blocked_by C ?N (f u) u" by metis
  have early: "f u < ?H" if u: "u \<in> ?W - ?A" for u
  proof -
    have "f u + ?N \<le> u" using f [OF u] mod_eq_gap unfolding blocked_by_def by blast
    then show ?thesis using u n(2) by auto
  qed
  have "f ` (?W - ?A) \<subseteq> C ?H"
    using f early by (force simp: blocked_by_def)
  moreover have "inj_on f (?W - ?A)"
  proof (rule inj_onI)
    fix u u' assume u: "u \<in> ?W - ?A" "u' \<in> ?W - ?A" and "f u = f u'"
    then have "u mod ?N = u' mod ?N" using f [OF u(1)] f [OF u(2)] by (simp add: blocked_by_def)
    then show "u = u'"
      using u n(2) mod_eq_gap [of u ?N u'] mod_eq_gap [of u' ?N u] by (cases u u' rule: linorder_cases) auto
  qed
  moreover have "finite (C ?H)" "card (C ?H) \<le> n"
    using gap_inv_cuts(1) [OF gap, of ?H] below [of ?H] n(3) by (auto intro: less_imp_le)
  ultimately have "card (?W - ?A) \<le> n" by (metis card_inj_on_le le_trans)
  moreover have "card (?W \<inter> ?A) \<le> n - 1"
  proof -
    have "?W \<inter> ?A \<subseteq> ?A - {t}" using t' by auto
    then have "card (?W \<inter> ?A) \<le> card (?A - {t})" using active_bound(1) [OF inv n(1)] by (intro card_mono) auto
    also have "\<dots> \<le> n - 1" using active_bound [OF inv n(1)] t by (simp add: card_Diff_singleton)
    finally show ?thesis .
  qed
  moreover have "card ?W = card (?W - ?A) + card (?W \<inter> ?A)" by (metis card_Diff_subset_Int card_Int_Diff finite_atLeastLessThan add.commute)
  ultimately show False using n(3) by simp
qed

section \<open>Every step keeps it\<close>

abbreviation active :: "'x ticket_ring \<Rightarrow> nat set" where
  "active S \<equiv> live S \<union> reserved S"

lemma gap_cong:
  assumes "gap_inv n C S" "length (cells S') = length (cells S)" "next_enq S' = next_enq S" "next_deq S \<le> next_deq S'"
    and "active S' \<subseteq> active S"
    and "\<And>u. u \<in> active S \<Longrightarrow> u \<notin> active S' \<Longrightarrow> next_deq S' \<le> u \<Longrightarrow> \<exists>v. blocked_by C (length (cells S)) v u"
  shows "gap_inv n C S'"
  unfolding gap_inv_def cuts_ok_def
proof (intro conjI allI impI)
  fix H assume "H \<le> next_enq S'"
  then show "finite (C H)" "card (C H) \<le> n" "{v \<in> active S'. v < H} \<subseteq> C H"
    using gap_inv_cuts [OF assms(1), of H] assms(3,5) by auto
next
  fix u assume "next_deq S' \<le> u" "u < next_enq S'" "u \<notin> active S'"
  then show "\<exists>v. blocked_by C (length (cells S')) v u"
    using assms(1,2,3,4) assms(6) [of u] unfolding gap_inv_def by (cases "u \<in> active S") auto
qed

text \<open>The tail advances; the tickets beyond the old tail are the new holder's, or behind the head.\<close>

lemma gap_grow:
  assumes "gap_inv n C S" "length (cells S') = length (cells S)" "next_enq S \<le> next_enq S'" "next_deq S' = next_deq S"
    and active: "active S \<subseteq> active S'" "\<And>u. u \<in> active S' \<Longrightarrow> u \<notin> active S \<Longrightarrow> next_enq S \<le> u"
    and n: "finite (active S')" "card (active S') \<le> n"
    and new: "\<And>u. next_enq S \<le> u \<Longrightarrow> u < next_enq S' \<Longrightarrow> u \<notin> active S' \<Longrightarrow> u < next_deq S"
  shows "\<exists>C'. gap_inv n C' S'"
proof -
  define C' where "C' = (\<lambda>H. if H \<le> next_enq S then C H else active S')"
  have "gap_inv n C' S'"
    unfolding gap_inv_def cuts_ok_def
  proof (intro conjI allI impI)
    fix H assume "H \<le> next_enq S'"
    show "finite (C' H)" "card (C' H) \<le> n"
      using gap_inv_cuts(1) [OF assms(1), of H] n by (auto simp: C'_def)
    show "{v \<in> active S'. v < H} \<subseteq> C' H"
    proof
      fix v assume v: "v \<in> {v \<in> active S'. v < H}"
      show "v \<in> C' H"
      proof (cases "H \<le> next_enq S")
        case True
        then have "v \<in> active S" using v active(2) [of v] by force
        then show ?thesis using v True gap_inv_cuts(2) [OF assms(1) True] by (simp add: C'_def)
      qed (use v in \<open>simp add: C'_def\<close>)
    qed
  next
    fix u assume u: "next_deq S' \<le> u" "u < next_enq S'" "u \<notin> active S'"
    then have "u < next_enq S" using new [of u] assms(4) by force
    moreover have "u \<notin> active S" using u(3) active(1) by blast
    ultimately obtain v where "blocked_by C (length (cells S)) v u"
      using assms(1,4) u(1) unfolding gap_inv_def by auto
    then have "blocked_by C' (length (cells S')) v u"
      using assms(2) \<open>u < next_enq S\<close> by (auto simp: blocked_by_def C'_def)
    then show "\<exists>v. blocked_by C' (length (cells S')) v u" by blast
  qed
  then show ?thesis by blast
qed

lemma live_frame [simp]:
  "live (set_claim i c S) = live S" "live (set_cell t d S) = live S" "live (S\<lparr>next_enq := e\<rparr>) = live S"
  "live (S\<lparr>next_deq := e\<rparr>) = live S" "live (S\<lparr>passed := p\<rparr>) = live S"
  by (simp_all add: live_def set_claim_def set_cell_def)

lemma reserved_frame [simp]:
  "reserved (set_cell t d S) = reserved S" "reserved (S\<lparr>next_enq := e\<rparr>) = reserved S" "reserved (S\<lparr>next_deq := e\<rparr>) = reserved S"
  "reserved (S\<lparr>passed := p\<rparr>) = reserved S" "reserved (S\<lparr>put_at := f\<rparr>) = reserved S" "reserved (S\<lparr>taken := T\<rparr>) = reserved S"
  by (simp_all add: reserved_def set_cell_def)

lemma reserved_same: "enq_ticket c = enq_ticket (claims S i) \<Longrightarrow> reserved (set_claim i c S) = reserved S"
  by (auto simp: reserved_def set_claim_def)

lemma reserved_new: "enq_ticket (claims S i) = None \<Longrightarrow> enq_ticket c = Some t \<Longrightarrow> reserved (set_claim i c S) = insert t (reserved S)"
  by (auto simp: reserved_def set_claim_def) (metis option.distinct(1))+

lemma reserved_drop:
  assumes "ticket_inv S" "enq_ticket (claims S i) = Some t" "enq_ticket c = None"
  shows "reserved (set_claim i c S) = reserved S - {t}"
proof -
  have "one_owner S" using assms(1) by (simp add: ticket_inv_def)
  then have "enq_ticket (claims S j) \<noteq> Some t" if "j \<noteq> i" for j
    using assms(2) that unfolding one_owner_def by blast
  then show ?thesis using assms(2,3) by (auto simp: reserved_def set_claim_def split: if_splits) (metis option.inject)
qed

text \<open>
  A thread that has drawn a ticket gives it up: if the head is not beyond it, its slot holds an entry of
  an earlier ticket.
\<close>

lemma gap_redraw:
  assumes inv: "ticket_inv S" and gap: "gap_inv n C S" and n: "circulating n S" "2 * n \<le> length (cells S)" "0 < n"
    and i: "claims S i = Drawn x t" and cell: "\<not> (older (cell_at S t) t \<and> vacant (cell_at S t))" and t: "next_deq S \<le> t"
  shows "\<exists>v. blocked_by C (length (cells S)) v t"
proof -
  have reserved: "t \<in> reserved S" using i by (intro reserved_claim [of S i]) simp
  note tk = reserved_less [OF inv reserved]
  obtain u s d where c: "cell_at S t = Cell u s d" using cell by (cases "cell_at S t") auto
  have ok: "cells_ok S" using inv by (simp add: ticket_inv_def)
  note owner = cell_owner [OF ok c]
  have md: "u mod length (cells S) = t mod length (cells S)" using owner(1) by (simp add: slot_of_def)
  have "d \<noteq> None"
  proof
    assume d: "d = None"
    then have "u < next_deq S" using ok c slot_less [OF ok, of t] unfolding cells_ok_def cell_at_def by blast
    then show False using cell c d t by simp
  qed
  then obtain y where y: "d = Some y" by blast
  then have live: "u \<in> live S" "put_at S u = Some y"
    using ok c slot_less [OF ok, of t] unfolding cells_ok_def cell_at_def live_def by blast+
  have "u < t"
  proof (rule ccontr)
    assume "\<not> u < t"
    moreover have "u \<noteq> t" using live(2) tk by auto
    ultimately have "t + length (cells S) \<le> u" using mod_eq_gap [OF md [symmetric]] by simp
    moreover have "u < next_deq S + 2 * n" by (rule gap_bound [OF inv gap n live(1)])
    ultimately show False using n(2) t by simp
  qed
  moreover have "u \<in> C H" if "u < H" "H \<le> t" for H
    using gap_inv_cuts(2) [OF gap, of H u] live(1) that tk by simp
  ultimately show ?thesis using md by (auto simp: blocked_by_def)
qed

definition refused :: "nat \<Rightarrow> 'x ticket_event list \<Rightarrow> 'x ticket_ring \<Rightarrow> 'x ticket_ring \<Rightarrow> bool" where
  "refused i es S S' \<longleftrightarrow> es = [] \<and> enq_ticket (claims S i) \<noteq> None \<and> claims S' i = Free"

theorem gap_step:
  assumes step: "ticket_step i es S S'" and inv: "ticket_inv S" and gap: "gap_inv n C S"
    and n: "circulating n S" "circulating n S'" "2 * n \<le> length (cells S)" "0 < n" and go: "\<not> refused i es S S'"
  shows "\<exists>C'. gap_inv n C' S'"
  using step
proof (cases rule: ticket_step.cases)
  case (draw x)
  have inv': "ticket_inv S'" using ticket_step_inv [OF step inv] .
  have "reserved S' = insert (next_enq S) (reserved S)"
    using draw by (simp add: reserved_new)
  then have active: "active S' = insert (next_enq S) (active S)" using draw by simp
  show ?thesis
    using active_bound [OF inv' n(2)] live_less [OF inv] reserved_less [OF inv] unfolding active
    by (intro gap_grow [OF gap]) (use draw active in auto)
next
  case (raise t)
  have "active S' = active S" using raise by simp
  then show ?thesis
    using active_bound [OF inv n(1)] by (intro gap_grow [OF gap]) (use raise in auto)
next
  case (redraw x t)
  have "active S' \<subseteq> active S" "active S - active S' \<subseteq> {t}"
    using redraw reserved_drop [OF inv, of i t "Want x"] by auto
  then have "gap_inv n C S'"
    using gap_redraw [OF inv gap n(1,3,4) redraw(3,4)] redraw(2) by (intro gap_cong [OF gap]) auto
  then show ?thesis by blast
next
  case (redraw_head x t c)
  have "active S' \<subseteq> active S" "active S - active S' \<subseteq> {t}"
    using redraw_head reserved_drop [OF inv, of i t "Want x"] by auto
  then have "gap_inv n C S'" using redraw_head by (intro gap_cong [OF gap]) auto
  then show ?thesis by blast
next
  case (refuse x t c)
  then show ?thesis using go by (simp add: refused_def)
next
  case (store x t c)
  have t: "t \<in> reserved S" using store by (intro reserved_claim [of S i]) simp
  have "reserved S' = reserved (set_claim i Free S)" using store by (simp add: reserved_def set_claim_def set_cell_def)
  then have "reserved S' = reserved S - {t}" using store reserved_drop [OF inv, of i t Free] by simp
  moreover have "live S' = insert t (live S)"
    using store reserved_less [OF inv t] inv by (auto simp: live_def ticket_inv_def history_ok_def set_claim_def set_cell_def)
  ultimately have "gap_inv n C S'"
    using store t by (intro gap_cong [OF gap]) auto
  then show ?thesis by blast
next
  case (remove h x s d)
  have "claim_ok S (Taking h x)" by (rule claim_ok_at [OF inv remove(3)])
  moreover have "live S' = live S - {h}" using remove by (auto simp: live_def set_claim_def set_cell_def)
  moreover have "reserved S' = reserved (set_claim i Free S)" using remove by (simp add: reserved_def set_claim_def set_cell_def)
  then have "reserved S' = reserved S" using remove reserved_same [of Free S i] by simp
  ultimately have "gap_inv n C S'" using remove by (intro gap_cong [OF gap]) auto
  then show ?thesis by blast
qed (auto intro!: exI [of _ C] gap_cong [OF gap] simp: reserved_same)

end
