(* ===== verification/ScqEmpty.thy ===== *)
theory ScqEmpty
  imports ScqConcRun ScqSolo TicketGap
begin

text \<open>
  When a \<open>dequeue\<close> of the ring of \<open>src/scq.rs\<close> may answer \<open>None\<close>. With at most \<open>n\<close> threads and at most \<open>n\<close>
  indices in circulation (\<open>n\<close> is half the number of slots), the threshold exceeds the distance from the head to
  any entry whose \<open>enqueue\<close> has returned, even when every dequeuer that has drawn a ticket has counted its
  failure: so it never runs out while there is such an entry.
\<close>

section \<open>Counting threads\<close>

text \<open>A dequeuer that drew a ticket and may still decrement the threshold; an enqueuer before its store, and after it.\<close>

fun counting :: "ring_pc \<Rightarrow> bool" where
  "counting (DeLoad h a) = True"
| "counting (DeSwap h a w w') = True"
| "counting (DeTail h) = True"
| "counting (CaSwap k h) = True"
| "counting CaHead = True"
| "counting (CaTail h) = True"
| "counting (DeCount b) = True"
| "counting _ = False"

fun in_hand :: "ring_pc \<Rightarrow> bool" where
  "in_hand (EnTicket e) = True"
| "in_hand (EnLoad e k) = True"
| "in_hand (EnHead e k w) = True"
| "in_hand (EnFinal e k w) = True"
| "in_hand (EnSwap e k w) = True"
| "in_hand _ = False"

fun resetting :: "ring_pc \<Rightarrow> bool" where
  "resetting EnThreshold = True"
| "resetting EnReset = True"
| "resetting _ = False"

definition tally :: "nat \<Rightarrow> (ring_pc \<Rightarrow> bool) \<Rightarrow> (nat \<Rightarrow> ring_pc) \<Rightarrow> nat" where
  "tally m f P = (\<Sum>i<m. of_bool (f (P i)))"

lemma tally_move: "t < m \<Longrightarrow> tally m f (P(t := p)) + of_bool (f (P t)) = tally m f P + of_bool (f p)"
  using sum_fun_upd [of t m "\<lambda>q. of_bool (f q) :: nat" P p] by (simp add: tally_def)

lemma tally_card: "tally m f P = card {i. i < m \<and> f (P i)}"
proof -
  have "{..<m} \<inter> {i. f (P i)} = {i. i < m \<and> f (P i)}" by auto
  then show ?thesis by (simp add: tally_def sum_of_bool_eq)
qed

lemma tally_less:
  assumes "t < m" "\<not> f (P t)"
  shows "tally m f P < m"
proof -
  have "{i. i < m \<and> f (P i)} \<subseteq> {..<m} - {t}" using assms by auto
  then have "card {i. i < m \<and> f (P i)} \<le> card ({..<m} - {t})" by (intro card_mono) auto
  then show ?thesis using assms(1) by (simp add: tally_card)
qed

lemma rest_pcs: "ring_at_rest p \<Longrightarrow> \<not> counting p \<and> \<not> in_hand p \<and> \<not> resetting p"
  by (cases p) auto

lemma rest_step: "ring_at_rest p \<Longrightarrow> ring_step p r = (p, r) \<and> ring_event t p r = []"
  by (cases p) auto

lemma pc_rel_wants: "pc_rel k d p C \<Longrightarrow> wants C = in_hand p"
  by (cases p) auto

section \<open>The invariant\<close>

text \<open>The ticket of the entry \<open>u\<close> belongs to no enqueuer that is still about to reset the threshold.\<close>

definition settled :: "nat \<Rightarrow> (nat \<Rightarrow> ring_pc) \<Rightarrow> usize ticket_event list \<Rightarrow> nat \<Rightarrow> bool" where
  "settled m P es u \<longleftrightarrow> (\<forall>i<m. resetting (P i) \<and> stored_by i es \<noteq> [] \<longrightarrow> fst (last (stored_by i es)) \<noteq> u)"

definition final_ok :: "scq_ring \<Rightarrow> ring_pc \<Rightarrow> bool" where
  "final_ok r p \<longleftrightarrow> ((\<exists>e tk w. p = EnFinal e tk w) \<longrightarrow> length (is_finalized r) = 1)"

definition threshold_ok ::
  "nat \<Rightarrow> scq_ring \<Rightarrow> (nat \<Rightarrow> ring_pc) \<Rightarrow> usize ticket_event list \<Rightarrow> usize ticket_ring \<Rightarrow> bool"
where
  "threshold_ok m r P es S \<longleftrightarrow> (\<forall>u\<in>live S. next_deq S \<le> u \<longrightarrow> settled m P es u \<longrightarrow>
     int u + int (tally m counting P) < int (next_deq S) + sint (threshold r))"

definition crowd_ok :: "nat \<Rightarrow> nat \<Rightarrow> scq_ring \<Rightarrow> (nat \<Rightarrow> ring_pc) \<Rightarrow> bool" where
  "crowd_ok m N r P \<longleftrightarrow> m \<le> ring_half r \<and> length (ring_indices r) + tally m in_hand P \<le> ring_half r
     \<and> \<not> is_final r \<and> (\<forall>i. m \<le> i \<longrightarrow> ring_at_rest (P i)) \<and> (\<forall>i. final_ok r (P i)) \<and> -1 - int N \<le> sint (threshold r)"

definition ring_tight_at ::
  "nat \<Rightarrow> nat \<Rightarrow> (nat \<Rightarrow> usize option) \<Rightarrow> usize multiset \<Rightarrow> scq_ring \<Rightarrow> (nat \<Rightarrow> ring_pc)
     \<Rightarrow> usize ticket_event list \<Rightarrow> usize ticket_ring \<Rightarrow> bool"
where
  "ring_tight_at m N X M r P es S \<longleftrightarrow> ring_at N X M r P es S \<and> crowd_ok m N r P
     \<and> (\<exists>C. gap_inv (ring_half r) C S) \<and> threshold_ok m r P es S"

definition ring_tight ::
  "nat \<Rightarrow> nat \<Rightarrow> (nat \<Rightarrow> usize option) \<Rightarrow> usize multiset \<Rightarrow> scq_ring \<Rightarrow> (nat \<Rightarrow> ring_pc)
     \<Rightarrow> usize ticket_event list \<Rightarrow> bool"
where
  "ring_tight m N X M r P es \<longleftrightarrow> (\<exists>S. ring_tight_at m N X M r P es S)"

lemma contents_size: "ticket_inv S \<Longrightarrow> size (contents S) = card (live S)"
  by (simp add: contents_live)

lemma crowd_circulating:
  assumes at: "ring_at N X M r P es S" and crowd: "crowd_ok m N' r P"
  shows "circulating (ring_half r) S" "2 * ring_half r \<le> length (cells S)" "0 < ring_half r"
proof -
  have sim: "ring_sim N r P S" and inv: "ticket_inv S" using at by (simp_all add: ring_at_def)
  have "wants (claims S i) = in_hand (P i)" for i by (rule pc_rel_wants [OF sim_pc [OF sim]])
  moreover have "i < m" if "in_hand (P i)" for i
    using crowd that rest_pcs [of "P i"] unfolding crowd_ok_def by (meson not_less)
  ultimately have "{i. wants (claims S i)} = {i. i < m \<and> in_hand (P i)}" by auto
  moreover have "card (live S) = length (ring_indices r)"
    using contents_size [OF inv] sim_indices [OF sim] by (metis size_mset)
  ultimately show "circulating (ring_half r) S"
    using crowd by (simp add: circulating_def crowd_ok_def tally_card)
  show "2 * ring_half r \<le> length (cells S)" "0 < ring_half r"
    using sim_slots [OF sim] two_halves [of r] by (simp_all add: ring_half_def)
qed

section \<open>The threshold\<close>

lemma sint_full_threshold:
  assumes "ring_wf r"
  shows "sint (full_threshold r) = 3 * int (ring_half r) - 1"
proof -
  have o: "unat (order r) \<le> 60" using assms by (simp add: ring_wf_def)
  then have le: "(2 :: nat) ^ unat (order r) \<le> 2 ^ 60" by (intro power_increasing) auto
  have "unat (full_threshold r) = 3 * 2 ^ unat (order r) - 1"
    using unat_threshold3 [OF o] ring_words(1,3) [OF assms]
    by (simp add: full_threshold_def enq_n_def slot_bits_def mult.commute)
  moreover from this have "sint (full_threshold r) = int (unat (full_threshold r))"
    using le by (intro sint_eq_int_unat) simp
  ultimately show ?thesis by (simp add: ring_half_def of_nat_diff)
qed

lemma sint_decrement: "- (2 ^ 62) \<le> sint (w :: isize) \<Longrightarrow> sint (w - 1) = sint w - 1"
  using sint_diff_no_overflow [of w 1] sint_less [of w] by simp

text \<open>
  What a thread adds to the distance the threshold covers: no step takes from it, except that a reset, or
  finding the threshold full, sets it to the full threshold.
\<close>

definition budget :: "ring_pc \<Rightarrow> scq_ring \<Rightarrow> int" where
  "budget p r = int (unat (head r)) + sint (threshold r) - of_bool (counting p)"

lemma step_pcs:
  assumes "ring_step p r = (p', r')"
  shows "counting p' \<Longrightarrow> counting p \<or> p = DeTicket" and "in_hand p' \<Longrightarrow> in_hand p"
    and "resetting p' \<Longrightarrow> resetting p \<or> in_hand p"
  using assms
  by (cases p; auto simp: enqueue_load_def enqueue_claim_def enqueue_swap_def dequeue_load_def dequeue_swap_def
      dequeue_take_def dequeue_tail_def catchup_swap_def catchup_tail_def dequeue_count_def Let_def
      split: if_splits prod.splits)+

lemma step_words:
  assumes "ring_step p r = (p', r')"
  shows "p \<noteq> DeTicket \<Longrightarrow> head r' = head r"
    and "p \<noteq> EnReset \<Longrightarrow> \<forall>b. p \<noteq> DeCount b \<Longrightarrow> threshold r' = threshold r"
  using assms
  by (cases p; auto simp: enqueue_swap_def dequeue_swap_def dequeue_take_def catchup_swap_def dequeue_count_def
      cas_slot_weak_def cas_tail_weak_def used_exchange_def Let_def split: if_splits prod.splits)+

lemma budget_step:
  assumes step: "ring_step p r = (p', r')" and b: "unat (head r) < 2 ^ 62" "- (2 ^ 62) \<le> sint (threshold r)"
    and p: "p \<noteq> EnReset"
  shows "budget p r \<le> budget p' r'"
proof -
  consider "p = DeTicket" | b where "p = DeCount b" | "p \<noteq> DeTicket" "\<forall>b. p \<noteq> DeCount b" by blast
  then show ?thesis
  proof cases
    case 1
    have "int (unat (head r + 1)) = int (unat (head r)) + 1" using b(1) unat_plus_one [of "head r"] by simp
    then show ?thesis using step 1 by (auto simp: budget_def)
  next
    case 2
    then show ?thesis using step sint_decrement [OF b(2)] by (auto simp: budget_def dequeue_count_def split: if_splits)
  next
    case 3
    then show ?thesis using step_words [OF step] step_pcs(1) [OF step] p by (auto simp: budget_def)
  qed
qed

lemma reset_full:
  "ring_step p r = (p', r') \<Longrightarrow> resetting p \<Longrightarrow> \<not> resetting p' \<Longrightarrow> threshold r' = full_threshold r'"
  by (cases p) (auto simp: full_threshold_def enq_n_def split: if_splits)


section \<open>Every access keeps the invariant\<close>

lemma step_final_ok: "ring_step p r = (p', r') \<Longrightarrow> final_ok r p \<Longrightarrow> final_ok r' p'"
  using ring_step_shape [of p r p' r']
  by (cases p) (auto simp: final_ok_def same_slots_def enqueue_load_def enqueue_claim_def enqueue_swap_def
      dequeue_load_def dequeue_swap_def dequeue_take_def dequeue_tail_def catchup_swap_def catchup_tail_def
      dequeue_count_def Let_def split: if_splits prod.splits)

lemma event_size:
  "ring_step p r = (p', r') \<Longrightarrow>
     size (stored_items (ring_event t p r)) + of_bool (in_hand p') \<le> (of_bool (in_hand p) :: nat)"
  by (cases p) (auto simp: enqueue_load_def enqueue_claim_def enqueue_swap_def dequeue_load_def dequeue_swap_def
      dequeue_take_def dequeue_tail_def catchup_swap_def catchup_tail_def dequeue_count_def Let_def
      split: if_splits prod.splits)

lemma store_resetting: "ring_step p r = (p', r') \<Longrightarrow> ring_event t p r = [Stored t u x] \<Longrightarrow> resetting p'"
  by (cases p) (auto simp: enqueue_swap_def Let_def split: if_splits prod.splits)

lemma event_of: "e \<in> set (ring_event t p r) \<Longrightarrow> (\<exists>u x. e = Stored t u x) \<or> (\<exists>u x. e = Removed t u x)"
  by (cases p) (auto simp: enqueue_swap_def Let_def split: if_splits prod.splits)

lemma step_indices:
  assumes "ring_at N X M r P es S" "ring_at N' X M r' P' (es @ ev) S'"
  shows "length (ring_indices r') \<le> length (ring_indices r) + size (stored_items ev)"
proof -
  have "mset (ring_indices r) + removed_items es = M + stored_items es"
    "mset (ring_indices r') + removed_items (es @ ev) = M + stored_items (es @ ev)"
    using assms ring_conc_indices unfolding ring_conc_def by blast+
  then have "mset (ring_indices r') + removed_items ev + removed_items es
      = mset (ring_indices r) + stored_items ev + removed_items es"
    by (simp add: ac_simps)
  then have "mset (ring_indices r') + removed_items ev = mset (ring_indices r) + stored_items ev"
    by (rule add_right_imp_eq)
  from arg_cong [OF this, of size] show ?thesis by simp
qed

lemma ticket_step_live:
  "ticket_step i es S S' \<Longrightarrow> u \<in> live S' \<Longrightarrow> u \<in> live S \<or> (\<exists>x. es = [Stored i u x])"
  by (cases rule: ticket_step.cases) (auto simp: live_def set_claim_def set_cell_def split: if_splits)

lemma ticket_step_deq: "ticket_step i es S S' \<Longrightarrow> next_deq S \<le> next_deq S'"
  by (cases rule: ticket_step.cases) auto

lemma step_not_refused:
  assumes at: "ring_at N X M r P es S" "ring_at N' X M r' (P(t := p')) es' S'"
    and step: "ring_step (P t) r = (p', r')" and ok: "final_ok r (P t)" "\<not> is_final r"
  shows "\<not> refused t (ring_event t (P t) r) S S'"
proof
  assume ref: "refused t (ring_event t (P t) r) S S'"
  have rel: "pc_rel (slot_bits r) (next_deq S) (P t) (claims S t)"
    using at(1) by (simp add: ring_at_def ring_sim_def)
  have rel': "pc_rel (slot_bits r') (next_deq S') p' (claims S' t)"
    using at(2) sim_pc [of N' r' "P(t := p')" S' t] by (simp add: ring_at_def)
  have "in_hand (P t)" "\<not> in_hand p'" "p' \<noteq> RingPanic"
    using ref pc_rel_wants [OF rel] pc_rel_wants [OF rel'] rel' enq_ticket_wants [of "claims S t"]
    by (auto simp: refused_def)
  then have "p' = EnDone (Inl QueueFinalized) \<and> is_finalized r ! 0 \<and> (\<exists>e k w. P t = EnFinal e k w)
      \<or> ring_event t (P t) r \<noteq> []"
    using step by (cases "P t") (auto simp: enqueue_load_def enqueue_claim_def enqueue_swap_def Let_def
        split: if_splits prod.splits)
  then show False using ref ok by (auto simp: refused_def final_ok_def is_final_def)
qed

lemma settled_step:
  assumes step: "ring_step (P t) r = (p', r')" and ok: "resetting (P t) \<longrightarrow> resetting p'"
    and set: "settled m (P(t := p')) (es @ ring_event t (P t) r) u"
  shows "settled m P es u"
  unfolding settled_def
proof (intro allI impI, elim conjE)
  fix i assume i: "i < m" "resetting (P i)" "stored_by i es \<noteq> []"
  have "stored_by i (ring_event t (P t) r) = []"
  proof (cases "i = t")
    case True
    then show ?thesis using i(2) by (cases "P t") auto
  next
    case False
    have "stored_by i (ring_event t (P t) r) \<noteq> [] \<Longrightarrow> False"
      using event_of [of _ t "P t" r] set_stored_by [of _ _ i "ring_event t (P t) r"] False
      by (metis list.set_intros(1) neq_Nil_conv surj_pair ticket_event.distinct(1) ticket_event.inject(1))
    then show ?thesis by blast
  qed
  moreover have "resetting ((P(t := p')) i)" using i(2) ok by auto
  ultimately show "fst (last (stored_by i es)) \<noteq> u" using set i unfolding settled_def by fastforce
qed


lemma threshold_step:
  assumes step: "ring_step (P t) r = (p', r')" and t: "t < m" and thr: "threshold_ok m r P es S"
    and at: "ring_at N X M r P es S" "ring_at N' X M r' (P(t := p')) (es @ ring_event t (P t) r) S'"
    and move: "ticket_step t (ring_event t (P t) r) S S'" and low: "- (2 ^ 62) \<le> sint (threshold r)"
    and gap: "gap_inv (ring_half r') C S'" and crowd: "crowd_ok m N' r' (P(t := p'))"
  shows "threshold_ok m r' (P(t := p')) (es @ ring_event t (P t) r) S'"
  unfolding threshold_ok_def
proof (intro ballI impI)
  fix u assume u: "u \<in> live S'" "next_deq S' \<le> u"
    and set: "settled m (P(t := p')) (es @ ring_event t (P t) r) u"
  have sims: "ring_sim N r P S" "ring_sim N' r' (P(t := p')) S'" "ticket_inv S'" "ring_wf r'"
    using at by (simp_all add: ring_at_def ring_sim_def)
  have head: "int (unat (head r)) = int (next_deq S)" "int (unat (head r')) = int (next_deq S')" "unat (head r) < 2 ^ 62"
    using sims(1,2) by (auto simp: ring_sim_def)
  show "int u + int (tally m counting (P(t := p'))) < int (next_deq S') + sint (threshold r')"
  proof (cases "resetting (P t) \<and> \<not> resetting p'")
    case True
    have "\<not> counting p'" using step_pcs(1) [OF step] True by (cases "P t") auto
    then have "tally m counting (P(t := p')) < ring_half r'"
      using tally_less [OF t, of counting "P(t := p')"] crowd by (simp add: crowd_ok_def)
    moreover have "sint (threshold r') = 3 * int (ring_half r') - 1"
      using reset_full [OF step] True sint_full_threshold [OF sims(4)] by simp
    moreover have "u < next_deq S' + 2 * ring_half r'"
      by (rule gap_bound [OF sims(3) gap crowd_circulating [OF at(2) crowd] u(1)])
    ultimately show ?thesis by linarith
  next
    case False
    then have keep: "resetting (P t) \<longrightarrow> resetting p'" by blast
    have "u \<in> live S"
    proof (rule ccontr)
      assume "u \<notin> live S"
      then obtain x where x: "ring_event t (P t) r = [Stored t u x]"
        using ticket_step_live [OF move u(1)] by blast
      from store_resetting [OF step x] set t x show False
        by (auto simp: settled_def dest!: spec [of _ t])
    qed
    then have "int u + int (tally m counting P) < int (next_deq S) + sint (threshold r)"
      using thr u(2) ticket_step_deq [OF move] settled_step [OF step keep set] unfolding threshold_ok_def by fastforce
    moreover have "P t \<noteq> EnReset" using keep step by auto
    from budget_step [OF step head(3) low this]
    have "int (next_deq S) + sint (threshold r) - of_bool (counting (P t))
        \<le> int (next_deq S') + sint (threshold r') - of_bool (counting p')"
      unfolding budget_def head .
    moreover have "int (tally m counting (P(t := p'))) + of_bool (counting (P t))
        = int (tally m counting P) + of_bool (counting p')"
      using tally_move [OF t, of counting P p'] by (metis of_nat_add of_nat_of_bool)
    ultimately show ?thesis by linarith
  qed
qed

lemma crowd_step:
  assumes step: "ring_step (P t) r = (p', r')" and t: "t < m" and crowd: "crowd_ok m N r P" and N: "Suc N < 2 ^ 62"
    and at: "ring_at N X M r P es S" "ring_at (Suc N) X M r' (P(t := p')) (es @ ring_event t (P t) r) S'"
  shows "crowd_ok m (Suc N) r' (P(t := p'))"
proof -
  have same: "ring_half r' = ring_half r" "is_final r' = is_final r" "is_finalized r' = is_finalized r"
    using ring_step_shape [OF step] by (simp_all add: same_slots_def ring_half_def is_final_def)
  have "length (ring_indices r') + tally m in_hand (P(t := p')) \<le> length (ring_indices r) + tally m in_hand P"
    using step_indices [OF at] event_size [OF step, of t] tally_move [OF t, of in_hand P p'] by linarith
  moreover have "-1 - int (Suc N) \<le> sint (threshold r')"
  proof -
    have old: "-1 - int N \<le> sint (threshold r)" using crowd by (simp add: crowd_ok_def)
    consider "P t = EnReset" | b where "P t = DeCount b" | "P t \<noteq> EnReset" "\<forall>b. P t \<noteq> DeCount b" by blast
    then show ?thesis
    proof cases
      case 1
      have "ring_wf r'" using at(2) by (simp add: ring_at_def ring_sim_def)
      then have "0 \<le> sint (full_threshold r')" using sint_full_threshold [of r'] by (simp add: ring_half_def)
      moreover have "threshold r' = full_threshold r'" using reset_full [OF step] 1 step by auto
      ultimately show ?thesis by simp
    next
      case 2
      have "- (2 ^ 62) \<le> sint (threshold r)" using old N by simp
      then show ?thesis using sint_decrement old step 2 by (auto simp: dequeue_count_def)
    next
      case 3
      then show ?thesis using step_words(2) [OF step] old by simp
    qed
  qed
  moreover have "final_ok r' ((P(t := p')) i)" for i
    using crowd step_final_ok [OF step] same(3) by (auto simp: crowd_ok_def final_ok_def)
  ultimately show ?thesis
    using crowd t by (auto simp: crowd_ok_def same)
qed

theorem ring_tight_step:
  assumes tight: "ring_tight m N X M r P es" and N: "Suc N < 2 ^ 62" and step: "ring_step (P t) r = (p', r')"
  shows "ring_tight m (Suc N) X M r' (P(t := p')) (es @ ring_event t (P t) r)"
proof -
  obtain S C where at: "ring_at N X M r P es S" and crowd: "crowd_ok m N r P"
      and gap: "gap_inv (ring_half r) C S" and thr: "threshold_ok m r P es S"
    using tight by (auto simp: ring_tight_def ring_tight_at_def)
  obtain S' where at': "ring_at (Suc N) X M r' (P(t := p')) (es @ ring_event t (P t) r) S'"
      and move: "ticket_step t (ring_event t (P t) r) S S'"
    using ring_at_step [OF at N step] by blast
  show ?thesis
  proof (cases "t < m")
    case True
    have half: "ring_half r' = ring_half r" using ring_step_shape [OF step] by (simp add: same_slots_def ring_half_def)
    note crowd' = crowd_step [OF step True crowd N at at']
    have ref: "\<not> refused t (ring_event t (P t) r) S S'"
      using crowd by (intro step_not_refused [OF at at' step]) (simp_all add: crowd_ok_def)
    have inv: "ticket_inv S" using at by (simp add: ring_at_def)
    obtain C' where gap': "gap_inv (ring_half r') C' S'"
      using gap_step [OF move inv gap crowd_circulating(1) [OF at crowd] _ crowd_circulating(2,3) [OF at crowd] ref]
        crowd_circulating(1) [OF at' crowd'] half by auto
    have "- (2 ^ 62) \<le> sint (threshold r)" using crowd N by (simp add: crowd_ok_def)
    then show ?thesis
      using threshold_step [OF step True thr at at' move _ gap' crowd'] at' gap' crowd'
      unfolding ring_tight_def ring_tight_at_def by blast
  next
    case False
    then have "ring_at_rest (P t)" using crowd by (simp add: crowd_ok_def)
    then have "p' = P t" "r' = r" "ring_event t (P t) r = []" using rest_step [of "P t" r t] step by simp_all
    moreover have "ring_at (Suc N) X M r P es S" using at N sim_later by (auto simp: ring_at_def)
    moreover have "crowd_ok m (Suc N) r P" using crowd by (auto simp: crowd_ok_def)
    ultimately show ?thesis using gap thr unfolding ring_tight_def ring_tight_at_def by auto
  qed
qed


section \<open>Calls and the start\<close>

lemma ring_tight_call:
  assumes tight: "ring_tight_at m N X M r P es S" and at: "ring_at N X M r (P(t := p)) es S'"
    and move: "ticket_step t [] S S'" and rest: "ring_at_rest (P t)" and t: "t < m"
    and p: "\<not> counting p" "\<not> resetting p" "final_ok r p"
      "in_hand p \<Longrightarrow> length (ring_indices r) + tally m in_hand P < ring_half r"
  shows "ring_tight m N X M r (P(t := p)) es"
proof -
  obtain C where at0: "ring_at N X M r P es S" and crowd: "crowd_ok m N r P"
      and gap: "gap_inv (ring_half r) C S" and thr: "threshold_ok m r P es S"
    using tight by (auto simp: ring_tight_at_def)
  note old = rest_pcs [OF rest]
  have "tally m in_hand (P(t := p)) = tally m in_hand P + of_bool (in_hand p)"
    "tally m counting (P(t := p)) = tally m counting P"
    using tally_move [OF t, of in_hand P p] tally_move [OF t, of counting P p] old p(1) by simp_all
  then have crowd': "crowd_ok m N r (P(t := p))" and count: "tally m counting (P(t := p)) = tally m counting P"
    using crowd p(3,4) t by (auto simp: crowd_ok_def)
  have sims: "ring_sim N r P S" "ring_sim N r (P(t := p)) S'" "ticket_inv S"
    using at0 at by (simp_all add: ring_at_def)
  have "claims S t = Free" by (rule at_rest_free [OF sim_pc [OF sims(1)] rest])
  then have ref: "\<not> refused t [] S S'" by (simp add: refused_def)
  obtain C' where gap': "gap_inv (ring_half r) C' S'"
    using gap_step [OF move sims(3) gap crowd_circulating(1) [OF at0 crowd] crowd_circulating(1) [OF at crowd']
        crowd_circulating(2,3) [OF at0 crowd] ref] by blast
  have head: "next_deq S' = next_deq S" using sims(1,2) by (simp add: ring_sim_def)
  have same: "settled m (P(t := p)) es u \<Longrightarrow> settled m P es u" for u
    unfolding settled_def using old by (metis fun_upd_apply)
  have "threshold_ok m r (P(t := p)) es S'"
    using thr same ticket_step_live [OF move] unfolding threshold_ok_def head count by blast
  then show ?thesis using at crowd' gap' unfolding ring_tight_def ring_tight_at_def by blast
qed

lemma ring_tight_rest:
  assumes tight: "ring_tight m N X M r P es" and rest: "ring_at_rest (P t)" and t: "t < m"
    and p: "p = DeThreshold \<or> p = RingIdle"
  shows "ring_tight m N X M r (P(t := p)) es"
proof -
  obtain S where S: "ring_tight_at m N X M r P es S" using tight by (auto simp: ring_tight_def)
  then have at: "ring_at N X M r P es S" by (simp add: ring_tight_at_def)
  have "ring_at N X M r (P(t := p)) es S" using p by (intro ring_at_rest_again [OF at rest]) auto
  then show ?thesis
    using p by (intro ring_tight_call [OF S _ ticket_step.stutter rest t]) (auto simp: final_ok_def)
qed

lemma ring_tight_call_enq:
  assumes tight: "ring_tight m N X M r P es" and rest: "ring_at_rest (P t)" and t: "t < m"
    and room: "length (ring_indices r) + tally m in_hand P < ring_half r"
  shows "ring_tight m N X M r (P(t := enqueue_call eidx r)) es"
proof -
  obtain S where S: "ring_tight_at m N X M r P es S" using tight by (auto simp: ring_tight_def)
  then have at: "ring_at N X M r P es S" by (simp add: ring_tight_at_def)
  obtain S' where S': "ring_at N X M r (P(t := enqueue_call eidx r)) es S'" "ticket_step t [] S S'"
    using ring_at_call_enq [OF at rest] by blast
  show ?thesis
    using room by (intro ring_tight_call [OF S S' rest t]) (auto simp: final_ok_def enqueue_call_def)
qed

lemma ring_tight_later: "ring_tight m N X M r P es \<Longrightarrow> N \<le> N' \<Longrightarrow> N' < 2 ^ 62 \<Longrightarrow> ring_tight m N' X M r P es"
  unfolding ring_tight_def ring_tight_at_def ring_at_def ring_sim_def crowd_ok_def by fastforce

lemma ring_tight_conc: "ring_tight m N X M r P es \<Longrightarrow> ring_conc N X M r P es"
  by (auto simp: ring_tight_def ring_tight_at_def ring_conc_def)

text \<open>A quiet ring with room for its threads, whose threshold covers its entries.\<close>

definition ready :: "nat \<Rightarrow> scq_ring \<Rightarrow> usize list \<Rightarrow> bool" where
  "ready m r xs \<longleftrightarrow> \<not> is_final r \<and> m \<le> ring_half r \<and> length xs \<le> ring_half r
     \<and> (xs \<noteq> [] \<longrightarrow> int (length xs) \<le> sint (threshold r))"

theorem ring_tight_start:
  assumes rep: "ring_rep c r xs" and ready: "ready m r xs"
  shows "ring_tight m c (start_puts (unat (head r)) xs) (mset xs) r (\<lambda>_. RingIdle) []"
proof -
  let ?h = "unat (head r)"
  obtain cs where cs: "ticket_inv (start_of r xs cs)" "ring_sim c r (\<lambda>_. RingIdle) (start_of r xs cs)"
    using ring_rep_start [OF rep] by blast
  let ?S = "start_of r xs cs"
  have at: "ring_at c (start_puts ?h xs) (mset xs) r (\<lambda>_. RingIdle) [] ?S"
    using cs start_contents [OF cs(1)] by (simp add: ring_at_def log_ok_def start_of_def)
  have live: "live ?S = {?h..<?h + length xs}"
    by (auto simp: live_def start_of_def start_puts_def split: if_splits)
  have res: "reserved ?S = {}" by (simp add: reserved_def start_of_def)
  have tail: "unat (tail r) = ?h + length xs" and thr: "-1 \<le> sint (threshold r)"
    using rep ready by (simp_all add: ring_rep_def ready_def)
  have "length (ring_indices r) = length xs"
    using sim_indices [OF cs(2)] start_contents [OF cs(1)] by (metis size_mset)
  then have crowd: "crowd_ok m c r (\<lambda>_. RingIdle)"
    using ready thr by (simp add: crowd_ok_def ready_def tally_def final_ok_def)
  have "gap_inv (ring_half r) (\<lambda>_. live ?S) ?S"
    using ready unfolding gap_inv_def cuts_ok_def res live
    by (auto simp: ready_def start_of_def tail)
  moreover have "threshold_ok m r (\<lambda>_. RingIdle) [] ?S"
    unfolding threshold_ok_def live
  proof (intro ballI impI)
    fix u assume u: "u \<in> {?h..<?h + length xs}"
    then have "int (length xs) \<le> sint (threshold r)" using ready by (auto simp: ready_def)
    moreover have "u < ?h + length xs" using u by simp
    then have "int u < int ?h + int (length xs)" by (simp only: of_nat_less_iff flip: of_nat_add)
    ultimately show "int u + int (tally m counting (\<lambda>_. RingIdle)) < int (next_deq ?S) + sint (threshold r)"
      by (simp add: tally_def start_of_def)
  qed
  ultimately show ?thesis using at crowd unfolding ring_tight_def ring_tight_at_def by blast
qed

section \<open>Runs of at most n threads\<close>

text \<open>
  Only the threads below \<open>m\<close> call, an \<open>enqueue\<close> is called only while fewer than \<open>n\<close> indices are in the ring or
  on their way into it, and the ring is not finalized.
\<close>

fun orderly :: "nat \<Rightarrow> ring_label \<Rightarrow> ring_sys \<Rightarrow> bool" where
  "orderly m (CallEnq t eidx) s \<longleftrightarrow> t < m
     \<and> length (ring_indices (the_ring s)) + tally m in_hand (ring_pcs s) < ring_half (the_ring s)"
| "orderly m (CallDeq t) s \<longleftrightarrow> t < m"
| "orderly m (Access t) s \<longleftrightarrow> True"
| "orderly m Seal s \<longleftrightarrow> False"

fun disciplined :: "nat \<Rightarrow> ring_label list \<Rightarrow> ring_sys \<Rightarrow> bool" where
  "disciplined m [] s \<longleftrightarrow> True"
| "disciplined m (l # ls) s \<longleftrightarrow> orderly m l s
     \<and> (case ring_sys_step l s of None \<Rightarrow> True | Some s' \<Rightarrow> disciplined m ls s')"

theorem ring_tight_run:
  assumes "ring_sys_run ls s = Some s'" "disciplined m ls s"
    and "ring_tight m N X M (the_ring s) (ring_pcs s) (ring_log s)" "N + length ls < 2 ^ 62"
  shows "ring_tight m (N + length ls) X M (the_ring s') (ring_pcs s') (ring_log s')"
  using assms
proof (induction ls s arbitrary: N rule: ring_sys_run.induct)
  case (2 l ls s)
  then obtain s1 where s1: "ring_sys_step l s = Some s1" "ring_sys_run ls s1 = Some s'"
    by (auto split: option.splits)
  have N: "Suc N < 2 ^ 62" using 2(5) by simp
  have l: "orderly m l s" "disciplined m ls s1" using 2(3) s1(1) by simp_all
  have "ring_tight m (Suc N) X M (the_ring s1) (ring_pcs s1) (ring_log s1)"
  proof (cases l)
    case (CallEnq t eidx)
    with s1(1) l(1) ring_tight_later [OF ring_tight_call_enq [OF 2(4)] _ N] show ?thesis
      by (auto simp: set_ring_pc_def split: if_splits)
  next
    case (CallDeq t)
    with s1(1) l(1) ring_tight_later [OF ring_tight_rest [OF 2(4), where p = DeThreshold] _ N] show ?thesis
      by (auto simp: set_ring_pc_def split: if_splits)
  next
    case (Access t)
    obtain p r where "ring_step (ring_pcs s t) (the_ring s) = (p, r)" by fastforce
    with s1(1) Access ring_tight_step [OF 2(4) N] show ?thesis
      by (auto simp: set_ring_pc_def)
  qed (use l in simp)
  then have "ring_tight m (Suc N + length ls) X M (the_ring s') (ring_pcs s') (ring_log s')"
    using 2(5) by (intro 2(1) [OF s1 l(2)]) simp_all
  then show ?case by simp
qed simp

section \<open>What a failed dequeue means\<close>

text \<open>Where a \<open>dequeue\<close> can only answer \<open>None\<close>: it has, or it only repairs the tail and counts.\<close>

fun none_pc :: "ring_pc \<Rightarrow> bool" where
  "none_pc (CaSwap k h) = True"
| "none_pc CaHead = True"
| "none_pc (CaTail h) = True"
| "none_pc (DeCount caught_up) = caught_up"
| "none_pc (DeDone res) = (res = None)"
| "none_pc p = False"

lemma none_pc_step: "none_pc p \<Longrightarrow> none_pc (fst (ring_step p r))"
  by (cases p) (auto simp: catchup_swap_def catchup_tail_def dequeue_count_def split: prod.split)

text \<open>The access at which it decides so.\<close>

definition gives_up :: "ring_pc \<Rightarrow> ring_pc \<Rightarrow> bool" where
  "gives_up p p' \<longleftrightarrow> \<not> none_pc p \<and> none_pc p'"

lemma gives_up_cases:
  assumes "ring_step p r = (p', r')" "gives_up p p'"
  obtains "p = DeThreshold" "sint (threshold r) < 0"
  | "p = DeCount False" "sint (threshold r) \<le> 0"
  | h where "p = DeTail h" "is_le (lfring_signed_cmp (tail r) (h + 1))"
  using assms
  by (cases p) (auto simp: gives_up_def enqueue_load_def enqueue_claim_def enqueue_swap_def dequeue_load_def
      dequeue_swap_def dequeue_take_def dequeue_tail_def dequeue_count_def Let_def split: if_splits prod.splits)

text \<open>At that access every entry is being fetched, or its enqueuer has not reset the threshold yet.\<close>

lemma gives_up_entry:
  assumes tight: "ring_tight_at m N X M r P es S" and step: "ring_step (P t) r = (p', r')" "gives_up (P t) p'"
    and live: "u \<in> live S"
  shows "(\<exists>q. dequeuing (P q) = Some u) \<or> \<not> settled m P es u"
proof (rule ccontr)
  assume neg: "\<not> ?thesis"
  have crowd: "crowd_ok m N r P" and thr: "threshold_ok m r P es S" and sim: "ring_sim N r P S" and inv: "ticket_inv S"
    using tight by (auto simp: ring_tight_at_def ring_at_def)
  have ends: "unat (head r) = next_deq S" "unat (tail r) = next_enq S" "next_enq S < 2 ^ 62" "next_deq S < 2 ^ 62"
    using sim by (auto simp: ring_sim_def)
  have ahead: "next_deq S \<le> u"
  proof (rule ccontr)
    assume "\<not> next_deq S \<le> u"
    moreover have "u \<notin> taken S" "u \<notin> passed S" "base S \<le> u"
      using live inv by (auto simp: live_def ticket_inv_def history_ok_def)
    ultimately obtain q where "deq_ticket (claims S q) = Some u"
      using inv unfolding ticket_inv_def all_claimed_def by (meson not_le)
    then show False using neg pc_rel_dequeuing [OF sim_pc [OF sim]] by metis
  qed
  have bound: "int u + int (tally m counting P) < int (next_deq S) + sint (threshold r)"
    using thr live ahead neg by (simp add: threshold_ok_def)
  have "\<not> ring_at_rest (P t)" using step rest_step [of "P t" r t] by (auto simp: gives_up_def)
  then have "t < m" using crowd unfolding crowd_ok_def by (meson not_less)
  then have mine: "1 \<le> tally m counting P" if "counting (P t)"
    using sum_mono2 [of "{..<m}" "{t}" "\<lambda>i. of_bool (counting (P i)) :: nat"] that by (simp add: tally_def)
  from step show False
  proof (cases rule: gives_up_cases)
    case (3 h)
    have "unat h < next_deq S" using sim_pc [OF sim, of t] 3(1) by simp
    moreover from this have "unat (h + 1) = Suc (unat h)" using ends(4) by (intro unat_plus_one) simp
    ultimately have "next_enq S \<le> next_deq S"
      using 3(2) ends is_le_signed_cmp [of "tail r" "h + 1"] by simp
    then show False using ahead live_less [OF inv live] by simp
  qed (use bound mine ahead in auto)
qed

theorem tight_none:
  assumes tight: "ring_tight m N X M r P es" and step: "ring_step (P t) r = (p', r')" "gives_up (P t) p'"
    and put: "X u = Some x \<or> (\<exists>i. Stored i u x \<in> set es)" and set: "settled m P es u"
  shows "(\<exists>q. Removed q u x \<in> set es) \<or> (\<exists>q. dequeuing (P q) = Some u)"
proof (cases "u < unat (head r)")
  case True
  show ?thesis by (rule ring_conc_claimed [OF ring_tight_conc [OF tight] put True])
next
  case False
  obtain S where S: "ring_tight_at m N X M r P es S" using tight by (auto simp: ring_tight_def)
  then have at: "ring_at N X M r P es S" by (simp add: ring_tight_at_def)
  then have "put_at S u = Some x" "u \<notin> taken S"
    using put False by (auto simp: ring_at_def log_ok_def ring_sim_def ticket_inv_def history_ok_def subset_iff)
  then have "u \<in> live S" by (auto simp: live_def)
  with gives_up_entry [OF S step] set show ?thesis by blast
qed

text \<open>So there are not more entries than threads that fetch one or are about to return from their \<open>enqueue\<close>.\<close>

definition attached :: "ring_pc \<Rightarrow> bool" where
  "attached p \<longleftrightarrow> dequeuing p \<noteq> None \<or> resetting p"

theorem tight_none_count:
  assumes tight: "ring_tight m N X M r P es" and step: "ring_step (P t) r = (p', r')" "gives_up (P t) p'"
  shows "length (ring_indices r) \<le> tally m attached P"
proof -
  obtain S where S: "ring_tight_at m N X M r P es S" using tight by (auto simp: ring_tight_def)
  then have sim: "ring_sim N r P S" and inv: "ticket_inv S" and crowd: "crowd_ok m N r P"
    by (simp_all add: ring_tight_at_def ring_at_def)
  let ?A = "{i. i < m \<and> attached (P i)}"
  let ?f = "\<lambda>i. case dequeuing (P i) of Some u \<Rightarrow> u | None \<Rightarrow> fst (last (stored_by i es))"
  have "live S \<subseteq> ?f ` ?A"
  proof
    fix u assume "u \<in> live S"
    from gives_up_entry [OF S step this]
    show "u \<in> ?f ` ?A"
    proof
      assume "\<exists>q. dequeuing (P q) = Some u"
      then obtain q where q: "dequeuing (P q) = Some u" by blast
      then have "\<not> ring_at_rest (P q)" by (cases "P q") auto
      then have "q < m" using crowd unfolding crowd_ok_def by (meson not_less)
      then show ?thesis using q by (intro image_eqI [of _ _ q]) (auto simp: attached_def)
    next
      assume "\<not> settled m P es u"
      then obtain i where i: "i < m" "resetting (P i)" "fst (last (stored_by i es)) = u" by (auto simp: settled_def)
      then have "dequeuing (P i) = None" by (cases "P i") auto
      then show ?thesis using i by (intro image_eqI [of _ _ i]) (auto simp: attached_def)
    qed
  qed
  then have "card (live S) \<le> card ?A" by (intro surj_card_le) auto
  moreover have "card (live S) = length (ring_indices r)"
    using contents_size [OF inv] sim_indices [OF sim] by (metis size_mset)
  ultimately show ?thesis by (simp add: tally_card)
qed

text \<open>
  C13. When \<open>dequeue\<close> of the ring answers \<open>None\<close>: with at most \<open>n\<close> threads and at most \<open>n\<close> indices in circulation,
  at the access that decides the answer every index whose \<open>enqueue\<close> has returned, or that the ring held at the
  start, has been removed or is being fetched by a dequeuer that drew its ticket. The threshold never makes a
  \<open>dequeue\<close> miss an index.
\<close>

theorem ring_none_truthful:
  assumes "ring_rep c r xs" "ready m r xs" "ring_sys_run ls (ring_start r) = Some s" "disciplined m ls (ring_start r)"
    and "c + length ls < 2 ^ 62" "ring_step (ring_pcs s t) (the_ring s) = (p', r')" "gives_up (ring_pcs s t) p'"
    and "start_puts (unat (head r)) xs u = Some x \<or> (\<exists>i. Stored i u x \<in> set (ring_log s))"
    and "settled m (ring_pcs s) (ring_log s) u"
  shows "(\<exists>q. Removed q u x \<in> set (ring_log s)) \<or> (\<exists>q. dequeuing (ring_pcs s q) = Some u)"
proof -
  have "ring_tight m (c + length ls) (start_puts (unat (head r)) xs) (mset xs) (the_ring s) (ring_pcs s) (ring_log s)"
    using ring_tight_run [OF assms(3,4) _ assms(5)] ring_tight_start [OF assms(1,2)] by (simp add: ring_start_def)
  from tight_none [OF this assms(6-9)] show ?thesis .
qed

text \<open>One thread stores an index, the other removes it and tries again.\<close>

definition empty_ring :: scq_ring where
  "empty_ring = new_alloc_ring_empty 0 1 []"

definition empty_schedule :: "ring_label list" where
  "empty_schedule = CallEnq 0 1 # replicate 5 (Access 0) @ CallDeq 1 # replicate 4 (Access 1)
     @ CallDeq 1 # replicate 14 (Access 1)"

lemma empty_run:
  "map_option (\<lambda>s. (ring_log s, fst (ring_step (ring_pcs s 1) (the_ring s)), ring_pcs s 0, ring_pcs s 1))
     (ring_sys_run empty_schedule (ring_start empty_ring))
   = Some ([Stored 0 0 1, Removed 1 0 1], CaSwap 1 2, EnDone (Inr ()), DeTail 1)"
  by code_simp

lemma empty_disciplined: "disciplined 2 empty_schedule (ring_start empty_ring)"
  by code_simp

lemma empty_ready: "ready 2 empty_ring []"
  by (simp add: ready_def empty_ring_def is_final_def ring_half_def new_alloc_ring_empty_def new_from_sqalloc_def)

theorem ring_none_truthful_witness:
  "\<exists>s. ring_sys_run empty_schedule (ring_start empty_ring) = Some s \<and> gives_up (ring_pcs s 1) (CaSwap 1 2)
     \<and> Stored 0 0 1 \<in> set (ring_log s)
     \<and> ((\<exists>q. Removed q 0 1 \<in> set (ring_log s)) \<or> (\<exists>q. dequeuing (ring_pcs s q) = Some 0))"
proof -
  obtain s where s: "ring_sys_run empty_schedule (ring_start empty_ring) = Some s"
      "ring_log s = [Stored 0 0 1, Removed 1 0 1]" "fst (ring_step (ring_pcs s 1) (the_ring s)) = CaSwap 1 2"
      "ring_pcs s 0 = EnDone (Inr ())" "ring_pcs s 1 = DeTail 1"
    using empty_run by auto
  obtain r' where step: "ring_step (ring_pcs s 1) (the_ring s) = (CaSwap 1 2, r')"
    using s(3) by (metis prod.collapse)
  have up: "gives_up (ring_pcs s 1) (CaSwap 1 2)" using s(5) by (simp add: gives_up_def)
  have set: "settled 2 (ring_pcs s) (ring_log s) 0"
    using s(4,5) by (auto simp: settled_def less_2_cases_iff)
  have rep: "ring_rep 0 empty_ring []"
    unfolding empty_ring_def by (rule ring_rep_alloc_empty) simp_all
  have "0 + length empty_schedule < 2 ^ 62" by (simp add: empty_schedule_def)
  moreover have "start_puts (unat (head empty_ring)) [] 0 = Some 1 \<or> (\<exists>i. Stored i 0 1 \<in> set (ring_log s))"
    by (auto simp: s(2))
  ultimately show ?thesis
    using ring_none_truthful [OF rep empty_ready s(1) empty_disciplined _ step up _ set] s(1,2) up by auto
qed

end
