(* ===== verification/QueueSides.thy ===== *)
theory QueueSides
  imports BoundedConcProperties ScqEmpty
begin

text \<open>
  The two rings of a bounded queue used by at most as many threads as it has places. What \<open>ScqEmpty\<close> asks of
  the users of a ring, the queue keeps by itself, because an index is in one place at a time. The locale
  \<open>queue_side\<close> states what the queue does to one of its rings; it is interpreted on the allocation ring and on
  the free ring.
\<close>

section \<open>What a step of the queue does to a ring\<close>

definition unsealed :: "'a queue_sys \<Rightarrow> bool" where
  "unsealed s \<longleftrightarrow> \<not> sealing s \<and> (\<forall>t x. queue_pcs s t \<noteq> QSeal x)"

text \<open>
  \<open>ring\<close>, \<open>log\<close> and \<open>pc\<close> read the ring, its log and the ring operation of a thread; \<open>begins\<close> tells where a step may
  call \<open>enqueue\<close> of the ring. A step leaves the ring alone, begins an operation, or is one access.
\<close>

definition side_moved ::
  "('a queue_sys \<Rightarrow> scq_ring) \<Rightarrow> ('a queue_sys \<Rightarrow> usize ticket_event list) \<Rightarrow> ('a queue_pc \<Rightarrow> ring_pc)
     \<Rightarrow> ('a queue_pc \<Rightarrow> bool) \<Rightarrow> nat \<Rightarrow> 'a queue_pc \<Rightarrow> 'a queue_sys \<Rightarrow> 'a queue_sys \<Rightarrow> bool"
where
  "side_moved ring log pc begins t p' s s' \<longleftrightarrow> moved t p' s s' \<and> sealing s' = sealing s \<and> (\<forall>x. p' \<noteq> QSeal x)
     \<and> (ring s' = ring s \<and> log s' = log s
          \<and> (pc p' = pc (queue_pcs s t)
             \<or> ring_at_rest (pc (queue_pcs s t)) \<and> (pc p' = DeThreshold
                 \<or> begins (queue_pcs s t) \<and> (\<exists>pos. pc p' = enqueue_call pos (ring s))))
        \<or> (\<exists>pr. ring_step (pc (queue_pcs s t)) (ring s) = (pr, ring s')
             \<and> log s' = log s @ ring_event t (pc (queue_pcs s t)) (ring s)
             \<and> (pc p' = pr \<or> ring_at_rest pr \<and> pc p' = RingIdle)))"

text \<open>The ring is a tight one.\<close>

definition side_tight ::
  "('a queue_sys \<Rightarrow> scq_ring) \<Rightarrow> ('a queue_sys \<Rightarrow> usize ticket_event list) \<Rightarrow> ('a queue_pc \<Rightarrow> ring_pc)
     \<Rightarrow> nat \<Rightarrow> nat \<Rightarrow> usize list \<Rightarrow> 'a queue_sys \<Rightarrow> bool"
where
  "side_tight ring log pc N h xs s \<longleftrightarrow> ring_tight (threads s) N (start_puts h xs) (mset xs) (ring s)
     (\<lambda>t. pc (queue_pcs s t)) (log s)"

locale queue_side =
  fixes ring :: "'a queue_sys \<Rightarrow> scq_ring" and log :: "'a queue_sys \<Rightarrow> usize ticket_event list"
    and pc :: "'a queue_pc \<Rightarrow> ring_pc" and begins :: "'a queue_pc \<Rightarrow> bool"
  assumes step: "t < threads s \<Longrightarrow> unsealed s \<Longrightarrow> \<exists>p'. side_moved ring log pc begins t p' s (queue_step t s)"
    and room: "queue_core N ha hf as fs s \<Longrightarrow> t < threads s \<Longrightarrow> begins (queue_pcs s t) \<Longrightarrow>
      length (ring_indices (ring s)) + tally (threads s) in_hand (\<lambda>t. pc (queue_pcs s t)) < ring_half (ring s)"
    and goto: "ring (goto t p s) = ring s" "log (goto t p s) = log s"
    and call: "queue_at_rest p \<Longrightarrow> pc p = RingIdle" "pc (QCount x) = RingIdle"
      "pc (QTake DeThreshold) \<in> {RingIdle, DeThreshold}"
begin

lemma tight_step:
  assumes core: "queue_core N ha hf as fs s" and tight: "side_tight ring log pc N h xs s" and N: "Suc N < 2 ^ 62"
    and move: "side_moved ring log pc begins t p' s s'"
  shows "side_tight ring log pc (Suc N) h xs s'"
proof -
  let ?P = "\<lambda>t. pc (queue_pcs s t)"
  let ?tight = "\<lambda>N r P es. ring_tight (threads s) N (start_puts h xs) (mset xs) r P es"
  have T: "?tight N (ring s) ?P (log s)" using tight by (simp add: side_tight_def)
  have t: "t < threads s" "threads s' = threads s" and pcs: "(\<lambda>t. pc (queue_pcs s' t)) = ?P(t := pc p')"
    using move by (auto simp: side_moved_def moved_def)
  have later: "?tight (Suc N) r P es" if "?tight N r P es" for r P es
    using ring_tight_later [OF that _ N] by simp
  have "?tight (Suc N) (ring s') (?P(t := pc p')) (log s')"
    using move unfolding side_moved_def
  proof (elim conjE disjE exE)
    assume "ring s' = ring s" "log s' = log s" "pc p' = pc (queue_pcs s t)"
    moreover have "?P(t := pc (queue_pcs s t)) = ?P" by auto
    ultimately show ?thesis using later [OF T] by simp
  next
    assume "ring s' = ring s" "log s' = log s" "ring_at_rest (pc (queue_pcs s t))" "pc p' = DeThreshold"
    then show ?thesis using later [OF ring_tight_rest [OF T _ t(1)]] by simp
  next
    fix pos assume w: "ring s' = ring s" "log s' = log s" "ring_at_rest (pc (queue_pcs s t))" "begins (queue_pcs s t)"
        "pc p' = enqueue_call pos (ring s)"
    then show ?thesis using later [OF ring_tight_call_enq [OF T _ t(1) room [OF core t(1) w(4)]]] by simp
  next
    fix pr assume acc: "ring_step (pc (queue_pcs s t)) (ring s) = (pr, ring s')"
        "log s' = log s @ ring_event t (pc (queue_pcs s t)) (ring s)"
    have run: "?tight (Suc N) (ring s') (?P(t := pr)) (log s')"
      unfolding acc(2) by (rule ring_tight_step [OF T N acc(1)])
    then show ?thesis if "pc p' = pr" using that by simp
    show ?thesis if "ring_at_rest pr" "pc p' = RingIdle"
      using ring_tight_rest [OF run _ t(1), of RingIdle] that by simp
  qed
  then show ?thesis by (simp add: side_tight_def t(2) pcs)
qed

lemma tight_call:
  assumes tight: "side_tight ring log pc N h xs s" and N: "Suc N < 2 ^ 62" and t: "t < threads s"
    and rest: "queue_at_rest (queue_pcs s t)" and p: "p = QCount x \<or> p = QTake DeThreshold"
  shows "side_tight ring log pc (Suc N) h xs (goto t p s)"
proof -
  let ?P = "\<lambda>t. pc (queue_pcs s t)"
  have pcs: "(\<lambda>u. pc (queue_pcs (goto t p s) u)) = ?P(t := pc p)" by (auto simp: goto_def)
  have "pc p = DeThreshold \<or> pc p = RingIdle" using p call(2) [of x] call(3) by auto
  then have "ring_tight (threads s) N (start_puts h xs) (mset xs) (ring s) (?P(t := pc p)) (log s)"
    using tight t call(1) [OF rest] by (intro ring_tight_rest) (auto simp: side_tight_def)
  then show ?thesis
    using ring_tight_later [OF _ _ N] by (simp add: side_tight_def goto pcs) (simp add: goto_def)
qed

lemma tight_run:
  assumes "queue_sys_run ls s = Some s'" "queue_ok N ha hf as fs vs s" "side_tight ring log pc N h xs s" "unsealed s"
    "N + length ls < 2 ^ 62"
  shows "side_tight ring log pc (N + length ls) h xs s'"
  using assms
proof (induction ls arbitrary: s N)
  case (Cons l ls)
  then obtain s1 where s1: "queue_sys_step l s = Some s1" "queue_sys_run ls s1 = Some s'"
    by (auto split: option.splits)
  have one: "queue_sys_run [l] s = Some s1" using s1(1) by simp
  have N: "Suc N < 2 ^ 62" using Cons.prems(5) by simp
  have ok: "queue_ok (Suc N) ha hf as fs vs s1"
    using queue_run_ok [OF one Cons.prems(2)] N by simp
  have "side_tight ring log pc (Suc N) h xs s1 \<and> unsealed s1"
  proof (cases l)
    case (QStep t)
    then have t: "t < threads s" "s1 = queue_step t s" using s1(1) by (simp_all split: if_splits)
    then obtain p' where move: "side_moved ring log pc begins t p' s s1" using step [OF t(1) Cons.prems(4)] by blast
    then have "unsealed s1" using Cons.prems(4) by (auto simp: unsealed_def side_moved_def moved_def)
    with tight_step [OF ok_parts(1) [OF Cons.prems(2)] Cons.prems(3) N move] show ?thesis by blast
  qed (use s1(1) Cons.prems(4) tight_call [OF Cons.prems(3) N] in
      \<open>auto simp: unsealed_def goto_def split: if_splits\<close>)
  then show ?case using Cons.IH [OF s1(2) ok] Cons.prems(5) by simp
qed simp

end

section \<open>The two sides\<close>

abbreviation alloc_ring :: "'a queue_sys \<Rightarrow> scq_ring" where
  "alloc_ring s \<equiv> alloc_queue (the_queue s)"

abbreviation free_ring :: "'a queue_sys \<Rightarrow> scq_ring" where
  "free_ring s \<equiv> free_queue (the_queue s)"

fun alloc_begins :: "'a queue_pc \<Rightarrow> bool" where
  "alloc_begins (QWrite x sz pos) = True"
| "alloc_begins p = False"

fun free_begins :: "'a queue_pc \<Rightarrow> bool" where
  "free_begins (QUndoRead pos) = True"
| "free_begins (QRead tk pos) = True"
| "free_begins p = False"

abbreviation alloc_moved :: "nat \<Rightarrow> 'a queue_pc \<Rightarrow> 'a queue_sys \<Rightarrow> 'a queue_sys \<Rightarrow> bool" where
  "alloc_moved \<equiv> side_moved alloc_ring alloc_log alloc_pc alloc_begins"

abbreviation free_moved :: "nat \<Rightarrow> 'a queue_pc \<Rightarrow> 'a queue_sys \<Rightarrow> 'a queue_sys \<Rightarrow> bool" where
  "free_moved \<equiv> side_moved free_ring free_log free_pc free_begins"

text \<open>Where an operation goes on, as seen from each ring.\<close>

named_theorems after_pcs "the ring operation a thread is in after an access"

lemma after_alloc_pc:
  "alloc_pc (after_alloc fin c x sz pos p) = p \<or> ring_at_rest p \<and> alloc_pc (after_alloc fin c x sz pos p) = RingIdle"
  by (cases p) (simp_all add: after_alloc_def split: sum.split)

lemma after_alloc_free [after_pcs]: "free_pc (after_alloc fin c x sz pos p) = RingIdle"
  "after_alloc False c x sz pos p \<noteq> QSeal y"
  by (cases p; simp add: after_alloc_def split: sum.split)+

lemma after_take_pc:
  "alloc_pc (after_take p0 p) = p \<or> ring_at_rest p \<and> alloc_pc (after_take p0 p) = RingIdle"
  by (cases p) (simp_all add: after_take_def split: option.split)

lemma after_take_free [after_pcs]: "free_pc (after_take p0 p) = RingIdle" "after_take p0 p \<noteq> QSeal y"
  by (cases p; simp add: after_take_def split: option.split)+

lemma after_free_pc:
  "free_pc (after_free x sz p) = p \<or> ring_at_rest p \<and> free_pc (after_free x sz p) = RingIdle"
  by (cases "(x, sz, p)" rule: after_free.cases) simp_all

lemma after_free_alloc [after_pcs]: "alloc_pc (after_free x sz p) = RingIdle" "after_free x sz p \<noteq> QSeal y"
  by (cases "(x, sz, p)" rule: after_free.cases; simp)+

lemma after_undo_pc:
  "free_pc (after_undo x pos p) = p \<or> ring_at_rest p \<and> free_pc (after_undo x pos p) = RingIdle"
  by (cases "(x, pos, p)" rule: after_undo.cases) simp_all

lemma after_undo_alloc [after_pcs]: "alloc_pc (after_undo x pos p) = RingIdle" "after_undo x pos p \<noteq> QSeal y"
  by (cases "(x, pos, p)" rule: after_undo.cases; simp)+

lemma after_give_pc:
  "free_pc (after_give x pos p) = p \<or> ring_at_rest p \<and> free_pc (after_give x pos p) = RingIdle"
  by (cases "(x, pos, p)" rule: after_give.cases) simp_all

lemma after_give_alloc [after_pcs]: "alloc_pc (after_give x pos p) = RingIdle" "after_give x pos p \<noteq> QSeal y"
  by (cases "(x, pos, p)" rule: after_give.cases; simp)+

text \<open>The steps that access a ring: one access of it, none of the other.\<close>

lemma free_access_sides:
  assumes t: "t < threads s" and p: "free_pc (queue_pcs s t) = p" "alloc_pc (queue_pcs s t) = RingIdle"
    and f: "\<And>p'. free_pc (f p') = p' \<or> ring_at_rest p' \<and> free_pc (f p') = RingIdle"
      "\<And>p'. alloc_pc (f p') = RingIdle" "\<And>p' x. f p' \<noteq> QSeal x"
  shows "\<exists>p'. free_moved t p' s (free_access t p f s)" "\<exists>p'. alloc_moved t p' s (free_access t p f s)"
proof -
  obtain pr r where step: "ring_step p (free_ring s) = (pr, r)" by fastforce
  show "\<exists>p'. free_moved t p' s (free_access t p f s)"
    using step t p f(3) f(1) [of pr]
    by (intro exI [of _ "f pr"]) (auto simp: free_access_def Let_def side_moved_def moved_def goto_def set_queue_def)
  show "\<exists>p'. alloc_moved t p' s (free_access t p f s)"
    using step t p f(2,3)
    by (intro exI [of _ "f pr"]) (simp add: free_access_def Let_def side_moved_def moved_def goto_def set_queue_def)
qed

lemma alloc_access_sides:
  assumes t: "t < threads s" and p: "alloc_pc (queue_pcs s t) = p" "free_pc (queue_pcs s t) = RingIdle"
    and f: "\<And>p'. alloc_pc (f p') = p' \<or> ring_at_rest p' \<and> alloc_pc (f p') = RingIdle"
      "\<And>p'. free_pc (f p') = RingIdle" "\<And>p' x. f p' \<noteq> QSeal x"
  shows "\<exists>p'. alloc_moved t p' s (alloc_access t p v f s)" "\<exists>p'. free_moved t p' s (alloc_access t p v f s)"
proof -
  obtain pr r where step: "ring_step p (alloc_ring s) = (pr, r)" by fastforce
  show "\<exists>p'. alloc_moved t p' s (alloc_access t p v f s)"
    using step t p f(3) f(1) [of pr]
    by (intro exI [of _ "f pr"]) (auto simp: alloc_access_def Let_def side_moved_def moved_def goto_def set_queue_def)
  show "\<exists>p'. free_moved t p' s (alloc_access t p v f s)"
    using step t p f(2,3)
    by (intro exI [of _ "f pr"]) (simp add: alloc_access_def Let_def side_moved_def moved_def goto_def set_queue_def)
qed

text \<open>The steps that access none, of which some begin an operation.\<close>

definition both_moved :: "nat \<Rightarrow> 'a queue_sys \<Rightarrow> 'a queue_sys \<Rightarrow> bool" where
  "both_moved t s s' \<longleftrightarrow> (\<exists>p'. alloc_moved t p' s s') \<and> (\<exists>p'. free_moved t p' s s')"

lemma both_moved_goto:
  assumes t: "t < threads s" and p': "\<And>x. p' \<noteq> QSeal x"
    and q': "alloc_queue q' = alloc_ring s" "free_queue q' = free_ring s"
    and idle: "alloc_pc (queue_pcs s t) = RingIdle" "free_pc (queue_pcs s t) = RingIdle"
    and alloc: "alloc_pc p' = RingIdle \<or> alloc_pc p' = DeThreshold
      \<or> alloc_begins (queue_pcs s t) \<and> (\<exists>pos. alloc_pc p' = enqueue_call pos (alloc_ring s))"
    and free: "free_pc p' = RingIdle \<or> free_pc p' = DeThreshold
      \<or> free_begins (queue_pcs s t) \<and> (\<exists>pos. free_pc p' = enqueue_call pos (free_ring s))"
  shows "both_moved t s (goto t p' (set_queue q' (s\<lparr>value_log := vl\<rparr>)))"
  unfolding both_moved_def
proof (intro conjI exI)
  show "alloc_moved t p' s (goto t p' (set_queue q' (s\<lparr>value_log := vl\<rparr>)))"
    using assms by (auto simp: side_moved_def moved_def goto_def set_queue_def)
  show "free_moved t p' s (goto t p' (set_queue q' (s\<lparr>value_log := vl\<rparr>)))"
    using assms by (auto simp: side_moved_def moved_def goto_def set_queue_def)
qed

lemma slot_rings:
  "write_slot pos x q = Some (Ret q') \<Longrightarrow> alloc_queue q' = alloc_queue q \<and> free_queue q' = free_queue q"
  "read_slot pos q = Some (Ret (y, q')) \<Longrightarrow> alloc_queue q' = alloc_queue q \<and> free_queue q' = free_queue q"
  by (auto simp: write_slot_def read_slot_def Let_def split: if_splits option.splits)

lemma both_moved_slot:
  assumes "\<And>b. m = Some (Ret b) \<Longrightarrow> both_moved t s (f b)" and t: "t < threads s"
    and p: "alloc_pc (queue_pcs s t) = RingIdle" "free_pc (queue_pcs s t) = RingIdle"
  shows "both_moved t s (slot_outcome t m f s)"
proof -
  have "both_moved t s (goto t p' s)" if "p' = QPanic \<or> p' = QUndefined" for p'
    using that both_moved_goto [OF t, of p' "the_queue s" "value_log s"] p by (auto simp: set_queue_def)
  then show ?thesis
    using assms(1) by (cases m) (auto simp: slot_outcome_def split: exec.split)
qed

theorem queue_step_sides:
  assumes t: "t < threads s" and un: "unsealed s"
  shows "both_moved t s (queue_step t s)"
proof -
  have goto: "both_moved t s (goto t p (set_queue q' s))"
    if "\<And>x. p \<noteq> QSeal x" "alloc_queue q' = alloc_ring s" "free_queue q' = free_ring s"
      "alloc_pc (queue_pcs s t) = RingIdle" "free_pc (queue_pcs s t) = RingIdle"
      "alloc_pc p = RingIdle" "free_pc p = RingIdle \<or> free_pc p = DeThreshold" for p q'
    using both_moved_goto [OF t that(1-5), of "value_log s"] that(6,7) by auto
  have stay: "both_moved t s s" if "\<And>x. queue_pcs s t \<noteq> QSeal x"
    unfolding both_moved_def using that t
    by (intro conjI exI [of _ "queue_pcs s t"]) (simp_all add: side_moved_def moved_def)
  show ?thesis
  proof (cases "queue_pcs s t")
    case (QFree x sz p)
    then have eq: "queue_step t s = free_access t p (after_free x sz) s" by (simp add: queue_step_def Let_def)
    show ?thesis
      unfolding eq both_moved_def using QFree
      by (intro conjI free_access_sides [OF t]) (simp_all add: after_pcs after_free_pc)
  next
    case (QUndoFree x pos p)
    then have eq: "queue_step t s = free_access t p (after_undo x pos) s" by (simp add: queue_step_def Let_def)
    show ?thesis
      unfolding eq both_moved_def using QUndoFree
      by (intro conjI free_access_sides [OF t]) (simp_all add: after_pcs after_undo_pc)
  next
    case (QGive x pos p)
    then have eq: "queue_step t s = free_access t p (after_give x pos) s" by (simp add: queue_step_def Let_def)
    show ?thesis
      unfolding eq both_moved_def using QGive
      by (intro conjI free_access_sides [OF t]) (simp_all add: after_pcs after_give_pc)
  next
    case (QAlloc x sz pos p)
    then have eq: "queue_step t s = alloc_access t p (Some x) (after_alloc False (ring_capacity (free_ring s)) x sz pos) s"
      using un by (simp add: queue_step_def Let_def unsealed_def)
    show ?thesis
      unfolding eq both_moved_def using QAlloc
      by (intro conjI alloc_access_sides [OF t]) (simp_all add: after_pcs after_alloc_pc)
  next
    case (QTake p)
    then have eq: "queue_step t s = alloc_access t p None (after_take p) s" by (simp add: queue_step_def Let_def)
    show ?thesis
      unfolding eq both_moved_def using QTake
      by (intro conjI alloc_access_sides [OF t]) (simp_all add: after_pcs after_take_pc)
  next
    case (QWrite x sz pos)
    have "both_moved t s (goto t (after_alloc False c x sz pos (enqueue_call pos (alloc_queue q'))) (set_queue q' s))"
      if "write_slot pos x (the_queue s) = Some (Ret q')" for c q'
      using slot_rings(1) [OF that] QWrite after_alloc_pc [where fin = False and c = c and x = x and sz = sz and pos = pos]
        both_moved_goto [OF t, where p' = "after_alloc False c x sz pos (enqueue_call pos (alloc_queue q'))" and q' = q'
          and vl = "value_log s"]
      by (simp add: after_pcs) metis
    then show ?thesis
      using QWrite un t by (auto simp: queue_step_def Let_def unsealed_def intro!: both_moved_slot)
  next
    case (QUndoRead pos)
    have "both_moved t s (goto t (after_undo x pos (enqueue_call pos (free_queue q'))) (set_queue q' s))"
      if "read_slot pos (the_queue s) = Some (Ret (x, q'))" for x q'
      using slot_rings(2) [OF that] QUndoRead after_undo_pc [where x = x and pos = pos]
        both_moved_goto [OF t, where p' = "after_undo x pos (enqueue_call pos (free_queue q'))" and q' = q'
          and vl = "value_log s"]
      by (simp add: after_pcs) metis
    then show ?thesis
      using QUndoRead t by (auto simp: queue_step_def Let_def intro!: both_moved_slot split: prod.split)
  next
    case (QRead tk pos)
    have "both_moved t s (goto t (after_give x pos (enqueue_call pos (free_queue q'))) (set_queue q' (s\<lparr>value_log := vl\<rparr>)))"
      if "read_slot pos (the_queue s) = Some (Ret (x, q'))" for x q' vl
      using slot_rings(2) [OF that] QRead after_give_pc [where x = x and pos = pos]
        both_moved_goto [OF t, where p' = "after_give x pos (enqueue_call pos (free_queue q'))" and q' = q' and vl = vl]
      by (simp add: after_pcs) metis
    then show ?thesis
      using QRead t by (auto simp: queue_step_def Let_def intro!: both_moved_slot split: prod.split)
  next
    case (QSeal x)
    then show ?thesis using un by (simp add: unsealed_def)
  next
    case (QCount x)
    then show ?thesis using goto by (simp add: queue_step_def Let_def)
  next
    case (QFull x)
    then show ?thesis using goto by (simp add: queue_step_def Let_def)
  next
    case (QUndoUsed pos)
    then show ?thesis using goto by (simp add: queue_step_def Let_def)
  next
    case (QUsed tk pos)
    then show ?thesis using goto by (simp add: queue_step_def Let_def)
  qed (use stay in \<open>simp_all add: queue_step_def\<close>)
qed

section \<open>Room for the indices\<close>

lemma size_total: "size (total f s) = (\<Sum>t<threads s. size (f (queue_pcs s t)))"
proof -
  have "size (\<Sum>t<n. g t) = (\<Sum>t<n. size (g t))" for n and g :: "nat \<Rightarrow> 'c multiset"
    by (induction n) simp_all
  then show ?thesis by (simp add: total_def)
qed

lemma in_hand_storing: "in_hand p \<longleftrightarrow> storing p \<noteq> None"
  by (cases p) simp_all

lemma deq_side_empty: "deq_side p \<Longrightarrow> \<not> in_hand p"
  by (cases p) simp_all

text \<open>An index in the hands of an enqueuer of a ring is not in the ring.\<close>

lemma in_hand_held:
  assumes "queue_pc_ok n may p"
  shows "of_bool (in_hand (alloc_pc p)) \<le> size (held p)" "of_bool (in_hand (free_pc p)) \<le> size (held p)"
  using assms deq_side_empty by (cases p; force simp: unstored_def in_hand_storing)+

lemma places_size:
  assumes "queue_core N ha hf as fs s"
  shows "length (ring_indices (alloc_ring s)) + length (ring_indices (free_ring s)) + size (total held s) = bq_cap (the_queue s)"
proof -
  have "places s = all_indices (bq_cap (the_queue s))" using assms by (simp add: queue_core_def)
  from arg_cong [OF this, of size] show ?thesis by (simp add: places_def all_indices_def)
qed

lemma side_room:
  assumes core: "queue_core N ha hf as fs s" and t: "t < threads s" "held (queue_pcs s t) \<noteq> {#}" "\<not> in_hand (pc (queue_pcs s t))"
    and pc: "\<And>n may p. queue_pc_ok n may p \<Longrightarrow> of_bool (in_hand (pc p)) \<le> size (held p)"
  shows "tally (threads s) in_hand (\<lambda>t. pc (queue_pcs s t)) < size (total held s)"
proof -
  have "of_bool (in_hand (pc (queue_pcs s u))) \<le> size (held (queue_pcs s u))" for u
    using core unfolding queue_core_def pc_in_def by (blast intro: pc)
  then show ?thesis
    unfolding tally_def size_total using t
    by (intro sum_strict_mono_ex1) (auto intro!: bexI [of _ t] simp: nonempty_has_size)
qed

lemma begins_held: "alloc_begins p \<Longrightarrow> held p \<noteq> {#} \<and> alloc_pc p = RingIdle"
  "free_begins p \<Longrightarrow> held p \<noteq> {#} \<and> free_pc p = RingIdle"
  by (cases p; simp)+

interpretation alloc_side: queue_side alloc_ring alloc_log alloc_pc alloc_begins
proof
  fix N ha hf as fs t and s :: "'a queue_sys"
  assume core: "queue_core N ha hf as fs s" and t: "t < threads s" "alloc_begins (queue_pcs s t)"
  have "ring_half (alloc_ring s) = bq_cap (the_queue s)" using core by (simp add: queue_core_def)
  moreover have "tally (threads s) in_hand (\<lambda>t. alloc_pc (queue_pcs s t)) < size (total held s)"
    using begins_held(1) [OF t(2)] by (intro side_room [OF core t(1)] in_hand_held(1)) simp_all
  ultimately show "length (ring_indices (alloc_ring s)) + tally (threads s) in_hand (\<lambda>t. alloc_pc (queue_pcs s t))
      < ring_half (alloc_ring s)"
    using places_size [OF core] by linarith
next
  fix p :: "'a queue_pc" assume "queue_at_rest p"
  then show "alloc_pc p = RingIdle" by (cases p) simp_all
qed (use queue_step_sides in \<open>auto simp: both_moved_def goto_def\<close>)

interpretation free_side: queue_side free_ring free_log free_pc free_begins
proof
  fix N ha hf as fs t and s :: "'a queue_sys"
  assume core: "queue_core N ha hf as fs s" and t: "t < threads s" "free_begins (queue_pcs s t)"
  have "tally (threads s) in_hand (\<lambda>t. free_pc (queue_pcs s t)) < size (total held s)"
    using begins_held(2) [OF t(2)] by (intro side_room [OF core t(1)] in_hand_held(2)) simp_all
  then show "length (ring_indices (free_ring s)) + tally (threads s) in_hand (\<lambda>t. free_pc (queue_pcs s t))
      < ring_half (free_ring s)"
    using places_size [OF core] unfolding bq_cap_def by linarith
next
  fix p :: "'a queue_pc" assume "queue_at_rest p"
  then show "free_pc p = RingIdle" by (cases p) simp_all
qed (use queue_step_sides in \<open>auto simp: both_moved_def goto_def\<close>)

end
