(* ===== verification/BoundedEmpty.thy ===== *)
theory BoundedEmpty
  imports QueueSides
begin

text \<open>
  When a bounded queue used by at most as many threads as it has places answers that it is empty, or full:
  \<open>dequeue\<close> answers \<open>None\<close> only if every value whose \<open>enqueue\<close> has returned was taken, and \<open>enqueue\<close> finds no free
  index only if the stored values and the other running operations fill the queue. \<open>BoundedWedge\<close> shows what
  happens with more threads.
\<close>

section \<open>What a failed dequeue means\<close>

text \<open>The thread holds the ticket of an entry: it dequeues it, or has its index and is about to read the value.\<close>

fun holding :: "'a queue_pc \<Rightarrow> nat option" where
  "holding (QTake p) = dequeuing p"
| "holding (QUsed tk pos) = Some tk"
| "holding (QRead tk pos) = Some tk"
| "holding _ = None"

text \<open>The \<open>enqueue\<close> that stored under the ticket is not between its store and its return.\<close>

definition enqueue_over :: "'a queue_sys \<Rightarrow> nat \<Rightarrow> bool" where
  "enqueue_over s tk \<longleftrightarrow> (\<forall>u<threads s. resetting (alloc_pc (queue_pcs s u)) \<and> stored_by u (value_log s) \<noteq> []
     \<longrightarrow> fst (last (stored_by u (value_log s))) \<noteq> tk)"

lemma stored_once:
  "distinct (stored_tickets es) \<Longrightarrow> Stored i t x \<in> set es \<Longrightarrow> Stored j t y \<in> set es \<Longrightarrow> i = j \<and> x = y"
  by (induction es rule: stored_tickets.induct) (auto simp: set_stored_tickets)

lemma same_firsts: "map fst xs = map fst ys \<Longrightarrow> (t, x) \<in> set xs \<Longrightarrow> \<exists>y. (t, y) \<in> set ys"
  by (metis (no_types, lifting) fst_conv image_iff list.set_map prod.collapse)

lemma enqueue_over_settled: "tickets_ok s \<Longrightarrow> enqueue_over s tk \<Longrightarrow> settled (threads s) (\<lambda>t. alloc_pc (queue_pcs s t)) (alloc_log s) tk"
  unfolding enqueue_over_def settled_def tickets_ok_def by (metis last_map map_is_Nil_conv)

lemma dequeuing_holding: "pc_in q p \<Longrightarrow> dequeuing (alloc_pc p) = Some tk \<Longrightarrow> holding p = Some tk"
proof (cases p)
  case (QAlloc x sz pos p')
  assume "pc_in q p" "dequeuing (alloc_pc p) = Some tk"
  with QAlloc show ?thesis by (cases p') (simp_all add: pc_in_def storing_ok_def)
qed simp_all

theorem queue_none:
  fixes s :: "'a queue_sys"
  assumes ok: "queue_ok N ha hf [] fs [] s" and tight: "side_tight alloc_ring alloc_log alloc_pc N ha [] s"
    and step: "ring_step (alloc_pc (queue_pcs s t)) (alloc_queue (the_queue s)) = (p', r')" "gives_up (alloc_pc (queue_pcs s t)) p'"
    and put: "Stored i tk v \<in> set (value_log s)" and ret: "enqueue_over s tk"
  shows "(\<exists>u. Removed u tk v \<in> set (value_log s)) \<or> (\<exists>u. holding (queue_pcs s u) = Some tk)"
proof -
  have tickets: "tickets_ok s" and hist: "slot_history (start_puts ha []) (start_puts ha []) s"
    using ok by (simp_all add: queue_ok_def)
  have "map fst (stored_by i (value_log s)) = map fst (stored_by i (alloc_log s))"
    using tickets by (simp add: tickets_ok_def)
  from same_firsts [OF this, of tk v] put obtain x where x: "Stored i tk x \<in> set (alloc_log s)"
    by (auto simp: set_log)
  have "(\<exists>q. Removed q tk x \<in> set (alloc_log s)) \<or> (\<exists>q. dequeuing (alloc_pc (queue_pcs s q)) = Some tk)"
    using tight_none [OF tight [unfolded side_tight_def] step _ enqueue_over_settled [OF tickets ret]] x by blast
  then show ?thesis
  proof
    assume "\<exists>q. Removed q tk x \<in> set (alloc_log s)"
    then obtain q where "(tk, x) \<in> set (removed_by q (alloc_log s))" by (auto simp: set_log)
    then have q: "tk \<in> set (map fst (removed_by q (alloc_log s)))" by force
    have "map fst (removed_by q (alloc_log s)) = map fst (removed_by q (value_log s))
        @ (case fetched (queue_pcs s q) of None \<Rightarrow> [] | Some (tk, i) \<Rightarrow> [tk])"
      using tickets unfolding tickets_ok_def by blast
    with q consider w where "Removed q tk w \<in> set (value_log s)" | j where "fetched (queue_pcs s q) = Some (tk, j)"
      by (auto simp: set_log split: option.splits)
    then show ?thesis
    proof cases
      case (1 w)
      then obtain p where "Stored p tk w \<in> set (value_log s)"
        using hist unfolding slot_history_def put_under_def by fastforce
      then have "w = v" using stored_once [OF value_order(1) [OF ok] put] by blast
      with 1 show ?thesis by blast
    next
      case (2 j)
      then have "holding (queue_pcs s q) = Some tk" by (cases "queue_pcs s q") simp_all
      then show ?thesis by blast
    qed
  next
    assume "\<exists>q. dequeuing (alloc_pc (queue_pcs s q)) = Some tk"
    then show ?thesis using dequeuing_holding ok_parts(4) [OF ok] by blast
  qed
qed

section \<open>What a failed enqueue means\<close>

text \<open>An entry of the free ring that is being fetched or given back, or an index in hand, takes a running thread.\<close>

lemma attached_held:
  assumes "queue_pc_ok n may p"
  shows "of_bool (attached (free_pc p)) + size (held p) \<le> (of_bool (\<not> queue_at_rest p) :: nat)"
proof -
  have one: "of_bool (attached p') + size (unstored p' pos) \<le> (1 :: nat)" if "enq_side p'" for p' pos
    using that by (cases p') (simp_all add: attached_def unstored_def)
  show ?thesis
    using assms one by (cases p) (auto simp: attached_def storing_ok_def unstored_def)
qed

theorem queue_full:
  fixes s :: "'a queue_sys"
  assumes core: "queue_core N ha hf as fs s" and tight: "side_tight free_ring free_log free_pc N hf fs s"
    and t: "t < threads s" "queue_pcs s t = QFree x sz p"
    and step: "ring_step p (free_ring s) = (p', r')" "gives_up p p'"
  shows "bq_cap (the_queue s)
    \<le> length (ring_indices (alloc_ring s)) + card {u. u < threads s \<and> u \<noteq> t \<and> \<not> queue_at_rest (queue_pcs s u)}"
proof -
  let ?f = "\<lambda>u. of_bool (attached (free_pc (queue_pcs s u))) + size (held (queue_pcs s u))"
  let ?g = "\<lambda>u. of_bool (u \<noteq> t \<and> \<not> queue_at_rest (queue_pcs s u)) :: nat"
  have "length (ring_indices (free_ring s)) \<le> tally (threads s) attached (\<lambda>u. free_pc (queue_pcs s u))"
    using step t(2) by (intro tight_none_count [OF tight [unfolded side_tight_def], of t p' r']) simp_all
  moreover have "tally (threads s) attached (\<lambda>u. free_pc (queue_pcs s u)) + size (total held s) = (\<Sum>u<threads s. ?f u)"
    by (simp add: tally_def size_total sum.distrib)
  moreover have "(\<Sum>u<threads s. ?f u) \<le> (\<Sum>u<threads s. ?g u)"
  proof (rule sum_mono)
    fix u
    have ok: "queue_pc_ok (enq_n (free_ring s)) (length (is_finalized (free_ring s)) = 1) (queue_pcs s u)"
      using core unfolding queue_core_def pc_in_def by blast
    have "attached p = False" using step by (cases rule: gives_up_cases) (simp_all add: attached_def)
    then show "?f u \<le> ?g u"
      using attached_held [OF ok] t(2) by (cases "u = t") simp_all
  qed
  moreover have "(\<Sum>u<threads s. ?g u) = card {u. u < threads s \<and> u \<noteq> t \<and> \<not> queue_at_rest (queue_pcs s u)}"
    by (simp add: sum_of_bool_eq Int_def lessThan_def)
  ultimately show ?thesis using places_size [OF core] by linarith
qed

section \<open>The properties\<close>

text \<open>
  C5. The answer \<open>None\<close> of a bounded queue is truthful when no more threads use it than it has places. Start with an
  empty queue of the public \<open>enqueue\<close> and \<open>dequeue\<close>, let at most that many threads call and interleave as they like, and look
  at the access at which a \<open>dequeue\<close> decides to answer \<open>None\<close>: every value whose \<open>enqueue\<close> has returned was
  taken by some \<open>dequeue\<close>, or the thread that holds its ticket is about to take it. With more threads this fails: \<open>BoundedWedge\<close>.
\<close>

theorem bounded_none_truthful:
  assumes "bq_rep c q []" "\<not> bq_closed q" "m \<le> bq_cap q"
    and "queue_sys_run ls (queue_start False m q) = Some s" "c + length ls < 2 ^ 62"
    and "queue_pcs s t = QTake p" "ring_step p (alloc_queue (the_queue s)) = (p', r')" "gives_up p p'"
    and "Stored i tk v \<in> set (value_log s)" "enqueue_over s tk"
  shows "(\<exists>u. Removed u tk v \<in> set (value_log s)) \<or> (\<exists>u. holding (queue_pcs s u) = Some tk)"
proof -
  let ?ha = "unat (head (alloc_queue q))" and ?s = "queue_start False m q"
  obtain as fs where inv: "bq_inv c q as fs []" using assms(1) by (auto simp: bq_rep_def)
  then have nil: "as = []" and half: "ring_half (alloc_queue q) = bq_cap q" and rep: "ring_rep c (alloc_queue q) []"
    using bq_inv_length [OF inv] by (auto simp: bq_inv_def)
  have ok: "queue_ok c ?ha (unat (head (free_queue q))) [] fs [] ?s"
    using queue_start_ok [OF inv] nil by simp
  have "ready m (alloc_queue q) []" using assms(2,3) half by (simp add: ready_def bq_closed_def)
  from ring_tight_start [OF rep this] have "side_tight alloc_ring alloc_log alloc_pc c ?ha [] ?s"
    by (simp add: side_tight_def queue_start_def)
  moreover have "unsealed ?s" by (simp add: unsealed_def queue_start_def)
  ultimately have tight: "side_tight alloc_ring alloc_log alloc_pc (c + length ls) ?ha [] s"
    using alloc_side.tight_run [OF assms(4) ok _ _ assms(5)] by blast
  have pc: "alloc_pc (queue_pcs s t) = p" using assms(6) by simp
  show ?thesis
    using queue_none [OF queue_run_ok [OF assms(4) ok assms(5)] tight, of t p' r' i tk v] assms(7-10) unfolding pc by blast
qed

definition empty_queue_schedule :: "nat queue_label list" where
  "empty_queue_schedule = CallEnqueue 0 7 # replicate 14 (QStep 0) @ CallDequeue 1 # replicate 14 (QStep 1)
     @ CallDequeue 1 # replicate 14 (QStep 1)"

lemma empty_queue_run:
  "map_option (\<lambda>s. (value_log s, threads s, queue_pcs s 0, queue_pcs s 1,
       fst (ring_step (DeTail 1) (alloc_queue (the_queue s)))))
     (queue_sys_run empty_queue_schedule (queue_start False 2 stall_queue))
   = Some ([Stored 0 0 7, Removed 1 0 7], 2, QEnqDone (Inr ()), QTake (DeTail 1), CaSwap 1 2)"
  by code_simp

lemma stall_queue_open: "\<not> bq_closed stall_queue \<and> 2 \<le> bq_cap stall_queue"
  by code_simp

theorem bounded_none_truthful_witness:
  "\<exists>s. queue_sys_run empty_queue_schedule (queue_start False 2 stall_queue) = Some s
     \<and> queue_pcs s 1 = QTake (DeTail 1) \<and> Stored 0 0 7 \<in> set (value_log s)
     \<and> ((\<exists>u. Removed u 0 7 \<in> set (value_log s)) \<or> (\<exists>u. holding (queue_pcs s u) = Some 0))"
proof -
  obtain s where s: "queue_sys_run empty_queue_schedule (queue_start False 2 stall_queue) = Some s"
      "value_log s = [Stored 0 0 7, Removed 1 0 7]" "threads s = 2" "queue_pcs s 0 = QEnqDone (Inr ())"
      "queue_pcs s 1 = QTake (DeTail 1)" "fst (ring_step (DeTail 1) (alloc_queue (the_queue s))) = CaSwap 1 2"
    using empty_queue_run by auto
  obtain r' where step: "ring_step (DeTail 1) (alloc_queue (the_queue s)) = (CaSwap 1 2, r')"
    using s(6) by (metis prod.collapse)
  have up: "gives_up (DeTail 1) (CaSwap 1 2)" by (simp add: gives_up_def)
  have ret: "enqueue_over s 0" using s(3-5) by (auto simp: enqueue_over_def less_2_cases_iff)
  have put: "Stored 0 0 7 \<in> set (value_log s)" by (simp add: s(2))
  have "2 + length empty_queue_schedule < 2 ^ 62" by (simp add: empty_queue_schedule_def)
  from bounded_none_truthful [OF stall_start conjunct1 [OF stall_queue_open] conjunct2 [OF stall_queue_open]
      s(1) this s(5) step up put ret] s(1,5) put
  show ?thesis by blast
qed

text \<open>
  C14. The answer \<open>QueueFull\<close> of a bounded queue is truthful when no more threads use it than it has places: start
  with an empty queue whose free ring is as new, and look at the access at which an \<open>enqueue\<close> finds that there is no free
  index. The values in the allocation ring and the other operations that are running then are at least as
  many as the places of the queue. (The other way to \<open>QueueFull\<close> is the counter: \<open>bounded_concurrent_count\<close>.)
\<close>

theorem bounded_full_truthful:
  assumes "bq_rep c q []" "m \<le> bq_cap q" "int (bq_cap q) \<le> sint (threshold (free_queue q))"
    and "queue_sys_run ls (queue_start False m q) = Some s" "c + length ls < 2 ^ 62"
    and "t < m" "queue_pcs s t = QFree x sz p" "ring_step p (free_queue (the_queue s)) = (p', r')" "gives_up p p'"
  shows "bq_cap (the_queue s) \<le> length (ring_indices (alloc_queue (the_queue s)))
    + card {u. u < m \<and> u \<noteq> t \<and> \<not> queue_at_rest (queue_pcs s u)}"
proof -
  let ?ha = "unat (head (alloc_queue q))" and ?hf = "unat (head (free_queue q))" and ?s = "queue_start False m q"
  obtain as fs where inv: "bq_inv c q as fs []" using assms(1) by (auto simp: bq_rep_def)
  then have len: "length fs = bq_cap q" and rep: "ring_rep c (free_queue q) fs" and unfin: "\<not> is_final (free_queue q)"
    using bq_inv_length [OF inv] by (auto simp: bq_inv_def)
  have ok: "queue_ok c ?ha ?hf as fs [] ?s" by (rule queue_start_ok [OF inv])
  have "ready m (free_queue q) fs" using assms(2,3) len unfin by (simp add: ready_def bq_cap_def)
  from ring_tight_start [OF rep this] have "side_tight free_ring free_log free_pc c ?hf fs ?s"
    by (simp add: side_tight_def queue_start_def)
  moreover have "unsealed ?s" by (simp add: unsealed_def queue_start_def)
  ultimately have tight: "side_tight free_ring free_log free_pc (c + length ls) ?hf fs s"
    using free_side.tight_run [OF assms(4) ok _ _ assms(5)] by blast
  have m: "threads s = m" using queue_count_state [OF assms(1,4,5)] by simp
  show ?thesis
    using queue_full [OF ok_parts(1) [OF queue_run_ok [OF assms(4) ok assms(5)]] tight _ assms(7-9)] assms(6) unfolding m .
qed

definition full_schedule :: "nat queue_label list" where
  "full_schedule = CallEnqueue 0 7 # replicate 14 (QStep 0) @ CallEnqueue 0 8 # replicate 14 (QStep 0)
     @ CallDequeue 1 # replicate 6 (QStep 1) @ CallEnqueue 0 9 # replicate 15 (QStep 0)"

lemma full_run:
  "map_option (\<lambda>s. (queue_pcs s 0, queue_pcs s 1, bq_cap (the_queue s), fst (ring_step (DeTail 2) (free_queue (the_queue s)))))
     (queue_sys_run full_schedule (queue_start False 2 stall_queue))
   = Some (QFree 9 1 (DeTail 2), QGive 7 0 (EnTicket 3), 2, CaSwap 2 3)"
  by code_simp

lemma stall_threshold: "threshold (free_queue stall_queue) = 5 \<and> bq_cap stall_queue = 2"
  by code_simp

text \<open>
  The queue of two places holds one value; the index of the other is on its way back to the free ring.
\<close>

theorem bounded_full_truthful_witness:
  "\<exists>s. queue_sys_run full_schedule (queue_start False 2 stall_queue) = Some s
     \<and> queue_pcs s 0 = QFree 9 1 (DeTail 2) \<and> queue_pcs s 1 = QGive 7 0 (EnTicket 3)
     \<and> 2 \<le> length (ring_indices (alloc_queue (the_queue s))) + card {u. u < 2 \<and> u \<noteq> 0 \<and> \<not> queue_at_rest (queue_pcs s u)}"
proof -
  obtain s where s: "queue_sys_run full_schedule (queue_start False 2 stall_queue) = Some s"
      "queue_pcs s 0 = QFree 9 1 (DeTail 2)" "queue_pcs s 1 = QGive 7 0 (EnTicket 3)" "bq_cap (the_queue s) = 2"
      "fst (ring_step (DeTail 2) (free_queue (the_queue s))) = CaSwap 2 3"
    using full_run by auto
  obtain r' where step: "ring_step (DeTail 2) (free_queue (the_queue s)) = (CaSwap 2 3, r')"
    using s(5) by (metis prod.collapse)
  have up: "gives_up (DeTail 2) (CaSwap 2 3)" by (simp add: gives_up_def)
  have "int (bq_cap stall_queue) \<le> sint (threshold (free_queue stall_queue))" "2 \<le> bq_cap stall_queue"
    by (simp_all add: stall_threshold)
  moreover have "2 + length full_schedule < 2 ^ 62" by (simp add: full_schedule_def)
  ultimately show ?thesis
    using bounded_full_truthful [OF stall_start _ _ s(1) _ _ s(2) step up] s(1-4) by auto
qed

end
