(* ===== verification/RoundedSizes.thy ===== *)
theory RoundedSizes
  imports BoundedFifo
begin

text \<open>
  Even sizes that are not powers of two, which the constructors of \<open>src/scq.rs\<close> accept. The heap queue
  rounds them down. \<open>const_queue!\<close> rounds its capacity down too, but lays its free ring out for
  another length: the lemmas follow the two loops of \<open>initialize_atomic_array_full\<close> and the first
  \<open>dequeue\<close> of that ring.
\<close>

unbundle bit_operations_syntax

section \<open>The layout\<close>

text \<open>The last number below \<open>hi\<close>, from \<open>lo\<close> on, that a loop stores at \<open>j\<close>.\<close>

definition last_store :: "(nat \<Rightarrow> nat) \<Rightarrow> nat \<Rightarrow> nat \<Rightarrow> nat \<Rightarrow> nat \<Rightarrow> bool" where
  "last_store f lo hi j i \<longleftrightarrow> lo \<le> i \<and> i < hi \<and> f i = j \<and> (\<forall>i'. i < i' \<and> i' < hi \<longrightarrow> f i' \<noteq> j)"

definition untouched :: "(nat \<Rightarrow> nat) \<Rightarrow> nat \<Rightarrow> nat \<Rightarrow> nat \<Rightarrow> bool" where
  "untouched f lo hi j \<longleftrightarrow> (\<forall>i. lo \<le> i \<and> i < hi \<longrightarrow> f i \<noteq> j)"

lemma last_store_Suc: "last_store f (Suc lo) hi j i \<Longrightarrow> last_store f lo hi j i"
  by (simp add: last_store_def)

lemma unat_and_minus_one:
  "n \<noteq> 0 \<Longrightarrow> unat (lfring_map i n) = (unat i AND (unat n - 1))"
  by (simp add: lfring_map_def unsigned_and_eq unat_minus_one)

lemma and_minus_one_less: "0 < n \<Longrightarrow> ((i :: nat) AND (n - 1)) < n"
proof -
  assume n: "0 < n"
  have "int (i AND (n - 1)) \<le> int (n - 1)"
    unfolding of_nat_and_eq by (rule AND_upper2) simp
  with n show ?thesis by linarith
qed

lemma init_filled_stores:
  assumes "unat i \<le> unat half" "length buf = unat n" "n \<noteq> 0" "half \<noteq> 0"
  shows "\<exists>buf'. init_filled buf half n i = Ret buf' \<and> length buf' = unat n
    \<and> (\<forall>j<unat n. (untouched (\<lambda>i. i AND (unat n - 1)) (unat i) (unat half) j \<and> buf' ! j = buf ! j)
        \<or> (\<exists>i'. last_store (\<lambda>i. i AND (unat n - 1)) (unat i) (unat half) j i'
              \<and> buf' ! j = n + of_nat (i' AND (unat half - 1))))"
  using assms
proof (induction "unat half - unat i" arbitrary: i buf)
  case 0
  then have "i = half" by (simp add: word_unat_eq_iff)
  then show ?case using 0 by (subst init_filled.simps) (auto simp: untouched_def)
next
  case (Suc d)
  let ?f = "\<lambda>i. i AND (unat n - 1)" and ?v = "n + lfring_map i half"
  have i: "unat i < unat half" using Suc by simp
  then have ne: "i \<noteq> half" and i1: "unat (i + 1) = Suc (unat i)"
    using unsigned_less [of half, where ?'a = nat] by (auto simp: unat_word_ariths)
  have d: "d = unat half - unat (i + 1)" using Suc.hyps(2) i1 by simp
  have at: "unat (lfring_map i n) = ?f (unat i)" "?f (unat i) < unat n"
    using Suc.prems(3) and_minus_one_less [of "unat n" "unat i"] unat_gt_0 [of n] by (auto simp: unat_and_minus_one)
  have v: "?v = n + of_nat (unat i AND (unat half - 1))"
    unfolding unat_and_minus_one [OF Suc.prems(4), of i, symmetric] by simp
  obtain buf' where buf': "init_filled (buf[?f (unat i) := ?v]) half n (i + 1) = Ret buf'" "length buf' = unat n"
    and each: "\<And>j. j < unat n \<Longrightarrow> (untouched ?f (Suc (unat i)) (unat half) j \<and> buf' ! j = buf[?f (unat i) := ?v] ! j)
        \<or> (\<exists>i'. last_store ?f (Suc (unat i)) (unat half) j i' \<and> buf' ! j = n + of_nat (i' AND (unat half - 1)))"
    using Suc.hyps(1) [OF d, of "buf[?f (unat i) := ?v]"] Suc.prems i i1 by auto
  have run: "init_filled buf half n i = Ret buf'"
    using ne at Suc.prems(2) buf'(1) by (subst init_filled.simps) (simp add: store_slice_def)
  have "(untouched ?f (unat i) (unat half) j \<and> buf' ! j = buf ! j)
      \<or> (\<exists>i'. last_store ?f (unat i) (unat half) j i' \<and> buf' ! j = n + of_nat (i' AND (unat half - 1)))"
    if j: "j < unat n" for j
    using each [OF j]
  proof (elim disjE conjE exE)
    assume u: "untouched ?f (Suc (unat i)) (unat half) j" and b: "buf' ! j = buf[?f (unat i) := ?v] ! j"
    show ?thesis
    proof (cases "?f (unat i) = j")
      case True
      have "last_store ?f (unat i) (unat half) j (unat i)"
        using u True i by (auto simp: last_store_def untouched_def Suc_le_eq)
      then show ?thesis using b True j Suc.prems(2) v by auto
    next
      case False
      then have "untouched ?f (unat i) (unat half) j"
        using u unfolding untouched_def by (metis Suc_leI le_neq_implies_less)
      then show ?thesis using b False by simp
    qed
  qed (blast intro: last_store_Suc)
  with run buf'(2) show ?case by blast
qed

lemma init_rest_stores:
  assumes "unat i \<le> unat n" "length buf = unat n" "n \<noteq> 0"
  shows "\<exists>buf'. init_rest buf n i = Ret buf' \<and> length buf' = unat n
    \<and> (\<forall>j<unat n. buf' ! j = - 1
        \<or> (untouched (\<lambda>i. i AND (unat n - 1)) (unat i) (unat n) j \<and> buf' ! j = buf ! j))"
  using assms
proof (induction "unat n - unat i" arbitrary: i buf)
  case 0
  then have "i = n" by (simp add: word_unat_eq_iff)
  then show ?case using 0 by (subst init_rest.simps) (auto simp: untouched_def)
next
  case (Suc d)
  let ?f = "\<lambda>i. i AND (unat n - 1)"
  have i: "unat i < unat n" using Suc by simp
  then have ne: "i \<noteq> n" and i1: "unat (i + 1) = Suc (unat i)"
    using unsigned_less [of n, where ?'a = nat] by (auto simp: unat_word_ariths)
  have d: "d = unat n - unat (i + 1)" using Suc.hyps(2) i1 by simp
  have at: "unat (lfring_map i n) = ?f (unat i)" "?f (unat i) < unat n"
    using Suc.prems(3) and_minus_one_less [of "unat n" "unat i"] unat_gt_0 [of n] by (auto simp: unat_and_minus_one)
  obtain buf' where buf': "init_rest (buf[?f (unat i) := - 1]) n (i + 1) = Ret buf'" "length buf' = unat n"
    and each: "\<And>j. j < unat n \<Longrightarrow> buf' ! j = - 1
        \<or> (untouched ?f (Suc (unat i)) (unat n) j \<and> buf' ! j = buf[?f (unat i) := - 1] ! j)"
    using Suc.hyps(1) [OF d, of "buf[?f (unat i) := - 1]"] Suc.prems i i1 by auto
  have run: "init_rest buf n i = Ret buf'"
    using ne at Suc.prems(2) buf'(1) by (subst init_rest.simps) (simp add: store_slice_def)
  have "buf' ! j = - 1 \<or> (untouched ?f (unat i) (unat n) j \<and> buf' ! j = buf ! j)" if j: "j < unat n" for j
  proof (cases "?f (unat i) = j")
    case True
    then show ?thesis using each [OF j] j Suc.prems(2) by auto
  next
    case False
    then have "untouched ?f (unat i) (unat n) j" if "untouched ?f (Suc (unat i)) (unat n) j"
      using that unfolding untouched_def by (metis Suc_leI le_neq_implies_less)
    then show ?thesis using each [OF j] False by auto
  qed
  with run buf'(2) show ?case by blast
qed

text \<open>What is left after both loops: every entry is of the last number stored in its slot.\<close>

lemma initialize_stores:
  assumes "n \<noteq> 0" "half \<noteq> 0" "unat half < unat n"
  shows "\<exists>buf. initialize_atomic_array_full (replicate (unat n) (- 1)) half n = Ret buf \<and> length buf = unat n
    \<and> (\<forall>j<unat n. buf ! j = - 1
        \<or> (\<exists>i<unat half. last_store (\<lambda>i. i AND (unat n - 1)) 0 (unat n) j i
              \<and> buf ! j = n + of_nat (i AND (unat half - 1))))"
proof -
  let ?f = "\<lambda>i. i AND (unat n - 1)"
  obtain b1 where b1: "init_filled (replicate (unat n) (- 1)) half n 0 = Ret b1" "length b1 = unat n"
    and e1: "\<And>j. j < unat n \<Longrightarrow> b1 ! j = - 1
        \<or> (\<exists>i. last_store ?f 0 (unat half) j i \<and> b1 ! j = n + of_nat (i AND (unat half - 1)))"
    using init_filled_stores [of 0 half "replicate (unat n) (- 1)" n] assms by auto
  obtain b2 where b2: "init_rest b1 n half = Ret b2" "length b2 = unat n"
    and e2: "\<And>j. j < unat n \<Longrightarrow> b2 ! j = - 1 \<or> (untouched ?f (unat half) (unat n) j \<and> b2 ! j = b1 ! j)"
    using init_rest_stores [of half n b1] b1(2) assms by auto
  have "b2 ! j = - 1 \<or> (\<exists>i<unat half. last_store ?f 0 (unat n) j i \<and> b2 ! j = n + of_nat (i AND (unat half - 1)))"
    if j: "j < unat n" for j
  proof -
    have "last_store ?f 0 (unat n) j i" if "untouched ?f (unat half) (unat n) j" "last_store ?f 0 (unat half) j i" for i
      using that assms(3) unfolding untouched_def last_store_def by (metis less_trans not_le)
    moreover have "i < unat half" if "last_store ?f 0 (unat half) j i" for i
      using that by (simp add: last_store_def)
    ultimately show ?thesis using e1 [OF j] e2 [OF j] by metis
  qed
  with b1(1) b2 show ?thesis by (auto simp: initialize_atomic_array_full_def)
qed

section \<open>What a dequeuer finds\<close>

text \<open>
  The ring works with \<open>2 ^ k\<close> slots and half as many indices. On its first lap such an entry is of a later
  lap, or it is of this one and carries an index that is no index of the ring.
\<close>

definition misfit :: "nat \<Rightarrow> usize \<Rightarrow> bool" where
  "misfit k e \<longleftrightarrow> e = - 1 \<or> 2 ^ k + 2 ^ (k - 1) \<le> unat e \<and> unat e < 2 ^ 63"

lemma bit_top: "2 ^ m \<le> (v :: nat) \<Longrightarrow> v < 2 ^ Suc m \<Longrightarrow> bit v m"
proof -
  assume v: "2 ^ m \<le> v" "v < 2 ^ Suc m"
  then have "v div 2 ^ m = 1" by (intro div_nat_eqI) simp_all
  then show ?thesis by (simp add: bit_iff_odd)
qed

lemma bit_le: "bit (v :: nat) m \<Longrightarrow> 2 ^ m \<le> v"
  by (metis bit_iff_odd div_less even_zero not_le)

lemma and_add_bit:
  assumes "\<not> bit (i :: nat) m" "\<not> bit c m"
  shows "((i + 2 ^ m) AND c) = (i AND c)"
proof -
  have "i + 2 ^ m = (i OR 2 ^ m)"
    using assms(1) by (intro disjunctive_add) (auto simp: bit_exp_iff)
  then show ?thesis
    using assms(2) by (intro bit_eqI) (auto simp: bit_simps)
qed

text \<open>
  When the length is far from the next power of two, the last number stored in a slot has the bit that
  makes its index too great: without the bit there would be a later one.
\<close>

lemma stored_misfit:
  assumes n: "2 ^ m < n" "n < 2 ^ Suc m" and m: "m \<le> 60"
    and i: "last_store (\<lambda>i. i AND (2 * n - 1)) 0 (2 * n) j i" "i < n"
  shows "misfit (Suc m) (of_nat (2 * n + (i AND (n - 1))))"
proof -
  let ?v = "i AND (n - 1)"
  have v: "?v < n" using n(1) by (intro and_minus_one_less) simp
  have pow: "(2 :: nat) ^ Suc m \<le> 2 ^ 61" using m by (intro power_increasing) simp_all
  have "unat (of_nat (2 * n + ?v) :: usize) = 2 * n + ?v"
    using v n(2) pow by (intro unat_of_nat_small) simp
  moreover have "2 ^ Suc m + 2 ^ m \<le> 2 * n + ?v"
  proof (cases "3 * 2 ^ m \<le> 2 * n")
    case False
    have bn: "bit (n - 1) m" using n by (intro bit_top) simp_all
    have b2: "\<not> bit (2 * n - 1) m"
    proof -
      have "(2 * n - 1) div 2 ^ m = 2" using n False by (intro div_nat_eqI) simp_all
      then show ?thesis by (simp add: bit_iff_odd)
    qed
    have "bit i m"
    proof (rule ccontr)
      assume "\<not> bit i m"
      then have "((i + 2 ^ m) AND (2 * n - 1)) = j"
        using and_add_bit [OF _ b2] i(1) by (simp add: last_store_def)
      moreover have "i + 2 ^ m < 2 * n" using i(2) n(1) by simp
      ultimately show False using i(1) by (auto simp: last_store_def)
    qed
    with bn have "2 ^ m \<le> ?v" by (intro bit_le) (simp add: bit_and_iff)
    with n show ?thesis by simp
  qed simp
  ultimately show ?thesis
    using v n(2) pow by (simp add: misfit_def)
qed

lemma scan_of_later_lap:
  assumes "array r ! unat hidx = e" "unat hidx < length (array r)"
    and "modup e n \<noteq> hcycle" "\<not> is_lt (lfring_signed_cmp (modup e n) hcycle)"
  shows "dequeue_scan hcycle hidx n a r = ret (Skipped, r)"
proof (induction "unat (10 - a)" arbitrary: a rule: less_induct)
  case less
  show ?case
  proof (cases "(e OR n) = modup e n \<and> sint (a + 1) \<le> 10")
    case True
    then have eq: "dequeue_scan hcycle hidx n a r = dequeue_scan hcycle hidx n (a + 1) r"
      using assms by (subst dequeue_scan.simps) (simp add: Let_def)
    have "a \<noteq> 10" using True by auto
    then have nz: "10 - a \<noteq> 0" by simp
    then have "unat (10 - a - 1) = unat (10 - a) - 1" by (rule unat_minus_one)
    moreover have "0 < unat (10 - a)" using nz unat_gt_0 [of "10 - a"] by blast
    moreover have "10 - (a + 1) = 10 - a - 1" by simp
    ultimately have "unat (10 - (a + 1)) < unat (10 - a)" by presburger
    from less [OF this] show ?thesis using eq by simp
  next
    case False
    then show ?thesis using assms by (subst dequeue_scan.simps) (auto simp: Let_def)
  qed
qed

text \<open>One slot of the first lap.\<close>

lemma unat_cycle_lap0: "h < 2 ^ k \<Longrightarrow> k \<le> 61 \<Longrightarrow> unat (cycle_of k h) = 2 ^ Suc k - 1"
  using unat_cycle_of62 [of h k] power_le_62 [of k] by simp

lemma scan_misfit:
  assumes e: "misfit k (array r ! unat hidx)" and hidx: "unat hidx < length (array r)" and h: "h < 2 ^ k"
    and k: "0 < k" "k \<le> 61"
  shows "(\<exists>r'. dequeue_scan (cycle_of k h) hidx (2 ^ k) a r = ret (Skipped, r')
       \<and> head r' = head r \<and> tail r' = tail r \<and> order r' = order r \<and> length (array r') = length (array r)
       \<and> (\<forall>j. j \<noteq> unat hidx \<longrightarrow> array r' ! j = array r ! j))
   \<or> (\<exists>x r'. dequeue_scan (cycle_of k h) hidx (2 ^ k) a r = ret (Taken x, r') \<and> order r' = order r
       \<and> 2 ^ (k - 1) \<le> unat x \<and> unat x < 2 ^ k)"
proof -
  let ?e = "array r ! unat hidx"
  have hc: "unat (cycle_of k h) = 2 ^ Suc k - 1" using h k(2) by (rule unat_cycle_lap0)
  have pow: "(2 :: nat) ^ Suc k < 2 ^ 63" using k(2) by (intro power_strict_increasing) simp_all
  have h62: "h < 2 ^ 62" using h power_le_62 [OF k(2)] by simp
  consider "?e = - 1" | "2 ^ k + 2 ^ (k - 1) \<le> unat ?e" "unat ?e < 2 ^ Suc k" | "2 ^ Suc k \<le> unat ?e" "unat ?e < 2 ^ 63"
    using e by (fastforce simp: misfit_def)
  then show ?thesis
  proof cases
    case 1
    have "free_slot k 0 (h mod 2 ^ k) (- 1)" by (simp add: free_slot_def)
    from free_slot_lt [OF this _ h62] free_slot_or_n [OF this] k
    obtain w where "dequeue_scan (cycle_of k h) hidx (2 ^ k) a r
        = ret (Skipped, r\<lparr>array := (array r)[unat hidx := cycle_of k h], spurious := w\<rparr>)"
      using dequeue_scan_free [OF 1 hidx, of "2 ^ k" "cycle_of k h" a] modup_minus_one [of k] by auto
    then show ?thesis by auto
  next
    case 2
    have "unat (modup ?e (2 ^ k)) = (unat ?e div 2 ^ Suc k) * 2 ^ Suc k + (2 ^ Suc k - 1)"
      unfolding modup_pow2 unsigned_or_eq using k(2) by (simp add: unat_mask or_mask_eq_nat)
    then have same: "modup ?e (2 ^ k) = cycle_of k h" using 2(2) hc by (simp add: word_unat_eq_iff)
    have "unat (?e AND (2 ^ k - 1)) = unat ?e mod 2 ^ k"
      by (simp add: two_power_minus_one unsigned_and_eq unsigned_take_bit_eq flip: take_bit_eq_mask take_bit_eq_mod)
    also have "\<dots> = unat ?e - 2 ^ k"
      using 2 by (simp add: le_mod_geq)
    finally have "2 ^ (k - 1) \<le> unat (?e AND (2 ^ k - 1)) \<and> unat (?e AND (2 ^ k - 1)) < 2 ^ k"
      using 2 unfolding power_Suc by linarith
    then show ?thesis using hidx same by (subst (1 2) dequeue_scan.simps) (simp add: Let_def)
  next
    case 3
    have u: "unat (modup ?e (2 ^ k)) = (unat ?e div 2 ^ Suc k) * 2 ^ Suc k + (2 ^ Suc k - 1)"
      unfolding modup_pow2 unsigned_or_eq using k(2) by (simp add: unat_mask or_mask_eq_nat)
    have "1 \<le> unat ?e div 2 ^ Suc k" using 3(1) by (simp add: div_greater_zero_iff Suc_le_eq)
    then have gt: "unat (cycle_of k h) < unat (modup ?e (2 ^ k))"
      unfolding hc u less_add_same_cancel2 nat_0_less_mult_iff by simp
    have whole: "(2 :: nat) ^ 63 = 2 ^ (62 - k) * 2 ^ Suc k" using k(2) by (simp flip: power_add power_Suc)
    then have "unat ?e div 2 ^ Suc k < 2 ^ (62 - k)" using 3(2) by (intro less_mult_imp_div_less) (simp only: whole)
    then have "(unat ?e div 2 ^ Suc k + 1) * 2 ^ Suc k \<le> 2 ^ 63"
      unfolding whole by (intro mult_right_mono) simp_all
    then have "unat (modup ?e (2 ^ k)) < 2 ^ 63"
      unfolding u by (simp add: algebra_simps)
    with gt have "\<not> is_lt (lfring_signed_cmp (modup ?e (2 ^ k)) (cycle_of k h))"
      using hc pow by (subst is_lt_signed_cmp) simp_all
    moreover have "modup ?e (2 ^ k) \<noteq> cycle_of k h" using gt by auto
    ultimately show ?thesis using scan_of_later_lap [OF refl hidx] by auto
  qed
qed

section \<open>The first dequeue\<close>

lemma dequeue_misfits:
  assumes "unat (head r) = h" "h < t" "t \<le> 2 ^ k" "unat (tail r) = t" "0 < k" "k \<le> 61" "2 ^ k \<le> length (array r)"
    and "\<And>j. h \<le> j \<Longrightarrow> j < t \<Longrightarrow> misfit k (array r ! j)"
  shows "\<exists>res r'. dequeue_loop (2 ^ k) r = ret (res, r') \<and> order r' = order r
    \<and> (\<forall>x. res = Some x \<longrightarrow> 2 ^ (k - 1) \<le> unat x \<and> unat x < 2 ^ k)"
  using assms
proof (induction "t - h" arbitrary: h r)
  case (Suc d)
  let ?i = "lfring_map (head r) (2 ^ k)" and ?r = "r\<lparr>head := head r + 1\<rparr>"
  have t: "t < 2 ^ 62" using Suc.prems(3) power_le_62 [OF Suc.prems(6)] by simp
  have i: "unat ?i = h" "unat ?i < length (array ?r)"
    using Suc.prems(1-3,7) by (simp_all add: unat_lfring_map)
  have h1: "unat (head r + 1) = Suc h" using Suc.prems(1,2) t by (subst unat_plus_one) simp_all
  have loop: "dequeue_loop (2 ^ k) r =
      bind_run (dequeue_scan (cycle_of k h) ?i (2 ^ k) 0 ?r) (\<lambda>p.
           case p of
             (exit, r2) \<Rightarrow>
               (case exit of
                  Taken idx \<Rightarrow> ret (Some idx, r2)
                | Skipped \<Rightarrow>
                    (let tk = tail r2
                     in if is_le (lfring_signed_cmp tk (head r + 1))
                        then bind_run (catchup tk (head r + 1) r2) (\<lambda>r3.
                               ret (None, r3\<lparr>threshold := threshold r3 - 1\<rparr>))
                        else
                          (let old = threshold r2;
                               r3 = r2\<lparr>threshold := old - 1\<rparr>
                           in if sint old \<le> 0 then ret (None, r3) else dequeue_loop (2 ^ k) r3))))"
    by (subst dequeue_loop.simps) (simp only: Let_def ticket_cycle(1) Suc.prems(1))
  have "misfit k (array ?r ! unat ?i)" using Suc.prems(2) Suc.prems(8) [of h] i by simp
  from scan_misfit [OF this i(2) _ Suc.prems(5,6), of h 0] Suc.prems(2,3)
  consider r' where "dequeue_scan (cycle_of k h) ?i (2 ^ k) 0 ?r = ret (Skipped, r')"
      "head r' = head r + 1" "tail r' = tail r" "order r' = order r" "length (array r') = length (array r)"
      "\<forall>j. j \<noteq> h \<longrightarrow> array r' ! j = array r ! j"
    | x r' where "dequeue_scan (cycle_of k h) ?i (2 ^ k) 0 ?r = ret (Taken x, r')" "order r' = order r"
      "2 ^ (k - 1) \<le> unat x" "unat x < 2 ^ k"
    using i by auto
  then show ?case
  proof cases
    case 1
    have le: "is_le (lfring_signed_cmp (tail r) (head r + 1)) \<longleftrightarrow> t \<le> Suc h"
      using Suc.prems(2,4) h1 t by (subst is_le_signed_cmp) simp_all
    show ?thesis
    proof (cases "t \<le> Suc h")
      case True
      then have "tail r = head r + 1" using Suc.prems(2,4) h1 by (simp add: word_unat_eq_iff)
      then show ?thesis
        unfolding loop 1(1) using 1(2-4) catchup_level [of r' "head r + 1"] le True by (auto simp: Let_def)
    next
      case False
      have "\<exists>res r2. dequeue_loop (2 ^ k) (r'\<lparr>threshold := threshold r' - 1\<rparr>) = ret (res, r2)
          \<and> order r2 = order (r'\<lparr>threshold := threshold r' - 1\<rparr>)
          \<and> (\<forall>x. res = Some x \<longrightarrow> 2 ^ (k - 1) \<le> unat x \<and> unat x < 2 ^ k)"
        using Suc.hyps(2) Suc.prems h1 1 False by (intro Suc.hyps(1) [of "Suc h"]) auto
      then show ?thesis
        unfolding loop 1(1) using 1(2-4) le False by (auto simp: Let_def)
    qed
  next
    case 2
    then show ?thesis unfolding loop by simp
  qed
qed simp

section \<open>The queues\<close>

lemma ilog2_between: "2 ^ m \<le> x \<Longrightarrow> x < 2 ^ Suc m \<Longrightarrow> ilog2 x = m"
proof (induction m arbitrary: x)
  case (Suc m)
  then have "2 ^ m \<le> x div 2" "x div 2 < 2 ^ Suc m" by simp_all
  then have "ilog2 (x div 2) = m" by (rule Suc.IH)
  moreover have "\<not> x < 2" using Suc.prems(1) order_trans [of 2 "2 ^ Suc m" x] by simp
  ultimately show ?case by (subst ilog2.simps) simp
qed (subst ilog2.simps, simp)

text \<open>The word of such a size, and of its double.\<close>

lemma size_words:
  assumes n: "even n" "2 ^ m < n" "n < 2 ^ Suc m" and m: "m \<le> 60"
  shows "unat (of_nat n :: usize) = n" "unat (of_nat n * 2 :: usize) = 2 * n"
    and "(of_nat n :: usize) mod 2 = 0" "(of_nat n * 2 :: usize) mod 2 = 0"
    and "(of_nat n :: usize) \<noteq> 0" "(of_nat n * 2 :: usize) \<noteq> 0"
    and "determine_order (of_nat n) = Ret (of_nat m)" "determine_order_const (of_nat n * 2) = Ret (of_nat m)"
    and "drop_bit 1 (of_nat n * 2 :: usize) = of_nat n"
proof -
  have pow: "(2 :: nat) ^ Suc m \<le> 2 ^ 61" using m by (intro power_increasing) simp_all
  show u: "unat (of_nat n :: usize) = n" using n(3) pow by (intro unat_of_nat_small) simp
  then show u2: "unat (of_nat n * 2 :: usize) = 2 * n"
    using n(3) pow by (simp add: unat_word_ariths)
  have even: "(w :: usize) mod 2 = 0" if "even (unat w)" for w
    using that by (simp add: word_unat_eq_iff unat_mod)
  show e: "(of_nat n :: usize) mod 2 = 0" "(of_nat n * 2 :: usize) mod 2 = 0"
    using n(1) by (intro even; simp add: u u2 del: unat_of_nat)+
  show nz: "(of_nat n :: usize) \<noteq> 0" "(of_nat n * 2 :: usize) \<noteq> 0"
    using n(2) u u2 by (metis unat_0 gr_implies_not0, metis unat_0 gr_implies_not0 mult_is_0 zero_neq_numeral)
  show "determine_order (of_nat n) = Ret (of_nat m)"
    using e(1) nz(1) n u ilog2_between [of m n] by (simp add: determine_order_def checked_ilog2_def)
  have "ilog2 (2 * n) = Suc m" using n by (intro ilog2_between) simp_all
  then show "determine_order_const (of_nat n * 2) = Ret (of_nat m)"
    using e(2) nz(2) u2 by (simp add: determine_order_const_def checked_ilog2_def)
  have "unat (drop_bit 1 (of_nat n * 2 :: usize)) = n"
    by (simp only: unat_drop_bit_eq u2) (simp add: drop_bit_eq_div)
  then show "drop_bit 1 (of_nat n * 2 :: usize) = of_nat n"
    unfolding word_unat_eq_iff u .
qed

text \<open>The queue of the macro: the free ring holds misfits only.\<close>

lemma const_queue_rounded:
  assumes n: "even n" "2 ^ m < n" "n < 2 ^ Suc m" and m: "m \<le> 60"
  shows "\<exists>q. const_queue (of_nat n) w1 w2 = Ret q \<and> used q = 0 \<and> length (backing q) = 2 * n
    \<and> unat (order (free_queue q)) = m \<and> unat (order (alloc_queue q)) = m
    \<and> head (free_queue q) = 0 \<and> unat (tail (free_queue q)) = n \<and> 0 \<le> sint (threshold (free_queue q))
    \<and> length (array (free_queue q)) = 2 * n \<and> (\<forall>j<2 * n. misfit (Suc m) (array (free_queue q) ! j))"
proof -
  note w = size_words [OF assms]
  let ?N = "of_nat n * 2 :: usize"
  have pow: "(2 :: nat) ^ Suc m \<le> 2 ^ 61" using m by (intro power_increasing) simp_all
  have u: "unat (of_nat m :: usize) = m" using m by (intro unat_of_nat_small) simp
  obtain buf where buf: "initialize_atomic_array_full (replicate (unat ?N) (- 1)) (of_nat n) ?N = Ret buf"
      "length buf = 2 * n"
    and each: "\<And>j. j < 2 * n \<Longrightarrow> buf ! j = - 1
        \<or> (\<exists>i<n. last_store (\<lambda>i. i AND (2 * n - 1)) 0 (2 * n) j i \<and> buf ! j = ?N + of_nat (i AND (n - 1)))"
    using initialize_stores [OF w(6,5)] n(2) unfolding w(1,2) by auto
  have mis: "misfit (Suc m) (buf ! j)" if j: "j < 2 * n" for j
    using each [OF j] stored_misfit [OF n(2,3) m] by (auto simp: misfit_def [of _ "- 1"] mult.commute)
  have sum: "unat (of_nat n + ?N) = 3 * n"
    using n(3) pow unat_word_ariths(1) [of "of_nat n" ?N] by (simp add: w(1,2))
  then have "of_nat n + ?N \<noteq> 0" using n(2) by (metis unat_0 gr_implies_not0 mult_is_0 zero_neq_numeral)
  then have "unat (lfring_threshold3 (of_nat n) ?N) = 3 * n - 1"
    unfolding lfring_threshold3_def sum [symmetric] by (rule unat_minus_one)
  then have thr: "0 \<le> sint (lfring_threshold3 (of_nat n) ?N)"
    using n(3) pow by (intro sint_bounds) simp
  show ?thesis
    using w(3-6) buf mis thr u
    by (simp add: const_queue_def new_const_def new_const_ring_empty_def new_const_ring_full_def w(1,2,8)
        w(9) [unfolded One_nat_def]
        create_const_atomic_array_full_def create_const_atomic_array_empty_def new_from_sqalloc_def Let_def
        del: unat_of_nat)
qed


text \<open>No value gets into it: there is no index for it, or one the allocation ring does not accept.\<close>

lemma enqueue_no_index:
  assumes u: "used q = 0" and len: "2 ^ Suc m \<le> length (backing q)" and m: "m \<le> 60"
    and ord: "unat (order (free_queue q)) = m" "unat (order (alloc_queue q)) = m"
    and deq: "ring_dequeue (free_queue q) = ret (res, r)" "order r = order (free_queue q)"
      "\<forall>x. res = Some x \<longrightarrow> 2 ^ m \<le> unat x \<and> unat x < 2 ^ Suc m"
  shows "bq_enqueue q v = Some Panic \<or> (\<exists>q'. bq_enqueue q v = ret (Inl v, q'))"
proof -
  have cap: "ring_capacity a = 2 ^ m" "unat (2 ^ m :: usize) = 2 ^ m" if "unat (order a) = m" for a
    using that m by (simp_all add: ring_capacity_def unat_two_power)
  have start: "\<not> used q \<ge> ring_capacity (free_queue q)"
    using u cap [OF ord(1)] by (simp add: word_le_nat_alt)
  show ?thesis
  proof (cases res)
    case None
    then show ?thesis
      using start deq(1) by (simp add: bq_enqueue_def enqueue_cycle_def Let_def)
  next
    case (Some x)
    then have x: "2 ^ m \<le> unat x" "unat x < length (backing q)" using deq(3) len by auto
    have "ring_enqueue (alloc_queue q) x = ret (Inl IndexLargerThanOrder, alloc_queue q)"
      "ring_enqueue r x = ret (Inl IndexLargerThanOrder, r)"
      using x(1) cap [OF ord(2)] cap [of r] ord(1) deq(2) by (simp_all add: ring_enqueue_def word_le_nat_alt)
    then show ?thesis
      using start deq(1) Some x(2)
      by (simp add: bq_enqueue_def enqueue_cycle_def Let_def write_slot_def read_slot_def)
  qed
qed

section \<open>Sizes that are not powers of two\<close>

text \<open>
  C37. Every even size \<open>n\<close> between two powers of two \<open>2 ^ m\<close> and \<open>2 ^ (m + 1)\<close> is accepted and rounded down to the
  capacity \<open>2 ^ m\<close>. \<open>AllocBoundedQueue::new(n)\<close> is then a queue of that capacity: every sequence of calls
  has the results of a list bounded by \<open>2 ^ m\<close>. The queue of \<open>const_queue!(_; n)\<close> is broken: whatever the
  value and the spurious failures, its first \<open>enqueue\<close> refuses the value or panics.
\<close>

theorem sizes_between_powers:
  assumes "even n" "2 ^ m < n" "n < 2 ^ Suc m" "m \<le> 60"
  shows "(\<exists>q :: 'a bounded_queue. const_queue (of_nat n) w1 w2 = Ret q \<and> bq_capacity q = 2 ^ m
      \<and> (\<forall>v. bq_enqueue q v = Some Panic \<or> (\<exists>q'. bq_enqueue q v = ret (Inl v, q'))))
    \<and> (\<exists>q :: 'a bounded_queue. new_alloc 0 (of_nat n) w1 w2 = Ret q \<and> bq_capacity q = 2 ^ m
      \<and> (\<forall>is. 2 ^ m + length is < 2 ^ 62 \<longrightarrow>
          (\<exists>q'. fifo_script bq_enqueue bq_dequeue is q = ret (fst (list_fifo (2 ^ m) is []), q'))))"
proof (intro conjI)
  obtain q :: "'a bounded_queue" where q: "const_queue (of_nat n) w1 w2 = Ret q" "used q = 0" "length (backing q) = 2 * n"
      "unat (order (free_queue q)) = m" "unat (order (alloc_queue q)) = m"
      "head (free_queue q) = 0" "unat (tail (free_queue q)) = n" "0 \<le> sint (threshold (free_queue q))"
      "length (array (free_queue q)) = 2 * n" "\<forall>j<2 * n. misfit (Suc m) (array (free_queue q) ! j)"
    using const_queue_rounded [OF assms] by blast
  have "unat (order (free_queue q) + 1) = Suc m" using q(4) assms(4) by (subst unat_plus_one) simp_all
  then have n: "lfring_pow2 (order (free_queue q) + 1) = 2 ^ Suc m"
    using assms(4) by (simp add: lfring_pow2_eq del: power_Suc)
  obtain res r where "dequeue_loop (2 ^ Suc m) (free_queue q) = ret (res, r)" "order r = order (free_queue q)"
      "\<forall>x. res = Some x \<longrightarrow> 2 ^ m \<le> unat x \<and> unat x < 2 ^ Suc m"
    using dequeue_misfits [of "free_queue q" 0 n "Suc m"] q assms by auto
  then have "bq_enqueue q v = Some Panic \<or> (\<exists>q'. bq_enqueue q v = ret (Inl v, q'))" for v
    using q(2-5,8) assms(2,4) n
    by (intro enqueue_no_index [of q m res r v]) (simp_all add: ring_dequeue_def)
  moreover have "bq_capacity q = 2 ^ m"
    using q(4) assms(4) by (simp add: bq_capacity_def ring_capacity_def)
  ultimately show "\<exists>q :: 'a bounded_queue. const_queue (of_nat n) w1 w2 = Ret q \<and> bq_capacity q = 2 ^ m
      \<and> (\<forall>v. bq_enqueue q v = Some Panic \<or> (\<exists>q'. bq_enqueue q v = ret (Inl v, q')))"
    using q(1) by blast
next
  have "2 ^ m \<le> unat (2 * of_nat n :: usize)"
    using size_words(2) [OF assms] assms(2) by (simp add: mult.commute)
  then obtain q :: "'a bounded_queue" where q: "new_alloc 0 (of_nat n) w1 w2 = Ret q" "bq_open_rep (2 ^ m) q []" "bq_cap q = 2 ^ m"
    using new_alloc_order_rep [OF assms(4) _ size_words(7) [OF assms], of 0 w1 w2] by (auto simp: bq_open_rep_def)
  then obtain as fs where inv: "bq_inv (2 ^ m) q as fs []" by (auto simp: bq_open_rep_def bq_rep_def)
  have "bq_capacity q = 2 ^ m"
    using bq_used_capacity(1) [OF inv] q(3) assms(4) by (simp add: bq_capacity_def word_unat_eq_iff unat_two_power)
  then show "\<exists>q :: 'a bounded_queue. new_alloc 0 (of_nat n) w1 w2 = Ret q \<and> bq_capacity q = 2 ^ m
      \<and> (\<forall>is. 2 ^ m + length is < 2 ^ 62 \<longrightarrow>
          (\<exists>q'. fifo_script bq_enqueue bq_dequeue is q = ret (fst (list_fifo (2 ^ m) is []), q')))"
    using q bq.script_refines [OF q(2)] by metis
qed

text \<open>
  The macro's queue of size 6 refuses its first value, that of size 26 panics on it; the heap queue of size 6
  takes four values and refuses the fifth.
\<close>

lemma const_queue_six_and_twenty_six:
  "(case const_queue 6 [] [] of Ret q \<Rightarrow> run_gives (bq_enqueue q (7 :: usize)) (Inl 7) | _ \<Rightarrow> False)
   \<and> (case const_queue 26 [] [] of Ret q \<Rightarrow> bq_enqueue q (7 :: usize) = Some Panic | _ \<Rightarrow> False)"
  by code_simp

theorem sizes_between_powers_witness:
  "(\<exists>q q'. const_queue 6 [] [] = Ret q \<and> bq_capacity q = 4 \<and> bq_enqueue q (7 :: usize) = ret (Inl 7, q'))
   \<and> (\<exists>q. const_queue 26 [] [] = Ret q \<and> bq_capacity q = 16 \<and> bq_enqueue q (7 :: usize) = Some Panic)
   \<and> (\<exists>q q'. new_alloc 0 6 [] [] = Ret q \<and> fifo_script bq_enqueue bq_dequeue [Enq (1 :: usize), Enq 2, Enq 3, Enq 4, Enq 5] q
        = ret ([EnqOut (Inr ()), EnqOut (Inr ()), EnqOut (Inr ()), EnqOut (Inr ()), EnqOut (Inl 5)], q'))"
proof -
  have list: "fst (list_fifo (2 ^ 2) [Enq (1 :: usize), Enq 2, Enq 3, Enq 4, Enq 5] [])
      = [EnqOut (Inr ()), EnqOut (Inr ()), EnqOut (Inr ()), EnqOut (Inr ()), EnqOut (Inl 5)]"
    by code_simp
  have "even (6 :: nat)" "2 ^ 2 < (6 :: nat)" "6 < (2 :: nat) ^ Suc 2" "(2 :: nat) \<le> 60" by simp_all
  note six = sizes_between_powers [OF this, of "[]" "[]", where ?'a = usize]
  have "even (26 :: nat)" "2 ^ 4 < (26 :: nat)" "26 < (2 :: nat) ^ Suc 4" "(4 :: nat) \<le> 60" by simp_all
  note twenty_six = sizes_between_powers [OF this, of "[]" "[]", where ?'a = usize]
  obtain q :: "usize bounded_queue" where q: "new_alloc 0 6 [] [] = Ret q"
      "\<forall>is. 2 ^ 2 + length is < 2 ^ 62 \<longrightarrow>
          (\<exists>q'. fifo_script bq_enqueue bq_dequeue is q = ret (fst (list_fifo (2 ^ 2) is []), q'))"
    using six unfolding of_nat_numeral by blast
  have "\<exists>q'. fifo_script bq_enqueue bq_dequeue [Enq (1 :: usize), Enq 2, Enq 3, Enq 4, Enq 5] q
      = ret ([EnqOut (Inr ()), EnqOut (Inr ()), EnqOut (Inr ()), EnqOut (Inr ()), EnqOut (Inl 5)], q')"
    using q(2) [rule_format, of "[Enq (1 :: usize), Enq 2, Enq 3, Enq 4, Enq 5]"] unfolding list by simp
  moreover have "\<exists>q q'. const_queue 6 [] [] = Ret q \<and> bq_capacity q = 4 \<and> bq_enqueue q (7 :: usize) = ret (Inl 7, q')"
    using six const_queue_six_and_twenty_six by (auto simp: run_gives_iff)
  moreover have "\<exists>q. const_queue 26 [] [] = Ret q \<and> bq_capacity q = 16 \<and> bq_enqueue q (7 :: usize) = Some Panic"
    using twenty_six const_queue_six_and_twenty_six by auto
  ultimately show ?thesis using q(1) by blast
qed

end
