(* ===== verification/Spec2Isabelle.thy ===== *)
theory Spec2Isabelle
  imports Harness RingProperties SingleProperties UnboundedProperties LscqProperties ScqConcProperties BoundedConcProperties SingleProgress
    UnitTests Fuzz CountedConc Errors LscqOrderProperties Trading BoundedWedge BoundedEmpty RoundedSizes
begin

text \<open>
  Verification of \<open>lfqueue\<close>, a Rust crate of lock-free queues: a bounded queue (the SCQ of Nikolaev), an
  unbounded queue (a list of bounded ones, the LSCQ), and a queue of one place, all for many producers
  and many consumers. The paths below are under \<open>src/\<close>.

  \<^bold>\<open>The program.\<close> \<open>src/scq.rs\<close> holds the index ring \<open>ScqRing\<close>, an array of 64-bit words in which a head and
  a tail ticket run around, and \<open>BoundedQueue\<close>, which keeps the free indices of its backing array in one
  ring and the used ones in another. \<open>src/lfstd.rs\<close> adds the constructors on the heap and the list of
  bounded queues \<open>UnboundedQueueInternal\<close>, with its handles and the counted variant, protected by the
  hazard pointers of the crate \<open>haphazard\<close>. \<open>src/single.rs\<close> is \<open>SingleSize\<close>, a payload behind a state of
  four values. \<open>src/lib.rs\<close> and \<open>fuzz/\<close> drive them against a mock queue.

  \<^bold>\<open>How code is modelled.\<close> \<open>usize\<close> and \<open>isize\<close> are \<open>64 word\<close>, with the wrap-around of a release build.
  A piece of code gives a \<open>'a run\<close>: \<open>None\<close> if a loop of it never ends, else a value (\<open>Ret\<close>), a panic, or
  undefined behaviour (\<open>UB\<close>); theorems that say a call returns say that the result is \<open>ret\<close> of something.
  Loops that could run forever are \<open>partial_function (option)\<close>; there is no fuel. Weak exchanges may
  fail: a ghost list of each ring says which do, and every theorem holds for every such list.
  There are two kinds of models of the same code: \<^emph>\<open>alone\<close>, where an operation runs from call to return, and
  \<^emph>\<open>concurrent\<close>, where a thread has a program counter and a step is one access of shared memory.

  \<^bold>\<open>Theories, alone.\<close>
  \<^item> \<open>Prelude\<close>: words, runs, array accesses. \<open>ScqArith\<close>: the integer helpers of \<open>src/scq.rs\<close>
    (\<open>modup\<close>, \<open>lfring_map\<close>, \<open>lfring_signed_cmp\<close>, \<open>determine_order\<close>) and what they mean for tickets.
  \<^item> \<open>ScqRing\<close>: \<open>ScqRing\<close> as the record \<open>scq_ring\<close>; \<open>ring_enqueue\<close>, \<open>ring_dequeue\<close>, \<open>catchup\<close>, \<open>finalize\<close> and
    the constructors on the stack and on the heap. \<open>ScqRingSpec\<close>: the invariant \<open>ring_rep\<close>, which also
    says which list of indices a ring holds. \<open>ScqRingFifo\<close>: every operation keeps it and acts as on the
    list. \<open>ScqRingInit\<close>: the fresh rings. \<open>IndexRing\<close>: the locale \<open>index_ring\<close>, its
    interpretation \<open>scq\<close> on this model, and what clients of it share. \<open>RingProperties\<close>: the properties.
  \<^item> \<open>BoundedQueue\<close>: \<open>BoundedQueue\<close> and \<open>AllocBoundedQueue\<close> over two rings, its constructors and \<open>Drop\<close>, and
    the invariant \<open>bq_rep\<close>. \<open>Fifo\<close>: the locale \<open>bounded_fifo\<close>, the mock queue of \<open>src/lib.rs\<close> and the fuzz
    loop. \<open>BoundedFifo\<close>: its interpretations. \<open>QueueProperties\<close>: the properties. \<open>RoundedSizes\<close>: even sizes that
    are not powers of two.
  \<^item> \<open>SingleSize\<close>: \<open>src/single.rs\<close>, with another interpretation of \<open>bounded_fifo\<close>.
  \<^item> \<open>Unbounded\<close>: \<open>LscqNode\<close>, \<open>UnboundedQueueInternal\<close>, \<open>UnboundedQueue\<close>, the handles and
    \<open>CountedUnboundedQueue\<close> over a heap of nodes. \<open>UnboundedSpec\<close>: the invariant \<open>ub_rep\<close>.
    \<open>UnboundedFifo\<close>: the locale \<open>unbounded_fifo\<close> with its interpretations. \<open>UnboundedProperties\<close>.
  \<^item> \<open>Errors\<close>: the texts of the error types. \<open>Harness\<close> and \<open>UnitTests\<close>: the sequential fuzz targets and the
    unit tests as programs over the model; that the tests pass is shown below.

  \<^bold>\<open>Theories, concurrent.\<close>
  \<^item> \<open>TicketRing\<close>, \<open>TicketLog\<close>: the abstract specification of the ring, a machine of tickets without
    words, with its invariant, and the log of what was stored and removed under which ticket.
    \<open>ScqConc\<close>: \<open>enqueue\<close>, \<open>dequeue\<close>, \<open>catchup\<close> and \<open>finalize\<close> of \<open>ScqRing\<close> one atomic access at a time.
    \<open>SlotWords\<close>, \<open>ScqConcSim\<close>: each access of the code is a step of the ticket machine or changes
    nothing of it. \<open>ScqConcRun\<close>: whole executions. \<open>ScqSolo\<close>: a thread that runs alone does what the model
    of \<open>ScqRing\<close> does, so the two models agree. \<open>ScqConcProperties\<close>.
    \<open>TicketGap\<close>: with at most \<open>n\<close> indices in circulation no entry is a full ring ahead of the head.
    \<open>ScqEmpty\<close>: with at most \<open>n\<close> threads the threshold covers that distance, so \<open>dequeue\<close> answers \<open>None\<close>
    only if nothing is left that an \<open>enqueue\<close> has returned for.
  \<^item> \<open>BoundedConc\<close>: \<open>enqueue_cycle\<close> and \<open>dequeue\<close> of \<open>BoundedQueue\<close> one access at a time, down to those of
    the rings. \<open>BoundedConcInv\<close>: every index is in one ring or in the hands of one thread.
    \<open>BoundedConcValues\<close>: the slots hold the values of the tickets. \<open>BoundedConcCount\<close>: what \<open>used\<close> counts. \<open>BoundedConcStep\<close>: every step keeps
    both. \<open>BoundedConcProperties\<close>. \<open>QueueSides\<close>: the locale \<open>queue_side\<close>, what the queue does to one of its rings,
    interpreted on both; so it keeps the discipline that \<open>ScqEmpty\<close> asks for. \<open>BoundedEmpty\<close>: what the answers \<open>None\<close> and
    \<open>QueueFull\<close> mean.
    \<open>BoundedWedge\<close>: an execution of more threads that leaves the queue unusable. \<open>ThreadPrograms\<close>: the fuzz target
    \<open>scq_grind_rt\<close> and the test \<open>lcsq_circus\<close> for every schedule.
  \<^item> \<open>SingleSizeConc\<close>: \<open>SingleSize\<close> under every interleaving, with happens-before for the payload.
    \<open>SingleProperties\<close>, \<open>SingleProgress\<close>.
  \<^item> \<open>LscqConc\<close>: the list of queues under every interleaving, with hazard pointers, retirement and reuse of
    addresses; here an operation of an index ring is one step. \<open>LscqSafe\<close>: the invariant of the links.
    \<open>LscqSegment\<close>: a bounded queue in the hands of several threads. \<open>LscqConserve\<close>, \<open>LscqValues\<close>: the
    invariant of the values. \<open>LscqCompact\<close>: evaluation of schedules. \<open>LscqProperties\<close>. \<open>LscqPrograms\<close>: the
    fuzz target \<open>lscq_grind_rt\<close>. \<open>CountedConc\<close>: the counted queue around that list.
  \<^item> \<open>SegmentLog\<close>: the abstract specification of the list of queues, a sequence of segments into which
    producers put and from which consumers get, neither ever going back. \<open>LscqContents\<close>: what the allocation
    ring of a node holds, as a list of values. \<open>LscqOrder\<close>, \<open>LscqOrderRun\<close>: the invariant that relates a
    state to the log of its execution, the nodes being numbered in the order they were linked; every step keeps
    it. \<open>LscqOrderProperties\<close>. \<open>Trading\<close>: the example \<open>examples/trading.rs\<close>, its two loops as
    programs over that list.
  \<^item> \<open>FloatF64\<close>: the \<open>f64\<close> arithmetic of the fuzz targets. \<open>Fuzz\<close>: \<open>configure_grind\<close>, \<open>random_range\<close> and the
    five targets from the fuzzer's bytes on, the crate \<open>arbitrary\<close> being a parameter.

  \<^bold>\<open>What is shown.\<close> Alone, each queue is a list: every call returns what the list says, on every branch,
  without panic or undefined behaviour, whatever values, sizes and spurious failures; \<open>Drop\<close> drops each value that is left once
  and frees every node; the fuzz targets and unit tests pass. Under concurrency, ring and bounded queue are queues
  of tickets: nothing is lost, doubled or invented, what a ticket stored its dequeuer gets, no
  thread touches the slot of another, and each producer is served in order; with no more threads than places \<open>None\<close>
  is answered only when no value is left whose \<open>enqueue\<close> has returned, and \<open>QueueFull\<close> only when values and running
  operations fill the queue. The one-place queue keeps
  its payload to one thread at a time and is wait-free. Under every interleaving in which a ring operation is one step, the list of queues never touches reclaimed
  memory, no thread of it panics or gets stuck, and every value is dequeued, still there, or
  dropped with a node, which the counter of the counted queue accounts for; if all values are different, every
  consumer receives those of each producer in the order they were enqueued, whichever nodes they went through.
  The theorems about \<open>lscq_grind_rt\<close> and \<open>examples/trading.rs\<close> are about these interleavings too; those about the ring, the
  bounded queue and \<open>scq_grind_rt\<close> are about every interleaving of single accesses. Some theorems show executions in
  which the code does what it should not: the list of queues can lose a value and can make a reference to
  a freed node, a bounded queue used by more threads than its size allows can refuse all service for ever, the
  one-place queue has a data race, and \<open>const_queue!\<close> accepts even sizes that are no powers of two, for which
  its first \<open>enqueue\<close> refuses the value or panics.

  \<^bold>\<open>Bounds.\<close> Tickets are words that wrap, so no theorem could hold forever: those about a queue carry a clock and hold
  up to ticket \<open>2 ^ 62\<close>, where the signed comparison of cycles of a ring of order at most \<open>60\<close> is still
  that of the tickets; a call costs a bounded number of tickets, so the bound is one on the number of
  calls (more than \<open>4 * 10 ^ 18\<close> accesses). Under concurrency it is a bound on the tickets drawn.

  \<^bold>\<open>Not modelled.\<close>
  \<^item> Memory orders weaker than sequential consistency in the rings and in the list of queues; for
    \<open>SingleSize\<close> the happens-before of the payload is modelled, the single word \<open>state\<close> being coherent.
  \<^item> That \<open>dequeue\<close> answers \<open>None\<close> only if nothing was left is shown for rings that run alone, and under concurrency
    for rings and bounded queues with at most \<open>n\<close> threads (it fails with more); not for the rings of the list of queues.
  \<^item> The interleavings of ring accesses inside a segment of the list of queues: with more threads than places a ring of the
    code can answer \<open>None\<close> where that of the model does not (\<open>BoundedWedge\<close>). The crate \<open>haphazard\<close> has its documented meaning.
  \<^item> \<open>Backoff\<close> and \<open>yield_marker\<close>, which only wait; cache padding; \<open>Send\<close> and \<open>Sync\<close>; the \<open>Debug\<close> texts.
  \<^item> How the crate \<open>arbitrary\<close> reads bytes: theorems hold whatever values it gives. The crate \<open>rand\<close> and
    the clock of the example: its prices and times are parameters. The loom test and the benchmarks, which
    only time calls of this and other crates' queues.
\<close>

section \<open>The unit tests\<close>

text \<open>
  The unit tests \<open>test_lcsq_ptr\<close> (any segment size \<open>2 ^ k\<close>, any number of values) and
  \<open>test_singlesize\<close> pass.
\<close>

lemma lcsq_ptr_and_singlesize_pass:
  assumes "k \<le> 60" "2 ^ k + 2 * m * (2 * 2 ^ k + 2) < 2 ^ 62"
  shows "(\<exists>q. test_lcsq_ptr (2 ^ k) m w = ret q) \<and> (\<exists>q. test_singlesize = ret q)"
proof -
  let ?is = "map of_nat [0..<m] :: usize list"
  obtain q :: "usize unbounded_queue" where q: "with_segment_size (2 ^ k) w = Ret q" "ub_rep (2 ^ k) q []"
      "base_segment_capacity q = 2 ^ k"
    using with_segment_size_rep [OF assms(1)] by blast
  have cost: "ub_cost q = 2 * 2 ^ k + 2"
    using q(3) assms(1) by (simp add: ub_cost_def base_segment_capacity_def unat_two_power)
  have two: "2 ^ k + m * ub_cost q + m * ub_cost q < 2 ^ 62"
    using assms(2) by (simp add: cost algebra_simps)
  obtain q1 where q1: "enqueue_range unbounded_enqueue ?is q = ret q1" "ub_rep (2 ^ k + m * ub_cost q) q1 ?is"
      "ub_cost q1 = ub_cost q"
    using ub.enqueue_range_ok [OF q(2), of ?is] two by auto
  obtain q2 where "expect_range unbounded_dequeue ?is q1 = ret q2"
    using ub.expect_range_ok [of "2 ^ k + m * ub_cost q" q1 ?is "[]"] q1(2,3) two by auto
  moreover have "\<exists>q. test_singlesize = ret q"
    unfolding test_singlesize_def
    using single.assert_calls_ok [OF single_rep_new, of 0 "[(Enq 1, EnqOut (Inr ())), (Enq 1, EnqOut (Inl 1)),
        (Deq, DeqOut (Some 1)), (Deq, DeqOut None), (Enq 2, EnqOut (Inr ())), (Deq, DeqOut (Some (2 :: usize)))]"]
    by (simp del: assert_calls.simps) blast
  ultimately show ?thesis
    using q(1) q1(1) by (simp add: test_lcsq_ptr_def)
qed

text \<open>
  The unit tests of \<open>src/scq.rs\<close>, \<open>src/lfstd.rs\<close> and \<open>src/single.rs\<close> pass, whichever weak exchanges of the rings fail spuriously: those of the bounded queue
  on the stack and on the heap (with values of size zero too), of the unbounded and the counted queue,
  of the README's example, of the index ring, of the integer helpers and of \<open>SingleSize\<close>.
\<close>

lemma unit_tests_pass:
  "(\<exists>q. test_const_queue w1 w2 = ret q) \<and> (\<exists>q. test_zst_const w1 w2 = ret q) \<and> (\<exists>q. test_zst_alloc w1 w2 = ret q)
    \<and> (\<exists>q. check_scq_fill w1 w2 = ret q) \<and> (\<exists>q. scqqueue_enq_deq w1 w2 = ret q)
    \<and> (\<exists>q. test_lfring_ptrs_full w1 w2 = ret q) \<and> (\<exists>q. cover_example w1 w2 = ret q)
    \<and> (\<exists>q. test_zst_unbounded w = ret q) \<and> (\<exists>q. test_unbounded_queue_length w = ret q)
    \<and> (\<exists>q. alloc_cover_example w1 w2 w = ret q) \<and> (\<exists>q. test_lcsq_ptr 16 16 w = ret q)
    \<and> (\<exists>r. fullinit w1 = ret r) \<and> (\<exists>r. test_lfring_basic w1 = ret r) \<and> (\<exists>r. test_length_function w1 = ret r)
    \<and> (\<exists>r. initialize_full_correctly w1 w2 = ret r) \<and> (\<exists>q. test_singlesize = ret q)
    \<and> test_init_const_queue w1 w2 = ret () \<and> test_init_alloc_queue w1 w2 = ret ()
    \<and> test_pow2 \<and> test_special_comparision_function \<and> test_determine_order"
proof -
  have "(\<exists>q. test_lcsq_ptr 16 16 w = ret q) \<and> (\<exists>q. test_singlesize = ret q)"
    using lcsq_ptr_and_singlesize_pass [of 4 16 w] by simp
  then show ?thesis
    using bounded_tests_pass [of w1 w2] unbounded_tests_pass [of w w1 w2] ring_tests_pass [of w1 w2] size_tests_pass [of w1 w2] helper_tests_pass
    by blast
qed

end
